(* ===== verification/Prelude.thy ===== *)
theory Prelude
  imports Main "HOL-Library.Word"
begin

text \<open>
  The vocabulary the component theories share.  Rust's machine integers are words of their
  width (\<open>u8\<close>, \<open>u16\<close>, \<open>u32\<close>, \<open>u64\<close>); \<open>usize\<close> values are \<open>nat\<close>, with the checked additions
  written out where the code checks them.  A Rust \<open>&str\<close> is its list of UTF-8 bytes, as an
  Isabelle \<open>string\<close> (one \<open>char\<close> per byte), and a \<open>&[u8]\<close> is a list of bytes; \<open>as_bytes\<close>
  and \<open>from_bytes\<close> convert.  \<open>Result<A, E>\<close> is the sum \<open>'e + 'a\<close> with \<open>Inl\<close> for \<open>Err\<close>, and
  \<open>attempt\<close> is the \<open>?\<close> operator.  The rest of the theory holds the functions of Rust's
  standard library on slices and strings that the sources call, with the lemmas the
  component proofs need of them.
\<close>

type_synonym u8 = "8 word"
type_synonym u16 = "16 word"
type_synonym u32 = "32 word"
type_synonym u64 = "64 word"
type_synonym bytes = "8 word list"

named_theorems result_simps "case rules of the result type"
named_theorems model_defs "definitions a component unfolds to evaluate"

section \<open>Results\<close>

definition attempt :: "'e + 'a \<Rightarrow> ('a \<Rightarrow> 'e + 'b) \<Rightarrow> 'e + 'b" where
  "attempt r f = (case r of Inl e \<Rightarrow> Inl e | Inr x \<Rightarrow> f x)"

definition ok_or :: "'a option \<Rightarrow> 'e \<Rightarrow> 'e + 'a" where
  "ok_or x e = (case x of None \<Rightarrow> Inl e | Some y \<Rightarrow> Inr y)"

lemma attempt_Inl [simp]: "attempt (Inl e) f = Inl e"
  by (simp add: attempt_def)

lemma attempt_Inr [simp]: "attempt (Inr x) f = f x"
  by (simp add: attempt_def)

lemma attempt_eq_Inr [result_simps]:
  "attempt r f = Inr y \<longleftrightarrow> (\<exists>x. r = Inr x \<and> f x = Inr y)"
  by (cases r) auto

lemma attempt_eq_Inl [result_simps]:
  "attempt r f = Inl e \<longleftrightarrow> r = Inl e \<or> (\<exists>x. r = Inr x \<and> f x = Inl e)"
  by (cases r) auto

lemma ok_or_None [simp]: "ok_or None e = Inl e"
  by (simp add: ok_or_def)

lemma ok_or_Some [simp]: "ok_or (Some x) e = Inr x"
  by (simp add: ok_or_def)

lemma ok_or_eq_Inr [result_simps]: "ok_or x e = Inr y \<longleftrightarrow> x = Some y"
  by (cases x) auto

lemma ok_or_eq_Inl [result_simps]: "ok_or x e = Inl f \<longleftrightarrow> x = None \<and> f = e"
  by (cases x) auto

definition with_error :: "'e + 'a \<Rightarrow> 'f \<Rightarrow> 'f + 'a" where
  "with_error r e = (case r of Inl _ \<Rightarrow> Inl e | Inr x \<Rightarrow> Inr x)"

lemma with_error_simps [simp]: "with_error (Inl d) e = Inl e" "with_error (Inr x) e = Inr x"
  by (simp_all add: with_error_def)

lemma with_error_eq_Inr [result_simps]: "with_error r e = Inr x \<longleftrightarrow> r = Inr x"
  by (cases r) auto

lemma if_Inl_eq_Inr [result_simps]: "(if b then Inl e else r) = Inr y \<longleftrightarrow> \<not> b \<and> r = Inr y"
  by simp

text \<open>
  \<open>?\<close> on operations that change a state: a failed one ends the computation with the state it
  leaves.
\<close>

definition chain :: "('e + 'a) \<times> 's \<Rightarrow> ('a \<Rightarrow> 's \<Rightarrow> ('e + 'b) \<times> 's) \<Rightarrow> ('e + 'b) \<times> 's" where
  "chain r f = (case r of (Inl e, s) \<Rightarrow> (Inl e, s) | (Inr x, s) \<Rightarrow> f x s)"

lemma chain_simps [simp]: "chain (Inl e, s) f = (Inl e, s)" "chain (Inr x, s) f = f x s"
  by (simp_all add: chain_def)

lemma chain_cong [fundef_cong]:
  "r = r' \<Longrightarrow> (\<And>x s. r' = (Inr x, s) \<Longrightarrow> f x s = g x s) \<Longrightarrow> chain r f = chain r' g"
  by (auto simp: chain_def split: prod.split sum.split)

lemma chain_eq_Inr [result_simps]:
  "chain r f = (Inr y, t) \<longleftrightarrow> (\<exists>x s. r = (Inr x, s) \<and> f x s = (Inr y, t))"
  by (auto simp: chain_def split: prod.splits sum.splits)

lemma chain_eq_Inl [result_simps]:
  "chain r f = (Inl e, t) \<longleftrightarrow> r = (Inl e, t) \<or> (\<exists>x s. r = (Inr x, s) \<and> f x s = (Inl e, t))"
  by (auto simp: chain_def split: prod.splits sum.splits)

lemma chainE:
  assumes "chain r f = (x, t)"
  obtains e where "r = (Inl e, t)" "x = Inl e"
    | y s where "r = (Inr y, s)" "f y s = (x, t)"
  using assms by (auto simp: chain_def split: prod.splits sum.splits)

section \<open>Characters and bytes\<close>

definition ord :: "char \<Rightarrow> nat" where
  "ord c = of_char c"

definition byte_of :: "char \<Rightarrow> u8" where
  "byte_of c = of_nat (ord c)"

definition char_at :: "u8 \<Rightarrow> char" where
  "char_at b = char_of (unat b)"

definition as_bytes :: "string \<Rightarrow> bytes" where
  "as_bytes s = map byte_of s"

definition from_bytes :: "bytes \<Rightarrow> string" where
  "from_bytes b = map char_at b"

lemma ord_literal [simp]: "ord (Char b0 b1 b2 b3 b4 b5 b6 b7) = of_char (Char b0 b1 b2 b3 b4 b5 b6 b7)"
  by (simp add: ord_def)

lemma ord_less_256 [simp]: "ord c < 256"
  by (simp add: ord_def)

lemma unat_less_256 [simp]: "unat (b :: u8) < 256"
proof -
  have "unat b < 2 ^ LENGTH(8)" by (rule unsigned_less)
  then show ?thesis by simp
qed

lemma unat_less_65536 [simp]: "unat (w :: u16) < 65536"
proof -
  have "unat w < 2 ^ LENGTH(16)" by (rule unsigned_less)
  then show ?thesis by simp
qed

lemma unat_of_nat_u8: "unat (of_nat n :: u8) = n mod 256"
  by (simp add: unat_of_nat)

lemma unat_of_nat_u16: "unat (of_nat n :: u16) = n mod 65536"
  by (simp add: unat_of_nat)

lemma unat_byte_of [simp]: "unat (byte_of c) = ord c"
  by (simp add: byte_of_def unat_of_nat_u8)

lemma ord_char_at [simp]: "ord (char_at b) = unat b"
  by (simp add: char_at_def ord_def)

lemma byte_of_char_at [simp]: "byte_of (char_at b) = b"
  by (simp add: byte_of_def)

lemma char_at_byte_of [simp]: "char_at (byte_of c) = c"
  by (simp add: char_at_def) (simp add: ord_def)

lemma from_as_bytes [simp]: "from_bytes (as_bytes s) = s"
  by (simp add: from_bytes_def as_bytes_def comp_def)

lemma as_from_bytes [simp]: "as_bytes (from_bytes b) = b"
  by (simp add: from_bytes_def as_bytes_def comp_def)

lemma length_as_bytes [simp]: "length (as_bytes s) = length s"
  by (simp add: as_bytes_def)

lemma length_from_bytes [simp]: "length (from_bytes b) = length b"
  by (simp add: from_bytes_def)

lemma as_bytes_inject [simp]: "as_bytes s = as_bytes t \<longleftrightarrow> s = t"
  by (metis from_as_bytes)

lemma ord_inject: "ord c = ord d \<longleftrightarrow> c = d"
  by (simp add: ord_def)

lemma set_as_bytes: "set (as_bytes s) = byte_of ` set s"
  by (simp add: as_bytes_def)

section \<open>ASCII classes\<close>

text \<open>The \<open>u8::is_ascii_*\<close> predicates, on the code of a byte or character.\<close>

definition ascii_digit :: "nat \<Rightarrow> bool" where
  "ascii_digit n \<longleftrightarrow> 48 \<le> n \<and> n \<le> 57"

definition ascii_upper :: "nat \<Rightarrow> bool" where
  "ascii_upper n \<longleftrightarrow> 65 \<le> n \<and> n \<le> 90"

definition ascii_lower :: "nat \<Rightarrow> bool" where
  "ascii_lower n \<longleftrightarrow> 97 \<le> n \<and> n \<le> 122"

definition ascii_alphanumeric :: "nat \<Rightarrow> bool" where
  "ascii_alphanumeric n \<longleftrightarrow> ascii_digit n \<or> ascii_upper n \<or> ascii_lower n"

definition ascii_hexdigit :: "nat \<Rightarrow> bool" where
  "ascii_hexdigit n \<longleftrightarrow> ascii_digit n \<or> (65 \<le> n \<and> n \<le> 70) \<or> (97 \<le> n \<and> n \<le> 102)"

definition ascii_graphic :: "nat \<Rightarrow> bool" where
  "ascii_graphic n \<longleftrightarrow> 33 \<le> n \<and> n \<le> 126"

text \<open>Rust's ASCII white space: tab, line feed, form feed, carriage return, space.\<close>

definition ascii_whitespace :: "nat \<Rightarrow> bool" where
  "ascii_whitespace n \<longleftrightarrow> n = 9 \<or> n = 10 \<or> n = 12 \<or> n = 13 \<or> n = 32"

lemmas ascii_defs = ascii_digit_def ascii_upper_def ascii_lower_def ascii_alphanumeric_def
  ascii_hexdigit_def ascii_graphic_def ascii_whitespace_def

lemma bit_Suc_0 [simp]: "bit (Suc 0) 0"
  by (simp add: bit_0)

lemmas char_of_numeral [simp] = char_of_def [of "numeral k :: nat" for k]

lemmas ascii_numeral [simp] = ascii_defs [of "numeral k" for k]

definition upper_byte :: "u8 \<Rightarrow> u8" where
  "upper_byte b = (if ascii_lower (unat b) then b - 32 else b)"

definition lower_char :: "char \<Rightarrow> char" where
  "lower_char c = (if ascii_upper (ord c) then char_of (ord c + 32) else c)"

definition upper_char :: "char \<Rightarrow> char" where
  "upper_char c = (if ascii_lower (ord c) then char_of (ord c - 32) else c)"

lemma ord_char_of [simp]: "ord (char_of n) = n mod 256"
  by (simp add: ord_def)

lemma ord_lower_char: "ord (lower_char c) = (if ascii_upper (ord c) then ord c + 32 else ord c)"
  by (simp add: lower_char_def ascii_defs)

lemma ord_upper_char: "ord (upper_char c) = (if ascii_lower (ord c) then ord c - 32 else ord c)"
  using ord_less_256 [of c] by (auto simp add: upper_char_def ascii_defs)

lemma lower_char_idem [simp]: "lower_char (lower_char c) = lower_char c"
  by (rule ord_inject [THEN iffD1]) (auto simp: ord_lower_char ascii_defs)

lemma upper_char_idem [simp]: "upper_char (upper_char c) = upper_char c"
  by (rule ord_inject [THEN iffD1]) (auto simp: ord_upper_char ascii_defs)

lemma unat_upper_byte: "unat (upper_byte b) = (if ascii_lower (unat b) then unat b - 32 else unat b)"
proof (cases "ascii_lower (unat b)")
  case True
  then have "32 \<le> b"
    by (simp add: word_le_nat_alt ascii_lower_def)
  with True show ?thesis
    by (simp add: upper_byte_def unat_sub)
qed (simp add: upper_byte_def)

lemma upper_byte_idem [simp]: "upper_byte (upper_byte b) = upper_byte b"
  by (rule unsigned_word_eqI [where ?'a = nat]) (auto simp: unat_upper_byte ascii_defs)

section \<open>Sixteen-bit integers on the wire\<close>

text \<open>\<open>u16::to_le_bytes\<close>, \<open>to_be_bytes\<close> and their inverses.\<close>

definition u16_of :: "u8 \<Rightarrow> u8 \<Rightarrow> u16" where
  "u16_of hi lo = of_nat (256 * unat hi + unat lo)"

definition hi_byte :: "u16 \<Rightarrow> u8" where
  "hi_byte w = of_nat (unat w div 256)"

definition lo_byte :: "u16 \<Rightarrow> u8" where
  "lo_byte w = of_nat (unat w mod 256)"

definition le_bytes :: "u16 \<Rightarrow> bytes" where
  "le_bytes w = [lo_byte w, hi_byte w]"

definition be_bytes :: "u16 \<Rightarrow> bytes" where
  "be_bytes w = [hi_byte w, lo_byte w]"

lemma unat_u16_of [simp]: "unat (u16_of hi lo) = 256 * unat hi + unat lo"
proof -
  have "256 * unat hi + unat lo < 65536"
    using unat_less_256 [of hi] unat_less_256 [of lo] by linarith
  then show ?thesis by (simp add: u16_of_def unat_of_nat_u16 del: of_nat_add of_nat_mult)
qed

lemma unat_hi_byte [simp]: "unat (hi_byte w) = unat w div 256"
  using unat_less_65536 [of w] by (simp add: hi_byte_def unat_of_nat_u8 less_mult_imp_div_less)

lemma unat_lo_byte [simp]: "unat (lo_byte w) = unat w mod 256"
  by (simp add: lo_byte_def unat_of_nat_u8)

lemma u16_of_hi_lo [simp]: "u16_of (hi_byte w) (lo_byte w) = w"
  by (rule unsigned_word_eqI [where ?'a = nat]) (simp del: unat_of_nat)

lemma unat_u16_le [simp]: "unat (w :: u16) \<le> 65535"
  using unat_less_65536 [of w] by linarith

lemma hi_byte_u16_of [simp]: "hi_byte (u16_of hi lo) = hi"
  by (rule unsigned_word_eqI [where ?'a = nat]) simp

lemma lo_byte_u16_of [simp]: "lo_byte (u16_of hi lo) = lo"
  by (rule unsigned_word_eqI [where ?'a = nat]) simp

lemma length_le_bytes [simp]: "length (le_bytes w) = 2"
  by (simp add: le_bytes_def)

section \<open>Slices\<close>

text \<open>
  \<open>split_once\<close> and \<open>rsplit_once\<close> cut at the first and at the last occurrence of a
  separator; \<open>split_by\<close> is \<open>slice::split\<close> and \<open>str::split\<close> (n separators give n + 1 pieces);
  \<open>get_range\<close> is \<open>slice.get(from..to)\<close>.
\<close>

fun split_once :: "'a \<Rightarrow> 'a list \<Rightarrow> ('a list \<times> 'a list) option" where
  "split_once c [] = None"
| "split_once c (x # xs) =
     (if x = c then Some ([], xs)
      else (case split_once c xs of None \<Rightarrow> None | Some (a, b) \<Rightarrow> Some (x # a, b)))"

definition rsplit_once :: "'a \<Rightarrow> 'a list \<Rightarrow> ('a list \<times> 'a list) option" where
  "rsplit_once c xs =
     (case split_once c (rev xs) of None \<Rightarrow> None | Some (a, b) \<Rightarrow> Some (rev b, rev a))"

fun split_by :: "('a \<Rightarrow> bool) \<Rightarrow> 'a list \<Rightarrow> 'a list list" where
  "split_by p [] = [[]]"
| "split_by p (x # xs) =
     (if p x then [] # split_by p xs
      else (case split_by p xs of [] \<Rightarrow> [[x]] | q # qs \<Rightarrow> (x # q) # qs))"

abbreviation split_on :: "'a \<Rightarrow> 'a list \<Rightarrow> 'a list list" where
  "split_on c \<equiv> split_by (\<lambda>x. x = c)"

fun strip_prefix :: "'a list \<Rightarrow> 'a list \<Rightarrow> 'a list option" where
  "strip_prefix [] ys = Some ys"
| "strip_prefix (x # xs) [] = None"
| "strip_prefix (x # xs) (y # ys) = (if x = y then strip_prefix xs ys else None)"

definition strip_suffix :: "'a list \<Rightarrow> 'a list \<Rightarrow> 'a list option" where
  "strip_suffix s xs = map_option rev (strip_prefix (rev s) (rev xs))"

definition starts_with :: "'a list \<Rightarrow> 'a list \<Rightarrow> bool" where
  "starts_with p xs \<longleftrightarrow> strip_prefix p xs \<noteq> None"

definition unwrap_or :: "'a option \<Rightarrow> 'a \<Rightarrow> 'a" where
  "unwrap_or x d = (case x of None \<Rightarrow> d | Some y \<Rightarrow> y)"

fun join_by :: "'a \<Rightarrow> 'a list list \<Rightarrow> 'a list" where
  "join_by c [] = []"
| "join_by c [x] = x"
| "join_by c (x # y # ys) = x @ c # join_by c (y # ys)"

definition get_range :: "'a list \<Rightarrow> nat \<Rightarrow> nat \<Rightarrow> 'a list option" where
  "get_range xs i j = (if i \<le> j \<and> j \<le> length xs then Some (take (j - i) (drop i xs)) else None)"

fun position :: "('a \<Rightarrow> bool) \<Rightarrow> 'a list \<Rightarrow> nat option" where
  "position p [] = None"
| "position p (x # xs) = (if p x then Some 0 else map_option Suc (position p xs))"

lemma unwrap_or_simps [simp]: "unwrap_or None d = d" "unwrap_or (Some x) d = x"
  by (simp_all add: unwrap_or_def)

lemma split_once_append [simp]: "c \<notin> set a \<Longrightarrow> split_once c (a @ c # b) = Some (a, b)"
  by (induction a) auto

lemma split_once_None [simp]: "split_once c xs = None \<longleftrightarrow> c \<notin> set xs"
  by (induction xs) (auto split: option.splits)

lemma split_once_absent [simp]: "c \<notin> set xs \<Longrightarrow> split_once c xs = None"
  by simp

lemma split_once_SomeD: "split_once c xs = Some (a, b) \<Longrightarrow> xs = a @ c # b \<and> c \<notin> set a"
  by (induction xs arbitrary: a) (auto split: if_splits option.splits)

lemma rsplit_once_SomeD: "rsplit_once c xs = Some (a, b) \<Longrightarrow> xs = a @ c # b \<and> c \<notin> set b"
proof -
  assume "rsplit_once c xs = Some (a, b)"
  then have "split_once c (rev xs) = Some (rev b, rev a)"
    by (auto simp: rsplit_once_def split: option.splits)
  from split_once_SomeD [OF this] have "rev (rev xs) = rev (rev b @ c # rev a)" and "c \<notin> set b"
    by simp_all
  then show ?thesis by simp
qed

lemma rsplit_once_append [simp]: "c \<notin> set b \<Longrightarrow> rsplit_once c (a @ c # b) = Some (a, b)"
  by (simp add: rsplit_once_def)

lemma split_by_nonempty [simp]: "split_by p xs \<noteq> []"
  by (induction xs) (auto split: list.splits)

lemma split_by_none: "\<forall>x \<in> set xs. \<not> p x \<Longrightarrow> split_by p xs = [xs]"
  by (induction xs) auto

lemma split_by_append [simp]:
  "\<forall>x \<in> set a. \<not> p x \<Longrightarrow> p c \<Longrightarrow> split_by p (a @ c # b) = a # split_by p b"
  by (induction a) auto

lemma split_by_pieces: "q \<in> set (split_by p xs) \<Longrightarrow> \<forall>x \<in> set q. \<not> p x"
  by (induction xs arbitrary: q) (fastforce split: if_splits list.splits)+

lemma split_by_subset: "q \<in> set (split_by p xs) \<Longrightarrow> set q \<subseteq> set xs"
  by (induction xs arbitrary: q) (force split: if_splits list.splits)+

lemma length_split_by: "length xs + 1 = sum_list (map length (split_by p xs)) + length (split_by p xs)"
  by (induction xs) (auto split: list.splits)

lemma strip_prefix_append [simp]: "strip_prefix p (p @ xs) = Some xs"
  by (induction p) auto

lemma strip_prefix_SomeD: "strip_prefix p xs = Some ys \<Longrightarrow> xs = p @ ys"
  by (induction p xs rule: strip_prefix.induct) (auto split: if_splits)

lemma strip_suffix_append [simp]: "strip_suffix s (xs @ s) = Some xs"
  by (simp add: strip_suffix_def)

lemma strip_suffix_SomeD: "strip_suffix s xs = Some ys \<Longrightarrow> xs = ys @ s"
proof -
  assume "strip_suffix s xs = Some ys"
  then have "strip_prefix (rev s) (rev xs) = Some (rev ys)"
    by (auto simp: strip_suffix_def)
  from strip_prefix_SomeD [OF this] have "rev (rev xs) = rev (rev s @ rev ys)"
    by simp
  then show ?thesis by simp
qed

lemma starts_with_append [simp]: "starts_with p (p @ xs)"
  by (simp add: starts_with_def)

lemma get_range_SomeD:
  "get_range xs i j = Some ys \<Longrightarrow> i \<le> j \<and> j \<le> length xs \<and> ys = take (j - i) (drop i xs)"
  by (simp add: get_range_def split: if_splits)

lemma length_get_range: "get_range xs i j = Some ys \<Longrightarrow> length ys = j - i"
  by (auto dest!: get_range_SomeD)

lemma position_SomeD: "position p xs = Some i \<Longrightarrow> i < length xs \<and> p (xs ! i) \<and> (\<forall>j < i. \<not> p (xs ! j))"
proof (induction xs arbitrary: i)
  case (Cons x xs)
  then show ?case
    by (cases i) (auto split: if_splits simp: less_Suc_eq_0_disj)
qed simp

text \<open>Evaluating slices of closed lists at numerals.\<close>

lemmas slice_eval = take_Cons' drop_Cons' nth_Cons'

section \<open>Collecting results\<close>

text \<open>\<open>iter().map(f).collect::<Result<Vec<_>, _>>()\<close>: the first error wins.\<close>

fun traverse :: "('a \<Rightarrow> 'e + 'b) \<Rightarrow> 'a list \<Rightarrow> 'e + 'b list" where
  "traverse f [] = Inr []"
| "traverse f (x # xs) = attempt (f x) (\<lambda>y. attempt (traverse f xs) (\<lambda>ys. Inr (y # ys)))"

lemma traverse_InrD:
  "traverse f xs = Inr ys \<Longrightarrow> length ys = length xs \<and> (\<forall>i < length xs. f (xs ! i) = Inr (ys ! i))"
proof (induction xs arbitrary: ys)
  case (Cons x xs)
  then show ?case
    by (auto simp: result_simps nth_Cons split: nat.splits)
qed simp

lemma traverse_map: "(\<And>x. x \<in> set xs \<Longrightarrow> f (g x) = Inr (h x)) \<Longrightarrow> traverse f (map g xs) = Inr (map h xs)"
  by (induction xs) auto

section \<open>Decimal numbers\<close>

definition all_digits :: "string \<Rightarrow> bool" where
  "all_digits s \<longleftrightarrow> list_all (\<lambda>c. ascii_digit (ord c)) s"

definition digit :: "nat \<Rightarrow> char" where
  "digit d = char_of (48 + d)"

fun show_nat :: "nat \<Rightarrow> string" where
  "show_nat n = (if n < 10 then [digit n] else show_nat (n div 10) @ [digit (n mod 10)])"

declare show_nat.simps [simp del]

definition dec_value :: "string \<Rightarrow> nat" where
  "dec_value s = foldl (\<lambda>a c. 10 * a + (ord c - 48)) 0 s"

text \<open>\<open>str::parse\<close> at an unsigned type whose largest value is \<open>m\<close>: one optional plus sign.\<close>

definition parse_uint :: "nat \<Rightarrow> string \<Rightarrow> nat option" where
  "parse_uint m s =
     (let t = unwrap_or (strip_prefix ''+'' s) s in
      if t = [] \<or> \<not> all_digits t \<or> m < dec_value t then None else Some (dec_value t))"

lemma ord_digit: "d < 10 \<Longrightarrow> ord (digit d) = 48 + d"
  by (simp add: digit_def)

lemma show_nat_nonempty [simp]: "show_nat n \<noteq> []"
  by (subst show_nat.simps) simp

lemma all_digits_show_nat [simp]: "all_digits (show_nat n)"
proof (induction n rule: show_nat.induct)
  case (1 n)
  then show ?case
    by (subst show_nat.simps) (auto simp: all_digits_def ord_digit ascii_digit_def)
qed

lemma dec_value_snoc: "dec_value (s @ [c]) = 10 * dec_value s + (ord c - 48)"
  by (simp add: dec_value_def)

lemma dec_value_show_nat [simp]: "dec_value (show_nat n) = n"
proof (induction n rule: show_nat.induct)
  case (1 n)
  show ?case
  proof (cases "n < 10")
    case True
    then show ?thesis by (subst show_nat.simps) (simp add: dec_value_def ord_digit)
  next
    case False
    with 1 show ?thesis
      by (subst show_nat.simps) (simp add: dec_value_snoc ord_digit)
  qed
qed

lemma show_nat_inject [simp]: "show_nat m = show_nat n \<longleftrightarrow> m = n"
  by (metis dec_value_show_nat)

lemma all_digits_no: "all_digits s \<Longrightarrow> \<not> ascii_digit (ord c) \<Longrightarrow> c \<notin> set s"
  by (auto simp: all_digits_def list_all_iff)

lemma show_nat_no [simp]: "\<not> ascii_digit (ord c) \<Longrightarrow> c \<notin> set (show_nat n)"
  by (rule all_digits_no) simp_all

lemma show_nat_no_plus [simp]: "strip_prefix ''+'' (show_nat n) = None"
proof (cases "show_nat n")
  case (Cons c cs)
  have "CHR ''+'' \<notin> set (show_nat n)"
    by (rule show_nat_no) (simp add: ascii_digit_def ord_def)
  with Cons show ?thesis by auto
qed simp

lemma parse_uint_show_nat [simp]: "n \<le> m \<Longrightarrow> parse_uint m (show_nat n) = Some n"
  by (simp add: parse_uint_def)

lemma parse_uint_bound: "parse_uint m s = Some n \<Longrightarrow> n \<le> m"
  by (auto simp: parse_uint_def Let_def split: if_splits)

lemma length_show_nat_le: "n < 10 ^ k \<Longrightarrow> 0 < k \<Longrightarrow> length (show_nat n) \<le> k"
proof (induction k arbitrary: n)
  case (Suc k)
  show ?case
  proof (cases "n < 10")
    case False
    then have "0 < k" using Suc.prems(1) by (cases k) auto
    moreover have "n div 10 < 10 ^ k" using Suc.prems(1) by (simp add: less_mult_imp_div_less mult.commute)
    ultimately have "length (show_nat (n div 10)) \<le> k" by (rule Suc.IH [rotated])
    with False show ?thesis by (subst show_nat.simps) simp
  qed (subst show_nat.simps, simp)
qed simp

lemma dec_value_less: "all_digits s \<Longrightarrow> dec_value s < 10 ^ length s"
proof (induction s rule: rev_induct)
  case (snoc c s)
  then have "dec_value s < 10 ^ length s" and "ord c \<le> 57"
    by (auto simp: all_digits_def ascii_digit_def)
  then show ?case by (simp add: dec_value_snoc)
qed (simp add: dec_value_def)

lemma length_show_dec_value: "all_digits s \<Longrightarrow> s \<noteq> [] \<Longrightarrow> length (show_nat (dec_value s)) \<le> length s"
  by (rule length_show_nat_le) (simp_all add: dec_value_less)

lemma parse_uint_shorter: "parse_uint m s = Some n \<Longrightarrow> length (show_nat n) \<le> length s"
  using length_show_dec_value [of s] length_show_dec_value [of "tl s"]
  by (cases s) (auto simp: parse_uint_def Let_def unwrap_or_def split: if_splits)

section \<open>White space\<close>

definition split_ascii_whitespace :: "string \<Rightarrow> string list" where
  "split_ascii_whitespace s = filter (\<lambda>p. p \<noteq> []) (split_by (\<lambda>c. ascii_whitespace (ord c)) s)"

definition no_space :: "string \<Rightarrow> bool" where
  "no_space s \<longleftrightarrow> list_all (\<lambda>c. \<not> ascii_whitespace (ord c)) s"

lemma split_whitespace_single [simp]: "no_space s \<Longrightarrow> s \<noteq> [] \<Longrightarrow> split_ascii_whitespace s = [s]"
  by (simp add: split_ascii_whitespace_def no_space_def list_all_iff split_by_none)

lemma split_whitespace_cons [simp]:
  "no_space s \<Longrightarrow> s \<noteq> [] \<Longrightarrow>
     split_ascii_whitespace (s @ CHR '' '' # t) = s # split_ascii_whitespace t"
  by (simp add: split_ascii_whitespace_def no_space_def list_all_iff ascii_whitespace_def ord_def)

lemma no_space_append [simp]: "no_space (s @ t) \<longleftrightarrow> no_space s \<and> no_space t"
  by (simp add: no_space_def)

lemma no_space_Cons [simp]: "no_space (c # t) \<longleftrightarrow> \<not> ascii_whitespace (ord c) \<and> no_space t"
  by (simp add: no_space_def)

lemma no_space_Nil [simp]: "no_space []"
  by (simp add: no_space_def)

lemma no_space_digits: "all_digits s \<Longrightarrow> no_space s"
  by (auto simp: all_digits_def no_space_def list_all_iff ascii_defs)

lemma no_space_show_nat [simp]: "no_space (show_nat n)"
  by (rule no_space_digits) simp

lemma split_whitespace_word:
  "w \<in> set (split_ascii_whitespace s) \<Longrightarrow> w \<noteq> [] \<and> no_space w"
  by (auto simp: split_ascii_whitespace_def no_space_def list_all_iff dest!: split_by_pieces)

section \<open>Substrings\<close>

fun contains :: "'a list \<Rightarrow> 'a list \<Rightarrow> bool" where
  "contains p [] = (p = [])"
| "contains p (x # xs) = (take (length p) (x # xs) = p \<or> contains p xs)"

lemma contains_iff: "contains p s \<longleftrightarrow> (\<exists>a b. s = a @ p @ b)"
proof (induction s)
  case (Cons x xs)
  have "(\<exists>a b. x # xs = a @ p @ b) \<longleftrightarrow> (\<exists>b. x # xs = p @ b) \<or> (\<exists>a b. xs = a @ p @ b)"
    by (metis append_Cons append_Nil list.exhaust list.inject)
  moreover have "(\<exists>b. x # xs = p @ b) \<longleftrightarrow> take (length p) (x # xs) = p"
    by (metis append_eq_conv_conj append_take_drop_id)
  ultimately show ?case using Cons.IH by simp
qed auto

end
