(* ===== verification/Crc.thy ===== *)
theory Crc
  imports Prelude
begin

unbundle bit_operations_syntax

text \<open>
  The cyclic redundancy checks of the transfer protocols (\<open>crates/sf-core/src/transfer.rs\<close>), of
  nodelists (\<open>crates/sf-net/src/ftn/directory.rs\<close>) and of TIC files
  (\<open>crates/sf-net/src/tic.rs\<close>), bit by bit as the loops compute them, and what they detect: a
  single changed byte is always noticed.
\<close>

section \<open>Sixteen bits\<close>

definition crc_bit :: "u16 \<Rightarrow> u16" where
  "crc_bit crc =
     (if crc AND 0x8000 \<noteq> 0 then push_bit 1 crc XOR 0x1021 else push_bit 1 crc)"

definition crc_byte :: "u16 \<Rightarrow> u8 \<Rightarrow> u16" where
  "crc_byte crc b = (crc_bit ^^ 8) (crc XOR push_bit 8 (ucast b))"

definition crc16_xmodem :: "bytes \<Rightarrow> u16" where
  "crc16_xmodem bs = foldl crc_byte 0 bs"

lemma top_bit: "crc AND 0x8000 \<noteq> 0 \<longleftrightarrow> bit (crc :: u16) 15"
  by (simp add: bit_iff_and_push_bit_not_eq_0 [of crc 15])

lemma crc_bit_inj: "crc_bit c = crc_bit d \<Longrightarrow> c = d"
proof -
  assume e: "crc_bit c = crc_bit d"
  have low: "bit (crc_bit x) 0 \<longleftrightarrow> bit x 15" for x
    by (simp add: crc_bit_def top_bit bit_0 even_xor_iff)
  have top: "bit c 15 = bit d 15" using e low by metis
  have "push_bit 1 c = push_bit 1 d"
  proof (cases "bit c 15")
    case True
    then have "push_bit 1 c XOR 0x1021 = push_bit 1 d XOR 0x1021"
      using e top by (simp add: crc_bit_def top_bit)
    then have "(push_bit 1 c XOR 0x1021) XOR 0x1021 = (push_bit 1 d XOR 0x1021) XOR 0x1021" by simp
    then show ?thesis by (simp add: xor.assoc del: push_bit_of_1)
  next
    case False
    then show ?thesis using e top by (simp add: crc_bit_def top_bit)
  qed
  then have s: "bit (push_bit 1 c) (Suc n) = bit (push_bit 1 d) (Suc n)" for n by (rule arg_cong)
  have "bit c n = bit d n" if "n < 15" for n
    using that s [of n] by (simp add: bit_push_bit_iff del: push_bit_Suc)
  show "c = d"
  proof (rule bit_word_eqI)
    fix n assume "n < LENGTH(16)"
    then have "n < 15 \<or> n = 15" by auto
    with top \<open>\<And>n. n < 15 \<Longrightarrow> bit c n = bit d n\<close> show "bit c n = bit d n" by blast
  qed
qed

lemma crc_bits_inj: "(crc_bit ^^ n) c = (crc_bit ^^ n) d \<Longrightarrow> c = d"
  by (induction n) (auto dest: crc_bit_inj)

lemma xor_cancel_right: "a XOR x = b XOR (x :: 'a :: len word) \<Longrightarrow> a = b"
proof -
  assume "a XOR x = b XOR x"
  then have "(a XOR x) XOR x = (b XOR x) XOR x" by simp
  then show ?thesis by (simp add: xor.assoc)
qed

lemma crc_byte_inj_crc: "crc_byte c b = crc_byte d b \<Longrightarrow> c = d"
  unfolding crc_byte_def by (drule crc_bits_inj) (rule xor_cancel_right)

lemma crc_byte_inj_byte: "crc_byte c a = crc_byte c b \<Longrightarrow> a = b"
proof -
  assume "crc_byte c a = crc_byte c b"
  then have "c XOR push_bit 8 (ucast a) = c XOR push_bit 8 (ucast b :: u16)"
    unfolding crc_byte_def by (rule crc_bits_inj)
  then have "(c XOR c) XOR push_bit 8 (ucast a) = (c XOR c) XOR push_bit 8 (ucast b :: u16)"
    by (simp only: xor.assoc)
  then have p: "push_bit 8 (ucast a :: u16) = push_bit 8 (ucast b)" by simp
  have "bit a n = bit b n" if "n < 8" for n
  proof -
    have "bit (push_bit 8 (ucast a :: u16)) (n + 8) = bit (push_bit 8 (ucast b :: u16)) (n + 8)"
      using p by simp
    with that show ?thesis by (simp add: bit_push_bit_iff bit_ucast_iff)
  qed
  then show "a = b" by (intro bit_word_eqI) simp
qed

lemma crc_fold_inj: "foldl crc_byte c bs = foldl crc_byte d bs \<Longrightarrow> c = d"
  by (induction bs arbitrary: c d) (auto dest: crc_byte_inj_crc)

lemma crc_one_byte: "a \<noteq> b \<Longrightarrow> crc16_xmodem (xs @ a # ys) \<noteq> crc16_xmodem (xs @ b # ys)"
  by (auto simp: crc16_xmodem_def dest!: crc_fold_inj crc_byte_inj_byte)

text \<open>The same computation on natural numbers, which the simplifier evaluates.\<close>

definition crc_nat_bit :: "nat \<Rightarrow> nat" where
  "crc_nat_bit c = (if c < 32768 then 2 * c else (2 * c - 65536) XOR 4129)"

definition crc_nat_byte :: "nat \<Rightarrow> nat \<Rightarrow> nat" where
  "crc_nat_byte c b = crc_nat_bit (crc_nat_bit (crc_nat_bit (crc_nat_bit (crc_nat_bit (crc_nat_bit (crc_nat_bit
     (crc_nat_bit (c XOR 256 * b))))))))"

lemma xor_nat_less: "a < 2 ^ n \<Longrightarrow> b < 2 ^ n \<Longrightarrow> (a XOR b :: nat) < 2 ^ n"
proof -
  assume "a < 2 ^ n" "b < 2 ^ n"
  then have "take_bit n a = a" "take_bit n b = b" by (simp_all add: take_bit_nat_eq_self_iff)
  then have "take_bit n (a XOR b) = a XOR b" by (simp add: take_bit_xor)
  then show ?thesis unfolding take_bit_nat_eq_self_iff .
qed

lemma crc_nat_bit_less: "c < 65536 \<Longrightarrow> crc_nat_bit c < 65536"
  using xor_nat_less [of "2 * c - 65536" 16 4129] by (auto simp: crc_nat_bit_def)

lemma unat_crc_bit: "unat (crc_bit c) = crc_nat_bit (unat c)"
proof -
  have top: "bit c 15 \<longleftrightarrow> \<not> unat c < 32768"
  proof -
    have "unat c div 32768 < 2" by (rule less_mult_imp_div_less) (use unat_less_65536 [of c] in simp)
    then have "unat c div 32768 = 0 \<or> unat c div 32768 = 1" by linarith
    moreover have "bit c 15 \<longleftrightarrow> odd (unat c div 32768)"
      using bit_unsigned_iff [where ?'a = nat, of c 15] by (simp add: bit_iff_odd [of "unat c"])
    ultimately show ?thesis by (auto simp: div_eq_0_iff)
  qed
  have p: "unat (push_bit 1 c) = (2 * unat c) mod 65536"
    by (simp add: push_bit_eq_mult unat_word_ariths mult.commute)
  show ?thesis
  proof (cases "bit c 15")
    case True
    have "2 * unat c - 65536 < 65536" using unat_less_65536 [of c] by linarith
    then have "(2 * unat c) mod 65536 = 2 * unat c - 65536"
      using top True by (simp only: le_mod_geq mod_less) (simp add: le_mod_geq)
    with True top p show ?thesis by (simp add: crc_bit_def top_bit crc_nat_bit_def unsigned_xor_eq)
  next
    case False
    with top p show ?thesis by (simp add: crc_bit_def top_bit crc_nat_bit_def)
  qed
qed

lemma unat_crc_byte: "unat (crc_byte c b) = crc_nat_byte (unat c) (unat b)"
proof -
  have "unat (push_bit 8 (ucast b :: u16)) = 256 * unat b"
  proof -
    have u: "unat (ucast b :: u16) = unat b"
      using less_trans [OF unat_less_256 [of b], of 65536] by (simp add: unsigned_ucast_eq take_bit_nat_eq_self_iff)
    have "unat (push_bit 8 (ucast b :: u16)) = (unat (ucast b :: u16) * 256) mod 65536"
      by (simp add: push_bit_eq_mult unat_word_ariths)
    also have "\<dots> = unat b * 256" unfolding u using unat_less_256 [of b] by (intro mod_less) simp
    finally show ?thesis by simp
  qed
  moreover have "(crc_bit ^^ 8) x = crc_bit (crc_bit (crc_bit (crc_bit (crc_bit (crc_bit (crc_bit (crc_bit x)))))))" for x
    by (simp add: numeral_eq_Suc)
  ultimately show ?thesis by (simp add: crc_byte_def crc_nat_byte_def unat_crc_bit unsigned_xor_eq)
qed

lemma unat_crc16: "unat (crc16_xmodem bs) = foldl crc_nat_byte 0 (map unat bs)"
proof -
  have "unat (foldl crc_byte c bs) = foldl crc_nat_byte (unat c) (map unat bs)" for c
    by (induction bs arbitrary: c) (simp_all add: unat_crc_byte)
  then show ?thesis by (simp add: crc16_xmodem_def)
qed

lemmas crc_eval = unat_crc16 crc_nat_byte_def crc_nat_bit_def

section \<open>Thirty-two bits\<close>

definition crc32_bit :: "u32 \<Rightarrow> u32" where
  "crc32_bit crc = drop_bit 1 crc XOR (0xedb88320 AND (0 - (crc AND 1)))"

definition crc32_byte :: "u32 \<Rightarrow> u8 \<Rightarrow> u32" where
  "crc32_byte crc b = (crc32_bit ^^ 8) (crc XOR ucast b)"

definition crc32 :: "bytes \<Rightarrow> u32" where
  "crc32 bs = NOT (foldl crc32_byte (NOT 0) bs)"

lemma crc32_bit_cases: "crc32_bit c = (if bit c 0 then drop_bit 1 c XOR 0xedb88320 else drop_bit 1 c)"
proof (cases "bit c 0")
  case True
  then have "c AND 1 = 1" by (simp add: bit_0 and_one_eq odd_iff_mod_2_eq_one)
  then have "0 - (c AND 1) = NOT 0" by simp
  then show ?thesis using True unfolding crc32_bit_def by simp
next
  case False
  then have "c AND 1 = 0" by (simp add: bit_0 and_one_eq even_iff_mod_2_eq_zero)
  with False show ?thesis by (simp add: crc32_bit_def)
qed

lemma crc32_bit_inj: "crc32_bit c = crc32_bit d \<Longrightarrow> c = d"
proof -
  assume e: "crc32_bit c = crc32_bit d"
  have top: "bit (crc32_bit x) 31 \<longleftrightarrow> bit x 0" for x
    using bit_imp_le_length [of x 32] by (auto simp: crc32_bit_cases bit_xor_iff bit_drop_bit_eq)
  have low: "bit c 0 = bit d 0" using e top by metis
  have d: "drop_bit 1 c = drop_bit 1 d"
  proof (cases "bit c 0")
    case True
    then have "drop_bit 1 c XOR 0xedb88320 = drop_bit 1 d XOR 0xedb88320" using e low by (simp add: crc32_bit_cases)
    then have "(drop_bit 1 c XOR 0xedb88320) XOR 0xedb88320 = (drop_bit 1 d XOR 0xedb88320) XOR 0xedb88320" by simp
    then show ?thesis by (simp add: xor.assoc)
  next
    case False
    then show ?thesis using e low by (simp add: crc32_bit_cases)
  qed
  show "c = d"
  proof (rule bit_word_eqI)
    fix n assume "n < LENGTH(32)"
    show "bit c n = bit d n"
    proof (cases n)
      case (Suc k)
      from d have "bit (drop_bit 1 c) k = bit (drop_bit 1 d) k" by simp
      with Suc show ?thesis by (simp add: bit_drop_bit_eq)
    qed (simp add: low)
  qed
qed

lemma crc32_bits_inj: "(crc32_bit ^^ n) c = (crc32_bit ^^ n) d \<Longrightarrow> c = d"
  by (induction n) (auto dest: crc32_bit_inj)

lemma crc32_fold_inj: "foldl crc32_byte c bs = foldl crc32_byte d bs \<Longrightarrow> c = d"
  by (induction bs arbitrary: c d) (auto simp: crc32_byte_def dest: crc32_bits_inj xor_cancel_right)

lemma crc32_byte_inj: "crc32_byte c a = crc32_byte c b \<Longrightarrow> a = b"
proof -
  assume "crc32_byte c a = crc32_byte c b"
  then have "c XOR ucast a = c XOR (ucast b :: u32)" unfolding crc32_byte_def by (rule crc32_bits_inj)
  then have "ucast a XOR c = (ucast b :: u32) XOR c" by (simp only: xor.commute)
  then have u: "ucast a = (ucast b :: u32)" by (rule xor_cancel_right)
  have "bit a k = bit b k" if "k < 8" for k
    using arg_cong [OF u, of "\<lambda>w. bit w k"] that by (simp add: bit_ucast_iff)
  then show ?thesis by (intro bit_word_eqI) simp
qed

lemma crc32_one_byte: "a \<noteq> b \<Longrightarrow> crc32 (xs @ a # ys) \<noteq> crc32 (xs @ b # ys)"
  by (auto simp: crc32_def dest!: crc32_fold_inj crc32_byte_inj)

end
