(* ===== verification/Interfaces.thy ===== *)
theory Interfaces
  imports Prelude
begin

text \<open>
  The contracts that several components share.  \<open>codec\<close>: an encoder that may refuse a value
  and the decoder of its output, as the wire formats of \<open>sf-net\<close> and \<open>sf-legacy\<close> have them;
  \<open>total_codec\<close> adds that the encoder accepts every value in range, and \<open>strict_codec\<close> that
  the decoder produces only values in range.  \<open>machine\<close>: a state, a step function that may
  fail, and an invariant its steps keep; the client lemmas lift the invariant to every run.
  \<open>server\<close>: a loop that goes on until it fails or returns, with what holds while it runs,
  what survives a failure and what its return means.  Each locale is interpreted on the definitions of the components that provide it.
\<close>

section \<open>Codecs\<close>

locale codec =
  fixes encode :: "'a \<Rightarrow> 'e + 'b"
    and decode :: "'b \<Rightarrow> 'f + 'a"
    and valid :: "'a \<Rightarrow> bool"
  assumes decode_encode: "valid x \<Longrightarrow> encode x = Inr b \<Longrightarrow> decode b = Inr x"
begin

lemma encode_inject:
  "valid x \<Longrightarrow> valid y \<Longrightarrow> encode x = Inr b \<Longrightarrow> encode y = Inr b \<Longrightarrow> x = y"
proof -
  assume "valid x" and "valid y" and "encode x = Inr b" and "encode y = Inr b"
  then have "decode b = Inr x" and "decode b = Inr y"
    by (auto intro: decode_encode)
  then show "x = y" by simp
qed

lemma not_decoded_not_encoded: "decode b = Inl e \<Longrightarrow> valid x \<Longrightarrow> encode x \<noteq> Inr b"
  using decode_encode by fastforce

end

locale total_codec = codec +
  assumes encode_total: "valid x \<Longrightarrow> \<exists>b. encode x = Inr b"
begin

lemma round_trip: "valid x \<Longrightarrow> \<exists>b. encode x = Inr b \<and> decode b = Inr x"
  using encode_total decode_encode by blast

end

locale strict_codec = total_codec +
  assumes decode_valid: "decode b = Inr x \<Longrightarrow> valid x"
begin

text \<open>Decoding and encoding again normalises: the result decodes to the same value.\<close>

lemma normalise: "decode b = Inr x \<Longrightarrow> \<exists>c. encode x = Inr c \<and> decode c = Inr x"
  by (blast dest: decode_valid round_trip)

lemma valid_iff_decodable: "valid x \<longleftrightarrow> (\<exists>b. decode b = Inr x)"
  by (blast dest: decode_valid round_trip)

end

section \<open>State machines\<close>

text \<open>Running a step function over its inputs; the first error ends the run.\<close>

fun run_steps :: "('s \<Rightarrow> 'i \<Rightarrow> 'e + 's) \<Rightarrow> 's \<Rightarrow> 'i list \<Rightarrow> 'e + 's" where
  "run_steps step s [] = Inr s"
| "run_steps step s (i # is) = attempt (step s i) (\<lambda>t. run_steps step t is)"

lemma run_steps_append:
  "run_steps step s (xs @ ys) = attempt (run_steps step s xs) (\<lambda>t. run_steps step t ys)"
proof (induction xs arbitrary: s)
  case (Cons x xs)
  then show ?case by (cases "step s x") auto
qed simp

lemma run_steps_map:
  "(\<And>x s. x \<in> set xs \<Longrightarrow> step s (g x) = Inr (effect x s)) \<Longrightarrow> run_steps step s (map g xs) = Inr (fold effect xs s)"
  by (induction xs arbitrary: s) auto

text \<open>A machine whose invariant rests on what its inputs are.\<close>

locale guarded_machine =
  fixes step :: "'s \<Rightarrow> 'i \<Rightarrow> 'e + 's"
    and inv :: "'s \<Rightarrow> bool"
    and good :: "'i \<Rightarrow> bool"
  assumes guarded_step: "inv s \<Longrightarrow> good i \<Longrightarrow> step s i = Inr t \<Longrightarrow> inv t"
begin

lemma guarded_run: "inv s \<Longrightarrow> list_all good is \<Longrightarrow> run_steps step s is = Inr t \<Longrightarrow> inv t"
  by (induction "is" arbitrary: s) (auto simp: result_simps intro: guarded_step)

end

locale machine =
  fixes step :: "'s \<Rightarrow> 'i \<Rightarrow> 'e + 's"
    and inv :: "'s \<Rightarrow> bool"
  assumes step_inv: "inv s \<Longrightarrow> step s i = Inr t \<Longrightarrow> inv t"
begin

lemma run_inv: "inv s \<Longrightarrow> run_steps step s is = Inr t \<Longrightarrow> inv t"
  by (induction "is" arbitrary: s) (auto simp: result_simps intro: step_inv)

end

sublocale machine \<subseteq> guarded_machine step inv "\<lambda>_. True"
  by unfold_locales (rule step_inv)

text \<open>
  A machine with what its good steps leave as it is, such as a reservation that only its holder
  gives up: a preorder between a state and its successors.
\<close>

locale tracked_machine = guarded_machine step inv good
  for step :: "'s \<Rightarrow> 'i \<Rightarrow> 'e + 's" and inv :: "'s \<Rightarrow> bool" and good :: "'i \<Rightarrow> bool" +
  fixes kept :: "'s \<Rightarrow> 's \<Rightarrow> bool"
  assumes kept_refl: "kept s s"
    and kept_trans: "kept s t \<Longrightarrow> kept t u \<Longrightarrow> kept s u"
    and step_kept: "inv s \<Longrightarrow> good i \<Longrightarrow> step s i = Inr t \<Longrightarrow> kept s t"
begin

lemma run_kept: "inv s \<Longrightarrow> list_all good is \<Longrightarrow> run_steps step s is = Inr t \<Longrightarrow> kept s t"
proof (induction "is" arbitrary: s)
  case (Cons i "is")
  from Cons.prems(3) obtain u where u: "step s i = Inr u" and t: "run_steps step u is = Inr t"
    by (auto simp: result_simps)
  have "kept s u" and "inv u"
    using Cons.prems(1,2) u by (auto intro: step_kept guarded_step)
  with Cons.IH t Cons.prems(2) show ?case by (auto intro: kept_trans)
qed (simp add: kept_refl)

end

text \<open>A machine with a quantity that no step lowers, such as a counter of issued tickets.\<close>

locale monotone_machine = machine step inv
  for step :: "'s \<Rightarrow> 'i \<Rightarrow> 'e + 's" and inv :: "'s \<Rightarrow> bool" +
  fixes level :: "'s \<Rightarrow> nat"
  assumes step_level: "inv s \<Longrightarrow> step s i = Inr t \<Longrightarrow> level s \<le> level t"
begin

lemma run_level: "inv s \<Longrightarrow> run_steps step s is = Inr t \<Longrightarrow> level s \<le> level t"
proof (induction "is" arbitrary: s)
  case (Cons i "is")
  from Cons.prems(2) obtain u where u: "step s i = Inr u" and t: "run_steps step u is = Inr t"
    by (auto simp: result_simps)
  have "level s \<le> level u" and "inv u"
    using Cons.prems(1) u by (auto intro: step_level step_inv)
  with Cons.IH t show ?case by (meson order_trans)
qed simp

end

section \<open>Outcomes of operations that may fail\<close>

text \<open>
  \<open>ends_in Q E r\<close>: a successful outcome satisfies \<open>Q\<close>, a failed one leaves a state that
  satisfies \<open>E\<close>.
\<close>

definition ends_in :: "('a \<Rightarrow> 's \<Rightarrow> bool) \<Rightarrow> ('s \<Rightarrow> bool) \<Rightarrow> ('e + 'a) \<times> 's \<Rightarrow> bool" where
  "ends_in Q E r = (case r of (Inl _, t) \<Rightarrow> E t | (Inr x, t) \<Rightarrow> Q x t)"

lemma ends_simps [simp]: "ends_in Q E (Inr x, t) = Q x t" "ends_in Q E (Inl e, t) = E t"
  by (simp_all add: ends_in_def)

lemma ends_chain [simp]: "ends_in Q E (chain r f) = ends_in (\<lambda>x t. ends_in Q E (f x t)) E r"
  by (auto simp: ends_in_def chain_def split: prod.splits sum.splits)

lemma ends_pure [simp]: "ends_in Q E (r, s) = (case r of Inl _ \<Rightarrow> E s | Inr x \<Rightarrow> Q x s)"
  by (auto simp: ends_in_def split: sum.splits)

lemma ends_if [simp]: "ends_in Q E (if b then x else y) = (if b then ends_in Q E x else ends_in Q E y)"
  by simp

lemma ends_mono: "ends_in Q E r \<Longrightarrow> (\<And>x t. Q x t \<Longrightarrow> Q' x t) \<Longrightarrow> (\<And>t. E t \<Longrightarrow> E' t) \<Longrightarrow> ends_in Q' E' r"
  by (auto simp: ends_in_def split: prod.splits sum.splits)

lemma endsD:
  "ends_in Q E r \<Longrightarrow> r = (Inr x, t) \<Longrightarrow> Q x t"
  "ends_in Q E r \<Longrightarrow> r = (Inl e, t) \<Longrightarrow> E t"
  by simp_all

section \<open>Loops that serve until they are over\<close>

text \<open>
  A loop whose step fails, goes on (\<open>False\<close>) or returns (\<open>True\<close>), over the inputs there are:
  \<open>None\<close> when it is still running after them.
\<close>

fun run_until :: "('i \<Rightarrow> 's \<Rightarrow> ('e + bool) \<times> 's) \<Rightarrow> 'i list \<Rightarrow> 's \<Rightarrow> ('e + unit) option \<times> 's" where
  "run_until step [] s = (None, s)"
| "run_until step (i # is) s =
     (case step i s of
        (Inl e, t) \<Rightarrow> (Some (Inl e), t)
      | (Inr True, t) \<Rightarrow> (Some (Inr ()), t)
      | (Inr False, t) \<Rightarrow> run_until step is t)"

locale server =
  fixes step :: "'i \<Rightarrow> 's \<Rightarrow> ('e + bool) \<times> 's"
    and inv :: "'s \<Rightarrow> bool"
    and safe :: "'s \<Rightarrow> bool"
    and goal :: "'s \<Rightarrow> bool"
  assumes step_ends: "inv s \<Longrightarrow> ends_in (\<lambda>over t. inv t \<and> (over \<longrightarrow> goal t)) safe (step i s)"
    and inv_safe: "inv s \<Longrightarrow> safe s"
begin

lemma run_ends:
  "inv s \<Longrightarrow> run_until step is s = (r, t) \<Longrightarrow>
     safe t \<and> ((\<forall>e. r \<noteq> Some (Inl e)) \<longrightarrow> inv t) \<and> (r = Some (Inr ()) \<longrightarrow> goal t)"
proof (induction "is" arbitrary: s)
  case (Cons i "is")
  obtain x u where u: "step i s = (x, u)" by (cases "step i s")
  show ?case
  proof (cases x)
    case (Inl e)
    with step_ends [OF Cons.prems(1), of i] Cons.prems(2) u show ?thesis by auto
  next
    case (Inr b)
    with step_ends [OF Cons.prems(1), of i] Cons.prems(2) u Cons.IH [of u] show ?thesis
      by (cases b) (auto intro: inv_safe)
  qed
qed (auto intro: inv_safe)

lemma failing_input_ends:
  "i \<in> set is \<Longrightarrow> (\<And>s. \<exists>e t. step i s = (Inl e, t)) \<Longrightarrow> fst (run_until step is s) \<noteq> None"
proof (induction "is" arbitrary: s)
  case (Cons k "is")
  obtain x u where u: "step k s = (x, u)" by (cases "step k s")
  show ?case
  proof (cases "i = k")
    case True
    from Cons.prems(2) [of s] obtain e t where "step i s = (Inl e, t)" by blast
    with True show ?thesis by simp
  next
    case False
    with Cons u show ?thesis by (cases x) (auto split: bool.split)
  qed
qed simp

end

end
