(* ===== verification/Utf8.thy ===== *)
theory Utf8
  imports Prelude
begin

text \<open>
  UTF-8 as Rust's \<open>str\<close> has it: \<open>decode_utf8\<close> reads the Unicode scalar values of a byte
  sequence and refuses overlong forms, surrogates and values above U+10FFFF, so it is
  \<open>Some\<close> exactly on the sequences \<open>str::from_utf8\<close> accepts.  \<open>chars\<close> is \<open>str::chars\<close>,
  and \<open>is_control\<close> is \<open>char::is_control\<close> (the general category Cc).
\<close>

definition cont_byte :: "nat \<Rightarrow> bool" where
  "cont_byte b \<longleftrightarrow> 128 \<le> b \<and> b \<le> 191"

fun decode_utf8 :: "nat list \<Rightarrow> nat list option" where
  "decode_utf8 [] = Some []"
| "decode_utf8 (a # xs) =
     (if a < 128 then map_option (Cons a) (decode_utf8 xs)
      else case xs of
        [] \<Rightarrow> None
      | b # ys \<Rightarrow>
          if \<not> cont_byte b then None
          else if 194 \<le> a \<and> a \<le> 223 then
            map_option (Cons ((a - 192) * 64 + (b - 128))) (decode_utf8 ys)
          else (case ys of
            [] \<Rightarrow> None
          | c # zs \<Rightarrow>
              if \<not> cont_byte c then None
              else if 224 \<le> a \<and> a \<le> 239 then
                (if (a = 224 \<and> b < 160) \<or> (a = 237 \<and> 159 < b) then None
                 else map_option (Cons ((a - 224) * 4096 + (b - 128) * 64 + (c - 128)))
                        (decode_utf8 zs))
              else (case zs of
                [] \<Rightarrow> None
              | d # ws \<Rightarrow>
                  if \<not> cont_byte d \<or> a < 240 \<or> 244 < a \<or> (a = 240 \<and> b < 144) \<or> (a = 244 \<and> 143 < b)
                  then None
                  else map_option
                         (Cons ((a - 240) * 262144 + (b - 128) * 4096 + (c - 128) * 64 + (d - 128)))
                         (decode_utf8 ws))))"

definition from_utf8 :: "bytes \<Rightarrow> string option" where
  "from_utf8 bs = (if decode_utf8 (map unat bs) = None then None else Some (from_bytes bs))"

definition chars :: "string \<Rightarrow> nat list" where
  "chars s = unwrap_or (decode_utf8 (map ord s)) []"

definition is_control :: "nat \<Rightarrow> bool" where
  "is_control u \<longleftrightarrow> u < 32 \<or> (127 \<le> u \<and> u < 160)"

text \<open>\<open>char::is_whitespace\<close>.\<close>

definition white_space :: "nat \<Rightarrow> bool" where
  "white_space u \<longleftrightarrow>
     (9 \<le> u \<and> u \<le> 13) \<or> u \<in> {0x20, 0x85, 0xA0, 0x1680, 0x2028, 0x2029, 0x202F, 0x205F, 0x3000} \<or>
     (0x2000 \<le> u \<and> u \<le> 0x200A)"

text \<open>ASCII text is its own list of scalar values.\<close>

definition ascii :: "string \<Rightarrow> bool" where
  "ascii s \<longleftrightarrow> list_all (\<lambda>c. ord c < 128) s"

lemma decode_utf8_ascii: "\<forall>n \<in> set ns. n < 128 \<Longrightarrow> decode_utf8 ns = Some ns"
  by (induction ns) auto

lemma chars_ascii [simp]: "ascii s \<Longrightarrow> chars s = map ord s"
  by (simp add: chars_def ascii_def list_all_iff decode_utf8_ascii)

lemma from_utf8_ascii: "\<forall>b \<in> set bs. unat b < 128 \<Longrightarrow> from_utf8 bs = Some (from_bytes bs)"
  by (simp add: from_utf8_def decode_utf8_ascii)

lemma from_utf8_as_bytes [simp]: "ascii s \<Longrightarrow> from_utf8 (as_bytes s) = Some s"
proof -
  assume "ascii s"
  then have "\<forall>b \<in> set (as_bytes s). unat b < 128"
    by (simp add: as_bytes_def ascii_def list_all_iff)
  from from_utf8_ascii [OF this] show ?thesis by simp
qed

lemma from_utf8_SomeD: "from_utf8 bs = Some s \<Longrightarrow> s = from_bytes bs"
  by (simp add: from_utf8_def split: if_splits)

lemma ascii_digits: "all_digits s \<Longrightarrow> ascii s"
  by (auto simp: all_digits_def ascii_def list_all_iff ascii_digit_def)

lemma ascii_show_nat [simp]: "ascii (show_nat n)"
  by (rule ascii_digits) simp

lemma ascii_append [simp]: "ascii (s @ t) \<longleftrightarrow> ascii s \<and> ascii t"
  by (simp add: ascii_def)

lemma ascii_Cons [simp]: "ascii (c # t) \<longleftrightarrow> ord c < 128 \<and> ascii t"
  by (simp add: ascii_def)

lemma ascii_Nil [simp]: "ascii []"
  by (simp add: ascii_def)

section \<open>Lossy decoding\<close>

text \<open>
  \<open>String::from_utf8_lossy\<close>: each longest prefix of a sequence that cannot be completed is
  replaced by U+FFFD.  \<open>utf8_step\<close> says of the head of the input whether it is a whole
  character and how many bytes are consumed.
\<close>

definition byte_after :: "nat \<Rightarrow> nat list \<Rightarrow> nat" where
  "byte_after i xs = (if i < length xs then xs ! i else 0)"

definition utf8_step :: "nat list \<Rightarrow> bool \<times> nat" where
  "utf8_step xs =
     (let a = byte_after 0 xs; b = byte_after 1 xs; c = byte_after 2 xs; d = byte_after 3 xs in
      if a < 128 then (True, 1)
      else if 194 \<le> a \<and> a \<le> 223 then (if cont_byte b then (True, 2) else (False, 1))
      else if 224 \<le> a \<and> a \<le> 239 then
        (if \<not> cont_byte b \<or> (a = 224 \<and> b < 160) \<or> (a = 237 \<and> 159 < b) then (False, 1)
         else if cont_byte c then (True, 3) else (False, 2))
      else if 240 \<le> a \<and> a \<le> 244 then
        (if \<not> cont_byte b \<or> (a = 240 \<and> b < 144) \<or> (a = 244 \<and> 143 < b) then (False, 1)
         else if \<not> cont_byte c then (False, 2)
         else if cont_byte d then (True, 4) else (False, 3))
      else (False, 1))"

lemma utf8_step_positive: "(ok, n) = utf8_step xs \<Longrightarrow> 0 < n"
  by (auto simp: utf8_step_def Let_def split: if_splits)

function lossy :: "nat list \<Rightarrow> nat list" where
  "lossy xs =
     (if xs = [] then []
      else case utf8_step xs of
        (ok, n) \<Rightarrow> (if ok then take n xs else [239, 191, 189]) @ lossy (drop n xs))"
  by pat_completeness auto
termination
  by (relation "measure length") (auto dest: utf8_step_positive)

declare lossy.simps [simp del]

definition from_utf8_lossy :: "bytes \<Rightarrow> string" where
  "from_utf8_lossy bs = from_bytes (map of_nat (lossy (map unat bs)))"

lemma lossy_ascii: "\<forall>n \<in> set ns. n < 128 \<Longrightarrow> lossy ns = ns"
proof (induction ns)
  case (Cons n ns)
  then show ?case
    by (subst lossy.simps) (simp add: utf8_step_def byte_after_def)
qed (simp add: lossy.simps)

lemma from_utf8_lossy_as_bytes [simp]: "ascii s \<Longrightarrow> from_utf8_lossy (as_bytes s) = s"
proof -
  assume "ascii s"
  then have "lossy (map unat (as_bytes s)) = map unat (as_bytes s)"
    by (intro lossy_ascii) (simp add: as_bytes_def ascii_def list_all_iff)
  then show ?thesis by (simp add: from_utf8_lossy_def o_def)
qed

end
