(* ===== verification/Legacy_Menu.thy ===== *)
theory Legacy_Menu
  imports Interfaces Utf8
begin

text \<open>
  \<open>crates/sf-legacy/src/menu.rs\<close>: the comma-separated SPITFIRE 3.7 menu file.  An entry is a
  command letter, a description, a reserved field, a security level and an identifier; the
  file is one line per entry, with an optional DOS end-of-file byte.
\<close>

section \<open>Data\<close>

datatype menu_error =
    FileTooLarge nat nat           \<comment> \<open>actual, maximum\<close>
  | LineTooLong nat nat nat        \<comment> \<open>line, actual, maximum\<close>
  | FieldCount nat nat             \<comment> \<open>line, actual\<close>
  | InvalidField nat string
  | InvalidSecurity nat
  | DuplicateCommand u8

record menu_entry =
  command :: u8
  description :: bytes
  reserved :: bytes
  required_security :: u16
  ident :: u8

record menu_file =
  entries :: "menu_entry list"
  dos_eof :: bool

definition MAX_MENU_BYTES :: nat where
  "MAX_MENU_BYTES = 64 * 1024"

definition MAX_MENU_LINE_BYTES :: nat where
  "MAX_MENU_LINE_BYTES = 40"

section \<open>Validation\<close>

definition validate_single_field_at :: "nat \<Rightarrow> string \<Rightarrow> bytes \<Rightarrow> menu_error + unit" where
  "validate_single_field_at line name fld =
     (if length fld \<noteq> 1 \<or> hd fld = 44 \<or> hd fld = 0 \<or> hd fld = 26
      then Inl (InvalidField line name) else Inr ())"

definition validate_field_at :: "nat \<Rightarrow> string \<Rightarrow> bytes \<Rightarrow> menu_error + unit" where
  "validate_field_at line name fld =
     (if 44 \<in> set fld \<or> 0 \<in> set fld \<or> 26 \<in> set fld then Inl (InvalidField line name) else Inr ())"

text \<open>The loop of \<open>validate_unique_commands\<close>, with the commands inserted so far.\<close>

fun unique_commands :: "u8 set \<Rightarrow> menu_entry list \<Rightarrow> menu_error + unit" where
  "unique_commands seen [] = Inr ()"
| "unique_commands seen (e # es) =
     (if command e \<in> seen then Inl (DuplicateCommand (command e))
      else unique_commands (insert (command e) seen) es)"

definition validate_unique_commands :: "menu_entry list \<Rightarrow> menu_error + unit" where
  "validate_unique_commands es = unique_commands {} es"

section \<open>Encoding\<close>

definition security_text :: "menu_entry \<Rightarrow> string" where
  "security_text e = show_nat (unat (required_security e))"

definition encoded_len :: "menu_entry \<Rightarrow> nat" where
  "encoded_len e = 1 + 1 + length (description e) + 1 + length (reserved e) + 1 +
     length (security_text e) + 1 + 1"

definition encode_entry :: "menu_entry \<Rightarrow> bytes" where
  "encode_entry e = [command e] @ [44] @ description e @ [44] @ reserved e @ [44] @
     as_bytes (security_text e) @ [44] @ [ident e]"

definition to_bytes :: "menu_file \<Rightarrow> bytes" where
  "to_bytes m = concat (map (\<lambda>e. encode_entry e @ [13, 10]) (entries m)) @
     (if dos_eof m then [26] else [])"

section \<open>Construction and lookup\<close>

definition menu_entry_new :: "u8 \<Rightarrow> bytes \<Rightarrow> bytes \<Rightarrow> u16 \<Rightarrow> u8 \<Rightarrow> menu_error + menu_entry" where
  "menu_entry_new cmd descr res sec idb =
     attempt (validate_single_field_at 0 ''command'' [cmd]) (\<lambda>_.
     attempt (validate_single_field_at 0 ''identifier'' [idb]) (\<lambda>_.
     attempt (validate_field_at 0 ''description'' descr) (\<lambda>_.
     attempt (validate_field_at 0 ''reserved'' res) (\<lambda>_.
       let e = \<lparr>command = upper_byte cmd, description = descr, reserved = res,
                required_security = sec, ident = idb\<rparr> in
       if MAX_MENU_LINE_BYTES < encoded_len e
       then Inl (LineTooLong 0 (encoded_len e) MAX_MENU_LINE_BYTES)
       else Inr e))))"

definition menu_file_new :: "menu_entry list \<Rightarrow> menu_error + menu_file" where
  "menu_file_new es =
     attempt (validate_unique_commands es) (\<lambda>_. Inr \<lparr>entries = es, dos_eof = False\<rparr>)"

definition find_command :: "menu_file \<Rightarrow> u8 \<Rightarrow> u16 \<Rightarrow> menu_entry option" where
  "find_command m cmd sec =
     List.find (\<lambda>e. command e = upper_byte cmd \<and> required_security e \<le> sec) (entries m)"

section \<open>Parsing\<close>

text \<open>One iteration of the line loop: \<open>None\<close> is the \<open>continue\<close> of a blank line.\<close>

definition parse_menu_line :: "nat \<Rightarrow> bytes \<Rightarrow> menu_error + menu_entry option" where
  "parse_menu_line index raw_line =
     (let line = unwrap_or (strip_suffix [13] raw_line) raw_line; n = index + 1 in
      if line = [] \<or> list_all (\<lambda>b. ascii_whitespace (unat b)) line then Inr None
      else if MAX_MENU_LINE_BYTES < length line
      then Inl (LineTooLong n (length line) MAX_MENU_LINE_BYTES)
      else
        (let fields = split_on 44 line in
         if length fields \<noteq> 5 then Inl (FieldCount n (length fields))
         else
           attempt (validate_single_field_at n ''command'' (fields ! 0)) (\<lambda>_.
           attempt (validate_single_field_at n ''identifier'' (fields ! 4)) (\<lambda>_.
           attempt (validate_field_at n ''description'' (fields ! 1)) (\<lambda>_.
           attempt (validate_field_at n ''reserved'' (fields ! 2)) (\<lambda>_.
           attempt (ok_or (from_utf8 (fields ! 3)) (InvalidSecurity n)) (\<lambda>text.
           attempt (ok_or (parse_uint 65535 text) (InvalidSecurity n)) (\<lambda>sec.
             Inr (Some \<lparr>command = upper_byte (hd (fields ! 0)), description = fields ! 1,
                        reserved = fields ! 2, required_security = of_nat sec,
                        ident = hd (fields ! 4)\<rparr>)))))))))"

fun parse_menu_lines :: "nat \<Rightarrow> bytes list \<Rightarrow> menu_error + menu_entry list" where
  "parse_menu_lines i [] = Inr []"
| "parse_menu_lines i (l # ls) =
     attempt (parse_menu_line i l) (\<lambda>e.
     attempt (parse_menu_lines (i + 1) ls) (\<lambda>es.
       Inr (case e of None \<Rightarrow> es | Some x \<Rightarrow> x # es)))"

definition menu_parse :: "bytes \<Rightarrow> menu_error + menu_file" where
  "menu_parse inp =
     (if MAX_MENU_BYTES < length inp then Inl (FileTooLarge (length inp) MAX_MENU_BYTES)
      else
        (let eof = (inp \<noteq> [] \<and> last inp = 26);
             body = (if eof then butlast inp else inp) in
         attempt (parse_menu_lines 0 (split_on 10 body)) (\<lambda>es.
         attempt (validate_unique_commands es) (\<lambda>_.
           Inr \<lparr>entries = es, dos_eof = eof\<rparr>))))"

section \<open>Well-formed menus\<close>

text \<open>The bytes a field of a menu line cannot hold: line feed, comma, NUL and DOS end of file.\<close>

definition field_byte :: "u8 \<Rightarrow> bool" where
  "field_byte b \<longleftrightarrow> b \<noteq> 10 \<and> b \<noteq> 44 \<and> b \<noteq> 0 \<and> b \<noteq> 26"

definition wf_entry :: "menu_entry \<Rightarrow> bool" where
  "wf_entry e \<longleftrightarrow>
     field_byte (command e) \<and> upper_byte (command e) = command e \<and> field_byte (ident e) \<and>
     list_all field_byte (description e) \<and> list_all field_byte (reserved e) \<and>
     encoded_len e \<le> MAX_MENU_LINE_BYTES"

definition wf_menu :: "menu_file \<Rightarrow> bool" where
  "wf_menu m \<longleftrightarrow> list_all wf_entry (entries m) \<and> distinct (map command (entries m))"

lemma unique_commands_ok:
  "unique_commands seen es = Inr () \<longleftrightarrow>
     distinct (map command es) \<and> set (map command es) \<inter> seen = {}"
  by (induction es arbitrary: seen) auto

lemma length_encode_entry: "length (encode_entry e) = encoded_len e"
  by (simp add: encode_entry_def encoded_len_def)

lemma byte_not_digit: "b \<in> set (as_bytes (show_nat n)) \<Longrightarrow> ascii_digit (unat b)"
  using all_digits_show_nat [of n] by (auto simp: as_bytes_def all_digits_def list_all_iff)

lemma security_bytes: "b \<in> set (as_bytes (security_text e)) \<Longrightarrow> field_byte b"
  by (auto simp: security_text_def field_byte_def ascii_digit_def dest!: byte_not_digit)

lemma encode_entry_no_lf: "wf_entry e \<Longrightarrow> 10 \<notin> set (encode_entry e)"
  by (auto simp: encode_entry_def wf_entry_def field_byte_def list_all_iff dest: security_bytes)

lemma split_encode_entry:
  "wf_entry e \<Longrightarrow> split_on 44 (encode_entry e) =
     [[command e], description e, reserved e, as_bytes (security_text e), [ident e]]"
proof -
  assume e: "wf_entry e"
  have "\<forall>b \<in> set (as_bytes (security_text e)). b \<noteq> 44"
    by (auto dest: security_bytes simp: field_byte_def)
  moreover have "\<forall>b \<in> set (description e). b \<noteq> 44" "\<forall>b \<in> set (reserved e). b \<noteq> 44"
    using e by (auto simp: wf_entry_def field_byte_def list_all_iff)
  ultimately show ?thesis
    using e by (auto simp: encode_entry_def wf_entry_def field_byte_def)
qed

lemma parse_encoded_line:
  "wf_entry e \<Longrightarrow> parse_menu_line i (encode_entry e @ [13]) = Inr (Some e)"
proof -
  assume e: "wf_entry e"
  have ws: "\<not> list_all (\<lambda>b. ascii_whitespace (unat b)) (encode_entry e)" and ne: "encode_entry e \<noteq> []"
    by (simp_all add: encode_entry_def ascii_whitespace_def)
  have "unat (required_security e) \<le> 65535"
    using unat_less_65536 [of "required_security e"] by linarith
  with e ws ne show ?thesis
    by (auto simp: parse_menu_line_def Let_def split_encode_entry length_encode_entry wf_entry_def
        validate_single_field_at_def validate_field_at_def field_byte_def list_all_iff security_text_def)
qed

lemma split_body:
  "list_all wf_entry es \<Longrightarrow>
     split_on 10 (concat (map (\<lambda>e. encode_entry e @ [13, 10]) es)) =
       map (\<lambda>e. encode_entry e @ [13]) es @ [[]]"
proof (induction es)
  case (Cons e es)
  then have "\<forall>b \<in> set (encode_entry e @ [13]). b \<noteq> 10"
    using encode_entry_no_lf [of e] by auto
  then have "split_on 10 ((encode_entry e @ [13]) @ 10 # concat (map (\<lambda>e. encode_entry e @ [13, 10]) es)) =
    (encode_entry e @ [13]) # split_on 10 (concat (map (\<lambda>e. encode_entry e @ [13, 10]) es))"
    by (intro split_by_append) auto
  with Cons show ?case by simp
qed simp

lemma parse_encoded_lines:
  "list_all wf_entry es \<Longrightarrow>
     parse_menu_lines i (map (\<lambda>e. encode_entry e @ [13]) es @ [[]]) = Inr es"
proof (induction es arbitrary: i)
  case Nil
  show ?case by (simp add: parse_menu_line_def strip_suffix_def)
next
  case (Cons e es)
  then show ?case by (simp add: parse_encoded_line)
qed

lemma length_to_bytes: "wf_menu m \<Longrightarrow> length (to_bytes m) \<le> MAX_MENU_BYTES"
proof -
  assume m: "wf_menu m"
  have "length (concat (map (\<lambda>e. encode_entry e @ [13, 10]) es)) \<le> 42 * length es"
    if "list_all wf_entry es" for es
    using that by (induction es) (auto simp: length_encode_entry wf_entry_def MAX_MENU_LINE_BYTES_def)
  moreover have "length (entries m) \<le> 256"
  proof -
    have "length (entries m) = card (set (map command (entries m)))"
      using m distinct_card [of "map command (entries m)"] by (simp add: wf_menu_def)
    also have "\<dots> \<le> card (UNIV :: u8 set)" by (rule card_mono) simp_all
    finally show ?thesis by (simp add: card_word)
  qed
  ultimately show ?thesis
    using m by (fastforce simp: to_bytes_def wf_menu_def MAX_MENU_BYTES_def)
qed

lemma parse_to_bytes: "wf_menu m \<Longrightarrow> menu_parse (to_bytes m) = Inr m"
proof -
  assume m: "wf_menu m"
  define body where "body = concat (map (\<lambda>e. encode_entry e @ [13, 10]) (entries m))"
  have last: "body \<noteq> [] \<Longrightarrow> last body = 10"
    by (cases "entries m" rule: rev_cases) (auto simp: body_def)
  have "parse_menu_lines 0 (split_on 10 body) = Inr (entries m)"
    using m by (simp add: body_def split_body parse_encoded_lines wf_menu_def)
  moreover have "validate_unique_commands (entries m) = Inr ()"
    using m by (simp add: validate_unique_commands_def unique_commands_ok wf_menu_def)
  ultimately show ?thesis
    using last length_to_bytes [OF m]
    by (cases "dos_eof m") (auto simp: menu_parse_def to_bytes_def Let_def body_def [symmetric])
qed

section \<open>Parsing yields well-formed menus\<close>

lemma strip_or_subset: "set (unwrap_or (strip_suffix s xs) xs) \<subseteq> set xs"
  by (cases "strip_suffix s xs") (auto dest!: strip_suffix_SomeD)

lemma upper_byte_field: "field_byte b \<Longrightarrow> field_byte (upper_byte b)"
proof -
  assume b: "field_byte b"
  have "field_byte c \<longleftrightarrow> unat c \<notin> {10, 44, 0, 26}" for c :: u8
    by (auto simp: field_byte_def word_eq_iff_unsigned [where ?'a = nat] simp flip: unat_eq_zero)
  with b show ?thesis
    by (auto simp: unat_upper_byte ascii_lower_def split: if_splits)
qed

lemma parse_line_fields:
  assumes "parse_menu_line i raw = Inr (Some e)"
  obtains line f0 f1 f2 f3 f4 sec where
    "line = unwrap_or (strip_suffix [13] raw) raw" "split_on 44 line = [[f0], f1, f2, f3, [f4]]"
    "length line \<le> MAX_MENU_LINE_BYTES" "list_all (\<lambda>b. b \<noteq> 0 \<and> b \<noteq> 26) (f0 # f1 @ f2 @ [f4])"
    "parse_uint 65535 (from_bytes f3) = Some sec"
    "e = \<lparr>command = upper_byte f0, description = f1, reserved = f2, required_security = of_nat sec, ident = f4\<rparr>"
proof -
  define line where "line = unwrap_or (strip_suffix [13] raw) raw"
  define fs where "fs = split_on 44 line"
  from assms obtain sec where
      len: "length fs = 5" and line: "length line \<le> MAX_MENU_LINE_BYTES"
    and f0: "validate_single_field_at (i + 1) ''command'' (fs ! 0) = Inr ()"
    and f4: "validate_single_field_at (i + 1) ''identifier'' (fs ! 4) = Inr ()"
    and f1: "validate_field_at (i + 1) ''description'' (fs ! 1) = Inr ()"
    and f2: "validate_field_at (i + 1) ''reserved'' (fs ! 2) = Inr ()"
    and sec: "parse_uint 65535 (from_bytes (fs ! 3)) = Some sec"
    and e: "e = \<lparr>command = upper_byte (hd (fs ! 0)), description = fs ! 1, reserved = fs ! 2,
              required_security = of_nat sec, ident = hd (fs ! 4)\<rparr>"
    by (auto simp: parse_menu_line_def Let_def result_simps line_def [symmetric] fs_def [symmetric]
        dest: from_utf8_SomeD split: if_splits)
  from len have fs: "fs = [fs ! 0, fs ! 1, fs ! 2, fs ! 3, fs ! 4]"
    by (auto simp: eval_nat_numeral length_Suc_conv)
  from f0 f4 have one: "fs ! 0 = [hd (fs ! 0)]" "fs ! 4 = [hd (fs ! 4)]"
    by (auto simp: validate_single_field_at_def length_Suc_conv split: if_splits)
  from fs one have split: "split_on 44 line = [[hd (fs ! 0)], fs ! 1, fs ! 2, fs ! 3, [hd (fs ! 4)]]"
    by (simp add: fs_def [symmetric])
  show ?thesis
    by (rule that [OF line_def split line _ sec e])
      (use f0 f1 f2 f4 in \<open>auto simp: validate_single_field_at_def validate_field_at_def list_all_iff
        split: if_splits\<close>)
qed

lemma parse_line_wf:
  assumes "parse_menu_line i raw = Inr (Some e)" and "10 \<notin> set raw"
  shows "wf_entry e"
  using assms(1)
proof (rule parse_line_fields)
  fix line f0 f1 f2 f3 f4 sec
  assume line: "line = unwrap_or (strip_suffix [13] raw) raw"
    and split: "split_on 44 line = [[f0], f1, f2, f3, [f4]]"
    and len: "length line \<le> MAX_MENU_LINE_BYTES"
    and bad: "list_all (\<lambda>b. b \<noteq> 0 \<and> b \<noteq> 26) (f0 # f1 @ f2 @ [f4])"
    and sec: "parse_uint 65535 (from_bytes f3) = Some sec"
    and e: "e = \<lparr>command = upper_byte f0, description = f1, reserved = f2, required_security = of_nat sec, ident = f4\<rparr>"
  have no_lf: "10 \<notin> set line"
    using assms(2) strip_or_subset [of "[13]" raw] by (auto simp: line)
  have pieces: "\<forall>b \<in> set q. b \<noteq> 44 \<and> b \<noteq> 10" if "q \<in> set (split_on 44 line)" for q
    using split_by_pieces [OF that] split_by_subset [OF that] no_lf by blast
  have fields: "field_byte f0" "field_byte f4" "list_all field_byte f1" "list_all field_byte f2"
    using pieces [of "[f0]", unfolded split] pieces [of "[f4]", unfolded split]
      pieces [of f1, unfolded split] pieces [of f2, unfolded split] bad
    by (simp_all add: field_byte_def list_all_iff)
  have "sec \<le> 65535" using sec by (rule parse_uint_bound)
  then have "length (security_text e) \<le> length f3"
    using parse_uint_shorter [OF sec] by (simp add: security_text_def e unat_of_nat_u16)
  moreover have "length line + 1 = length f1 + length f2 + length f3 + 7"
    using length_split_by [of line "\<lambda>x. x = 44"] by (simp add: split)
  ultimately have "encoded_len e \<le> MAX_MENU_LINE_BYTES"
    using len by (simp add: encoded_len_def e)
  with fields show ?thesis
    by (simp add: wf_entry_def e upper_byte_field)
qed

lemma parse_lines_wf:
  "parse_menu_lines i ls = Inr es \<Longrightarrow> \<forall>l \<in> set ls. 10 \<notin> set l \<Longrightarrow> list_all wf_entry es"
proof (induction ls arbitrary: i es)
  case (Cons l ls)
  then show ?case
    by (auto simp: result_simps split: option.splits) (blast intro: parse_line_wf)
qed simp

lemma menu_parse_wf: "menu_parse b = Inr m \<Longrightarrow> wf_menu m"
proof -
  assume p: "menu_parse b = Inr m"
  define body where "body = (if b \<noteq> [] \<and> last b = 26 then butlast b else b)"
  have es: "parse_menu_lines 0 (split_on 10 body) = Inr (entries m)"
    and un: "validate_unique_commands (entries m) = Inr ()"
    using p by (auto simp: menu_parse_def Let_def result_simps body_def simp del: split_by.simps
        parse_menu_lines.simps split: if_splits)
  have "\<forall>l \<in> set (split_on 10 body). 10 \<notin> set l"
    by (auto dest: split_by_pieces)
  with es un show ?thesis
    by (auto simp: wf_menu_def validate_unique_commands_def unique_commands_ok dest: parse_lines_wf)
qed

definition menu_encode :: "menu_file \<Rightarrow> menu_error + bytes" where
  "menu_encode m = Inr (to_bytes m)"

interpretation menu: strict_codec menu_encode menu_parse wf_menu
  by unfold_locales (auto simp: menu_encode_def parse_to_bytes menu_parse_wf)

section \<open>Lookup\<close>

lemma find_SomeI: "List.find P xs = Some x \<longleftrightarrow> (\<exists>i < length xs. P (xs ! i) \<and> x = xs ! i \<and> (\<forall>j < i. \<not> P (xs ! j)))"
  by (rule find_Some_iff)

lemma find_unique:
  "distinct (map f xs) \<Longrightarrow> x \<in> set xs \<Longrightarrow> List.find (\<lambda>y. f y = f x \<and> Q y) xs = (if Q x then Some x else None)"
  by (induction xs) (auto simp: find_None_iff image_iff)

section \<open>Entries built by the constructor\<close>

lemma menu_entry_new_wf:
  "menu_entry_new c d r s i = Inr e \<Longrightarrow> 10 \<notin> set (c # i # d @ r) \<Longrightarrow> wf_entry e"
  by (auto simp: menu_entry_new_def Let_def result_simps validate_single_field_at_def
      validate_field_at_def wf_entry_def field_byte_def list_all_iff upper_byte_field [unfolded field_byte_def]
      split: if_splits)

lemma menu_file_new_wf: "menu_file_new es = Inr m \<Longrightarrow> list_all wf_entry es \<Longrightarrow> wf_menu m \<and> entries m = es"
  by (auto simp: menu_file_new_def wf_menu_def validate_unique_commands_def unique_commands_ok result_simps)

text \<open>
  The constructor does not refuse a line feed, so a description that holds one is written over
  two lines and does not parse back.
\<close>

lemma constructor_accepts_line_feed:
  "\<exists>e m. menu_entry_new 65 [10] [] 0 66 = Inr e \<and> menu_file_new [e] = Inr m \<and>
     menu_parse (to_bytes m) = Inl (FieldCount 1 2)"
  by (simp add: menu_entry_new_def menu_file_new_def validate_unique_commands_def Let_def
      validate_single_field_at_def validate_field_at_def encoded_len_def security_text_def
      MAX_MENU_LINE_BYTES_def MAX_MENU_BYTES_def show_nat.simps digit_def upper_byte_def ascii_defs
      to_bytes_def encode_entry_def menu_parse_def parse_menu_line_def strip_suffix_def as_bytes_def
      byte_of_def ord_def)

section \<open>Properties\<close>

text \<open>
  Menu files round-trip: a menu is the result of parsing some file exactly when writing it
  out and parsing again returns it unchanged (its entries, their order and the end-of-file
  byte), and those are exactly the well-formed menus.
\<close>

theorem menu_round_trip:
  "(\<exists>b. menu_parse b = Inr m) = wf_menu m \<and> wf_menu m = (menu_parse (to_bytes m) = Inr m)"
  using menu.valid_iff_decodable [of m] menu.round_trip [of m] by (auto simp: menu_encode_def)

text \<open>
  In a menu that was parsed, looking a command up by its letter finds its one entry exactly
  when the caller's security level reaches the level of the entry, and nothing otherwise.
\<close>

theorem find_command_unique:
  assumes "menu_parse b = Inr m" and "e \<in> set (entries m)"
  shows "find_command m (command e) sec = (if required_security e \<le> sec then Some e else None)"
proof -
  from assms have "wf_menu m" by (blast dest: menu_parse_wf)
  with assms(2) have "distinct (map command (entries m))" and "upper_byte (command e) = command e"
    by (auto simp: wf_menu_def wf_entry_def list_all_iff)
  with find_unique [OF this(1) assms(2)] show ?thesis
    by (simp add: find_command_def)
qed

definition menu_sample :: menu_file where
  "menu_sample = \<lparr>entries = [\<lparr>command = 77, description = [60, 77, 62], reserved = [],
     required_security = 5, ident = 69\<rparr>], dos_eof = True\<rparr>"

lemma wf_menu_sample: "wf_menu menu_sample"
  by (simp add: wf_menu_def menu_sample_def wf_entry_def field_byte_def upper_byte_def ascii_defs
      encoded_len_def security_text_def show_nat.simps MAX_MENU_LINE_BYTES_def)

theorem find_command_unique_witness:
  "find_command menu_sample 77 10 = Some (hd (entries menu_sample)) \<and>
   find_command menu_sample 77 4 = None"
proof -
  have p: "menu_parse (to_bytes menu_sample) = Inr menu_sample"
    by (rule parse_to_bytes [OF wf_menu_sample])
  have e: "hd (entries menu_sample) \<in> set (entries menu_sample)"
    by (simp add: menu_sample_def)
  from find_command_unique [OF p e, of 10] find_command_unique [OF p e, of 4] show ?thesis
    by (simp add: menu_sample_def)
qed

end
