(* ===== verification/Legacy_Reader.thy ===== *)
theory Legacy_Reader
  imports Interfaces
begin

text \<open>
  \<open>crates/sf-legacy/src/short_string.rs\<close>, \<open>reader.rs\<close> and \<open>error.rs\<close>: Turbo Pascal short
  strings in fixed fields and the bounds-checked cursor that reads them.  A read returns its
  result with the reader it leaves behind, so that what an error does to the position is part
  of the model.  A slice expression \<open>&field[i..j]\<close> panics out of range; it is \<open>get_range\<close>
  here, with \<open>None\<close> for the panic.
\<close>

section \<open>Errors\<close>

datatype parse_error =
    UnexpectedEof nat nat nat          \<comment> \<open>offset, needed, remaining\<close>
  | InvalidFieldSize nat nat           \<comment> \<open>expected, actual\<close>
  | InvalidShortStringLength nat nat nat \<comment> \<open>offset, length, storage capacity\<close>
  | ArithmeticOverflow

definition usize_checked_add :: "nat \<Rightarrow> nat \<Rightarrow> nat option" where
  "usize_checked_add a b = (if a + b < 2 ^ 64 then Some (a + b) else None)"

section \<open>Short strings\<close>

record pascal_short_string =
  field :: bytes
  len :: nat

definition value_bytes :: "pascal_short_string \<Rightarrow> bytes option" where
  "value_bytes p = get_range (field p) 1 (1 + len p)"

definition storage_bytes :: "pascal_short_string \<Rightarrow> bytes option" where
  "storage_bytes p = get_range (field p) 1 (length (field p))"

definition stale_bytes :: "pascal_short_string \<Rightarrow> bytes option" where
  "stale_bytes p = get_range (field p) (len p + 1) (length (field p))"

definition is_empty_short :: "pascal_short_string \<Rightarrow> bool" where
  "is_empty_short p \<longleftrightarrow> len p = 0"

definition parse_pascal_short_string :: "bytes \<Rightarrow> nat \<Rightarrow> parse_error + pascal_short_string" where
  "parse_pascal_short_string fld capacity =
     attempt (ok_or (usize_checked_add capacity 1) ArithmeticOverflow) (\<lambda>expected.
       if length fld \<noteq> expected then Inl (InvalidFieldSize expected (length fld))
       else
         (let n = unat (hd fld) in
          if capacity < n then Inl (InvalidShortStringLength 0 n capacity)
          else Inr \<lparr>field = fld, len = n\<rparr>))"

definition wf_short :: "nat \<Rightarrow> pascal_short_string \<Rightarrow> bool" where
  "wf_short capacity p \<longleftrightarrow>
     length (field p) = capacity + 1 \<and> len p \<le> capacity \<and> len p = unat (hd (field p))"

lemma parse_short_wf: "parse_pascal_short_string f c = Inr p \<Longrightarrow> wf_short c p \<and> field p = f"
  by (auto simp: parse_pascal_short_string_def wf_short_def usize_checked_add_def Let_def
      result_simps split: if_splits)

lemma wf_short_values:
  "wf_short c p \<Longrightarrow> \<exists>v s. value_bytes p = Some v \<and> stale_bytes p = Some s \<and>
     storage_bytes p = Some (v @ s) \<and> length v = len p"
proof -
  assume p: "wf_short c p"
  define v where "v = take (len p) (drop 1 (field p))"
  define s where "s = drop (len p + 1) (field p)"
  have "s = drop (len p) (drop 1 (field p))"
    by (simp add: s_def)
  then have "v @ s = drop 1 (field p)"
    unfolding v_def by (simp only: append_take_drop_id)
  with p show ?thesis
    by (intro exI [of _ v] exI [of _ s])
      (simp add: wf_short_def value_bytes_def stale_bytes_def storage_bytes_def get_range_def v_def s_def)
qed

section \<open>The reader\<close>

record reader =
  input :: bytes
  position :: nat

definition new_reader :: "bytes \<Rightarrow> reader" where
  "new_reader bs = \<lparr>input = bs, position = 0\<rparr>"

definition remaining :: "reader \<Rightarrow> nat" where
  "remaining r = length (input r) - position r"

definition take_bytes :: "nat \<Rightarrow> reader \<Rightarrow> (parse_error + bytes) \<times> reader" where
  "take_bytes n r =
     (case usize_checked_add (position r) n of
        None \<Rightarrow> (Inl ArithmeticOverflow, r)
      | Some e \<Rightarrow>
          (case get_range (input r) (position r) e of
             None \<Rightarrow> (Inl (UnexpectedEof (position r) n (remaining r)), r)
           | Some bs \<Rightarrow> (Inr bs, r\<lparr>position := e\<rparr>)))"

definition read_u8 :: "reader \<Rightarrow> (parse_error + u8) \<times> reader" where
  "read_u8 r = (case take_bytes 1 r of (x, r') \<Rightarrow> (attempt x (\<lambda>bs. Inr (hd bs)), r'))"

definition read_u16_le :: "reader \<Rightarrow> (parse_error + u16) \<times> reader" where
  "read_u16_le r =
     (case take_bytes 2 r of (x, r') \<Rightarrow> (attempt x (\<lambda>bs. Inr (u16_of (bs ! 1) (bs ! 0))), r'))"

text \<open>The error of a short string names the offset of its field.\<close>

definition parse_pascal_short_string_at ::
    "bytes \<Rightarrow> nat \<Rightarrow> nat \<Rightarrow> parse_error + pascal_short_string" where
  "parse_pascal_short_string_at fld capacity offset =
     (case parse_pascal_short_string fld capacity of
        Inl (InvalidShortStringLength _ n c) \<Rightarrow> Inl (InvalidShortStringLength offset n c)
      | other \<Rightarrow> other)"

definition read_short_string :: "nat \<Rightarrow> reader \<Rightarrow> (parse_error + pascal_short_string) \<times> reader" where
  "read_short_string capacity r =
     (case usize_checked_add capacity 1 of
        None \<Rightarrow> (Inl ArithmeticOverflow, r)
      | Some n \<Rightarrow>
          (case take_bytes n r of
             (Inl e, r') \<Rightarrow> (Inl e, r')
           | (Inr fld, r') \<Rightarrow> (parse_pascal_short_string_at fld capacity (position r), r')))"

definition reader_inv :: "reader \<Rightarrow> bool" where
  "reader_inv r \<longleftrightarrow> position r \<le> length (input r) \<and> length (input r) < 2 ^ 64"

lemma reader_inv_new [simp]: "length bs < 2 ^ 64 \<Longrightarrow> reader_inv (new_reader bs)"
  by (simp add: reader_inv_def new_reader_def)

lemma take_bytes_Inr:
  "take_bytes n r = (Inr bs, r') \<Longrightarrow>
     input r' = input r \<and> position r' = position r + n \<and> position r' \<le> length (input r) \<and>
     bs = take n (drop (position r) (input r)) \<and> length bs = n"
  by (auto simp: take_bytes_def usize_checked_add_def get_range_def split: option.splits if_splits)

lemma take_bytes_Inl: "take_bytes n r = (Inl e, r') \<Longrightarrow> r' = r"
  by (auto simp: take_bytes_def split: option.splits)

lemma take_bytes_succeeds:
  "reader_inv r \<Longrightarrow> (\<exists>bs r'. take_bytes n r = (Inr bs, r')) \<longleftrightarrow> n \<le> remaining r"
  by (auto simp: take_bytes_def usize_checked_add_def get_range_def reader_inv_def remaining_def
      split: option.splits)

text \<open>The operations of the reader, and a step that performs one and keeps its bytes.\<close>

datatype read_op = TakeOp nat | U8Op | U16Op | ShortOp nat

definition read_width :: "read_op \<Rightarrow> nat" where
  "read_width op = (case op of TakeOp n \<Rightarrow> n | U8Op \<Rightarrow> 1 | U16Op \<Rightarrow> 2 | ShortOp c \<Rightarrow> c + 1)"

definition read_step :: "reader \<Rightarrow> read_op \<Rightarrow> parse_error + reader" where
  "read_step r op =
     (case op of
        TakeOp n \<Rightarrow> (case take_bytes n r of (x, r') \<Rightarrow> attempt x (\<lambda>_. Inr r'))
      | U8Op \<Rightarrow> (case read_u8 r of (x, r') \<Rightarrow> attempt x (\<lambda>_. Inr r'))
      | U16Op \<Rightarrow> (case read_u16_le r of (x, r') \<Rightarrow> attempt x (\<lambda>_. Inr r'))
      | ShortOp c \<Rightarrow> (case read_short_string c r of (x, r') \<Rightarrow> attempt x (\<lambda>_. Inr r')))"

lemma read_step_take:
  "read_step r op = Inr r' \<Longrightarrow> \<exists>bs. take_bytes (read_width op) r = (Inr bs, r')"
  by (cases op)
    (auto simp: read_step_def read_width_def read_u8_def read_u16_le_def read_short_string_def
      usize_checked_add_def result_simps split: prod.splits option.splits sum.splits if_splits)

interpretation reading: monotone_machine read_step reader_inv position
proof unfold_locales
  fix r op r'
  assume inv: "reader_inv r" and "read_step r op = Inr r'"
  then obtain bs where bs: "take_bytes (read_width op) r = (Inr bs, r')"
    by (blast dest: read_step_take)
  from take_bytes_Inr [OF bs] inv show "reader_inv r'" and "position r \<le> position r'"
    by (auto simp: reader_inv_def)
qed

lemma read_step_frame:
  "read_step r op = Inr r' \<Longrightarrow> input r' = input r \<and> position r' = position r + read_width op"
  by (auto dest!: read_step_take take_bytes_Inr)

lemma run_reads_frame:
  "run_steps read_step r ops = Inr r' \<Longrightarrow>
     input r' = input r \<and> position r' = position r + sum_list (map read_width ops)"
proof (induction ops arbitrary: r)
  case (Cons op ops)
  from Cons.prems obtain s where s: "read_step r op = Inr s" and "run_steps read_step s ops = Inr r'"
    by (auto simp: result_simps)
  from Cons.IH [OF this(2)] read_step_frame [OF s] show ?case by simp
qed simp

section \<open>Properties\<close>

text \<open>
  Reading never leaves the input: after any sequence of reads that succeed, the position
  is the sum of the widths read, it is at most the length of the input, the bytes remaining
  are exactly the rest, and the input is unchanged.
\<close>

theorem reads_stay_in_bounds:
  assumes "length bs < 2 ^ 64" and "run_steps read_step (new_reader bs) ops = Inr r"
  shows "input r = bs \<and> position r = sum_list (map read_width ops) \<and> position r \<le> length bs \<and>
    position r + remaining r = length bs"
proof -
  have "reader_inv r"
    by (rule reading.run_inv [OF reader_inv_new [OF assms(1)] assms(2)])
  with run_reads_frame [OF assms(2)] show ?thesis
    by (simp add: reader_inv_def new_reader_def remaining_def)
qed

theorem reads_stay_in_bounds_witness:
  "run_steps read_step (new_reader [1, 2, 65, 66]) [U8Op, ShortOp 2] = Inr \<lparr>input = [1, 2, 65, 66], position = 4\<rparr>
   \<and> position (\<lparr>input = [1, 2, 65, 66], position = 4\<rparr> :: reader) \<le> length [1, 2, 65, 66 :: u8]"
proof -
  have r: "run_steps read_step (new_reader [1, 2, 65, 66]) [U8Op, ShortOp 2]
      = Inr \<lparr>input = [1, 2, 65, 66], position = 4\<rparr>"
    by (simp add: read_step_def read_u8_def read_short_string_def take_bytes_def new_reader_def
        usize_checked_add_def get_range_def parse_pascal_short_string_at_def
        parse_pascal_short_string_def Let_def slice_eval)
  have "length [1, 2, 65, 66 :: u8] < 2 ^ 64" by simp
  from reads_stay_in_bounds [OF this r] r show ?thesis by simp
qed

text \<open>
  A short string splits its field: parsing succeeds exactly when the field has one byte
  more than the capacity and its length byte is within the capacity, and then neither slice
  panics, the value has the length of the length byte, and value and stale bytes together are
  the storage, so no byte of the field is lost.
\<close>

theorem short_string_splits_field:
  assumes "c + 1 < 2 ^ 64"
  shows "(\<exists>p. parse_pascal_short_string f c = Inr p) = (length f = c + 1 \<and> unat (hd f) \<le> c) \<and>
    (case parse_pascal_short_string f c of
       Inl e \<Rightarrow> True
     | Inr p \<Rightarrow> \<exists>v s. value_bytes p = Some v \<and> stale_bytes p = Some s \<and>
         storage_bytes p = Some (v @ s) \<and> length v = unat (hd f) \<and> f = hd f # v @ s)"
proof -
  have "(\<exists>p. parse_pascal_short_string f c = Inr p) = (length f = c + 1 \<and> unat (hd f) \<le> c)"
    using assms by (auto simp: parse_pascal_short_string_def usize_checked_add_def Let_def)
  moreover have "\<exists>v s. value_bytes p = Some v \<and> stale_bytes p = Some s \<and>
      storage_bytes p = Some (v @ s) \<and> length v = unat (hd f) \<and> f = hd f # v @ s"
    if p: "parse_pascal_short_string f c = Inr p" for p
  proof -
    from parse_short_wf [OF p] have wf: "wf_short c p" and f: "field p = f" by auto
    from wf_short_values [OF wf] obtain v s where vs: "value_bytes p = Some v" "stale_bytes p = Some s"
        "storage_bytes p = Some (v @ s)" "length v = len p" by blast
    moreover have "f = hd f # v @ s"
      using vs(3) wf f by (cases f) (auto simp: storage_bytes_def get_range_def wf_short_def)
    ultimately show ?thesis
      using wf f by (auto simp: wf_short_def)
  qed
  ultimately show ?thesis by (auto split: sum.splits)
qed

theorem short_string_splits_field_witness:
  "\<exists>p. parse_pascal_short_string [3, 65, 66, 67, 88, 89] 5 = Inr p"
proof -
  have "(5::nat) + 1 < 2 ^ 64" by simp
  from short_string_splits_field [OF this, of "[3, 65, 66, 67, 88, 89]"] show ?thesis by simp
qed

end
