(* ===== verification/Legacy_Help.thy ===== *)
theory Legacy_Help
  imports Legacy_Reader
begin

text \<open>
  \<open>crates/sf-legacy/src/help.rs\<close>: SPITFIRE.HLP, a file of at most 55 fixed records of six
  Pascal short strings of capacity 60.  A record is its six 61-byte fields, length bytes and
  stale storage included.
\<close>

definition HELP_RECORD_COUNT :: nat where "HELP_RECORD_COUNT = 55"
definition HELP_LINE_CAPACITY :: nat where "HELP_LINE_CAPACITY = 60"
definition HELP_RECORD_SIZE :: nat where "HELP_RECORD_SIZE = 6 * (HELP_LINE_CAPACITY + 1)"

lemmas help_sizes = HELP_RECORD_COUNT_def HELP_LINE_CAPACITY_def HELP_RECORD_SIZE_def

datatype help_error =
    InvalidFileSize nat
  | TooManyRecords nat
  | InvalidLength nat nat nat          \<comment> \<open>record, line, length\<close>
  | HelpLineTooLong nat nat nat nat    \<comment> \<open>record, line, actual, maximum\<close>

text \<open>\<open>[[u8; 61]; 6]\<close>: the invariant of the array type is \<open>wf_record\<close>.\<close>

record help_record =
  rec_fields :: "bytes list"

definition wf_record :: "help_record \<Rightarrow> bool" where
  "wf_record r \<longleftrightarrow> length (rec_fields r) = 6 \<and>
     list_all (\<lambda>f. length f = HELP_LINE_CAPACITY + 1 \<and> unat (hd f) \<le> HELP_LINE_CAPACITY) (rec_fields r)"

record help_file =
  records :: "help_record list"

section \<open>Records\<close>

definition pad_field :: "bytes \<Rightarrow> bytes" where
  "pad_field line = of_nat (length line) # line @ replicate (HELP_LINE_CAPACITY - length line) 0"

fun from_lines_loop :: "nat \<Rightarrow> bytes list \<Rightarrow> help_error + bytes list" where
  "from_lines_loop i [] = Inr []"
| "from_lines_loop i (l # ls) =
     (if HELP_LINE_CAPACITY < length l
      then Inl (HelpLineTooLong 0 (i + 1) (length l) HELP_LINE_CAPACITY)
      else attempt (from_lines_loop (i + 1) ls) (\<lambda>fs. Inr (pad_field l # fs)))"

definition from_lines :: "bytes list \<Rightarrow> help_error + help_record" where
  "from_lines ls = attempt (from_lines_loop 0 ls) (\<lambda>fs. Inr \<lparr>rec_fields = fs\<rparr>)"

text \<open>\<open>line\<close>: the outer option is the method's result, the inner one the slice.\<close>

definition help_line :: "help_record \<Rightarrow> nat \<Rightarrow> bytes option" where
  "help_line r i =
     (if length (rec_fields r) \<le> i then None
      else (case parse_pascal_short_string (rec_fields r ! i) HELP_LINE_CAPACITY of
              Inl _ \<Rightarrow> None
            | Inr p \<Rightarrow> value_bytes p))"

fun parse_fields :: "nat \<Rightarrow> nat \<Rightarrow> nat \<Rightarrow> bytes \<Rightarrow> help_error + bytes list" where
  "parse_fields rec_no i 0 inp = Inr []"
| "parse_fields rec_no i (Suc k) inp =
     (let fld = take (HELP_LINE_CAPACITY + 1) (drop (i * (HELP_LINE_CAPACITY + 1)) inp) in
      case parse_pascal_short_string fld HELP_LINE_CAPACITY of
        Inl _ \<Rightarrow> Inl (InvalidLength rec_no (i + 1) (unat (hd fld)))
      | Inr _ \<Rightarrow> attempt (parse_fields rec_no (i + 1) k inp) (\<lambda>fs. Inr (fld # fs)))"

definition record_parse :: "bytes \<Rightarrow> nat \<Rightarrow> help_error + help_record" where
  "record_parse inp rec_no = attempt (parse_fields rec_no 0 6 inp) (\<lambda>fs. Inr \<lparr>rec_fields = fs\<rparr>)"

definition record_bytes :: "help_record \<Rightarrow> bytes" where
  "record_bytes r = concat (rec_fields r)"

section \<open>Files\<close>

definition help_new :: "help_record list \<Rightarrow> help_error + help_file" where
  "help_new rs =
     (if HELP_RECORD_COUNT < length rs then Inl (TooManyRecords (length rs))
      else Inr \<lparr>records = rs\<rparr>)"

text \<open>The loop over the \<open>as_chunks\<close> of the input, \<open>k\<close> of them left.\<close>

fun parse_records :: "nat \<Rightarrow> nat \<Rightarrow> bytes \<Rightarrow> help_error + help_record list" where
  "parse_records i 0 inp = Inr []"
| "parse_records i (Suc k) inp =
     attempt (record_parse (take HELP_RECORD_SIZE inp) (i + 1)) (\<lambda>r.
     attempt (parse_records (i + 1) k (drop HELP_RECORD_SIZE inp)) (\<lambda>rs. Inr (r # rs)))"

definition help_parse :: "bytes \<Rightarrow> help_error + help_file" where
  "help_parse inp =
     (if length inp mod HELP_RECORD_SIZE \<noteq> 0 then Inl (InvalidFileSize (length inp))
      else
        (let count = length inp div HELP_RECORD_SIZE in
         if HELP_RECORD_COUNT < count then Inl (TooManyRecords count)
         else attempt (parse_records 0 count inp) (\<lambda>rs. Inr \<lparr>records = rs\<rparr>)))"

text \<open>Record numbers are one-based.\<close>

definition help_record_at :: "help_file \<Rightarrow> nat \<Rightarrow> help_record option" where
  "help_record_at h n =
     (if n = 0 \<or> length (records h) < n then None else Some (records h ! (n - 1)))"

definition help_to_bytes :: "help_file \<Rightarrow> bytes" where
  "help_to_bytes h = concat (map record_bytes (records h))"

definition wf_help :: "help_file \<Rightarrow> bool" where
  "wf_help h \<longleftrightarrow> length (records h) \<le> HELP_RECORD_COUNT \<and> list_all wf_record (records h)"

section \<open>Lemmas\<close>

lemma parse_short_help:
  "(case parse_pascal_short_string f 60 of Inl _ \<Rightarrow> a | Inr p \<Rightarrow> b p) =
     (if length f = 61 \<and> unat (hd f) \<le> 60 then b \<lparr>field = f, len = unat (hd f)\<rparr> else a)"
  by (simp add: parse_pascal_short_string_def usize_checked_add_def help_sizes Let_def)

lemma parse_fields_ok:
  "length inp = 61 * (i + k) \<Longrightarrow> parse_fields n i k inp = Inr fs \<Longrightarrow>
     length fs = k \<and> (\<forall>f \<in> set fs. length f = 61 \<and> unat (hd f) \<le> 60) \<and> concat fs = drop (61 * i) inp"
proof (induction k arbitrary: i fs)
  case (Suc k)
  let ?f = "take 61 (drop (i * 61) inp)"
  from Suc.prems(2) obtain fs' where ok: "length ?f = 61" "unat (hd ?f) \<le> 60"
    and fs': "parse_fields n (Suc i) k inp = Inr fs'" and fs: "fs = ?f # fs'"
    by (auto simp: parse_short_help help_sizes result_simps Let_def split: if_splits)
  have "?f @ drop (61 * Suc i) inp = drop (61 * i) inp"
    using append_take_drop_id [of 61 "drop (i * 61) inp"] by (simp add: ac_simps)
  with Suc.IH [of "Suc i" fs'] Suc.prems(1) fs' ok fs show ?case by simp
qed simp

lemma parse_fields_complete:
  "list_all (\<lambda>f. length f = 61 \<and> unat (hd f) \<le> 60) fs \<Longrightarrow> length pre = 61 * i \<Longrightarrow>
     parse_fields n i (length fs) (pre @ concat fs) = Inr fs"
proof (induction fs arbitrary: pre i)
  case (Cons f fs)
  then have "parse_fields n (Suc i) (length fs) ((pre @ f) @ concat fs) = Inr fs"
    by (intro Cons.IH) simp_all
  with Cons.prems show ?case
    by (simp add: parse_short_help help_sizes Let_def mult.commute)
qed simp

lemma record_parse_wf: "length inp = 366 \<Longrightarrow> record_parse inp n = Inr r \<Longrightarrow> wf_record r \<and> record_bytes r = inp"
  using parse_fields_ok [of inp 0 6 n]
  by (auto simp: record_parse_def result_simps wf_record_def record_bytes_def help_sizes list_all_iff)

lemma record_parse_bytes: "wf_record r \<Longrightarrow> record_parse (record_bytes r) n = Inr r"
proof -
  assume r: "wf_record r"
  then have "parse_fields n 0 (length (rec_fields r)) ([] @ concat (rec_fields r)) = Inr (rec_fields r)"
    by (intro parse_fields_complete) (simp_all add: wf_record_def help_sizes)
  with r show ?thesis by (simp add: record_parse_def record_bytes_def wf_record_def)
qed

lemma length_record_bytes: "wf_record r \<Longrightarrow> length (record_bytes r) = HELP_RECORD_SIZE"
proof -
  have "list_all (\<lambda>f. length f = 61 \<and> Q f) fs \<Longrightarrow> length (concat fs) = 61 * length fs" for fs :: "bytes list" and Q
    by (induction fs) auto
  then show "wf_record r \<Longrightarrow> ?thesis"
    by (auto simp: wf_record_def record_bytes_def help_sizes)
qed

lemma parse_records_wf:
  "length inp = HELP_RECORD_SIZE * k \<Longrightarrow> parse_records i k inp = Inr rs \<Longrightarrow>
     length rs = k \<and> list_all wf_record rs \<and> concat (map record_bytes rs) = inp"
proof (induction k arbitrary: i inp rs)
  case (Suc k)
  then obtain r rs' where r: "record_parse (take HELP_RECORD_SIZE inp) (i + 1) = Inr r"
    and rs': "parse_records (i + 1) k (drop HELP_RECORD_SIZE inp) = Inr rs'" and rs: "rs = r # rs'"
    by (auto simp: result_simps)
  have "wf_record r \<and> record_bytes r = take HELP_RECORD_SIZE inp"
    using Suc.prems(1) by (intro record_parse_wf [OF _ r]) (simp add: help_sizes)
  moreover have "length (drop HELP_RECORD_SIZE inp) = HELP_RECORD_SIZE * k"
    using Suc.prems(1) by simp
  ultimately show ?case using Suc.IH [OF _ rs'] rs by simp
qed simp

lemma parse_records_complete:
  "list_all wf_record rs \<Longrightarrow> parse_records i (length rs) (concat (map record_bytes rs)) = Inr rs"
proof (induction rs arbitrary: i)
  case (Cons r rs)
  then show ?case
    using length_record_bytes [of r] by (simp add: record_parse_bytes)
qed simp

lemma length_help_to_bytes: "list_all wf_record rs \<Longrightarrow>
    length (concat (map record_bytes rs)) = HELP_RECORD_SIZE * length rs"
  by (induction rs) (auto simp: length_record_bytes)

lemma help_parse_to_bytes: "wf_help h \<Longrightarrow> help_parse (help_to_bytes h) = Inr h"
proof -
  assume h: "wf_help h"
  then have "length (help_to_bytes h) = HELP_RECORD_SIZE * length (records h)"
    by (simp add: help_to_bytes_def wf_help_def length_help_to_bytes)
  with h show ?thesis
    by (simp add: help_parse_def wf_help_def Let_def parse_records_complete help_to_bytes_def)
      (simp add: help_sizes)
qed

lemma help_parse_wf: "help_parse b = Inr h \<Longrightarrow> wf_help h \<and> help_to_bytes h = b"
proof -
  assume p: "help_parse b = Inr h"
  then have len: "length b = HELP_RECORD_SIZE * (length b div HELP_RECORD_SIZE)"
    by (auto simp: help_parse_def split: if_splits)
  from p obtain rs where "parse_records 0 (length b div HELP_RECORD_SIZE) b = Inr rs"
    and "length b div HELP_RECORD_SIZE \<le> HELP_RECORD_COUNT" and "h = \<lparr>records = rs\<rparr>"
    by (auto simp: help_parse_def Let_def result_simps split: if_splits)
  with parse_records_wf [OF len] show ?thesis
    by (simp add: wf_help_def help_to_bytes_def)
qed

definition help_encode :: "help_file \<Rightarrow> help_error + bytes" where
  "help_encode h = Inr (help_to_bytes h)"

interpretation hlp: strict_codec help_encode help_parse wf_help
  by unfold_locales (auto simp: help_encode_def help_parse_to_bytes help_parse_wf)

lemma pad_field_wf: "length l \<le> 60 \<Longrightarrow> length (pad_field l) = 61 \<and> unat (hd (pad_field l)) = length l"
  by (simp add: pad_field_def help_sizes unat_of_nat_u8)

lemma from_lines_loop_ok:
  "from_lines_loop i ls = Inr fs \<Longrightarrow> fs = map pad_field ls \<and> (\<forall>l \<in> set ls. length l \<le> 60)"
  by (induction ls arbitrary: i fs) (auto simp: result_simps help_sizes split: if_splits)

section \<open>Properties\<close>

text \<open>
  SPITFIRE.HLP is kept byte for byte: a file the parser accepts is written back exactly as
  it was read, stale storage included, and every file of well-formed records is accepted and
  read back as the records it was written from.
\<close>

theorem help_file_bytes_kept:
  "(help_parse b = Inr h) = (wf_help h \<and> help_to_bytes h = b)"
  using hlp.valid_iff_decodable [of h] hlp.round_trip [of h] help_parse_wf [of b h]
  by (auto simp: help_encode_def)

text \<open>
  Six lines of at most sixty bytes make a record, and each of the six is read back exactly;
  a longer line is refused with its number and length.
\<close>

theorem from_lines_read_back:
  assumes "length ls = 6" and "i < 6"
  shows "case from_lines ls of
      Inr r \<Rightarrow> wf_record r \<and> help_line r i = Some (ls ! i)
    | Inl e \<Rightarrow> \<exists>j < 6. e = HelpLineTooLong 0 (j + 1) (length (ls ! j)) 60 \<and> 60 < length (ls ! j)"
proof (cases "from_lines ls")
  case (Inr r)
  then have fs: "rec_fields r = map pad_field ls" and short: "\<forall>l \<in> set ls. length l \<le> 60"
    by (auto simp: from_lines_def result_simps dest: from_lines_loop_ok)
  let ?f = "pad_field (ls ! i)"
  from short assms have l: "length (ls ! i) \<le> 60" by simp
  have "wf_record r"
    using assms short by (simp add: wf_record_def fs help_sizes list_all_iff pad_field_wf)
  moreover have "value_bytes \<lparr>field = ?f, len = length (ls ! i)\<rparr> = Some (ls ! i)"
    using l by (simp add: value_bytes_def get_range_def pad_field_def)
  ultimately show ?thesis
    using Inr assms l pad_field_wf [OF l] by (simp add: help_line_def help_sizes parse_short_help fs)
next
  case (Inl e)
  have "from_lines_loop k ls = Inl e \<Longrightarrow>
      \<exists>j < length ls. e = HelpLineTooLong 0 (k + j + 1) (length (ls ! j)) 60 \<and> 60 < length (ls ! j)" for k
  proof (induction ls arbitrary: k)
    case (Cons l ls)
    show ?case
    proof (cases "60 < length l")
      case True
      with Cons.prems show ?thesis by (intro exI [of _ 0]) (simp add: help_sizes)
    next
      case False
      with Cons.prems have "from_lines_loop (k + 1) ls = Inl e"
        by (simp add: help_sizes result_simps)
      from Cons.IH [OF this] obtain j where "j < length ls"
        "e = HelpLineTooLong 0 (k + 1 + j + 1) (length (ls ! j)) 60" "60 < length (ls ! j)" by blast
      then show ?thesis by (intro exI [of _ "Suc j"]) simp
    qed
  qed simp
  from this [of 0] Inl assms(1) show ?thesis
    by (auto simp: from_lines_def result_simps)
qed

theorem from_lines_read_back_witness:
  "\<exists>r. from_lines [[65, 66], [], [67], [], [], [68]] = Inr r \<and> help_line r 2 = Some [67]"
proof -
  let ?ls = "[[65, 66], [], [67], [], [], [68]] :: bytes list"
  have "length ?ls = 6" and "(2::nat) < 6" by simp_all
  from from_lines_read_back [OF this] show ?thesis
    by (simp add: from_lines_def help_sizes numeral_2_eq_2)
qed

end
