(* ===== verification/Ftn_Address.thy ===== *)
theory Ftn_Address
  imports Interfaces Utf8
begin

text \<open>
  \<open>crates/sf-net/src/ftn/mod.rs\<close>: FidoNet addresses, domains and endpoints, with their
  textual forms.  An \<open>Address\<close> is only built through \<open>Address::new\<close>, so zone and net are
  never zero (\<open>wf_address\<close>); a \<open>Domain\<close> only through its parser, so it is lower case and has
  between one and 32 letters, digits and inner hyphens (\<open>wf_domain\<close>).
\<close>

datatype ftn_error =
    ErrAddress | ErrPacket | ErrProfile | ErrLimit | ErrControl | ErrEncoding
  | ErrTimestamp | ErrDirectory | ErrChecksum

datatype address = Address (zone: u16) (net: u16) (node: u16) (point: u16)

type_synonym domain = string

record endpoint =
  domain_of :: domain
  address_of :: address

definition MAX_PACKET :: nat where "MAX_PACKET = 16 * 1024 * 1024"
definition MAX_MESSAGES :: nat where "MAX_MESSAGES = 1000"
definition MAX_TEXT :: nat where "MAX_TEXT = 80 * 1024"

section \<open>Order\<close>

text \<open>The derived \<open>Ord\<close>: fields compared in declaration order.\<close>

definition address_key :: "address \<Rightarrow> nat" where
  "address_key a = ((unat (zone a) * 65536 + unat (net a)) * 65536 + unat (node a)) * 65536 + unat (point a)"

lemma pair_key_inject:
  assumes "(b::nat) < 65536" and "d < 65536" and "a * 65536 + b = c * 65536 + d"
  shows "a = c \<and> b = d"
proof -
  have "(a * 65536 + b) div 65536 = (c * 65536 + d) div 65536"
    and "(a * 65536 + b) mod 65536 = (c * 65536 + d) mod 65536"
    using assms(3) by simp_all
  then show ?thesis using assms(1,2) by simp
qed

lemma address_key_inject: "address_key a = address_key b \<Longrightarrow> a = b"
proof -
  assume k: "address_key a = address_key b"
  have "point a = point b" and s3: "(unat (zone a) * 65536 + unat (net a)) * 65536 + unat (node a) =
      (unat (zone b) * 65536 + unat (net b)) * 65536 + unat (node b)"
    using pair_key_inject [OF _ _ k [unfolded address_key_def]]
    by (auto intro: unsigned_word_eqI [where ?'a = nat])
  moreover have "node a = node b" and s2: "unat (zone a) * 65536 + unat (net a) = unat (zone b) * 65536 + unat (net b)"
    using pair_key_inject [OF _ _ s3] by (auto intro: unsigned_word_eqI [where ?'a = nat])
  moreover have "net a = net b" and "zone a = zone b"
    using pair_key_inject [OF _ _ s2] by (auto intro: unsigned_word_eqI [where ?'a = nat])
  ultimately show "a = b" by (simp add: address.expand)
qed

instantiation address :: linorder
begin

definition less_eq_address :: "address \<Rightarrow> address \<Rightarrow> bool" where
  "less_eq_address a b \<longleftrightarrow> address_key a \<le> address_key b"

definition less_address :: "address \<Rightarrow> address \<Rightarrow> bool" where
  "less_address a b \<longleftrightarrow> address_key a < address_key b"

instance
  by intro_classes (auto simp: less_eq_address_def less_address_def intro: address_key_inject)

end

section \<open>Addresses\<close>

definition wf_address :: "address \<Rightarrow> bool" where
  "wf_address a \<longleftrightarrow> zone a \<noteq> 0 \<and> net a \<noteq> 0"

definition address_new :: "u16 \<Rightarrow> u16 \<Rightarrow> u16 \<Rightarrow> u16 \<Rightarrow> ftn_error + address" where
  "address_new z n d p = (if z = 0 \<or> n = 0 then Inl ErrAddress else Inr (Address z n d p))"

definition boss :: "address \<Rightarrow> address" where
  "boss a = Address (zone a) (net a) (node a) 0"

definition with_point :: "address \<Rightarrow> u16 \<Rightarrow> address" where
  "with_point a p = Address (zone a) (net a) (node a) p"

definition two_d :: "address \<Rightarrow> u16 \<times> u16" where
  "two_d a = (net a, node a)"

definition number :: "string \<Rightarrow> ftn_error + u16" where
  "number s =
     (if s = [] \<or> 5 < length s \<or> \<not> all_digits s then Inl ErrAddress
      else attempt (ok_or (parse_uint 65535 s) ErrAddress) (\<lambda>n. Inr (of_nat n)))"

definition parse_address :: "string \<Rightarrow> ftn_error + address" where
  "parse_address s =
     attempt (ok_or (split_once CHR '':'' s) ErrAddress) (\<lambda>(z, rest).
     attempt (ok_or (split_once CHR ''/'' rest) ErrAddress) (\<lambda>(n, rest).
       (let (d, p) = unwrap_or (split_once CHR ''.'' rest) (rest, ''0'') in
        attempt (number z) (\<lambda>z.
        attempt (number n) (\<lambda>n.
        attempt (number d) (\<lambda>d.
        attempt (number p) (\<lambda>p. address_new z n d p)))))))"

definition show_u16 :: "u16 \<Rightarrow> string" where
  "show_u16 w = show_nat (unat w)"

definition show_address :: "address \<Rightarrow> string" where
  "show_address a =
     show_u16 (zone a) @ '':'' @ show_u16 (net a) @ ''/'' @ show_u16 (node a) @
     (if point a \<noteq> 0 then ''.'' @ show_u16 (point a) else [])"

section \<open>Domains and endpoints\<close>

definition domain_char :: "char \<Rightarrow> bool" where
  "domain_char c \<longleftrightarrow> ascii_alphanumeric (ord c) \<or> c = CHR ''-''"

definition valid_domain :: "string \<Rightarrow> bool" where
  "valid_domain s \<longleftrightarrow> s \<noteq> [] \<and> length s \<le> 32 \<and> list_all domain_char s \<and>
     ascii_alphanumeric (ord (hd s)) \<and> ascii_alphanumeric (ord (last s))"

definition parse_domain :: "string \<Rightarrow> ftn_error + domain" where
  "parse_domain s = (if valid_domain s then Inr (map lower_char s) else Inl ErrAddress)"

definition wf_domain :: "domain \<Rightarrow> bool" where
  "wf_domain d \<longleftrightarrow> valid_domain d \<and> map lower_char d = d"

definition wf_endpoint :: "endpoint \<Rightarrow> bool" where
  "wf_endpoint e \<longleftrightarrow> wf_domain (domain_of e) \<and> wf_address (address_of e)"

definition show_endpoint :: "endpoint \<Rightarrow> string" where
  "show_endpoint e = show_address (address_of e) @ ''@'' @ domain_of e"

definition parse_endpoint :: "string \<Rightarrow> ftn_error + endpoint" where
  "parse_endpoint s =
     attempt (ok_or (split_once CHR ''@'' s) ErrAddress) (\<lambda>(a, d).
     attempt (parse_domain d) (\<lambda>d.
     attempt (parse_address a) (\<lambda>a. Inr \<lparr>domain_of = d, address_of = a\<rparr>)))"

section \<open>Lemmas\<close>

lemma address_new_wf: "address_new z n d p = Inr a \<Longrightarrow> wf_address a"
  by (auto simp: address_new_def wf_address_def split: if_splits)

lemma address_new_parts [simp]:
  "wf_address a \<Longrightarrow> address_new (zone a) (net a) (node a) (point a) = Inr a"
  by (simp add: address_new_def wf_address_def)

lemma wf_boss [simp]: "wf_address (boss a) = wf_address a"
  by (simp add: wf_address_def boss_def)

lemma wf_with_point [simp]: "wf_address (with_point a p) = wf_address a"
  by (simp add: wf_address_def with_point_def)

lemma number_show [simp]: "number (show_u16 w) = Inr w"
proof -
  have "unat w < 10 ^ 5" by (rule less_le_trans [OF unat_less_65536]) simp
  then have "length (show_u16 w) \<le> 5"
    unfolding show_u16_def by (rule length_show_nat_le) simp
  then show ?thesis by (simp add: number_def show_u16_def)
qed

lemma number_errors: "number s = Inl e \<Longrightarrow> e = ErrAddress"
  by (auto simp: number_def result_simps split: if_splits)

lemma show_u16_no [simp]: "\<not> ascii_digit (ord c) \<Longrightarrow> c \<notin> set (show_u16 w)"
  by (simp add: show_u16_def)

lemma parse_show_address [simp]: "wf_address a \<Longrightarrow> parse_address (show_address a) = Inr a"
proof -
  assume a: "wf_address a"
  have zero: "number ''0'' = Inr 0"
    by (simp add: number_def all_digits_def ascii_digit_def ord_def parse_uint_def dec_value_def)
  show ?thesis
    using a address_new_parts [OF a]
    by (cases "point a = 0") (simp_all add: parse_address_def show_address_def zero)
qed

lemma parse_address_wf: "parse_address s = Inr a \<Longrightarrow> wf_address a"
  by (auto simp: parse_address_def result_simps Let_def case_prod_beta dest: address_new_wf)

lemma show_address_no_at [simp]: "CHR ''@'' \<notin> set (show_address a)"
  by (simp add: show_address_def)

lemma no_space_show_address [simp]: "no_space (show_address a)"
  by (simp add: show_address_def show_u16_def)

lemma alphanumeric_lower: "ascii_alphanumeric (ord (lower_char c)) \<longleftrightarrow> ascii_alphanumeric (ord c)"
  by (auto simp: ord_lower_char ascii_defs)

lemma lower_char_hyphen: "lower_char c = CHR ''-'' \<longleftrightarrow> c = CHR ''-''"
proof -
  have "ord (lower_char c) = ord CHR ''-'' \<longleftrightarrow> ord c = ord CHR ''-''"
    by (auto simp: ord_lower_char ascii_upper_def)
  then show ?thesis by (simp only: ord_inject)
qed

lemma valid_domain_lower: "valid_domain (map lower_char s) = valid_domain s"
  by (auto simp: valid_domain_def domain_char_def list_all_iff alphanumeric_lower lower_char_hyphen
      hd_map last_map)

lemma parse_domain_wf: "parse_domain s = Inr d \<Longrightarrow> wf_domain d"
  by (auto simp: parse_domain_def wf_domain_def valid_domain_lower comp_def split: if_splits)

lemma parse_domain_id [simp]: "wf_domain d \<Longrightarrow> parse_domain d = Inr d"
  by (simp add: parse_domain_def wf_domain_def)

lemma wf_domain_no_space [simp]: "wf_domain d \<Longrightarrow> no_space d"
  by (auto simp: wf_domain_def valid_domain_def domain_char_def no_space_def list_all_iff ascii_defs ord_def)

lemma parse_show_endpoint [simp]: "wf_endpoint e \<Longrightarrow> parse_endpoint (show_endpoint e) = Inr e"
  by (simp add: parse_endpoint_def show_endpoint_def wf_endpoint_def)

lemma parse_endpoint_wf: "parse_endpoint s = Inr e \<Longrightarrow> wf_endpoint e"
  by (auto simp: parse_endpoint_def result_simps wf_endpoint_def
      dest: parse_domain_wf parse_address_wf)

interpretation addr: strict_codec "\<lambda>a. Inr (show_address a) :: ftn_error + string" parse_address wf_address
  by unfold_locales (auto dest: parse_address_wf)

interpretation endp: strict_codec "\<lambda>e. Inr (show_endpoint e) :: ftn_error + string" parse_endpoint wf_endpoint
  by unfold_locales (auto dest: parse_endpoint_wf)

section \<open>Properties\<close>

text \<open>
  The textual form of an FTN endpoint identifies it: what the parser returns for any text
  is printed to a text that parses to the same endpoint, those are exactly the well-formed
  endpoints (non-zero zone and net, canonical lower-case domain), and two of them with the
  same text are equal.
\<close>

theorem endpoint_text_round_trip:
  "((\<exists>s. parse_endpoint s = Inr e) = wf_endpoint e) \<and>
   (wf_endpoint e = (parse_endpoint (show_endpoint e) = Inr e))"
  using endp.valid_iff_decodable [of e] endp.round_trip [of e] by auto

end
