(* ===== verification/Binkp_Wire.thy ===== *)
theory Binkp_Wire
  imports Ftn_Address
begin

unbundle bit_operations_syntax

text \<open>
  \<open>crates/sf-net/src/binkp.rs\<close>: BinkP frames, file offers, address lists and CRAM
  authentication.  HMAC-MD5 is third-party code: it is the parameter \<open>mac\<close> of \<open>cram\<close> and
  \<open>verify_cram\<close>.
\<close>

section \<open>Bounds and errors\<close>

definition MAX_FRAME :: nat where "MAX_FRAME = 32767"
definition MAX_COMMAND :: nat where "MAX_COMMAND = 4096"
definition MAX_ADDRESSES :: nat where "MAX_ADDRESSES = 32"
definition MAX_FILE :: nat where "MAX_FILE = 16 * 1024 * 1024"

lemmas binkp_bounds = MAX_FRAME_def MAX_COMMAND_def MAX_ADDRESSES_def MAX_FILE_def

datatype binkp_error =
    BpMalformed | BpLimit | BpAddress | BpAuthentication | BpInterrupted | BpTimeout
  | BpUnavailable | BpRefused | BpCancelled | BpCustody | BpBusy

datatype binkp_command =
    Nul | Adr | Pwd | File | Ok | Eob | Got | Err | Bsy | Get | Skip

definition command_id :: "binkp_command \<Rightarrow> u8" where
  "command_id c =
     (case c of Nul \<Rightarrow> 0 | Adr \<Rightarrow> 1 | Pwd \<Rightarrow> 2 | File \<Rightarrow> 3 | Ok \<Rightarrow> 4 | Eob \<Rightarrow> 5 | Got \<Rightarrow> 6
      | Err \<Rightarrow> 7 | Bsy \<Rightarrow> 8 | Get \<Rightarrow> 9 | Skip \<Rightarrow> 10)"

definition from_id :: "u8 \<Rightarrow> binkp_command option" where
  "from_id i =
     (if i = 0 then Some Nul else if i = 1 then Some Adr else if i = 2 then Some Pwd
      else if i = 3 then Some File else if i = 4 then Some Ok else if i = 5 then Some Eob
      else if i = 6 then Some Got else if i = 7 then Some Err else if i = 8 then Some Bsy
      else if i = 9 then Some Get else if i = 10 then Some Skip else None)"

lemma from_id_command_id: "from_id i = Some c \<longleftrightarrow> i = command_id c"
  by (auto simp: from_id_def command_id_def split: if_splits binkp_command.splits)

section \<open>Frames\<close>

datatype frame = FEmpty | FData bytes | FCommand u8 bytes

definition frame_decode :: "bytes \<Rightarrow> binkp_error + frame" where
  "frame_decode bs =
     (if length bs < 2 then Inl BpMalformed
      else
        (let header = u16_of (bs ! 0) (bs ! 1); size = unat (header AND 0x7fff) in
         if length bs \<noteq> size + 2 then Inl BpMalformed
         else if size = 0 then Inr FEmpty
         else if header AND 0x8000 = 0 then Inr (FData (drop 2 bs))
         else if MAX_COMMAND < size then Inl BpLimit
         else if 127 < bs ! 2 then Inl BpMalformed
         else
           (let args = drop 3 bs; args = unwrap_or (strip_suffix [0] args) args in
            if 0 \<in> set args then Inl BpMalformed else Inr (FCommand (bs ! 2) args))))"

definition frame_command :: "binkp_command \<Rightarrow> string \<Rightarrow> binkp_error + frame" where
  "frame_command c args =
     (if MAX_COMMAND < length args + 1 \<or> \<not> list_all (\<lambda>b. 32 \<le> ord b \<and> ord b \<le> 126) args
      then Inl BpMalformed else Inr (FCommand (command_id c) (as_bytes args)))"

definition frame_encode :: "frame \<Rightarrow> binkp_error + bytes" where
  "frame_encode f =
     (case f of
        FEmpty \<Rightarrow> Inr (be_bytes 0)
      | FData b \<Rightarrow> if length b \<le> MAX_FRAME then Inr (be_bytes (of_nat (length b)) @ b) else Inl BpLimit
      | FCommand c a \<Rightarrow>
          if c < 128 \<and> length a < MAX_COMMAND \<and> 0 \<notin> set a
          then Inr (be_bytes (0x8000 OR of_nat (length (c # a))) @ (c # a))
          else Inl BpLimit)"

definition wf_frame :: "frame \<Rightarrow> bool" where
  "wf_frame f =
     (case f of
        FEmpty \<Rightarrow> True
      | FData b \<Rightarrow> b \<noteq> [] \<and> length b \<le> MAX_FRAME
      | FCommand c a \<Rightarrow> c < 128 \<and> length a < MAX_COMMAND \<and> 0 \<notin> set a)"

lemma and_low15: "unat (w AND 0x7fff :: u16) = unat w mod 32768"
proof -
  have "(0x7fff :: u16) = mask 15" by (simp add: mask_eq_exp_minus_1)
  then have "unat (w AND 0x7fff) = unat (take_bit 15 w)" by (simp add: take_bit_eq_mask)
  also have "\<dots> = take_bit 15 (unat w)" by (rule unsigned_take_bit_eq)
  also have "\<dots> = unat w mod 32768" by (simp add: take_bit_eq_mod)
  finally show ?thesis .
qed

lemma and_high_bit: "(w AND 0x8000 :: u16) = 0 \<longleftrightarrow> unat w < 32768"
proof -
  have "(0x8000 :: u16) = push_bit 15 1" by simp
  then have "(w AND 0x8000) = 0 \<longleftrightarrow> \<not> bit w 15"
    by (metis and_exp_eq_0_iff_not_bit push_bit_of_1)
  also have "bit w 15 \<longleftrightarrow> odd (unat w div 32768)"
  proof -
    have "bit w 15 = bit (unat w) 15" by (simp add: bit_unsigned_iff)
    then show ?thesis by (simp add: bit_iff_odd)
  qed
  also have "\<not> odd (unat w div 32768) \<longleftrightarrow> unat w < 32768"
  proof -
    have "unat w div 32768 < 2" using unat_less_65536 [of w] by (simp add: less_mult_imp_div_less)
    then have "unat w div 32768 = 0 \<or> unat w div 32768 = 1" by linarith
    then show ?thesis by (auto simp: div_eq_0_iff)
  qed
  finally show ?thesis .
qed

lemma or_high_bit: "n < 32768 \<Longrightarrow> unat (0x8000 OR of_nat n :: u16) = 32768 + n"
proof -
  assume n: "n < 32768"
  have "(0x8000 :: u16) AND of_nat n = 0"
    using and_high_bit [of "of_nat n"] n by (simp add: unat_of_nat_u16 and.commute)
  then have "(0x8000 :: u16) OR of_nat n = 0x8000 + of_nat n"
    by (simp add: disjunctive_add_eq_or)
  also have "\<dots> = of_nat (32768 + n)" by simp
  finally show ?thesis using n by (simp only: unat_of_nat_u16) simp
qed


lemma u16_of_be_bytes [simp]: "u16_of (be_bytes w ! 0) (be_bytes w ! Suc 0) = w"
  by (simp add: be_bytes_def)

lemma frame_decode_encode: "wf_frame f \<Longrightarrow> frame_encode f = Inr b \<Longrightarrow> frame_decode b = Inr f"
proof (cases f)
  case FEmpty
  then show "frame_encode f = Inr b \<Longrightarrow> frame_decode b = Inr f"
    by (auto simp: frame_encode_def frame_decode_def be_bytes_def and_low15)
next
  case (FData d)
  assume "wf_frame f" and "frame_encode f = Inr b"
  with FData have b: "b = be_bytes (of_nat (length d)) @ d" and d: "d \<noteq> []" "length d < 32768"
    by (auto simp: frame_encode_def wf_frame_def binkp_bounds)
  have u: "unat (of_nat (length d) :: u16) = length d" using d by (simp add: unat_of_nat_u16)
  have "(of_nat (length d) :: u16) AND 0x8000 = 0" using u d(2) by (simp only: and_high_bit)
  with u d show ?thesis
    by (simp add: b FData frame_decode_def Let_def and_low15 be_bytes_def)
next
  case (FCommand c a)
  assume "wf_frame f" and "frame_encode f = Inr b"
  with FCommand have b: "b = be_bytes (0x8000 OR of_nat (length (c # a))) @ c # a"
    and c: "c < 128" "length a < 4096" "0 \<notin> set a"
    by (auto simp: frame_encode_def wf_frame_def binkp_bounds split: if_splits)
  define h where "h = (0x8000 OR of_nat (length (c # a)) :: u16)"
  have b': "b = be_bytes h @ c # a" by (simp only: b h_def)
  have u: "unat h = 32768 + (length a + 1)"
    unfolding h_def using c(2) by (subst or_high_bit) simp_all
  have "h AND 0x8000 \<noteq> 0" using and_high_bit [of h] u by simp
  moreover have "unat (h AND 0x7fff) = length a + 1" using u c(2) by (simp add: and_low15 mod_if)
  moreover have "\<not> 127 < c" using c(1) by (simp add: word_less_nat_alt word_le_nat_alt)
  moreover have "unwrap_or (strip_suffix [0] a) a = a"
    using c(3) by (cases "strip_suffix [0] a") (auto dest!: strip_suffix_SomeD)
  ultimately show ?thesis
    using c by (simp add: b' FCommand frame_decode_def Let_def be_bytes_def binkp_bounds)
qed

lemma frame_decode_wf: "frame_decode b = Inr f \<Longrightarrow> wf_frame f"
proof -
  assume d: "frame_decode b = Inr f"
  define h where "h = u16_of (b ! 0) (b ! 1)"
  have len: "2 \<le> length b" "length b = unat (h AND 0x7fff) + 2"
    using d by (auto simp: frame_decode_def Let_def h_def split: if_splits)
  have size: "unat (h AND 0x7fff) < 32768" by (simp add: and_low15)
  have sub: "length (unwrap_or (strip_suffix [0] xs) xs) \<le> length xs" for xs :: bytes
    by (cases "strip_suffix [0] xs") (auto dest!: strip_suffix_SomeD)
  show ?thesis
  proof (cases f)
    case (FData x)
    with d len size show ?thesis
      by (auto simp: frame_decode_def Let_def wf_frame_def h_def binkp_bounds split: if_splits)
  next
    case (FCommand c a)
    with d have c: "\<not> 127 < c" "0 \<notin> set a" "length b \<le> 4098" "a = unwrap_or (strip_suffix [0] (drop 3 b)) (drop 3 b)"
      and ne: "length b \<noteq> 2"
      by (auto simp: frame_decode_def Let_def binkp_bounds split: if_splits)
    have "length a \<le> length (drop 3 b)" using sub [of "drop 3 b"] c(4) by simp
    with c len ne show ?thesis
      by (simp add: FCommand wf_frame_def binkp_bounds word_less_nat_alt)
  qed (simp add: wf_frame_def)
qed

lemma frame_encode_total: "wf_frame f \<Longrightarrow> \<exists>b. frame_encode f = Inr b"
  by (auto simp: frame_encode_def wf_frame_def split: frame.splits)

interpretation frm: strict_codec frame_encode frame_decode wf_frame
  by unfold_locales (auto intro: frame_decode_encode frame_encode_total frame_decode_wf)

lemma frame_decode_length: "frame_decode b = Inr f \<Longrightarrow>
    2 \<le> length b \<and> length b = unat (u16_of (b ! 0) (b ! 1)) mod 32768 + 2"
  by (auto simp: frame_decode_def Let_def and_low15 split: if_splits)

lemma frame_command_wf: "frame_command c s = Inr f \<Longrightarrow> wf_frame f"
proof -
  assume f: "frame_command c s = Inr f"
  have "command_id c < 128" by (cases c) (simp_all add: command_id_def)
  moreover have "0 \<notin> set (as_bytes s)"
  proof
    assume "0 \<in> set (as_bytes s)"
    then obtain ch where ch: "ch \<in> set s" "byte_of ch = 0" by (auto simp: as_bytes_def)
    then have "ord ch = 0" by (metis unat_byte_of unat_0)
    with ch f show False by (auto simp: frame_command_def list_all_iff split: if_splits)
  qed
  ultimately show ?thesis
    using f by (auto simp: frame_command_def wf_frame_def binkp_bounds split: if_splits)
qed

section \<open>Offers\<close>

record offer =
  name :: string
  size_of :: nat      \<comment> \<open>\<open>u64\<close>; the parser bounds it by \<open>MAX_FILE\<close>\<close>
  time_of :: nat      \<comment> \<open>\<open>u64\<close>\<close>
  offset_of :: nat    \<comment> \<open>\<open>u64\<close>\<close>

definition u64_max :: nat where "u64_max = 2 ^ 64 - 1"

definition decimal :: "string \<Rightarrow> binkp_error + nat" where
  "decimal s =
     (if s = [] \<or> 20 < length s \<or> \<not> all_digits s then Inl BpMalformed
      else ok_or (parse_uint u64_max s) BpMalformed)"

definition hex_value :: "char \<Rightarrow> nat" where
  "hex_value c =
     (let n = ord c in if ascii_digit n then n - 48 else if 97 \<le> n then n - 87 else n - 55)"

text \<open>
  \<open>u8::from_str_radix\<close> on a two-byte text: two hexadecimal digits, or a plus sign and one.  A
  pair that is not UTF-8 is refused with the same error as one that is not a number.
\<close>

definition radix_pair :: "char \<Rightarrow> char \<Rightarrow> nat option" where
  "radix_pair c d =
     (if ascii_hexdigit (ord d)
      then (if ascii_hexdigit (ord c) then Some (16 * hex_value c + hex_value d)
            else if c = CHR ''+'' then Some (hex_value d) else None)
      else None)"

definition name_byte :: "nat \<Rightarrow> bool" where
  "name_byte v \<longleftrightarrow> 32 \<le> v \<and> v \<le> 126 \<and> v \<notin> {47, 92, 58}"

text \<open>What follows a backslash: an optional \<open>x\<close> and a pair of hexadecimal digits.\<close>

definition take_escape :: "string \<Rightarrow> (nat \<times> string) option" where
  "take_escape rest =
     (case unwrap_or (strip_prefix ''x'' rest) rest of
        c # d # rest' \<Rightarrow> map_option (\<lambda>v. (v, rest')) (radix_pair c d)
      | _ \<Rightarrow> None)"

lemma take_escape_shorter [termination_simp]: "take_escape r = Some (v, r') \<Longrightarrow> length r' < length r"
proof -
  assume t: "take_escape r = Some (v, r')"
  have "length (unwrap_or (strip_prefix ''x'' r) r) \<le> length r"
    by (cases "strip_prefix ''x'' r") (auto dest!: strip_prefix_SomeD)
  moreover from t have "length r' + 2 = length (unwrap_or (strip_prefix ''x'' r) r)"
    by (auto simp: take_escape_def split: list.splits)
  ultimately show ?thesis by linarith
qed

text \<open>The unescaping loop of \<open>filename\<close>.\<close>

fun unescape :: "string \<Rightarrow> binkp_error + string" where
  "unescape [] = Inr []"
| "unescape (b # rest) =
     (if b = CHR 0x5C then
        (case take_escape rest of
           None \<Rightarrow> Inl BpMalformed
         | Some (v, rest') \<Rightarrow>
             if name_byte v then attempt (unescape rest') (\<lambda>out. Inr (char_of v # out))
             else Inl BpMalformed)
      else if name_byte (ord b) then attempt (unescape rest) (\<lambda>out. Inr (b # out))
      else Inl BpMalformed)"

definition safe_name :: "string \<Rightarrow> bool" where
  "safe_name n \<longleftrightarrow> \<not> (n = ''.'' \<or> n = ''..'' \<or> starts_with ''.'' n \<or>
     (n \<noteq> [] \<and> (last n = CHR ''.'' \<or> last n = CHR '' '')))"

definition filename :: "string \<Rightarrow> binkp_error + string" where
  "filename s =
     (if s = [] \<or> 512 < length s then Inl BpLimit
      else attempt (unescape s) (\<lambda>out.
        if 128 < length out then Inl BpLimit
        else if \<not> safe_name out then Inl BpMalformed
        else Inr out))"

definition hex_digit :: "nat \<Rightarrow> char" where
  "hex_digit v = char_of (if v < 10 then 48 + v else 87 + v)"

definition show_hex2 :: "nat \<Rightarrow> string" where
  "show_hex2 b = [hex_digit (b div 16), hex_digit (b mod 16)]"

definition escape_char :: "char \<Rightarrow> string" where
  "escape_char b = (if b = CHR '' '' \<or> b = CHR 0x5C then CHR 0x5C # ''x'' @ show_hex2 (ord b) else [b])"

definition escape :: "string \<Rightarrow> string" where
  "escape s = concat (map escape_char s)"

definition offer_parse :: "string \<Rightarrow> bool \<Rightarrow> binkp_error + offer" where
  "offer_parse args with_offset =
     (if MAX_COMMAND < length args then Inl BpLimit
      else
        (let v = take 6 (split_ascii_whitespace args) in
         if length v \<noteq> (if with_offset then 4 else 3) then Inl BpMalformed
         else
           attempt (filename (v ! 0)) (\<lambda>n.
           attempt (decimal (v ! 1)) (\<lambda>sz.
           attempt (decimal (v ! 2)) (\<lambda>t.
           attempt (if with_offset then decimal (v ! 3) else Inr 0) (\<lambda>ofs.
             if sz = 0 \<or> MAX_FILE < sz \<or> sz < ofs then Inl BpLimit
             else Inr \<lparr>name = n, size_of = sz, time_of = t, offset_of = ofs\<rparr>))))))"

definition offer_arguments :: "offer \<Rightarrow> bool \<Rightarrow> string" where
  "offer_arguments off with_offset =
     escape (name off) @ '' '' @ show_nat (size_of off) @ '' '' @ show_nat (time_of off) @
     (if with_offset then '' '' @ show_nat (offset_of off) else [])"

definition same_file :: "offer \<Rightarrow> offer \<Rightarrow> bool" where
  "same_file a b \<longleftrightarrow> name a = name b \<and> size_of a = size_of b \<and> time_of a = time_of b"

definition wf_name :: "string \<Rightarrow> bool" where
  "wf_name n \<longleftrightarrow> n \<noteq> [] \<and> length n \<le> 128 \<and> list_all (\<lambda>c. name_byte (ord c)) n \<and> safe_name n"

definition wf_offer :: "bool \<Rightarrow> offer \<Rightarrow> bool" where
  "wf_offer with_offset off \<longleftrightarrow>
     wf_name (name off) \<and> 0 < size_of off \<and> size_of off \<le> MAX_FILE \<and> time_of off \<le> u64_max \<and>
     offset_of off \<le> (if with_offset then size_of off else 0)"

section \<open>Lemmas on offers\<close>

lemma decimal_show [simp]: "n \<le> u64_max \<Longrightarrow> decimal (show_nat n) = Inr n"
proof -
  assume n: "n \<le> u64_max"
  then have "n < 10 ^ 20" by (simp add: u64_max_def)
  then have "length (show_nat n) \<le> 20" by (rule length_show_nat_le) simp
  with n show ?thesis by (simp add: decimal_def)
qed

lemma decimal_bound: "decimal s = Inr n \<Longrightarrow> n \<le> u64_max"
  by (auto simp: decimal_def result_simps split: if_splits dest: parse_uint_bound)

lemma unescape_wf:
  "unescape s = Inr out \<Longrightarrow> list_all (\<lambda>c. name_byte (ord c)) out \<and> (out = [] \<longrightarrow> s = [])"
proof (induction s arbitrary: out rule: unescape.induct)
  case (2 b rest)
  have m: "name_byte v \<Longrightarrow> v mod 256 = v" for v by (simp add: name_byte_def)
  show ?case
    using 2 by (auto simp: result_simps m split: if_splits option.splits)
qed simp

lemma filename_wf: "filename s = Inr n \<Longrightarrow> wf_name n"
  by (auto simp: filename_def wf_name_def result_simps dest: unescape_wf split: if_splits)

lemma unescape_escape_char:
  "name_byte (ord c) \<Longrightarrow> unescape (escape_char c @ s) = attempt (unescape s) (\<lambda>out. Inr (c # out))"
proof (cases "c = CHR '' ''")
  case True
  have "take_escape (''x'' @ show_hex2 32 @ s) = Some (32, s)"
    by (simp add: take_escape_def show_hex2_def hex_digit_def radix_pair_def hex_value_def)
  with True show ?thesis by (simp add: escape_char_def name_byte_def)
next
  case False
  assume "name_byte (ord c)"
  moreover from this have "c \<noteq> CHR 0x5C" by (auto simp: name_byte_def)
  ultimately show ?thesis using False by (simp add: escape_char_def)
qed

lemma unescape_escape: "list_all (\<lambda>c. name_byte (ord c)) n \<Longrightarrow> unescape (escape n) = Inr n"
  by (induction n) (auto simp: escape_def unescape_escape_char)

lemma length_escape: "length n \<le> length (escape n) \<and> length (escape n) \<le> 4 * length n"
  by (induction n) (auto simp: escape_def escape_char_def show_hex2_def)

lemma filename_escape: "wf_name n \<Longrightarrow> filename (escape n) = Inr n"
  using length_escape [of n] by (auto simp: filename_def wf_name_def unescape_escape)

lemma escape_no_space: "list_all (\<lambda>c. name_byte (ord c)) n \<Longrightarrow> no_space (escape n)"
proof (induction n)
  case (Cons c n)
  have "no_space (escape_char c)"
    using Cons.prems by (auto simp: escape_char_def show_hex2_def hex_digit_def name_byte_def ascii_whitespace_def
        simp flip: ord_inject)
  with Cons show ?case by (simp add: escape_def)
qed (simp add: escape_def)

lemma escape_nonempty: "n \<noteq> [] \<Longrightarrow> escape n \<noteq> []"
  using length_escape [of n] by auto

lemma offer_words:
  "wf_offer w off \<Longrightarrow> split_ascii_whitespace (offer_arguments off w) =
     [escape (name off), show_nat (size_of off), show_nat (time_of off)] @
     (if w then [show_nat (offset_of off)] else [])"
  by (simp add: offer_arguments_def wf_offer_def wf_name_def escape_no_space escape_nonempty)

lemma offer_length: "wf_offer w off \<Longrightarrow> length (offer_arguments off w) \<le> MAX_COMMAND"
proof -
  assume off: "wf_offer w off"
  have bound: "length (show_nat n) \<le> 20" if "n \<le> u64_max" for n
    by (rule length_show_nat_le) (use that in \<open>simp_all add: u64_max_def\<close>)
  have "length (escape (name off)) \<le> 512"
    using off length_escape [of "name off"] by (simp add: wf_offer_def wf_name_def)
  moreover have "length (show_nat (size_of off)) \<le> 20" "length (show_nat (time_of off)) \<le> 20"
    "length (show_nat (offset_of off)) \<le> 20"
    using off by (auto intro!: bound simp: wf_offer_def binkp_bounds u64_max_def split: if_splits)
  ultimately show ?thesis by (simp add: offer_arguments_def binkp_bounds)
qed

lemma offer_parse_arguments: "wf_offer w off \<Longrightarrow> offer_parse (offer_arguments off w) w = Inr off"
proof -
  assume off: "wf_offer w off"
  then have b: "size_of off \<le> u64_max" "time_of off \<le> u64_max" "offset_of off \<le> u64_max"
    by (auto simp: wf_offer_def binkp_bounds u64_max_def split: if_splits)
  have f: "filename (escape (name off)) = Inr (name off)"
    using off by (simp add: wf_offer_def filename_escape)
  show ?thesis
    using off b f offer_length [OF off]
    by (simp add: offer_parse_def offer_words [OF off] Let_def wf_offer_def split: if_splits)
qed

lemma offer_parse_wf: "offer_parse s w = Inr off \<Longrightarrow> wf_offer w off"
  by (auto simp: offer_parse_def Let_def result_simps wf_offer_def dest: filename_wf decimal_bound
      split: if_splits)

interpretation ofr: strict_codec "\<lambda>off. Inr (offer_arguments off w) :: binkp_error + string"
  "\<lambda>s. offer_parse s w" "wf_offer w" for w
  by unfold_locales (auto simp: offer_parse_arguments dest: offer_parse_wf)

section \<open>Addresses\<close>

definition one_address :: "domain option \<Rightarrow> string \<Rightarrow> binkp_error + endpoint" where
  "one_address dflt a =
     (if CHR ''@'' \<in> set a then with_error (parse_endpoint a) BpAddress
      else attempt (with_error (parse_address a) BpAddress) (\<lambda>ad.
           attempt (ok_or dflt BpAddress) (\<lambda>d. Inr \<lparr>domain_of = d, address_of = ad\<rparr>)))"

fun addresses_loop :: "domain option \<Rightarrow> endpoint list \<Rightarrow> string list \<Rightarrow> binkp_error + endpoint list" where
  "addresses_loop dflt acc [] = (if acc = [] then Inl BpAddress else Inr acc)"
| "addresses_loop dflt acc (a # as) =
     (if length acc = MAX_ADDRESSES then Inl BpLimit
      else attempt (one_address dflt a) (\<lambda>e.
        if e \<in> set acc then Inl BpAddress else addresses_loop dflt (acc @ [e]) as))"

definition addresses :: "string \<Rightarrow> domain option \<Rightarrow> binkp_error + endpoint list" where
  "addresses args dflt =
     (if MAX_COMMAND < length args then Inl BpLimit
      else addresses_loop dflt [] (split_ascii_whitespace args))"

lemma one_address_wf:
  "one_address dflt a = Inr e \<Longrightarrow> (\<And>d. dflt = Some d \<Longrightarrow> wf_domain d) \<Longrightarrow> wf_endpoint e"
  by (auto simp: one_address_def result_simps wf_endpoint_def split: if_splits
      dest: parse_endpoint_wf [unfolded wf_endpoint_def] parse_address_wf)

lemma addresses_loop_wf:
  "addresses_loop dflt acc as = Inr es \<Longrightarrow> distinct acc \<Longrightarrow> length acc \<le> MAX_ADDRESSES \<Longrightarrow>
     list_all wf_endpoint acc \<Longrightarrow> (\<And>d. dflt = Some d \<Longrightarrow> wf_domain d) \<Longrightarrow>
     es \<noteq> [] \<and> distinct es \<and> length es \<le> MAX_ADDRESSES \<and> list_all wf_endpoint es \<and>
     length es = length acc + length as"
proof (induction as arbitrary: acc)
  case (Cons a as)
  then obtain e where e: "one_address dflt a = Inr e" and "e \<notin> set acc" "length acc \<noteq> MAX_ADDRESSES"
    and rest: "addresses_loop dflt (acc @ [e]) as = Inr es"
    by (auto simp: result_simps split: if_splits)
  moreover have "wf_endpoint e" by (rule one_address_wf [OF e Cons.prems(5)])
  ultimately show ?case
    using Cons.IH [OF rest] Cons.prems by auto
qed (simp split: if_splits)

lemma one_address_show: "wf_endpoint e \<Longrightarrow> one_address dflt (show_endpoint e) = Inr e"
  by (simp add: one_address_def) (simp add: show_endpoint_def)

lemma addresses_loop_show:
  "list_all wf_endpoint es \<Longrightarrow> distinct (acc @ es) \<Longrightarrow> length (acc @ es) \<le> MAX_ADDRESSES \<Longrightarrow> acc @ es \<noteq> [] \<Longrightarrow>
     addresses_loop dflt acc (map show_endpoint es) = Inr (acc @ es)"
  by (induction es arbitrary: acc) (auto simp: one_address_show)

text \<open>The address command of a list of endpoints, as \<open>M_ADR\<close> carries it.\<close>

fun show_endpoints :: "endpoint list \<Rightarrow> string" where
  "show_endpoints [] = []"
| "show_endpoints [e] = show_endpoint e"
| "show_endpoints (e # es) = show_endpoint e @ '' '' @ show_endpoints es"

lemma no_space_show_endpoint: "wf_endpoint e \<Longrightarrow> no_space (show_endpoint e) \<and> show_endpoint e \<noteq> []"
  by (simp add: show_endpoint_def wf_endpoint_def)

lemma words_show_endpoints:
  "list_all wf_endpoint es \<Longrightarrow> split_ascii_whitespace (show_endpoints es) = map show_endpoint es"
  by (induction es rule: show_endpoints.induct)
    (simp_all add: no_space_show_endpoint, simp add: split_ascii_whitespace_def)

section \<open>Challenge and response\<close>

definition hex :: "bytes \<Rightarrow> string" where
  "hex bs = concat (map (\<lambda>b. show_hex2 (unat b)) bs)"

fun hex_pairs :: "string \<Rightarrow> bytes" where
  "hex_pairs (c # d # rest) = of_nat (16 * hex_value c + hex_value d) # hex_pairs rest"
| "hex_pairs _ = []"

definition unhex :: "string \<Rightarrow> binkp_error + bytes" where
  "unhex s =
     (if 128 < length s \<or> odd (length s) \<or> \<not> list_all (\<lambda>c. ascii_hexdigit (ord c)) s
      then Inl BpAuthentication else Inr (hex_pairs s))"

definition challenge :: "string \<Rightarrow> binkp_error + bytes" where
  "challenge opt =
     attempt (ok_or (strip_prefix ''CRAM-'' opt) BpAuthentication) (\<lambda>value.
     attempt (ok_or (split_once CHR ''-'' value) BpAuthentication) (\<lambda>(methods, data).
       if ''MD5'' \<notin> set (split_on CHR ''/'' methods) then Inl BpAuthentication
       else attempt (unhex data) (\<lambda>bs.
         if 8 \<le> length bs \<and> length bs \<le> 64 then Inr bs else Inl BpAuthentication)))"

definition cram :: "(bytes \<Rightarrow> bytes \<Rightarrow> bytes) \<Rightarrow> bytes \<Rightarrow> bytes \<Rightarrow> string" where
  "cram mac secret ch = ''CRAM-MD5-'' @ hex (mac secret ch)"

definition verify_cram ::
    "(bytes \<Rightarrow> bytes \<Rightarrow> bytes) \<Rightarrow> bytes \<Rightarrow> bytes \<Rightarrow> string \<Rightarrow> binkp_error + unit" where
  "verify_cram mac secret ch response =
     attempt (ok_or (strip_prefix ''CRAM-MD5-'' response) BpAuthentication) (\<lambda>d.
     attempt (unhex d) (\<lambda>digest.
       if mac secret ch = digest then Inr () else Inl BpAuthentication))"

lemma hex_value_less: "ascii_hexdigit (ord c) \<Longrightarrow> hex_value c < 16"
  by (auto simp: hex_value_def Let_def ascii_defs)

lemma hex_digit_props [simp]:
  "v < 16 \<Longrightarrow> ascii_hexdigit (ord (hex_digit v)) \<and> hex_value (hex_digit v) = v \<and>
     lower_char (hex_digit v) = hex_digit v"
  by (auto simp: hex_digit_def hex_value_def lower_char_def ascii_defs)

lemma hex_digit_value: "ascii_hexdigit (ord c) \<Longrightarrow> hex_digit (hex_value c) = lower_char c"
proof -
  assume c: "ascii_hexdigit (ord c)"
  then have "ord (hex_digit (hex_value c)) = ord (lower_char c)"
    by (auto simp: hex_digit_def hex_value_def Let_def ord_lower_char ascii_defs)
  then show ?thesis by (simp only: ord_inject)
qed

lemma div16_less: "unat (b :: u8) div 16 < 16"
  using unat_less_256 [of b] by (simp add: less_mult_imp_div_less)

lemma unhex_hex: "length bs \<le> 64 \<Longrightarrow> unhex (hex bs) = Inr bs"
proof -
  have "hex_pairs (hex bs) = bs"
    by (induction bs) (simp_all add: hex_def show_hex2_def div16_less del: of_nat_add of_nat_mult)
  moreover have "length (hex bs) = 2 * length bs"
    by (induction bs) (simp_all add: hex_def show_hex2_def)
  moreover have "list_all (\<lambda>c. ascii_hexdigit (ord c)) (hex bs)"
    by (induction bs) (simp_all add: hex_def show_hex2_def div16_less)
  ultimately show "length bs \<le> 64 \<Longrightarrow> ?thesis" by (simp add: unhex_def)
qed

lemma hex_hex_pairs:
  "even (length s) \<Longrightarrow> list_all (\<lambda>c. ascii_hexdigit (ord c)) s \<Longrightarrow> hex (hex_pairs s) = map lower_char s"
proof (induction s rule: hex_pairs.induct)
  case (1 c d rest)
  then have v: "hex_value c < 16" "hex_value d < 16" by (auto intro: hex_value_less)
  then have "unat (of_nat (16 * hex_value c + hex_value d) :: u8) = 16 * hex_value c + hex_value d"
    by (subst unat_of_nat_u8) simp
  with 1 v show ?case
    by (simp add: hex_def show_hex2_def hex_digit_value del: of_nat_add of_nat_mult)
qed (simp_all add: hex_def)

lemma unhex_iff:
  "length bs \<le> 64 \<Longrightarrow> unhex s = Inr bs \<longleftrightarrow> map lower_char s = hex bs"
proof
  show "map lower_char s = hex bs" if "unhex s = Inr bs"
    using that hex_hex_pairs [of s] by (auto simp: unhex_def split: if_splits)
next
  assume len: "length bs \<le> 64" and s: "map lower_char s = hex bs"
  from unhex_hex [OF len] have h: "length (hex bs) \<le> 128" "even (length (hex bs))"
    "list_all (\<lambda>c. ascii_hexdigit (ord c)) (hex bs)"
    by (auto simp: unhex_def split: if_splits)
  have "ascii_hexdigit (ord c)" if "c \<in> set s" for c
  proof -
    have "lower_char c \<in> set (hex bs)" using that s by (metis imageI set_map)
    with h(3) have "ascii_hexdigit (ord (lower_char c))" by (simp add: list_all_iff)
    then show ?thesis by (auto simp: ord_lower_char ascii_defs split: if_splits)
  qed
  then have digits: "list_all (\<lambda>c. ascii_hexdigit (ord c)) s" by (simp add: list_all_iff)
  have "length s = length (hex bs)" using s by (metis length_map)
  with h digits have u: "unhex s = Inr (hex_pairs s)" by (simp add: unhex_def)
  from h(2) \<open>length s = length (hex bs)\<close> have "hex (hex_pairs s) = hex bs"
    using hex_hex_pairs [OF _ digits] s by simp
  have "length (hex_pairs s) \<le> 64"
  proof -
    have "length (hex_pairs s) \<le> length s div 2" by (induction s rule: hex_pairs.induct) auto
    with h(1) \<open>length s = length (hex bs)\<close> show ?thesis by simp
  qed
  then have "unhex (hex (hex_pairs s)) = Inr (hex_pairs s)" by (rule unhex_hex)
  with \<open>hex (hex_pairs s) = hex bs\<close> unhex_hex [OF len] have "hex_pairs s = bs" by simp
  with u show "unhex s = Inr bs" by simp
qed

section \<open>Properties\<close>

text \<open>
  C27.  BinkP framing is a codec: a frame is what the decoder returns for some bytes exactly when
  it is within the protocol bounds, and every such frame is encoded to bytes that decode to it;
  the two header bytes alone fix the length of a frame, so no frame is a proper prefix of another.
\<close>

theorem binkp_frame_codec:
  "((\<exists>b. frame_decode b = Inr f) = wf_frame f) \<and>
   (wf_frame f = (\<exists>b. frame_encode f = Inr b \<and> frame_decode b = Inr f)) \<and>
   (frame_decode bs = Inr f \<and> frame_decode (bs @ ext) = Inr g) = (frame_decode bs = Inr f \<and> ext = [] \<and> g = f)"
proof -
  have "ext = []" if f: "frame_decode bs = Inr f" and g: "frame_decode (bs @ ext) = Inr g"
    using frame_decode_length [OF f] frame_decode_length [OF g] by (simp add: nth_append)
  then show ?thesis
    using frm.valid_iff_decodable [of f] frm.round_trip [of f] by auto
qed

text \<open>
  File offers round-trip for both forms of the command, with and without an offset: what the
  parser accepts is printed to arguments that parse to the same offer, and the accepted offers
  are exactly those with a safe file name, a size between one byte and the limit, and an offset
  within the size.
\<close>

theorem offer_round_trip:
  "((\<exists>s. offer_parse s w = Inr off) = wf_offer w off) \<and>
   (wf_offer w off = (offer_parse (offer_arguments off w) w = Inr off))"
  using ofr.valid_iff_decodable [where w = w, of off] ofr.round_trip [where w = w, of off] by auto

text \<open>
  No accepted file name can be used as a path: whatever escapes the peer sends, the name has
  no slash, backslash, colon, control or non-ASCII byte, does not start with a dot and does not
  end with a dot or a space.
\<close>

theorem offer_name_is_no_path:
  assumes "offer_parse s w = Inr off"
  shows "name off \<noteq> [] \<and> length (name off) \<le> 128 \<and>
    set (name off) \<inter> {CHR ''/'', CHR 0x5C, CHR '':''} = {} \<and> hd (name off) \<noteq> CHR ''.'' \<and>
    last (name off) \<notin> {CHR ''.'', CHR '' ''} \<and> list_all (\<lambda>c. 32 \<le> ord c \<and> ord c \<le> 126) (name off)"
proof -
  from assms have n: "wf_name (name off)" by (auto dest: offer_parse_wf simp: wf_offer_def)
  then have "hd (name off) \<noteq> CHR ''.''"
    by (cases "name off") (auto simp: wf_name_def safe_name_def starts_with_def split: if_splits)
  with n show ?thesis
    by (auto simp: wf_name_def safe_name_def list_all_iff name_byte_def)
qed

theorem offer_name_is_no_path_witness:
  "\<exists>off. offer_parse (''a'' @ CHR 0x5C # ''x20b.pkt 125 2476327846 100'') True = Inr off \<and>
     name off = ''a b.pkt'' \<and> hd (name off) \<noteq> CHR ''.''"
proof -
  let ?o = "\<lparr>name = ''a b.pkt'', size_of = 125, time_of = 2476327846, offset_of = 100\<rparr>"
  have "wf_offer True ?o"
    by (simp add: wf_offer_def wf_name_def safe_name_def starts_with_def name_byte_def MAX_FILE_def u64_max_def)
  then have "offer_parse (offer_arguments ?o True) True = Inr ?o" by (rule offer_parse_arguments)
  moreover have "offer_arguments ?o True = ''a'' @ CHR 0x5C # ''x20b.pkt 125 2476327846 100''"
    by (simp add: offer_arguments_def escape_def escape_char_def show_hex2_def hex_digit_def
        show_nat.simps digit_def)
  ultimately have p: "offer_parse (''a'' @ CHR 0x5C # ''x20b.pkt 125 2476327846 100'') True = Inr ?o" by simp
  from offer_name_is_no_path [OF p] p show ?thesis by auto
qed

text \<open>
  An accepted address list is never empty, has at most 32 well-formed endpoints and no
  duplicate, one for every word of the command in order; and every such list is accepted when it
  is sent with its domains.
\<close>

theorem addresses_checked:
  assumes "\<forall>d. dflt = Some d \<longrightarrow> wf_domain d"
  shows "(addresses s dflt = Inr es \<longrightarrow>
      es \<noteq> [] \<and> distinct es \<and> length es \<le> 32 \<and> list_all wf_endpoint es \<and>
      length es = length (split_ascii_whitespace s)) \<and>
    (es \<noteq> [] \<and> distinct es \<and> length es \<le> 32 \<and> list_all wf_endpoint es \<and>
      length (show_endpoints es) \<le> 4096 \<longrightarrow> addresses (show_endpoints es) dflt = Inr es)"
proof -
  have "es \<noteq> [] \<and> distinct es \<and> length es \<le> 32 \<and> list_all wf_endpoint es \<and>
      length es = length (split_ascii_whitespace s)" if "addresses s dflt = Inr es"
  proof -
    from that have "addresses_loop dflt [] (split_ascii_whitespace s) = Inr es"
      by (auto simp: addresses_def split: if_splits)
    from addresses_loop_wf [OF this] assms show ?thesis by (simp add: binkp_bounds)
  qed
  moreover have "addresses (show_endpoints es) dflt = Inr es"
    if "es \<noteq> []" "distinct es" "length es \<le> 32" "list_all wf_endpoint es" "length (show_endpoints es) \<le> 4096"
    using that addresses_loop_show [of es "[]" dflt]
    by (simp add: addresses_def words_show_endpoints binkp_bounds)
  ultimately show ?thesis by blast
qed

theorem addresses_checked_witness:
  "\<exists>e. addresses ''10:100/1@test'' None = Inr [e] \<and> wf_endpoint e"
proof -
  let ?e = "\<lparr>domain_of = ''test'', address_of = Address 10 100 1 0\<rparr>"
  have wf: "wf_endpoint ?e"
    by (simp add: wf_endpoint_def wf_domain_def valid_domain_def domain_char_def wf_address_def
        lower_char_def ascii_defs)
  have s: "show_endpoints [?e] = ''10:100/1@test''"
    by (simp add: show_endpoint_def show_address_def show_u16_def show_nat.simps digit_def)
  have "\<forall>d. (None :: domain option) = Some d \<longrightarrow> wf_domain d" by simp
  from addresses_checked [OF this, where es = "[?e]"] wf s have "addresses ''10:100/1@test'' None = Inr [?e]"
    by simp
  with wf show ?thesis by blast
qed

text \<open>
  CRAM authentication accepts exactly the expected response: with a keyed digest of the
  sixteen bytes of MD5, a response verifies if and only if it is the prefix followed by the
  hexadecimal digest of the challenge under the secret, in any letter case; in particular the
  response \<open>cram\<close> builds verifies, and every other response is an authentication error.
\<close>

theorem cram_accepts_exactly:
  assumes "length (mac secret ch) = 16"
  shows "verify_cram mac secret ch r =
      (if \<exists>d. r = ''CRAM-MD5-'' @ d \<and> map lower_char d = hex (mac secret ch)
       then Inr () else Inl BpAuthentication) \<and>
    verify_cram mac secret ch (cram mac secret ch) = Inr ()"
proof -
  have ok: "unhex d = Inr (mac secret ch) \<longleftrightarrow> map lower_char d = hex (mac secret ch)" for d
    using assms by (intro unhex_iff) simp
  have err: "unhex d = Inl e \<Longrightarrow> e = BpAuthentication" for d e
    by (simp add: unhex_def split: if_splits)
  have v: "verify_cram mac secret ch (''CRAM-MD5-'' @ d) =
      (if map lower_char d = hex (mac secret ch) then Inr () else Inl BpAuthentication)" for d
  proof (cases "unhex d")
    case (Inl e)
    with ok [of d] err [OF Inl] show ?thesis
      by (simp add: verify_cram_def del: strip_prefix.simps append_Cons)
  next
    case (Inr b)
    with ok [of d] show ?thesis
      by (auto simp: verify_cram_def simp del: strip_prefix.simps append_Cons)
  qed
  have "verify_cram mac secret ch r =
      (if \<exists>d. r = ''CRAM-MD5-'' @ d \<and> map lower_char d = hex (mac secret ch)
       then Inr () else Inl BpAuthentication)"
  proof (cases "strip_prefix ''CRAM-MD5-'' r")
    case None
    then have "\<nexists>d. r = ''CRAM-MD5-'' @ d" by (auto simp del: strip_prefix.simps append_Cons)
    with None show ?thesis by (auto simp: verify_cram_def simp del: strip_prefix.simps)
  next
    case (Some d)
    then have "r = ''CRAM-MD5-'' @ d" by (rule strip_prefix_SomeD)
    with v show ?thesis by (auto simp del: append_Cons)
  qed
  moreover have "map lower_char (hex (mac secret ch)) = hex (mac secret ch)"
    using ok [of "hex (mac secret ch)"] assms by (simp add: unhex_hex)
  ultimately show ?thesis using v by (simp add: cram_def del: append_Cons)
qed

theorem cram_accepts_exactly_witness:
  "verify_cram (\<lambda>s c. replicate 16 (of_nat (length s + length c))) [1, 2] [3] (cram (\<lambda>s c. replicate 16 (of_nat (length s + length c))) [1, 2] [3]) = Inr ()"
  by (rule cram_accepts_exactly [THEN conjunct2]) simp

end
