(* ===== verification/Binkp_Session.thy ===== *)
theory Binkp_Session
  imports Binkp_Wire Utf8 Interfaces
begin

text \<open>
  \<open>crates/sf-bbs/src/binkp/session.rs\<close>: the full-duplex mail session over an owned stream.
  The socket is explicit: \<open>incoming\<close> holds what the peer has sent and was not read yet,
  \<open>taken\<close> what the socket took of ours, and every turn of the loop is given a \<open>tick\<close> that says
  what the clock, the socket and the cancellation flag answer in it.  The clock is read once
  a turn.  The trait \<open>Backend\<close> is a record of functions over a state of its own, HMAC-MD5 a
  parameter of it, and the random challenge a field.  \<open>journal\<close> is the one field the code does
  not have: it notes, for the properties, what the session did, and no operation reads it.
\<close>

section \<open>State\<close>

definition MAX_FILES :: nat where "MAX_FILES = 64"
definition MAX_SESSION_BYTES :: nat where "MAX_SESSION_BYTES = 64 * 1024 * 1024"

datatype binkp_auth = RequireCram | AllowPlain
datatype binkp_mode = Poll | Test
datatype phase = Connecting | Greeting | Authenticating | Ready | Exchanging | Finishing | Complete | Failed
datatype protocol = OneBatch | MultipleBatches
datatype file_offset = AtData | AtRequest

record plan =
  local_akas :: "endpoint list"
  remote_aka :: endpoint
  secret :: bytes
  auth :: binkp_auth
  domainless :: bool
  mode :: binkp_mode

record outgoing =
  key :: string
  out_offer :: offer

record limits =
  handshake_limit :: nat
  idle_limit :: nat
  session_limit :: nat

definition default_limits :: limits where
  "default_limits = \<lparr>handshake_limit = 30 * 10 ^ 9, idle_limit = 60 * 10 ^ 9, session_limit = 600 * 10 ^ 9\<rparr>"

record summary =
  n_sent :: nat
  n_received :: nat
  n_skipped :: nat

record batches =
  protocol_of :: protocol
  b_sent :: nat
  b_received :: nat
  reply :: bool
  sent_total :: nat
  received_total :: nat

record sending =
  item :: outgoing
  content :: bytes
  position :: nat
  waiting_get :: bool

record receiving =
  r_offer :: offer
  r_bytes :: bytes

record wire =
  incoming :: bytes
  inbox :: bytes
  outbox :: "bytes list"
  written :: nat
  last_io :: nat
  taken :: bytes

text \<open>What the socket answers to a write and to a read, and the tick of a turn.\<close>

datatype io = Moves nat | Blocks | Breaks

record tick =
  cancelled :: bool
  now :: nat          \<comment> \<open>nanoseconds since the session started\<close>
  on_write :: io
  on_read :: io

datatype event =
    Proved string            \<comment> \<open>the answerer accepted this password argument\<close>
  | Answered string          \<comment> \<open>the caller sent this password argument\<close>
  | Offered string offer     \<comment> \<open>the key of our file and what we say of it\<close>
  | Accepted string offer    \<comment> \<open>the peer has the file it names in its answer\<close>
  | Passed string offer      \<comment> \<open>the peer skipped it\<close>
  | Announced offer          \<comment> \<open>the peer's file is being received\<close>
  | Arrived bytes            \<comment> \<open>a piece of it\<close>
  | Stored offer bytes
  | Asked offer              \<comment> \<open>we asked for the file from its start\<close>
  | Declined offer           \<comment> \<open>we skipped the file\<close>

record 'b host =
  identify :: "string \<Rightarrow> 'b \<Rightarrow> (binkp_error + plan) \<times> 'b"
  ready :: "endpoint list \<Rightarrow> string list \<Rightarrow> nat \<Rightarrow> 'b \<Rightarrow> (binkp_error + outgoing list) \<times> 'b"
  next_batch :: "nat \<Rightarrow> nat \<Rightarrow> 'b \<Rightarrow> (binkp_error + outgoing list) \<times> 'b"
  load :: "string \<Rightarrow> 'b \<Rightarrow> (binkp_error + bytes) \<times> 'b"
  offered :: "string \<Rightarrow> 'b \<Rightarrow> (binkp_error + unit) \<times> 'b"
  accepted :: "string \<Rightarrow> 'b \<Rightarrow> (binkp_error + unit) \<times> 'b"
  accepts_name :: "string \<Rightarrow> 'b \<Rightarrow> bool"
  receive_file :: "offer \<Rightarrow> bytes \<Rightarrow> 'b \<Rightarrow> (binkp_error + unit) \<times> 'b"
  mac :: "bytes \<Rightarrow> bytes \<Rightarrow> bytes"
  fresh :: bytes
  limits_of :: limits

record 'b mail_session =
  wire :: wire
  the_plan :: "plan option"
  caller :: bool
  phase :: phase
  remote :: "endpoint list option"
  challenge_of :: "bytes option"
  caps :: "string list"
  authenticated :: bool
  password_sent :: bool
  greeting_seen :: bool
  command_count :: nat
  pending :: "outgoing list"
  sending :: "sending option"
  receiving :: "receiving option"
  discard :: bool
  requested :: "offer option"
  offered_count :: nat
  received_bytes :: nat
  transmitted_bytes :: nat
  batches :: batches
  advertised_version :: "protocol option"
  outbound_count :: nat
  outbound_bytes :: nat
  recheck :: bool
  summary :: summary
  store :: 'b
  journal :: "event list"

text \<open>The methods the trait gives a body.\<close>

definition default_accepts_file :: "string \<Rightarrow> bool" where
  "default_accepts_file n \<longleftrightarrow> strip_suffix ''.pkt'' (map lower_char n) \<noteq> None"

definition default_next_batch :: "nat \<Rightarrow> nat \<Rightarrow> 'b \<Rightarrow> (binkp_error + outgoing list) \<times> 'b" where
  "default_next_batch files bs s = (Inr [], s)"

section \<open>The wire\<close>

definition wire_push :: "frame \<Rightarrow> wire \<Rightarrow> (binkp_error + unit) \<times> wire" where
  "wire_push f w =
     (if 64 \<le> length (outbox w) then (Inl BpLimit, w)
      else chain (frame_encode f, w) (\<lambda>b w. (Inr (), w\<lparr>outbox := outbox w @ [b]\<rparr>)))"

definition wire_send :: "binkp_command \<Rightarrow> string \<Rightarrow> wire \<Rightarrow> (binkp_error + unit) \<times> wire" where
  "wire_send c args w = chain (frame_command c args, w) wire_push"

definition wire_flush :: "nat \<Rightarrow> io \<Rightarrow> wire \<Rightarrow> (binkp_error + unit) \<times> wire" where
  "wire_flush t r w =
     (case outbox w of
        [] \<Rightarrow> (Inr (), w)
      | b # rest \<Rightarrow>
          (case r of
             Blocks \<Rightarrow> (Inr (), w)
           | Breaks \<Rightarrow> (Inl BpInterrupted, w)
           | Moves k \<Rightarrow>
               (let out = take k (drop (written w) b) in
                if out = [] then (Inl BpInterrupted, w)
                else
                  (let w = w\<lparr>last_io := t, written := written w + length out, taken := taken w @ out\<rparr> in
                   if written w = length b
                   then chain (frame_decode b, w) (\<lambda>_ w. (Inr (), w\<lparr>outbox := rest, written := 0\<rparr>))
                   else (Inr (), w)))))"

text \<open>How many bytes \<open>frame\<close> asks for, and the read that brings some of them.\<close>

definition frame_needed :: "bytes \<Rightarrow> binkp_error + nat" where
  "frame_needed inp =
     (if length inp < 2 then Inr 2
      else
        (let size = unat (u16_of (inp ! 0) (inp ! 1) AND 0x7fff) in
         if inp ! 0 AND 0x80 \<noteq> 0 \<and> MAX_COMMAND < size then Inl BpLimit else Inr (size + 2)))"

text \<open>\<open>Inr False\<close> is the early return of a read that would block.\<close>

definition wire_read :: "nat \<Rightarrow> io \<Rightarrow> nat \<Rightarrow> wire \<Rightarrow> (binkp_error + bool) \<times> wire" where
  "wire_read t r needed w =
     (if length (inbox w) < needed then
        (case r of
           Blocks \<Rightarrow> (Inr False, w)
         | Breaks \<Rightarrow> (Inl BpInterrupted, w)
         | Moves k \<Rightarrow>
             (let got = take (min k (min (needed - length (inbox w)) 8192)) (incoming w) in
              if got = [] then (Inl BpInterrupted, w)
              else (Inr True, w\<lparr>inbox := inbox w @ got, incoming := drop (length got) (incoming w), last_io := t\<rparr>)))
      else (Inr True, w))"

definition wire_frame :: "nat \<Rightarrow> io \<Rightarrow> wire \<Rightarrow> (binkp_error + frame option) \<times> wire" where
  "wire_frame t r w =
     chain (frame_needed (inbox w), w) (\<lambda>needed w.
     chain (wire_read t r needed w) (\<lambda>go w.
       if \<not> go \<or> length (inbox w) < 2 then (Inr None, w)
       else
         (let size = unat (u16_of (inbox w ! 0) (inbox w ! 1) AND 0x7fff) + 2 in
          if length (inbox w) \<noteq> size then (Inr None, w)
          else chain (frame_decode (inbox w), w) (\<lambda>f w. (Inr (Some f), w\<lparr>inbox := []\<rparr>)))))"

section \<open>Texts of the protocol\<close>

definition command_text :: "bytes \<Rightarrow> binkp_error + string" where
  "command_text args =
     (if list_ex (\<lambda>b. \<not> (32 \<le> b \<and> b \<le> 126)) args then Inl BpMalformed
      else ok_or (from_utf8 args) BpMalformed)"

definition advertise :: "plan \<Rightarrow> wire \<Rightarrow> (binkp_error + unit) \<times> wire" where
  "advertise p w =
     (if local_akas p = [] \<or> 32 < length (local_akas p) then (Inl BpAddress, w)
      else
        chain (wire_send Nul ''VER SPITFIRE-NG/0.1 binkp/1.1'' w) (\<lambda>_ w.
        wire_send Adr (join_by CHR '' '' (map show_endpoint (local_akas p))) w))"

definition known_options :: "string list" where
  "known_options = [''NR'', ''ND'', ''NDA'', ''MB'', ''CRYPT'', ''GZ'', ''BZ2'', ''CRC'']"

definition add_cap :: "string \<Rightarrow> string list \<Rightarrow> string list" where
  "add_cap c cs = (if c \<in> set cs then cs else cs @ [c])"

fun options_loop ::
    "string list \<Rightarrow> string list \<times> bytes option \<Rightarrow> (binkp_error + unit) \<times> string list \<times> bytes option" where
  "options_loop [] st = (Inr (), st)"
| "options_loop (opt # opts) (cs, cr) =
     chain
       (if starts_with ''CRAM-'' opt then
          (if cr \<noteq> None then (Inl BpAuthentication, cs, cr)
           else chain (challenge opt, cs, cr) (\<lambda>ch (cs, _). (Inr (), add_cap ''CRAM-MD5'' cs, Some ch)))
        else if opt \<in> set known_options then (Inr (), add_cap opt cs, cr)
        else (Inr (), cs, cr))
       (\<lambda>_ (cs, cr). if 32 < length cs then (Inl BpLimit, cs, cr) else options_loop opts (cs, cr))"

definition options :: "string \<Rightarrow> string list \<times> bytes option \<Rightarrow> (binkp_error + unit) \<times> string list \<times> bytes option" where
  "options args st =
     (case strip_prefix ''OPT '' args of
        None \<Rightarrow> (Inr (), st)
      | Some rest \<Rightarrow> options_loop (split_ascii_whitespace rest) st)"

definition version :: "string \<Rightarrow> protocol option" where
  "version args =
     (case strip_prefix ''VER '' args of
        None \<Rightarrow> None
      | Some rest \<Rightarrow>
          (let ws = split_ascii_whitespace rest in
           if ws = [] then None
           else Some (if map lower_char (last ws) = ''binkp/1.1'' then MultipleBatches else OneBatch)))"

definition file_command :: "string \<Rightarrow> bool \<Rightarrow> bool \<Rightarrow> bool \<Rightarrow> binkp_error + offer \<times> file_offset" where
  "file_command args offset nr extended =
     (let fields = split_ascii_whitespace args;
          count = (if offset then 4 else 3);
          fields = (if extended \<and> count < length fields then take count fields else fields);
          request = (nr \<and> offset \<and> 3 < length fields \<and> fields ! 3 = ''-1'');
          fields = (if request then fields[3 := ''0''] else fields)
      in attempt (offer_parse (join_by CHR '' '' fields) offset) (\<lambda>off.
           Inr (off, if request then AtRequest else AtData)))"

section \<open>Batches\<close>

definition no_batches :: batches where
  "no_batches = \<lparr>protocol_of = OneBatch, b_sent = 0, b_received = 0, reply = False, sent_total = 0, received_total = 0\<rparr>"

definition activity :: "batches \<Rightarrow> batches" where
  "activity b = (if protocol_of b = MultipleBatches then b\<lparr>b_received := 0, reply := False\<rparr> else b)"

definition begin_outgoing :: "batches \<Rightarrow> (binkp_error + unit) \<times> batches" where
  "begin_outgoing b =
     (if protocol_of b = OneBatch \<and> b_sent b \<noteq> 0 then (Inl BpMalformed, b) else (Inr (), b\<lparr>b_sent := 0\<rparr>))"

definition confirmation :: "batches \<Rightarrow> batches" where
  "confirmation b = (if protocol_of b = MultipleBatches then b\<lparr>b_sent := 0\<rparr> else b)"

definition receive_eob :: "batches \<Rightarrow> (binkp_error + unit) \<times> batches" where
  "receive_eob b =
     (let b = b\<lparr>received_total := received_total b + 1\<rparr> in
      if 128 < received_total b then (Inl BpLimit, b)
      else (Inr (), b\<lparr>b_received := min (b_received b + 1) 2, reply := True\<rparr>))"

definition send_eob :: "batches \<Rightarrow> (binkp_error + unit) \<times> batches" where
  "send_eob b =
     (let b = b\<lparr>sent_total := sent_total b + 1\<rparr> in
      if 128 < sent_total b then (Inl BpLimit, b)
      else (Inr (), b\<lparr>b_sent := min (b_sent b + 1) 2, reply := False\<rparr>))"

definition needs_eob :: "batches \<Rightarrow> bool" where
  "needs_eob b \<longleftrightarrow> b_sent b = 0 \<or> (protocol_of b = MultipleBatches \<and> reply b)"

definition batches_complete :: "batches \<Rightarrow> bool" where
  "batches_complete b \<longleftrightarrow>
     (let count = (if protocol_of b = MultipleBatches then 2 else 1) in count \<le> b_sent b \<and> count \<le> b_received b)"

definition accepts_file :: "batches \<Rightarrow> bool" where
  "accepts_file b \<longleftrightarrow> protocol_of b = MultipleBatches \<or> b_received b = 0"

section \<open>Operations on the parts of a session\<close>

definition on_wire :: "(wire \<Rightarrow> ('e + 'a) \<times> wire) \<Rightarrow> 'b mail_session \<Rightarrow> ('e + 'a) \<times> 'b mail_session" where
  "on_wire f s = (let (r, w) = f (wire s) in (r, s\<lparr>wire := w\<rparr>))"

definition on_batches ::
    "(batches \<Rightarrow> ('e + 'a) \<times> batches) \<Rightarrow> 'b mail_session \<Rightarrow> ('e + 'a) \<times> 'b mail_session" where
  "on_batches f s = (let (r, b) = f (batches s) in (r, s\<lparr>batches := b\<rparr>))"

definition on_store :: "('b \<Rightarrow> ('e + 'a) \<times> 'b) \<Rightarrow> 'b mail_session \<Rightarrow> ('e + 'a) \<times> 'b mail_session" where
  "on_store f s = (let (r, b) = f (store s) in (r, s\<lparr>store := b\<rparr>))"

definition on_options ::
    "(string list \<times> bytes option \<Rightarrow> ('e + 'a) \<times> string list \<times> bytes option) \<Rightarrow>
       'b mail_session \<Rightarrow> ('e + 'a) \<times> 'b mail_session" where
  "on_options f s = (let (r, cs, cr) = f (caps s, challenge_of s) in (r, s\<lparr>caps := cs, challenge_of := cr\<rparr>))"

definition send :: "binkp_command \<Rightarrow> string \<Rightarrow> 'b mail_session \<Rightarrow> (binkp_error + unit) \<times> 'b mail_session" where
  "send c args = on_wire (wire_send c args)"

definition noting :: "event \<Rightarrow> 'b mail_session \<Rightarrow> 'b mail_session" where
  "noting e s = s\<lparr>journal := journal s @ [e]\<rparr>"

definition test_mode :: "'b mail_session \<Rightarrow> bool" where
  "test_mode s \<longleftrightarrow> (case the_plan s of None \<Rightarrow> False | Some p \<Rightarrow> mode p = Test)"

text \<open>The sum of \<open>u64\<close> sizes, which wraps.\<close>

definition offer_sizes :: "outgoing list \<Rightarrow> nat" where
  "offer_sizes work = sum_list (map (\<lambda>w. size_of (out_offer w)) work) mod 2 ^ 64"

section \<open>Incoming frames\<close>

definition on_data :: "'b host \<Rightarrow> bytes \<Rightarrow> 'b mail_session \<Rightarrow> (binkp_error + unit) \<times> 'b mail_session" where
  "on_data h bs s =
     (if \<not> authenticated s \<or> \<not> accepts_file (batches s) \<or> requested s \<noteq> None then (Inl BpMalformed, s)
      else if u64_max < received_bytes s + length bs then (Inl BpLimit, s)
      else
        (let s = s\<lparr>received_bytes := received_bytes s + length bs\<rparr> in
         if MAX_SESSION_BYTES < received_bytes s then (Inl BpLimit, s)
         else
           (case receiving s of
              Some r \<Rightarrow>
                if size_of (r_offer r) < length (r_bytes r) + length bs then (Inl BpMalformed, s)
                else
                  (let r = r\<lparr>r_bytes := r_bytes r @ bs\<rparr>; s = noting (Arrived bs) (s\<lparr>receiving := Some r\<rparr>) in
                   if length (r_bytes r) = size_of (r_offer r) then
                     chain (on_store (receive_file h (r_offer r) (r_bytes r)) (s\<lparr>receiving := None\<rparr>)) (\<lambda>_ s.
                     let s = noting (Stored (r_offer r) (r_bytes r)) s;
                         s = s\<lparr>recheck := True, batches := confirmation (batches s)\<rparr>
                     in chain (send Got (offer_arguments (r_offer r) False) s) (\<lambda>_ s.
                        (Inr (), s\<lparr>summary := (summary s)\<lparr>n_received := n_received (summary s) + 1\<rparr>\<rparr>)))
                   else (Inr (), s))
            | None \<Rightarrow> if discard s then (Inr (), s) else (Inl BpMalformed, s))))"

definition note_version :: "string \<Rightarrow> 'b mail_session \<Rightarrow> (binkp_error + unit) \<times> 'b mail_session" where
  "note_version args s =
     (if authenticated s \<or> password_sent s then (Inr (), s)
      else
        (case version args of
           None \<Rightarrow> (Inr (), s)
         | Some v \<Rightarrow>
             if advertised_version s \<noteq> None \<and> advertised_version s \<noteq> Some v then (Inl BpMalformed, s)
             else (Inr (), s\<lparr>advertised_version := Some v, batches := (batches s)\<lparr>protocol_of := v\<rparr>\<rparr>)))"

definition on_nul :: "bytes \<Rightarrow> 'b mail_session \<Rightarrow> (binkp_error + unit) \<times> 'b mail_session" where
  "on_nul args s =
     chain
       (case command_text args of
          Inl _ \<Rightarrow> (Inr (), s)
        | Inr a \<Rightarrow> chain (note_version a s) (\<lambda>_. on_options (options a)))
       (\<lambda>_ s.
         if greeting_seen s then (Inr (), s)
         else
           (let s = s\<lparr>greeting_seen := True\<rparr> in
            if caller s \<and> challenge_of s = None \<and>
               (case the_plan s of None \<Rightarrow> False | Some p \<Rightarrow> auth p = RequireCram)
            then (Inl BpAuthentication, s) else (Inr (), s)))"

definition password_for :: "'b host \<Rightarrow> plan \<Rightarrow> bytes option \<Rightarrow> binkp_error + string" where
  "password_for h p ch =
     (case ch of
        Some c \<Rightarrow> Inr (cram (mac h) (secret p) c)
      | None \<Rightarrow> if auth p = AllowPlain then ok_or (from_utf8 (secret p)) BpAuthentication
                else Inl BpAuthentication)"

definition select_plan :: "'b host \<Rightarrow> string \<Rightarrow> 'b mail_session \<Rightarrow> (binkp_error + unit) \<times> 'b mail_session" where
  "select_plan h args s =
     (if caller s then (Inr (), s)
      else
        chain (on_store (identify h args) s) (\<lambda>p s.
        chain (on_wire (advertise p) s) (\<lambda>_ s. (Inr (), s\<lparr>the_plan := Some p\<rparr>))))"

definition check_addresses :: "'b host \<Rightarrow> string \<Rightarrow> 'b mail_session \<Rightarrow> (binkp_error + unit) \<times> 'b mail_session" where
  "check_addresses h args s =
     chain (ok_or (the_plan s) BpAddress, s) (\<lambda>p s.
     chain (addresses args (if domainless p then Some (domain_of (remote_aka p)) else None), s) (\<lambda>as s.
       if remote_aka p \<notin> set as then (Inl BpAddress, s)
       else
         (let s = s\<lparr>remote := Some as, phase := Authenticating\<rparr> in
          if caller s then
            chain (password_for h p (challenge_of s), s) (\<lambda>pwd s.
            chain (send Pwd pwd s) (\<lambda>_ s. (Inr (), noting (Answered pwd) (s\<lparr>password_sent := True\<rparr>))))
          else (Inr (), s))))"

definition on_address :: "'b host \<Rightarrow> string \<Rightarrow> 'b mail_session \<Rightarrow> (binkp_error + unit) \<times> 'b mail_session" where
  "on_address h args s =
     (if remote s \<noteq> None then (Inl BpAddress, s)
      else chain (select_plan h args s) (\<lambda>_. check_addresses h args))"

text \<open>The answerer's check of a password argument.\<close>

definition check_password :: "'b host \<Rightarrow> plan \<Rightarrow> string \<Rightarrow> binkp_error + unit" where
  "check_password h p args =
     (if starts_with ''CRAM-'' args then
        (case split_ascii_whitespace args of
           [] \<Rightarrow> Inl BpAuthentication
         | w # _ \<Rightarrow> verify_cram (mac h) (secret p) (fresh h) w)
      else if auth p = AllowPlain
      then verify_cram (mac h) (secret p) (fresh h) (cram (mac h) (as_bytes args) (fresh h))
      else Inl BpAuthentication)"

definition on_password :: "'b host \<Rightarrow> string \<Rightarrow> 'b mail_session \<Rightarrow> (binkp_error + unit) \<times> 'b mail_session" where
  "on_password h args s =
     chain (ok_or (the_plan s) BpAuthentication, s) (\<lambda>p s.
     chain (check_password h p args, s) (\<lambda>_ s.
     chain (send Ok ''secure'' s) (\<lambda>_ s. (Inr (), noting (Proved args) (s\<lparr>authenticated := True\<rparr>)))))"

definition begin_exchange :: "'b host \<Rightarrow> nat \<Rightarrow> 'b mail_session \<Rightarrow> (binkp_error + unit) \<times> 'b mail_session" where
  "begin_exchange h t s =
     (let s = s\<lparr>phase := Ready\<rparr> in
      chain (ok_or (remote s) BpAddress, s) (\<lambda>as s.
      chain (on_store (ready h as (caps s) (t div 10 ^ 6 mod 2 ^ 64)) s) (\<lambda>work s.
        if MAX_FILES < length work then (Inl BpLimit, s)
        else if test_mode s \<and> work \<noteq> [] then (Inl BpMalformed, s)
        else
          (let s = s\<lparr>outbound_count := length work, outbound_bytes := offer_sizes work\<rparr> in
           if MAX_SESSION_BYTES < outbound_bytes s then (Inl BpLimit, s)
           else (Inr (), s\<lparr>pending := work\<rparr>)))))"

definition on_handshake ::
    "'b host \<Rightarrow> nat \<Rightarrow> binkp_command \<Rightarrow> string \<Rightarrow> 'b mail_session \<Rightarrow> (binkp_error + unit) \<times> 'b mail_session" where
  "on_handshake h t c args s =
     chain
       (if c = Adr then on_address h args s
        else if c = Pwd \<and> \<not> caller s \<and> remote s \<noteq> None then on_password h args s
        else if c = Ok \<and> caller s \<and> password_sent s \<and> remote s \<noteq> None then
          (if args = ''non-secure'' then (Inl BpAuthentication, s) else (Inr (), s\<lparr>authenticated := True\<rparr>))
        else (Inl BpMalformed, s))
       (\<lambda>_ s. if authenticated s then begin_exchange h t s else (Inr (), s))"

text \<open>What a file the peer announces is answered with.\<close>

definition answer_offer ::
    "'b host \<Rightarrow> offer \<Rightarrow> file_offset \<Rightarrow> 'b mail_session \<Rightarrow> (binkp_error + unit) \<times> 'b mail_session" where
  "answer_offer h off at s =
     (if test_mode s \<or> \<not> accepts_name h (name off) (store s) then
        (let s = s\<lparr>batches := confirmation (batches s)\<rparr> in
         chain (send Skip (offer_arguments off False) s) (\<lambda>_ s.
           (Inr (), noting (Declined off)
             (s\<lparr>discard := True, summary := (summary s)\<lparr>n_skipped := n_skipped (summary s) + 1\<rparr>\<rparr>))))
      else if at = AtRequest \<or> offset_of off \<noteq> 0 then
        (let restart = off\<lparr>offset_of := 0\<rparr>; s = s\<lparr>batches := confirmation (batches s)\<rparr> in
         chain (send Get (offer_arguments restart True) s) (\<lambda>_ s.
           (Inr (), noting (Asked restart) (s\<lparr>requested := Some restart, discard := True\<rparr>))))
      else if MAX_SESSION_BYTES < received_bytes s + size_of off then (Inl BpLimit, s)
      else (Inr (), noting (Announced off) (s\<lparr>receiving := Some \<lparr>r_offer = off, r_bytes = []\<rparr>\<rparr>)))"

definition on_file :: "'b host \<Rightarrow> string \<Rightarrow> 'b mail_session \<Rightarrow> (binkp_error + unit) \<times> 'b mail_session" where
  "on_file h args s =
     (if \<not> accepts_file (batches s) then (Inl BpMalformed, s)
      else
        (let s = s\<lparr>offered_count := offered_count s + 1\<rparr> in
         if MAX_FILES < offered_count s then (Inl BpLimit, s)
         else
           (let s = s\<lparr>batches := activity (batches s)\<rparr>;
                multiple = (protocol_of (batches s) = MultipleBatches)
            in
            chain (file_command args True (multiple \<or> ''NR'' \<in> set (caps s)) multiple, s) (\<lambda>(off, at) s.
              if (case requested s of None \<Rightarrow> False | Some old \<Rightarrow> \<not> same_file old off) then (Inl BpMalformed, s)
              else answer_offer h off at (s\<lparr>requested := None, receiving := None, discard := False\<rparr>)))))"

definition on_answer ::
    "'b host \<Rightarrow> binkp_command \<Rightarrow> string \<Rightarrow> 'b mail_session \<Rightarrow> (binkp_error + unit) \<times> 'b mail_session" where
  "on_answer h c args s =
     chain (file_command args (c = Get) False (protocol_of (batches s) = MultipleBatches), s) (\<lambda>(off, _) s.
     chain (ok_or (sending s) BpMalformed, s) (\<lambda>f s.
       if \<not> same_file (out_offer (item f)) off then (Inl BpMalformed, s)
       else if c = Get then
         send File (offer_arguments off True)
           (s\<lparr>sending := Some (f\<lparr>position := offset_of off, waiting_get := False\<rparr>)\<rparr>)
       else
         chain
           (if c = Got then
              chain (on_store (accepted h (key (item f))) s) (\<lambda>_ s.
              (Inr (), noting (Accepted (key (item f)) off)
                 (s\<lparr>summary := (summary s)\<lparr>n_sent := n_sent (summary s) + 1\<rparr>\<rparr>)))
            else
              (Inr (), noting (Passed (key (item f)) off)
                 (s\<lparr>summary := (summary s)\<lparr>n_skipped := n_skipped (summary s) + 1\<rparr>\<rparr>)))
           (\<lambda>_ s. (Inr (), s\<lparr>sending := None\<rparr>))))"

definition on_eob :: "'b mail_session \<Rightarrow> (binkp_error + unit) \<times> 'b mail_session" where
  "on_eob s =
     (if receiving s \<noteq> None \<or> requested s \<noteq> None then (Inl BpInterrupted, s)
      else
        chain (on_batches receive_eob (s\<lparr>discard := False\<rparr>)) (\<lambda>_ s. (Inr (), s\<lparr>recheck := True\<rparr>)))"

definition on_exchange ::
    "'b host \<Rightarrow> binkp_command \<Rightarrow> string \<Rightarrow> 'b mail_session \<Rightarrow> (binkp_error + unit) \<times> 'b mail_session" where
  "on_exchange h c args s =
     (if c = File then on_file h args s
      else if c = Got \<or> c = Skip \<or> c = Get then on_answer h c args s
      else if c = Eob then on_eob s
      else (Inl BpMalformed, s))"

text \<open>\<open>Inr True\<close> is the \<open>continue\<close> that skips the rest of the turn.\<close>

definition on_command ::
    "'b host \<Rightarrow> nat \<Rightarrow> u8 \<Rightarrow> bytes \<Rightarrow> 'b mail_session \<Rightarrow> (binkp_error + bool) \<times> 'b mail_session" where
  "on_command h t i args s =
     (let s = s\<lparr>command_count := command_count s + 1\<rparr> in
      if 4096 < command_count s then (Inl BpLimit, s)
      else
        (case from_id i of
           None \<Rightarrow> (Inr True, s)
         | Some c \<Rightarrow>
             if c = Err then (Inl (if phase s = Authenticating then BpAuthentication else BpRefused), s)
             else if c = Bsy then (Inl BpBusy, s)
             else if c = Nul then chain (on_nul args s) (\<lambda>_ s. (Inr True, s))
             else
               chain (command_text args, s) (\<lambda>a s.
               chain (if \<not> authenticated s then on_handshake h t c a s else on_exchange h c a s)
                 (\<lambda>_ s. (Inr False, s)))))"

definition on_frame :: "'b host \<Rightarrow> nat \<Rightarrow> frame \<Rightarrow> 'b mail_session \<Rightarrow> (binkp_error + bool) \<times> 'b mail_session" where
  "on_frame h t f s =
     (case f of
        FEmpty \<Rightarrow> (Inr False, s\<lparr>command_count := command_count s + 1\<rparr>)
      | FData bs \<Rightarrow> chain (on_data h bs s) (\<lambda>_ s. (Inr False, s))
      | FCommand i args \<Rightarrow> on_command h t i args s)"

section \<open>Outgoing files\<close>

definition recheck_queue :: "'b host \<Rightarrow> 'b mail_session \<Rightarrow> (binkp_error + unit) \<times> 'b mail_session" where
  "recheck_queue h s =
     (if pending s = [] \<and> protocol_of (batches s) = MultipleBatches \<and> (recheck s \<or> needs_eob (batches s)) then
        chain (on_store (next_batch h (MAX_FILES - outbound_count s) (MAX_SESSION_BYTES - outbound_bytes s)) s) (\<lambda>work s.
          let s = s\<lparr>outbound_count := outbound_count s + length work\<rparr> in
          if u64_max < outbound_bytes s + offer_sizes work then (Inl BpLimit, s)
          else
            (let s = s\<lparr>outbound_bytes := outbound_bytes s + offer_sizes work\<rparr> in
             if MAX_FILES < outbound_count s \<or> MAX_SESSION_BYTES < outbound_bytes s then (Inl BpLimit, s)
             else (Inr (), s\<lparr>pending := pending s @ work, recheck := False\<rparr>)))
      else (Inr (), s))"

definition offer_next :: "'b host \<Rightarrow> outgoing \<Rightarrow> 'b mail_session \<Rightarrow> (binkp_error + unit) \<times> 'b mail_session" where
  "offer_next h it s =
     chain (on_store (load h (key it)) s) (\<lambda>bs s.
       if length bs \<noteq> size_of (out_offer it) \<or> MAX_FILE < size_of (out_offer it) then (Inl BpCustody, s)
       else
         chain (on_store (offered h (key it)) s) (\<lambda>_ s.
         chain (on_batches begin_outgoing (noting (Offered (key it) (out_offer it)) s)) (\<lambda>_ s.
         let waiting = (''NR'' \<in> set (caps s));
             arguments = (if waiting then offer_arguments (out_offer it) False @ '' -1''
                          else offer_arguments (out_offer it) True)
         in chain (send File arguments s) (\<lambda>_ s.
            (Inr (), s\<lparr>sending := Some \<lparr>item = it, content = bs, position = 0, waiting_get = waiting\<rparr>\<rparr>)))))"

definition send_chunk :: "sending \<Rightarrow> 'b mail_session \<Rightarrow> (binkp_error + unit) \<times> 'b mail_session" where
  "send_chunk f s =
     (if \<not> waiting_get f \<and> position f < length (content f) then
        (let fin = min (position f + 8192) (length (content f));
             s = s\<lparr>transmitted_bytes := transmitted_bytes s + (fin - position f)\<rparr>
         in if MAX_SESSION_BYTES < transmitted_bytes s then (Inl BpLimit, s)
            else
              chain (on_wire (wire_push (FData (take (fin - position f) (drop (position f) (content f))))) s) (\<lambda>_ s.
                (Inr (), s\<lparr>sending := Some (f\<lparr>position := fin\<rparr>)\<rparr>)))
      else (Inr (), s))"

text \<open>\<open>Inr True\<close> is the return of the summary in the middle of the turn.\<close>

definition offer_or_end :: "'b host \<Rightarrow> 'b mail_session \<Rightarrow> (binkp_error + bool) \<times> 'b mail_session" where
  "offer_or_end h s =
     (if pending s = [] \<and> batches_complete (batches s) \<and> receiving s = None \<and> requested s = None
      then (Inr True, s)
      else
        (case pending s of
           it # rest \<Rightarrow> chain (offer_next h it (s\<lparr>pending := rest\<rparr>)) (\<lambda>_ s. (Inr False, s))
         | [] \<Rightarrow>
             if needs_eob (batches s) then
               chain (on_batches send_eob s) (\<lambda>_ s.
               chain (send Eob [] s) (\<lambda>_ s. (Inr False, s\<lparr>phase := Finishing\<rparr>)))
             else (Inr False, s)))"

definition feed_peer :: "'b host \<Rightarrow> 'b mail_session \<Rightarrow> (binkp_error + bool) \<times> 'b mail_session" where
  "feed_peer h s =
     (if authenticated s \<and> outbox (wire s) = [] then
        (let s = s\<lparr>phase := Exchanging\<rparr> in
         case sending s of
           Some f \<Rightarrow> chain (send_chunk f s) (\<lambda>_ s. (Inr False, s))
         | None \<Rightarrow> chain (recheck_queue h s) (\<lambda>_. offer_or_end h))
      else (Inr False, s))"

section \<open>The loop\<close>

definition finished :: "'b mail_session \<Rightarrow> bool" where
  "finished s \<longleftrightarrow>
     authenticated s \<and> batches_complete (batches s) \<and>
     (\<not> recheck s \<or> protocol_of (batches s) = OneBatch) \<and>
     pending s = [] \<and> sending s = None \<and> receiving s = None \<and> outbox (wire s) = []"

definition overdue :: "limits \<Rightarrow> nat \<Rightarrow> 'b mail_session \<Rightarrow> bool" where
  "overdue l t s \<longleftrightarrow>
     session_limit l < t \<or> idle_limit l < t - last_io (wire s) \<or> (\<not> authenticated s \<and> handshake_limit l < t)"

text \<open>The second half of a turn, after a frame was read or not; \<open>Inr True\<close> when it returns the summary.\<close>

definition rest_of_turn :: "'b host \<Rightarrow> nat \<Rightarrow> frame option \<Rightarrow> 'b mail_session \<Rightarrow> (binkp_error + bool) \<times> 'b mail_session" where
  "rest_of_turn h t fr s =
     chain (case fr of None \<Rightarrow> (Inr False, s) | Some f \<Rightarrow> on_frame h t f s) (\<lambda>skip s.
       if skip then (Inr False, s)
       else if 4096 < command_count s then (Inl BpLimit, s)
       else chain (feed_peer h s) (\<lambda>over s. if over then (Inr True, s) else (Inr (finished s), s)))"

definition turn :: "'b host \<Rightarrow> tick \<Rightarrow> 'b mail_session \<Rightarrow> (binkp_error + bool) \<times> 'b mail_session" where
  "turn h t s =
     (if cancelled t then (Inl BpCancelled, s)
      else if overdue (limits_of h) (now t) s then (Inl BpTimeout, s)
      else
        chain (on_wire (wire_flush (now t) (on_write t)) s) (\<lambda>_ s.
          if finished s then (Inr True, s)
          else chain (on_wire (wire_frame (now t) (on_read t)) s) (rest_of_turn h (now t))))"

definition no_summary :: summary where
  "no_summary = \<lparr>n_sent = 0, n_received = 0, n_skipped = 0\<rparr>"

definition new_wire :: "bytes \<Rightarrow> wire" where
  "new_wire inc = \<lparr>incoming = inc, inbox = [], outbox = [], written = 0, last_io = 0, taken = []\<rparr>"

definition new_session :: "bytes \<Rightarrow> plan option \<Rightarrow> 'b \<Rightarrow> 'b mail_session" where
  "new_session inc initial b =
     \<lparr>wire = new_wire inc, the_plan = initial, caller = (initial \<noteq> None), phase = Greeting, remote = None,
      challenge_of = None, caps = [], authenticated = False, password_sent = False, greeting_seen = False,
      command_count = 0, pending = [], sending = None, receiving = None, discard = False, requested = None,
      offered_count = 0, received_bytes = 0, transmitted_bytes = 0, batches = no_batches,
      advertised_version = None, outbound_count = 0, outbound_bytes = 0, recheck = False,
      summary = no_summary, store = b, journal = []\<rparr>"

definition greet :: "'b host \<Rightarrow> 'b mail_session \<Rightarrow> (binkp_error + unit) \<times> 'b mail_session" where
  "greet h s =
     (case the_plan s of
        Some p \<Rightarrow> on_wire (advertise p) s
      | None \<Rightarrow> send Nul (''OPT CRAM-MD5-'' @ hex (fresh h)) s)"

text \<open>The turns of \<open>exchange\<close> over the ticks there are; \<open>None\<close> when it is still running after them.\<close>

definition turns :: "'b host \<Rightarrow> tick list \<Rightarrow> 'b mail_session \<Rightarrow> (binkp_error + summary) option \<times> 'b mail_session" where
  "turns h ts s =
     (let (r, s) = run_until (turn h) ts s in (map_option (map_sum id (\<lambda>_. summary s)) r, s))"

definition exchange ::
    "'b host \<Rightarrow> plan option \<Rightarrow> bytes \<Rightarrow> 'b \<Rightarrow> tick list \<Rightarrow> (binkp_error + summary) option \<times> 'b mail_session" where
  "exchange h initial inc b ts =
     (case greet h (new_session inc initial b) of
        (Inl e, s) \<Rightarrow> (Some (Inl e), s)
      | (Inr _, s) \<Rightarrow> turns h ts s)"

text \<open>The close after an error: what is partly written is finished, then the error command.\<close>

definition error_text :: "binkp_error \<Rightarrow> string" where
  "error_text e =
     (case e of
        BpMalformed \<Rightarrow> ''malformed BinkP frame or command''
      | BpLimit \<Rightarrow> ''BinkP resource limit reached''
      | BpAddress \<Rightarrow> ''BinkP address mismatch''
      | BpAuthentication \<Rightarrow> ''BinkP authentication failed''
      | BpInterrupted \<Rightarrow> ''BinkP transfer interrupted''
      | BpTimeout \<Rightarrow> ''BinkP timeout''
      | BpUnavailable \<Rightarrow> ''BinkP link unavailable''
      | BpRefused \<Rightarrow> ''BinkP peer refused session''
      | BpCancelled \<Rightarrow> ''BinkP session cancelled''
      | BpCustody \<Rightarrow> ''BinkP artifact custody failed''
      | BpBusy \<Rightarrow> ''BinkP link busy'')"

fun drain :: "io list \<Rightarrow> wire \<Rightarrow> wire" where
  "drain [] w = w"
| "drain (r # rs) w =
     (if outbox w = [] then w
      else (case wire_flush (last_io w) r w of (Inl _, w) \<Rightarrow> w | (Inr _, w) \<Rightarrow> drain rs w))"

definition wire_abort :: "binkp_error \<Rightarrow> io list \<Rightarrow> wire \<Rightarrow> wire" where
  "wire_abort e rs w =
     (let w = (if written w = 0 then w\<lparr>outbox := []\<rparr> else w\<lparr>outbox := take 1 (outbox w)\<rparr>) in
      drain rs (snd (wire_send (if e = BpBusy then Bsy else Err) (error_text e) w)))"

definition run_session ::
    "'b host \<Rightarrow> plan option \<Rightarrow> bytes \<Rightarrow> 'b \<Rightarrow> tick list \<Rightarrow> io list \<Rightarrow>
       (binkp_error + summary) option \<times> 'b mail_session" where
  "run_session h initial inc b ts rs =
     (case exchange h initial inc b ts of
        (Some (Inl e), s) \<Rightarrow> (Some (Inl e), s\<lparr>wire := wire_abort e rs (wire s)\<rparr>)
      | (r, s) \<Rightarrow> (r, s))"

end
