(* ===== verification/Binkp_Custody.thy ===== *)
theory Binkp_Custody
  imports Binkp_Session "HOL-Library.Code_Target_Numeral"
begin

text \<open>
  What a mail session guarantees, over every behaviour of the clock, the socket, the peer and
  the backend: the order of custody, authentication before every transfer, the bounds, the
  meaning of a returned summary, and that the session ends.
\<close>

section \<open>Outcomes\<close>

lemma ends_on_store:
  "(\<And>x b. Q x (s\<lparr>store := b\<rparr>)) \<Longrightarrow> (\<And>b. E (s\<lparr>store := b\<rparr>)) \<Longrightarrow> ends_in Q E (on_store f s)"
  by (auto simp: on_store_def split: prod.split sum.split)

lemma ends_on_wire: "ends_in (\<lambda>x w. Q x (s\<lparr>wire := w\<rparr>)) (\<lambda>w. E (s\<lparr>wire := w\<rparr>)) (f (wire s)) \<Longrightarrow> ends_in Q E (on_wire f s)"
  by (auto simp: on_wire_def ends_in_def split: prod.splits sum.splits)

lemma ends_on_batches:
  "ends_in (\<lambda>x w. Q x (s\<lparr>batches := w\<rparr>)) (\<lambda>w. E (s\<lparr>batches := w\<rparr>)) (f (batches s)) \<Longrightarrow> ends_in Q E (on_batches f s)"
  by (auto simp: on_batches_def ends_in_def split: prod.splits sum.splits)

section \<open>Invariants\<close>

text \<open>Outgoing frames are whole, and the first is never wholly written.\<close>

definition wire_ok :: "wire \<Rightarrow> bool" where
  "wire_ok w \<longleftrightarrow>
     list_all (\<lambda>b. \<exists>f. frame_decode b = Inr f) (outbox w) \<and> length (outbox w) \<le> 64 \<and>
     (if outbox w = [] then written w = 0 else written w < length (hd (outbox w)))"

text \<open>
  The walk of the journal, over the file on offer and the file being received.  At most one
  file is on offer and not answered, and an acceptance or a skip names exactly that one.
  What is stored are the pieces that arrived since the file was announced, and all of them.
\<close>

type_synonym custody = "(string \<times> offer) option \<times> (offer \<times> bytes) option"

definition names_file :: "(string \<times> offer) option \<Rightarrow> string \<Rightarrow> offer \<Rightarrow> bool" where
  "names_file out k off \<longleftrightarrow>
     (\<exists>it. out = Some (k, it) \<and> name it = name off \<and> size_of it = size_of off \<and> time_of it = time_of off)"

lemma names_file_simps [simp]:
  "\<not> names_file None k off"
  "names_file (Some (l, it)) k off \<longleftrightarrow> l = k \<and> same_file it off"
  by (auto simp: names_file_def same_file_def)

fun custody_step :: "event \<Rightarrow> custody \<Rightarrow> custody option" where
  "custody_step (Offered k it) (out, inc) = (if out = None then Some (Some (k, it), inc) else None)"
| "custody_step (Accepted k off) (out, inc) = (if names_file out k off then Some (None, inc) else None)"
| "custody_step (Passed k off) (out, inc) = (if names_file out k off then Some (None, inc) else None)"
| "custody_step (Announced off) (out, inc) = (if wf_offer True off then Some (out, Some (off, [])) else None)"
| "custody_step (Arrived bs) (out, inc) =
     (case inc of
        None \<Rightarrow> None
      | Some (off, got) \<Rightarrow>
          if length got + length bs \<le> size_of off then Some (out, Some (off, got @ bs)) else None)"
| "custody_step (Stored off bs) (out, inc) =
     (if inc = Some (off, bs) \<and> length bs = size_of off then Some (out, None) else None)"
| "custody_step (Declined off) (out, inc) = Some (out, None)"
| "custody_step (Asked off) (out, inc) = Some (out, None)"
| "custody_step (Proved a) c = Some c"
| "custody_step (Answered a) c = Some c"

fun custody_walk :: "event list \<Rightarrow> custody \<Rightarrow> custody option" where
  "custody_walk [] c = Some c"
| "custody_walk (e # es) c = Option.bind (custody_step e c) (custody_walk es)"

abbreviation custody_of :: "event list \<Rightarrow> custody option" where
  "custody_of j \<equiv> custody_walk j (None, None)"

lemma custody_walk_snoc [simp]:
  "custody_walk (es @ [e]) c = Option.bind (custody_walk es c) (custody_step e)"
  by (induction es arbitrary: c) (auto split: bind_splits)

definition transfer :: "event \<Rightarrow> bool" where
  "transfer e = (case e of Proved _ \<Rightarrow> False | Answered _ \<Rightarrow> False | _ \<Rightarrow> True)"

definition occurs :: "(event \<Rightarrow> bool) \<Rightarrow> event list \<Rightarrow> nat" where
  "occurs p es = length (filter p es)"

definition is_accepted :: "event \<Rightarrow> bool" where
  "is_accepted e = (case e of Accepted _ _ \<Rightarrow> True | _ \<Rightarrow> False)"

definition is_stored :: "event \<Rightarrow> bool" where
  "is_stored e = (case e of Stored _ _ \<Rightarrow> True | _ \<Rightarrow> False)"

definition is_skipped :: "event \<Rightarrow> bool" where
  "is_skipped e = (case e of Passed _ _ \<Rightarrow> True | Declined _ \<Rightarrow> True | _ \<Rightarrow> False)"

lemma occurs_simps [simp]: "occurs p [] = 0" "occurs p (es @ [e]) = occurs p es + (if p e then 1 else 0)"
  by (simp_all add: occurs_def)

lemmas event_kinds [simp] =
  transfer_def is_accepted_def is_stored_def is_skipped_def

text \<open>What stands behind an authenticated session: the announced addresses include the link's,
  and the answerer has checked a password argument.\<close>

definition proof_ok :: "'b host \<Rightarrow> bool \<Rightarrow> plan option \<Rightarrow> endpoint list option \<Rightarrow> event list \<Rightarrow> bool" where
  "proof_ok h c p as j \<longleftrightarrow>
     (\<exists>q bs. p = Some q \<and> as = Some bs \<and> remote_aka q \<in> set bs \<and>
        (c \<or> (\<exists>a. Proved a \<in> set j \<and> check_password h q a = Inr ())))"

text \<open>What holds whatever happened, failures included.\<close>

definition journal_ok ::
    "'b host \<Rightarrow> plan option \<Rightarrow> bool \<Rightarrow> plan option \<Rightarrow> endpoint list option \<Rightarrow> event list \<Rightarrow> bool" where
  "journal_ok h i c p as j \<longleftrightarrow>
     c = (i \<noteq> None) \<and> (c \<longrightarrow> p = i) \<and> custody_of j \<noteq> None \<and>
     (\<forall>xs e ys. j = xs @ e # ys \<longrightarrow> transfer e \<longrightarrow> proof_ok h c p as xs) \<and>
     (\<forall>pwd. Answered pwd \<in> set j \<longrightarrow>
        (\<exists>q. i = Some q \<and> (auth q = RequireCram \<longrightarrow> (\<exists>ch. pwd = cram (mac h) (secret q) ch))))"

definition session_safe :: "'b host \<Rightarrow> plan option \<Rightarrow> 'b mail_session \<Rightarrow> bool" where
  "session_safe h i s \<longleftrightarrow>
     journal_ok h i (caller s) (the_plan s) (remote s) (journal s) \<and> wire_ok (wire s)"

definition receiving_ok :: "receiving option \<Rightarrow> offer option \<Rightarrow> batches \<Rightarrow> bool" where
  "receiving_ok rcv req b \<longleftrightarrow>
     (\<forall>r. rcv = Some r \<longrightarrow>
        length (r_bytes r) < size_of (r_offer r) \<and> wf_offer True (r_offer r) \<and> b_received b = 0 \<and> req = None) \<and>
     (req \<noteq> None \<longrightarrow> b_received b = 0)"

definition sending_ok :: "sending option \<Rightarrow> bool" where
  "sending_ok out \<longleftrightarrow>
     (\<forall>f. out = Some f \<longrightarrow>
        length (content f) = size_of (out_offer (item f)) \<and> length (content f) \<le> MAX_FILE \<and>
        position f \<le> length (content f))"

abbreviation out_file :: "sending option \<Rightarrow> (string \<times> offer) option" where
  "out_file \<equiv> map_option (\<lambda>f. (key (item f), out_offer (item f)))"

abbreviation in_part :: "receiving option \<Rightarrow> (offer \<times> bytes) option" where
  "in_part \<equiv> map_option (\<lambda>r. (r_offer r, r_bytes r))"

definition counts_ok :: "summary \<Rightarrow> event list \<Rightarrow> bool" where
  "counts_ok n j \<longleftrightarrow>
     n_sent n = occurs is_accepted j \<and> n_received n = occurs is_stored j \<and> n_skipped n = occurs is_skipped j"

definition bounds_ok :: "'b mail_session \<Rightarrow> bool" where
  "bounds_ok s \<longleftrightarrow>
     offered_count s \<le> MAX_FILES \<and> received_bytes s \<le> MAX_SESSION_BYTES \<and>
     transmitted_bytes s \<le> MAX_SESSION_BYTES \<and> outbound_count s \<le> MAX_FILES \<and>
     outbound_bytes s \<le> MAX_SESSION_BYTES \<and> length (pending s) \<le> outbound_count s"

definition before_login :: "'b mail_session \<Rightarrow> bool" where
  "before_login s \<longleftrightarrow>
     pending s = [] \<and> sending s = None \<and> receiving s = None \<and> requested s = None \<and>
     \<not> list_ex transfer (journal s) \<and> received_bytes s = 0 \<and> transmitted_bytes s = 0 \<and>
     b_sent (batches s) = 0 \<and> b_received (batches s) = 0"

definition address_ok :: "plan option \<Rightarrow> endpoint list option \<Rightarrow> bool" where
  "address_ok p as \<longleftrightarrow> (\<forall>bs. as = Some bs \<longrightarrow> (\<exists>q. p = Some q \<and> remote_aka q \<in> set bs))"

definition session_base :: "'b host \<Rightarrow> plan option \<Rightarrow> 'b mail_session \<Rightarrow> bool" where
  "session_base h i s \<longleftrightarrow>
     session_safe h i s \<and> receiving_ok (receiving s) (requested s) (batches s) \<and>
     sending_ok (sending s) \<and> counts_ok (summary s) (journal s) \<and> bounds_ok s \<and>
     address_ok (the_plan s) (remote s) \<and>
     (if authenticated s then proof_ok h (caller s) (the_plan s) (remote s) (journal s) else before_login s)"

definition session_ok :: "'b host \<Rightarrow> plan option \<Rightarrow> 'b mail_session \<Rightarrow> bool" where
  "session_ok h i s \<longleftrightarrow>
     session_base h i s \<and> custody_of (journal s) = Some (out_file (sending s), in_part (receiving s))"

text \<open>How the parts change.\<close>

lemma proof_ok_snoc: "proof_ok h c p as j \<Longrightarrow> proof_ok h c p as (j @ [e])"
  by (auto simp: proof_ok_def)

lemma snoc_eq_cut: "j @ [e] = xs @ f # ys \<longleftrightarrow> (ys = [] \<and> j = xs \<and> e = f) \<or> (\<exists>zs. ys = zs @ [e] \<and> j = xs @ f # zs)"
  by (cases ys rule: rev_cases) auto

lemma journal_ok_snoc:
  "journal_ok h i c p as j \<Longrightarrow> custody_of (j @ [e]) \<noteq> None \<Longrightarrow> proof_ok h c p as j \<Longrightarrow> transfer e \<Longrightarrow>
     journal_ok h i c p as (j @ [e])"
  unfolding journal_ok_def snoc_eq_cut by auto

lemma journal_ok_login:
  "journal_ok h i c p as j \<Longrightarrow> \<not> list_ex transfer j \<Longrightarrow> (c \<longrightarrow> p' = p) \<Longrightarrow> journal_ok h i c p' as' j"
  by (auto simp: journal_ok_def)

lemma journal_ok_proved:
  "journal_ok h i c p as j \<Longrightarrow> journal_ok h i c p as (j @ [Proved a])"
  unfolding journal_ok_def snoc_eq_cut by (auto simp: bind_eq_Some_conv)

lemma journal_ok_answered:
  "journal_ok h i c p as j \<Longrightarrow>
     \<exists>q. i = Some q \<and> (auth q = RequireCram \<longrightarrow> (\<exists>ch. a = cram (mac h) (secret q) ch)) \<Longrightarrow>
     journal_ok h i c p as (j @ [Answered a])"
  unfolding journal_ok_def snoc_eq_cut by (auto simp: bind_eq_Some_conv)

lemma sending_ok_None [simp]: "sending_ok None"
  by (simp add: sending_ok_def)

lemma receiving_ok_updates [simp]:
  "receiving_ok rcv req (confirmation b) = receiving_ok rcv req b"
  "receiving_ok rcv req (b\<lparr>b_sent := n\<rparr>) = receiving_ok rcv req b"
  "receiving_ok rcv req (b\<lparr>protocol_of := v\<rparr>) = receiving_ok rcv req b"
  "receiving_ok rcv req (b\<lparr>sent_total := n\<rparr>) = receiving_ok rcv req b"
  "receiving_ok rcv req (b\<lparr>reply := r\<rparr>) = receiving_ok rcv req b"
  by (simp_all add: receiving_ok_def confirmation_def)

lemma receiving_ok_None [simp]: "receiving_ok None None b"
  by (simp add: receiving_ok_def)

lemma receiving_ok_requested [simp]: "receiving_ok None (Some r) b \<longleftrightarrow> b_received b = 0"
  by (simp add: receiving_ok_def)

section \<open>The wire\<close>

lemma frame_encode_decodes: "frame_encode f = Inr b \<Longrightarrow> \<exists>g. frame_decode b = Inr g"
proof -
  assume e: "frame_encode f = Inr b"
  show ?thesis
  proof (cases "f = FData []")
    case True
    with e have "b = be_bytes 0" by (simp add: frame_encode_def)
    moreover have "frame_encode FEmpty = Inr (be_bytes 0)" by (simp add: frame_encode_def)
    moreover have "wf_frame FEmpty" by (simp add: wf_frame_def)
    ultimately show ?thesis using frame_decode_encode by blast
  next
    case False
    with e have "wf_frame f"
      by (auto simp: frame_encode_def wf_frame_def split: frame.splits if_splits)
    with e show ?thesis using frame_decode_encode by blast
  qed
qed

lemma decodable_nonempty: "frame_decode b = Inr g \<Longrightarrow> b \<noteq> []"
  by (auto dest: frame_decode_length)

lemma wire_push_ok: "wire_ok w \<Longrightarrow> ends_in (\<lambda>_. wire_ok) wire_ok (wire_push f w)"
  by (auto simp: wire_push_def wire_ok_def hd_append split: sum.splits if_splits
      dest: frame_encode_decodes decodable_nonempty)

lemma wire_send_ok: "wire_ok w \<Longrightarrow> ends_in (\<lambda>_. wire_ok) wire_ok (wire_send c a w)"
  by (auto simp: wire_send_def split: sum.split intro: wire_push_ok)

lemma wire_flush_ok: "wire_ok w \<Longrightarrow> ends_in (\<lambda>_. wire_ok) wire_ok (wire_flush t r w)"
proof (cases "outbox w")
  case (Cons b rest)
  assume ok: "wire_ok w"
  then obtain f where f: "frame_decode b = Inr f" using Cons by (auto simp: wire_ok_def)
  have w: "written w < length b" using ok Cons by (simp add: wire_ok_def)
  have rest: "rest = [] \<or> hd rest \<noteq> []"
    using ok Cons by (cases rest) (auto simp: wire_ok_def dest: decodable_nonempty)
  show ?thesis
  proof (cases r)
    case (Moves k)
    define out where "out = take k (drop (written w) b)"
    have "written w + length out \<le> length b" using w by (simp add: out_def)
    with ok w rest Cons f show ?thesis
      by (auto simp: wire_flush_def Moves Let_def wire_ok_def simp flip: out_def)
  qed (use ok Cons in \<open>simp_all add: wire_flush_def\<close>)
qed (simp add: wire_flush_def)

lemma wire_ok_updates [simp]:
  "wire_ok (w\<lparr>inbox := x\<rparr>) = wire_ok w" "wire_ok (w\<lparr>incoming := x\<rparr>) = wire_ok w"
  "wire_ok (w\<lparr>last_io := n\<rparr>) = wire_ok w"
  by (simp_all add: wire_ok_def)

lemma wire_read_ok: "wire_ok w \<Longrightarrow> ends_in (\<lambda>_. wire_ok) wire_ok (wire_read t r n w)"
  by (cases r) (simp_all add: wire_read_def Let_def wire_ok_def)

lemma wire_frame_ok: "wire_ok w \<Longrightarrow> ends_in (\<lambda>_. wire_ok) wire_ok (wire_frame t r w)"
proof -
  assume w: "wire_ok w"
  show ?thesis
  proof (cases "frame_needed (inbox w)")
    case (Inr n)
    show ?thesis
      unfolding wire_frame_def Inr chain_simps ends_chain
      by (rule ends_mono [OF wire_read_ok [OF w]]) (simp_all only: ends_if ends_simps Let_def ends_chain
          ends_pure wire_ok_updates split: sum.split if_split, simp_all)
  qed (simp add: wire_frame_def w)
qed

lemma advertise_ok: "wire_ok w \<Longrightarrow> ends_in (\<lambda>_. wire_ok) wire_ok (advertise p w)"
  by (simp add: advertise_def) (blast intro: wire_send_ok ends_mono)

lemma ends_wire:
  "ends_in (\<lambda>_. wire_ok) wire_ok (f (wire s)) \<Longrightarrow> (\<And>x w. wire_ok w \<Longrightarrow> Q x (s\<lparr>wire := w\<rparr>)) \<Longrightarrow>
     (\<And>w. wire_ok w \<Longrightarrow> E (s\<lparr>wire := w\<rparr>)) \<Longrightarrow> ends_in Q E (on_wire f s)"
  by (rule ends_on_wire) (auto intro: ends_mono)

lemma ends_send:
  "wire_ok (wire s) \<Longrightarrow> (\<And>x w. wire_ok w \<Longrightarrow> Q x (s\<lparr>wire := w\<rparr>)) \<Longrightarrow>
     (\<And>w. wire_ok w \<Longrightarrow> E (s\<lparr>wire := w\<rparr>)) \<Longrightarrow> ends_in Q E (send c a s)"
  unfolding send_def by (rule ends_wire) (auto intro: wire_send_ok)

section \<open>Each operation keeps the invariant\<close>

abbreviation kept :: "'b host \<Rightarrow> plan option \<Rightarrow> ('e + 'a) \<times> 'b mail_session \<Rightarrow> bool" where
  "kept h i \<equiv> ends_in (\<lambda>_. session_ok h i) (session_safe h i)"

lemmas session_parts = session_ok_def session_base_def session_safe_def bounds_ok_def

lemma b_received_confirmation [simp]: "b_received (confirmation b) = b_received b"
  by (simp add: confirmation_def)

lemma protocol_confirmation [simp]: "protocol_of (confirmation b) = protocol_of b"
  by (simp add: confirmation_def)

lemma session_ok_safe: "session_ok h i s \<Longrightarrow> session_safe h i s"
  by (simp add: session_ok_def session_base_def)

lemma on_eob_ok: "session_ok h i s \<Longrightarrow> authenticated s \<Longrightarrow> kept h i (on_eob s)"
  by (auto simp: on_eob_def session_parts receive_eob_def Let_def intro!: ends_on_batches)

lemma note_version_ok: "session_ok h i s \<Longrightarrow> kept h i (note_version a s)"
  by (auto simp: note_version_def session_parts before_login_def split: option.split)

lemma on_options_ok: "session_ok h i s \<Longrightarrow> kept h i (on_options f s)"
  by (auto simp: on_options_def session_parts before_login_def ends_in_def split: prod.splits sum.splits)

lemma begin_exchange_ok:
  "session_ok h i s \<Longrightarrow> authenticated s \<Longrightarrow> pending s = [] \<Longrightarrow> kept h i (begin_exchange h t s)"
  by (auto simp: begin_exchange_def session_parts Let_def split: sum.split option.split intro!: ends_on_store)

lemma recheck_queue_ok:
  "session_ok h i s \<Longrightarrow> authenticated s \<Longrightarrow> sending s = None \<Longrightarrow> outbox (wire s) = [] \<Longrightarrow>
     ends_in (\<lambda>_ t. session_ok h i t \<and> authenticated t \<and> sending t = None \<and> outbox (wire t) = [])
       (session_safe h i) (recheck_queue h s)"
  by (auto simp: recheck_queue_def session_parts Let_def intro!: ends_on_store)

lemma send_chunk_ok: "session_ok h i s \<Longrightarrow> authenticated s \<Longrightarrow> sending s = Some f \<Longrightarrow> kept h i (send_chunk f s)"
  by (auto simp: send_chunk_def session_parts sending_ok_def Let_def intro!: ends_wire wire_push_ok)

lemma on_data_ok: "session_ok h i s \<Longrightarrow> kept h i (on_data h bs s)"
proof -
  assume ok: "session_ok h i s"
  show ?thesis
  proof (cases "authenticated s \<and> accepts_file (batches s) \<and> requested s = None \<and>
      received_bytes s + length bs \<le> MAX_SESSION_BYTES")
    case True
    have "\<not> u64_max < received_bytes s + length bs"
      using True by (simp add: MAX_SESSION_BYTES_def u64_max_def)
    show ?thesis
    proof (cases "receiving s")
      case None
      with ok True \<open>\<not> u64_max < _\<close> show ?thesis by (auto simp: on_data_def Let_def session_parts)
    next
      case (Some r)
      have r: "wf_name (name (r_offer r))" "size_of (r_offer r) \<le> MAX_FILE" "b_received (batches s) = 0"
        using ok Some by (auto simp: session_ok_def session_base_def receiving_ok_def wf_offer_def)
      define whole where "whole = r_bytes r @ bs"
      have len: "length whole = length (r_bytes r) + length bs" by (simp add: whole_def)
      have walk: "custody_of (journal s) = Some (out_file (sending s), Some (r_offer r, r_bytes r))"
        using ok Some by (simp add: session_ok_def)
      define j where "j = journal s @ [Arrived bs]"
      have j: "custody_of j = Some (out_file (sending s), Some (r_offer r, whole))"
        "journal_ok h i (caller s) (the_plan s) (remote s) j" "proof_ok h (caller s) (the_plan s) (remote s) j"
        "counts_ok (summary s) j"
        if "length whole \<le> size_of (r_offer r)"
        using that ok True walk len Some
        by (auto simp: j_def whole_def session_ok_def session_base_def session_safe_def counts_ok_def
            intro!: journal_ok_snoc proof_ok_snoc)
      have stored: "custody_of (j @ [Stored (r_offer r) whole]) = Some (out_file (sending s), None)"
        "journal_ok h i (caller s) (the_plan s) (remote s) (j @ [Stored (r_offer r) whole])"
        "proof_ok h (caller s) (the_plan s) (remote s) (j @ [Stored (r_offer r) whole])"
        "counts_ok ((summary s)\<lparr>n_received := n_received (summary s) + 1\<rparr>) (j @ [Stored (r_offer r) whole])"
        if "length whole = size_of (r_offer r)"
        using that j by (auto simp: counts_ok_def intro!: journal_ok_snoc proof_ok_snoc)
      have j_append: "journal s @ [Arrived bs, e] = j @ [e]" for e by (simp add: j_def)
      show ?thesis
        using ok True \<open>\<not> u64_max < _\<close> Some j stored r len
        by (auto simp: on_data_def Let_def noting_def session_parts receiving_ok_def j_append
            simp flip: whole_def j_def intro!: ends_on_store ends_send)
    qed
  next
    case False
    with ok show ?thesis by (auto simp: on_data_def Let_def session_parts)
  qed
qed

lemma on_nul_ok: "session_ok h i s \<Longrightarrow> kept h i (on_nul a s)"
proof -
  assume ok: "session_ok h i s"
  have first: "kept h i (case command_text a of
          Inl _ \<Rightarrow> (Inr (), s)
        | Inr a \<Rightarrow> chain (note_version a s) (\<lambda>_. on_options (options a)))"
    using ok by (auto split: sum.split intro!: ends_mono [OF note_version_ok] on_options_ok)
  have last: "session_ok h i t \<Longrightarrow> session_ok h i (t\<lparr>greeting_seen := True\<rparr>)" for t
    by (auto simp: session_parts before_login_def)
  show ?thesis
    unfolding on_nul_def ends_chain
    by (rule ends_mono [OF first]) (auto simp: Let_def last, auto simp: session_parts)
qed

lemma on_password_ok:
  "session_ok h i s \<Longrightarrow> \<not> authenticated s \<Longrightarrow> \<not> caller s \<Longrightarrow> remote s \<noteq> None \<Longrightarrow>
     ends_in (\<lambda>_ t. session_ok h i t \<and> pending t = []) (session_safe h i) (on_password h a s)"
proof -
  assume ok: "session_ok h i s" and new: "\<not> authenticated s" "\<not> caller s" "remote s \<noteq> None"
  then obtain p as where p: "the_plan s = Some p" "remote s = Some as" "remote_aka p \<in> set as"
    and before: "before_login s"
    by (auto simp: session_ok_def session_base_def address_ok_def)
  have "journal_ok h i (caller s) (the_plan s) (remote s) (journal s @ [Proved a])"
    "custody_of (journal s @ [Proved a]) = custody_of (journal s)" "counts_ok (summary s) (journal s @ [Proved a])"
    using ok by (auto simp: session_ok_def session_base_def session_safe_def counts_ok_def intro!: journal_ok_proved)
  moreover have "check_password h p a = Inr () \<Longrightarrow> proof_ok h (caller s) (the_plan s) (remote s) (journal s @ [Proved a])"
    using p by (auto simp: proof_ok_def)
  ultimately show ?thesis
    using ok p before
    by (auto simp: on_password_def noting_def session_parts before_login_def split: sum.split intro!: ends_send)
qed

text \<open>A session whose plan is known and whose peer has not announced itself.\<close>

definition unannounced :: "'b host \<Rightarrow> plan option \<Rightarrow> 'b mail_session \<Rightarrow> bool" where
  "unannounced h i s \<longleftrightarrow> session_ok h i s \<and> \<not> authenticated s \<and> remote s = None"

lemma select_plan_ok: "unannounced h i s \<Longrightarrow> ends_in (\<lambda>_. unannounced h i) (session_safe h i) (select_plan h a s)"
  by (auto simp: select_plan_def unannounced_def session_parts address_ok_def before_login_def
      intro!: ends_on_store ends_wire advertise_ok intro: journal_ok_login)

lemma password_for_cram:
  "password_for h p ch = Inr pwd \<Longrightarrow> auth p = RequireCram \<Longrightarrow> \<exists>c. pwd = cram (mac h) (secret p) c"
  by (auto simp: password_for_def split: option.splits)

lemma check_addresses_ok:
  "unannounced h i s \<Longrightarrow>
     ends_in (\<lambda>_ t. session_ok h i t \<and> \<not> authenticated t) (session_safe h i) (check_addresses h a s)"
proof -
  assume "unannounced h i s"
  then have ok: "session_ok h i s" and new: "\<not> authenticated s" "remote s = None" and b: "before_login s"
    by (auto simp: unannounced_def session_ok_def session_base_def)
  have nt: "\<not> list_ex transfer (journal s)" using b by (simp add: before_login_def)
  have j: "journal_ok h i (caller s) (the_plan s) r (journal s)" for r
    using ok nt by (auto simp: session_ok_def session_base_def session_safe_def intro: journal_ok_login)
  have ans: "journal_ok h i (caller s) (the_plan s) r (journal s @ [Answered pwd])"
    if "the_plan s = Some p" "caller s" "password_for h p (challenge_of s) = Inr pwd" for r p pwd
    by (rule journal_ok_answered [OF j]) (use that j [of None] in \<open>auto simp: journal_ok_def dest: password_for_cram\<close>)
  have parts: "custody_of (journal s @ [Answered pwd]) = custody_of (journal s)" "counts_ok (summary s) (journal s @ [Answered pwd])" for pwd
    using ok by (auto simp: session_ok_def session_base_def sending_ok_def counts_ok_def)
  have safe: "session_safe h i s" using ok by (simp add: session_ok_def session_base_def)
  show ?thesis
  proof (cases "the_plan s")
    case (Some p)
    define dom where "dom = (if domainless p then Some (domain_of (remote_aka p)) else None)"
    show ?thesis
    proof (cases "addresses a dom")
      case (Inr as)
      define t where "t = s\<lparr>remote := Some as, phase := Authenticating\<rparr>"
      have t: "session_ok h i t" "\<not> authenticated t" if "remote_aka p \<in> set as"
        using ok new b j that by (auto simp: t_def session_parts before_login_def address_ok_def Some)
      have sent: "ends_in (\<lambda>_ t. session_ok h i t \<and> \<not> authenticated t) (session_safe h i)
          (chain (password_for h p (challenge_of t), t) (\<lambda>pwd s.
             chain (send Pwd pwd s) (\<lambda>_ s. (Inr (), noting (Answered pwd) (s\<lparr>password_sent := True\<rparr>)))))"
        if r: "remote_aka p \<in> set as" and c: "caller s"
      proof (cases "password_for h p (challenge_of s)")
        case (Inl e)
        then show ?thesis using t(1) [OF r] by (simp add: session_ok_def session_base_def t_def)
      next
        case (Inr pwd)
        have "journal_ok h i (caller s) (Some p) (Some as) (journal s @ [Answered pwd])"
          using ans [OF Some c Inr] Some by simp
        then show ?thesis
          using Inr t [OF r] parts
          by (auto simp: t_def session_parts before_login_def noting_def Some intro!: ends_send)
      qed
      show ?thesis
        using Inr safe sent t
        by (simp add: check_addresses_def Some Let_def flip: t_def dom_def)
          (auto simp: t_def)
    qed (use safe in \<open>simp add: check_addresses_def Some flip: dom_def\<close>)
  qed (simp add: check_addresses_def safe)
qed

lemma on_address_ok:
  "session_ok h i s \<Longrightarrow> \<not> authenticated s \<Longrightarrow>
     ends_in (\<lambda>_ t. session_ok h i t \<and> \<not> authenticated t) (session_safe h i) (on_address h a s)"
proof (cases "remote s = None")
  case True
  assume "session_ok h i s" and "\<not> authenticated s"
  with True have "unannounced h i s" by (simp add: unannounced_def)
  from ends_mono [OF select_plan_ok [OF this] check_addresses_ok] True show ?thesis
    by (simp add: on_address_def)
qed (simp add: on_address_def session_ok_def session_base_def)

lemma offer_next_ok:
  "session_ok h i s \<Longrightarrow> authenticated s \<Longrightarrow> sending s = None \<Longrightarrow> kept h i (offer_next h it s)"
proof -
  assume ok: "session_ok h i s" and auth: "authenticated s" and out: "sending s = None"
  have walk: "custody_of (journal s) = Some (None, in_part (receiving s))"
    using ok out by (auto simp: session_ok_def)
  have "journal_ok h i (caller s) (the_plan s) (remote s) (journal s @ [Offered (key it) (out_offer it)])"
    "proof_ok h (caller s) (the_plan s) (remote s) (journal s @ [Offered (key it) (out_offer it)])"
    "counts_ok (summary s) (journal s @ [Offered (key it) (out_offer it)])"
    "custody_of (journal s @ [Offered (key it) (out_offer it)]) = Some (Some (key it, out_offer it), in_part (receiving s))"
    "\<And>bs w. length bs = size_of (out_offer it) \<Longrightarrow> length bs \<le> MAX_FILE \<Longrightarrow>
        sending_ok (Some \<lparr>item = it, content = bs, position = 0, waiting_get = w\<rparr>)"
    using ok auth walk by (auto simp: session_ok_def session_base_def session_safe_def counts_ok_def sending_ok_def
        intro!: journal_ok_snoc proof_ok_snoc)
  then show ?thesis
    using ok auth
    by (auto simp: offer_next_def begin_outgoing_def noting_def Let_def session_parts
        intro!: ends_on_store ends_on_batches ends_send)
qed

lemma on_handshake_ok: "session_ok h i s \<Longrightarrow> \<not> authenticated s \<Longrightarrow> kept h i (on_handshake h t c a s)"
proof -
  assume ok: "session_ok h i s" and new: "\<not> authenticated s"
  then have b: "before_login s" and safe: "session_safe h i s" by (auto simp: session_ok_def session_base_def)
  have start: "session_ok h i u \<Longrightarrow> pending u = [] \<Longrightarrow>
      kept h i (if authenticated u then begin_exchange h t u else (Inr (), u))" for u
    by (simp add: begin_exchange_ok)
  have login: "session_ok h i (s\<lparr>authenticated := True\<rparr>)" if "caller s" "remote s \<noteq> None"
    using that ok new b by (auto simp: session_parts before_login_def address_ok_def proof_ok_def)
  consider "c = Adr" | "c \<noteq> Adr" "c = Pwd \<and> \<not> caller s \<and> remote s \<noteq> None"
    | "c = Ok" "caller s \<and> password_sent s \<and> remote s \<noteq> None"
    | "c \<noteq> Adr" "\<not> (c = Pwd \<and> \<not> caller s \<and> remote s \<noteq> None)"
      "\<not> (c = Ok \<and> caller s \<and> password_sent s \<and> remote s \<noteq> None)"
    by blast
  then show ?thesis
  proof cases
    case 1
    then show ?thesis
      using ends_mono [OF on_address_ok [OF ok new, of a], where Q' = "\<lambda>_ u. kept h i (if authenticated u then begin_exchange h t u else (Inr (), u))" and E' = "session_safe h i"]
      by (simp add: on_handshake_def)
  next
    case 2
    then show ?thesis
      using ends_mono [OF on_password_ok [OF ok new, of a], where Q' = "\<lambda>_ u. kept h i (if authenticated u then begin_exchange h t u else (Inr (), u))" and E' = "session_safe h i"]
        start
      by (simp add: on_handshake_def)
  next
    case 3
    have "pending s = []" using b by (simp add: before_login_def)
    with 3 login start [of "s\<lparr>authenticated := True\<rparr>"] safe show ?thesis
      by (simp add: on_handshake_def)
  next
    case 4
    then show ?thesis using safe by (auto simp: on_handshake_def)
  qed
qed

lemma file_command_wf: "file_command a w nr e = Inr (off, r) \<Longrightarrow> wf_offer w off"
  by (auto simp: file_command_def Let_def result_simps dest: offer_parse_wf)

lemma accepts_file_activity: "accepts_file b \<Longrightarrow> b_received (activity b) = 0"
  by (auto simp: accepts_file_def activity_def)

lemma answer_offer_ok:
  "session_base h i s \<Longrightarrow> custody_of (journal s) = Some (out_file (sending s), x) \<Longrightarrow> authenticated s \<Longrightarrow>
     b_received (batches s) = 0 \<Longrightarrow> wf_offer True off \<Longrightarrow> receiving s = None \<Longrightarrow> requested s = None \<Longrightarrow>
     kept h i (answer_offer h off k s)"
proof -
  assume ok: "session_base h i s" and auth: "authenticated s" and idle: "receiving s = None" "requested s = None"
    and walk: "custody_of (journal s) = Some (out_file (sending s), x)"
    and zero: "b_received (batches s) = 0" and wf: "wf_offer True off"
  have log: "journal_ok h i (caller s) (the_plan s) (remote s) (journal s @ [e])"
    "proof_ok h (caller s) (the_plan s) (remote s) (journal s @ [e])"
    if "e = Declined off \<or> e = Announced off \<or> e = Asked (off\<lparr>offset_of := 0\<rparr>)" for e
    using that ok auth walk wf by (auto simp: session_base_def session_safe_def intro!: journal_ok_snoc proof_ok_snoc)
  have n: "counts_ok ((summary s)\<lparr>n_skipped := n_skipped (summary s) + 1\<rparr>) (journal s @ [Declined off])"
    "counts_ok (summary s) (journal s @ [Announced off])"
    "counts_ok (summary s) (journal s @ [Asked (off\<lparr>offset_of := 0\<rparr>)])"
    using ok by (auto simp: session_base_def counts_ok_def)
  have r: "receiving_ok (Some \<lparr>r_offer = off, r_bytes = []\<rparr>) None (batches s)"
    using zero wf by (simp add: receiving_ok_def) (simp add: wf_offer_def)
  consider "test_mode s \<or> \<not> accepts_name h (name off) (store s)"
    | "\<not> (test_mode s \<or> \<not> accepts_name h (name off) (store s))" "k = AtRequest \<or> offset_of off \<noteq> 0"
    | "\<not> (test_mode s \<or> \<not> accepts_name h (name off) (store s))" "\<not> (k = AtRequest \<or> offset_of off \<noteq> 0)"
    by blast
  then show ?thesis
  proof cases
    case 1
    then show ?thesis
      unfolding answer_offer_def Let_def ends_if ends_chain
      using ok auth idle walk log [of "Declined off"] n(1)
      by (simp, intro ends_send) (simp_all add: noting_def session_parts)
  next
    case 2
    then show ?thesis
      unfolding answer_offer_def Let_def ends_if ends_chain
      using ok auth idle zero walk log [of "Asked (off\<lparr>offset_of := 0\<rparr>)"] n(3)
      by (simp, intro ends_send) (simp_all add: noting_def session_parts)
  next
    case 3
    then show ?thesis
      unfolding answer_offer_def Let_def ends_if ends_chain
      using ok auth idle walk wf r log [of "Announced off"] n(2)
      by (simp add: noting_def session_parts)
  qed
qed

lemma on_file_ok: "session_ok h i s \<Longrightarrow> authenticated s \<Longrightarrow> kept h i (on_file h a s)"
proof -
  assume ok: "session_ok h i s" and auth: "authenticated s"
  then have safe: "session_safe h i s" by (simp add: session_ok_def session_base_def)
  define m where "m = (protocol_of (activity (batches s)) = MultipleBatches)"
  show ?thesis
  proof (cases "accepts_file (batches s) \<and> offered_count s + 1 \<le> MAX_FILES")
    case True
    then have zero: "b_received (activity (batches s)) = 0" using accepts_file_activity by blast
    show ?thesis
    proof (cases "file_command a True (m \<or> ''NR'' \<in> set (caps s)) m")
      case (Inr r)
      obtain off k where r: "r = (off, k)" by (cases r)
      have "wf_offer True off" using Inr r file_command_wf by blast
      moreover have "session_base h i (s\<lparr>offered_count := offered_count s + 1, batches := activity (batches s),
          requested := None, receiving := None, discard := False\<rparr>)"
        using ok auth True by (auto simp: session_parts)
      moreover have "custody_of (journal s) = Some (out_file (sending s), in_part (receiving s))"
        using ok by (simp add: session_ok_def)
      ultimately have "kept h i (answer_offer h off k (s\<lparr>offered_count := offered_count s + 1,
          batches := activity (batches s), requested := None, receiving := None, discard := False\<rparr>))"
        using auth zero by (simp add: answer_offer_ok)
      with True Inr safe show ?thesis
        by (simp add: on_file_def Let_def r session_safe_def flip: m_def)
    qed (use True safe in \<open>simp add: on_file_def Let_def session_safe_def flip: m_def\<close>)
  next
    case False
    with safe show ?thesis by (auto simp: on_file_def Let_def session_safe_def)
  qed
qed

lemma on_answer_ok: "session_ok h i s \<Longrightarrow> authenticated s \<Longrightarrow> kept h i (on_answer h c a s)"
proof -
  assume ok: "session_ok h i s" and auth: "authenticated s"
  then have safe: "session_safe h i s" by (simp add: session_ok_def session_base_def)
  define r where "r = file_command a (c = Get) False (protocol_of (batches s) = MultipleBatches)"
  show ?thesis
  proof (cases "\<exists>off k f. r = Inr (off, k) \<and> sending s = Some f \<and> same_file (out_offer (item f)) off")
    case True
    then obtain off k f where r: "r = Inr (off, k)" and f: "sending s = Some f"
      and same: "same_file (out_offer (item f)) off" by blast
    have walk: "custody_of (journal s) = Some (Some (key (item f), out_offer (item f)), in_part (receiving s))"
      using ok f by (simp add: session_ok_def)
    have log: "custody_of (journal s @ [e]) = Some (None, in_part (receiving s))" "journal_ok h i (caller s) (the_plan s) (remote s) (journal s @ [e])"
      "proof_ok h (caller s) (the_plan s) (remote s) (journal s @ [e])"
      if "e = Accepted (key (item f)) off \<or> e = Passed (key (item f)) off" for e
      using that ok auth walk same f by (auto simp: session_ok_def session_base_def session_safe_def sending_ok_def
          intro!: journal_ok_snoc proof_ok_snoc)
    have n: "counts_ok ((summary s)\<lparr>n_sent := n_sent (summary s) + 1\<rparr>) (journal s @ [Accepted (key (item f)) off])"
      "counts_ok ((summary s)\<lparr>n_skipped := n_skipped (summary s) + 1\<rparr>) (journal s @ [Passed (key (item f)) off])"
      using ok by (auto simp: session_ok_def session_base_def counts_ok_def)
    have get: "sending_ok (Some (f\<lparr>position := offset_of off, waiting_get := False\<rparr>))" if "c = Get"
      using file_command_wf [OF r [unfolded r_def]] that ok f same
      by (auto simp: session_ok_def session_base_def sending_ok_def wf_offer_def same_file_def)
    have "kept h i (send File (offer_arguments off True)
        (s\<lparr>sending := Some (f\<lparr>position := offset_of off, waiting_get := False\<rparr>)\<rparr>))" if "c = Get"
      using ok auth f get [OF that] by (auto simp: session_parts intro!: ends_send)
    moreover have "kept h i (chain (on_store (accepted h (key (item f))) s) (\<lambda>_ s.
        (Inr (), (noting (Accepted (key (item f)) off) (s\<lparr>summary := (summary s)\<lparr>n_sent := n_sent (summary s) + 1\<rparr>\<rparr>))\<lparr>sending := None\<rparr>)))"
      using ok auth log [of "Accepted (key (item f)) off"] n(1)
      by (auto simp: session_parts noting_def intro!: ends_on_store)
    moreover have "session_ok h i ((noting (Passed (key (item f)) off)
        (s\<lparr>summary := (summary s)\<lparr>n_skipped := n_skipped (summary s) + 1\<rparr>\<rparr>))\<lparr>sending := None\<rparr>)"
      using ok auth log [of "Passed (key (item f)) off"] n(2) by (simp add: session_parts noting_def)
    ultimately show ?thesis
      using same by (simp add: on_answer_def r [unfolded r_def] f noting_def)
  next
    case False
    then show ?thesis
      using safe by (cases r; cases "sending s") (auto simp: on_answer_def r_def [symmetric] session_safe_def)
  qed
qed

lemma on_exchange_ok: "session_ok h i s \<Longrightarrow> authenticated s \<Longrightarrow> kept h i (on_exchange h c a s)"
  by (simp add: on_exchange_def on_file_ok on_answer_ok on_eob_ok) (simp add: session_ok_def session_base_def)

definition settled :: "'b mail_session \<Rightarrow> bool" where
  "settled s \<longleftrightarrow>
     authenticated s \<and> pending s = [] \<and> sending s = None \<and> receiving s = None \<and> requested s = None \<and>
     outbox (wire s) = [] \<and> 1 \<le> b_sent (batches s) \<and> 1 \<le> b_received (batches s)"

lemma complete_counts: "batches_complete b \<Longrightarrow> 1 \<le> b_sent b \<and> 1 \<le> b_received b"
  by (auto simp: batches_complete_def Let_def split: if_splits)

lemma finished_settled: "session_ok h i s \<Longrightarrow> finished s \<Longrightarrow> settled s"
  using complete_counts [of "batches s"]
  by (auto simp: finished_def settled_def session_ok_def session_base_def receiving_ok_def)

lemma offer_or_end_ok:
  "session_ok h i s \<Longrightarrow> authenticated s \<Longrightarrow> sending s = None \<Longrightarrow> outbox (wire s) = [] \<Longrightarrow>
     ends_in (\<lambda>over t. session_ok h i t \<and> (over \<longrightarrow> settled t)) (session_safe h i) (offer_or_end h s)"
proof -
  assume ok: "session_ok h i s" and auth: "authenticated s" and out: "sending s = None" and e: "outbox (wire s) = []"
  show ?thesis
  proof (cases "pending s")
    case Nil
    have "kept h i (chain (on_batches send_eob s) (\<lambda>_ s. chain (send Eob [] s) (\<lambda>_ s. (Inr False, s\<lparr>phase := Finishing\<rparr>))))"
      using ok auth by (auto simp: send_eob_def Let_def session_parts intro!: ends_on_batches ends_send)
    moreover have "batches_complete (batches s) \<and> receiving s = None \<and> requested s = None \<Longrightarrow> settled s"
      using complete_counts [of "batches s"] auth out e Nil by (simp add: settled_def)
    ultimately show ?thesis
      using ok Nil by (auto simp: offer_or_end_def)
  next
    case (Cons it rest)
    have "session_ok h i (s\<lparr>pending := rest\<rparr>)"
      using ok auth Cons by (auto simp: session_parts)
    then have "kept h i (offer_next h it (s\<lparr>pending := rest\<rparr>))"
      using auth out by (simp add: offer_next_ok)
    with Cons show ?thesis by (simp add: offer_or_end_def)
  qed
qed

lemma feed_peer_ok:
  "session_ok h i s \<Longrightarrow>
     ends_in (\<lambda>over t. session_ok h i t \<and> (over \<longrightarrow> settled t)) (session_safe h i) (feed_peer h s)"
proof (cases "authenticated s \<and> outbox (wire s) = []")
  case True
  assume ok: "session_ok h i s"
  define u where "u = s\<lparr>phase := Exchanging\<rparr>"
  have u: "session_ok h i u" "authenticated u" "outbox (wire u) = []" "sending u = sending s"
    using ok True by (auto simp: u_def session_parts)
  show ?thesis
  proof (cases "sending s")
    case None
    let ?Q = "\<lambda>over t. session_ok h i t \<and> (over \<longrightarrow> settled t)"
    have "ends_in (\<lambda>_ v. ends_in ?Q (session_safe h i) (offer_or_end h v)) (session_safe h i) (recheck_queue h u)"
      by (rule ends_mono [OF recheck_queue_ok [OF u(1,2) _ u(3)]]) (simp_all add: u(4) None offer_or_end_ok)
    with None show ?thesis
      using True u(4) by (simp add: feed_peer_def Let_def flip: u_def)
  next
    case (Some f)
    then show ?thesis
      using True u send_chunk_ok [of h i u f] by (simp add: feed_peer_def Let_def flip: u_def)
  qed
next
  case False
  assume "session_ok h i s"
  with False show ?thesis by (auto simp: feed_peer_def)
qed

lemma session_ok_count: "session_ok h i s \<Longrightarrow> session_ok h i (s\<lparr>command_count := n\<rparr>)"
  by (auto simp: session_parts before_login_def)

lemma on_command_ok: "session_ok h i s \<Longrightarrow> kept h i (on_command h t c args s)"
proof -
  assume ok: "session_ok h i s"
  define u where "u = s\<lparr>command_count := command_count s + 1\<rparr>"
  have u: "session_ok h i u" unfolding u_def by (rule session_ok_count [OF ok])
  then have safe: "session_safe h i u" by (simp add: session_ok_def session_base_def)
  show ?thesis
    unfolding on_command_def Let_def u_def [symmetric]
    using u safe by (auto simp: on_nul_ok on_handshake_ok on_exchange_ok split: option.split sum.split)
qed

lemma on_frame_ok: "session_ok h i s \<Longrightarrow> kept h i (on_frame h t f s)"
  by (cases f) (simp_all add: on_frame_def on_data_ok on_command_ok session_ok_count)

lemma rest_of_turn_ok:
  "session_ok h i s \<Longrightarrow>
     ends_in (\<lambda>over t. session_ok h i t \<and> (over \<longrightarrow> settled t)) (session_safe h i) (rest_of_turn h t fr s)"
proof -
  assume ok: "session_ok h i s"
  let ?Q = "\<lambda>over t. session_ok h i t \<and> (over \<longrightarrow> settled t)"
  let ?E = "session_safe h i"
  have feed: "ends_in ?Q ?E (chain (feed_peer h u) (\<lambda>over s. if over then (Inr True, s) else (Inr (finished s), s)))"
    if "session_ok h i u" for u
    unfolding ends_chain by (rule ends_mono [OF feed_peer_ok [OF that]]) (auto dest: finished_settled)
  have frame: "kept h i (case fr of None \<Rightarrow> (Inr False, s) | Some f \<Rightarrow> on_frame h t f s)"
    using ok by (auto simp: on_frame_ok split: option.split)
  show ?thesis
    unfolding rest_of_turn_def ends_chain [of _ _ "case fr of None \<Rightarrow> _ | Some f \<Rightarrow> _ f"]
    by (rule ends_mono [OF frame]) (auto simp: feed session_ok_safe simp del: ends_chain)
qed

lemma on_wire_ok: "session_ok h i s \<Longrightarrow> ends_in (\<lambda>_. wire_ok) wire_ok (f (wire s)) \<Longrightarrow> kept h i (on_wire f s)"
  by (rule ends_wire) (auto simp: session_parts before_login_def)

lemma turn_ok:
  "session_ok h i s \<Longrightarrow>
     ends_in (\<lambda>over t. session_ok h i t \<and> (over \<longrightarrow> settled t)) (session_safe h i) (turn h t s)"
proof -
  assume ok: "session_ok h i s"
  then have safe: "session_safe h i s" by (simp add: session_ok_def session_base_def)
  have w: "session_ok h i u \<Longrightarrow> wire_ok (wire u)" for u by (simp add: session_parts)
  let ?Q = "\<lambda>over t. session_ok h i t \<and> (over \<longrightarrow> settled t)"
  let ?E = "session_safe h i"
  have after: "ends_in ?Q ?E (chain (on_wire (wire_frame (now t) (on_read t)) u) (rest_of_turn h (now t)))"
    if u: "session_ok h i u" for u
    unfolding ends_chain
    by (rule ends_mono [OF on_wire_ok [where f = "wire_frame (now t) (on_read t)", OF u wire_frame_ok [OF w [OF u]]]]) (simp_all add: rest_of_turn_ok)
  have "ends_in ?Q ?E (chain (on_wire (wire_flush (now t) (on_write t)) s) (\<lambda>_ s.
          if finished s then (Inr True, s)
          else chain (on_wire (wire_frame (now t) (on_read t)) s) (rest_of_turn h (now t))))"
    unfolding ends_chain [of _ _ "on_wire (wire_flush _ _) _"]
    by (rule ends_mono [OF on_wire_ok [where f = "wire_flush (now t) (on_write t)", OF ok wire_flush_ok [OF w [OF ok]]]])
      (auto simp: after dest: finished_settled simp del: ends_chain)
  with safe show ?thesis
    by (simp add: turn_def)
qed

interpretation mail: server "turn h" "session_ok h i" "session_safe h i" settled for h i
  by unfold_locales (rule turn_ok, auto intro: session_ok_safe)

lemma turns_ok:
  "session_ok h i s \<Longrightarrow> turns h ts s = (r, u) \<Longrightarrow>
     session_safe h i u \<and> ((\<forall>e. r \<noteq> Some (Inl e)) \<longrightarrow> session_ok h i u) \<and>
     (\<forall>n. r = Some (Inr n) \<longrightarrow> settled u \<and> n = summary u)"
proof -
  assume ok: "session_ok h i s" and t: "turns h ts s = (r, u)"
  then obtain x where x: "run_until (turn h) ts s = (x, u)" and r: "r = map_option (map_sum id (\<lambda>_. summary u)) x"
    by (auto simp: turns_def split: prod.splits)
  from mail.run_ends [OF ok x] show ?thesis
    unfolding r by (cases x rule: option.exhaust; cases "the x") auto
qed

lemma new_session_ok: "session_ok h i (new_session inc i b)"
  by (simp add: new_session_def session_parts journal_ok_def sending_ok_def wire_ok_def new_wire_def sending_ok_def counts_ok_def
      no_summary_def no_batches_def before_login_def address_ok_def)

lemma greet_ok: "session_ok h i s \<Longrightarrow> kept h i (greet h s)"
  by (auto simp: greet_def session_parts before_login_def split: option.split intro!: ends_send ends_wire advertise_ok)

lemma exchange_ok:
  "exchange h i inc b ts = (r, u) \<Longrightarrow>
     session_safe h i u \<and> ((\<forall>e. r \<noteq> Some (Inl e)) \<longrightarrow> session_ok h i u) \<and>
     (\<forall>n. r = Some (Inr n) \<longrightarrow> settled u \<and> n = summary u)"
proof -
  assume x: "exchange h i inc b ts = (r, u)"
  obtain y v where g: "greet h (new_session inc i b) = (y, v)" by (cases "greet h (new_session inc i b)")
  have k: "kept h i (y, v)" using greet_ok [OF new_session_ok, of h i inc b] by (simp add: g)
  show ?thesis
  proof (cases y)
    case (Inl e)
    with x k g show ?thesis by (auto simp: exchange_def)
  next
    case (Inr z)
    with k have "session_ok h i v" by simp
    from turns_ok [OF this] x g Inr show ?thesis by (simp add: exchange_def)
  qed
qed

section \<open>Reading the journal\<close>

lemma custody_walk_append: "custody_walk (xs @ ys) c = Option.bind (custody_walk xs c) (custody_walk ys)"
  by (induction xs arbitrary: c) (auto split: bind_splits)

text \<open>Events about the file on offer, and about the file being received.\<close>

definition about_offer :: "event \<Rightarrow> bool" where
  "about_offer e = (case e of Offered _ _ \<Rightarrow> True | Accepted _ _ \<Rightarrow> True | Passed _ _ \<Rightarrow> True | _ \<Rightarrow> False)"

definition about_arrival :: "event \<Rightarrow> bool" where
  "about_arrival e =
     (case e of Announced _ \<Rightarrow> True | Stored _ _ \<Rightarrow> True | Declined _ \<Rightarrow> True | Asked _ \<Rightarrow> True | _ \<Rightarrow> False)"

definition piece :: "event \<Rightarrow> bytes" where
  "piece e = (case e of Arrived bs \<Rightarrow> bs | _ \<Rightarrow> [])"

definition is_offered :: "event \<Rightarrow> bool" where
  "is_offered e = (case e of Offered _ _ \<Rightarrow> True | _ \<Rightarrow> False)"

definition is_passed :: "event \<Rightarrow> bool" where
  "is_passed e = (case e of Passed _ _ \<Rightarrow> True | _ \<Rightarrow> False)"

lemma custody_offered:
  "custody_of j = Some (Some (k, it), inc) \<Longrightarrow> \<exists>xs ys. j = xs @ Offered k it # ys \<and> \<not> list_ex about_offer ys"
proof (induction j arbitrary: inc rule: rev_induct)
  case (snoc e j)
  then obtain out inc' where w: "custody_of j = Some (out, inc')" and st: "custody_step e (out, inc') = Some (Some (k, it), inc)"
    by (auto simp: bind_eq_Some_conv)
  show ?case
  proof (cases "about_offer e")
    case True
    with st have "e = Offered k it" by (cases e) (auto simp: about_offer_def split: if_splits option.splits)
    then have "j @ [e] = j @ Offered k it # [] \<and> \<not> list_ex about_offer []" by simp
    then show ?thesis by blast
  next
    case False
    with st have "out = Some (k, it)" by (cases e) (auto simp: about_offer_def split: if_splits option.splits)
    with snoc.IH w obtain xs ys where "j = xs @ Offered k it # ys" "\<not> list_ex about_offer ys" by blast
    with False have "j @ [e] = xs @ Offered k it # (ys @ [e]) \<and> \<not> list_ex about_offer (ys @ [e])" by simp
    then show ?thesis by blast
  qed
qed simp

lemma custody_arriving:
  "custody_of j = Some (out, Some (off, got)) \<Longrightarrow>
     \<exists>xs ys. j = xs @ Announced off # ys \<and> \<not> list_ex about_arrival ys \<and> got = concat (map piece ys) \<and>
       wf_offer True off"
proof (induction j arbitrary: out got rule: rev_induct)
  case (snoc e j)
  then obtain out' inc where w: "custody_of j = Some (out', inc)"
    and st: "custody_step e (out', inc) = Some (out, Some (off, got))"
    by (auto simp: bind_eq_Some_conv)
  show ?case
  proof (cases "about_arrival e")
    case True
    with st have "e = Announced off \<and> got = [] \<and> wf_offer True off"
      by (cases e) (auto simp: about_arrival_def split: if_splits option.splits)
    then have "j @ [e] = j @ Announced off # [] \<and> \<not> list_ex about_arrival [] \<and> got = concat (map piece []) \<and>
        wf_offer True off" by simp
    then show ?thesis by blast
  next
    case False
    with st have "\<exists>g. inc = Some (off, g) \<and> got = g @ piece e"
      by (cases e) (auto simp: about_arrival_def piece_def split: if_splits option.splits)
    then obtain g where g: "inc = Some (off, g)" "got = g @ piece e" by blast
    with snoc.IH [of out' g] w obtain xs ys where "j = xs @ Announced off # ys" "\<not> list_ex about_arrival ys"
      "g = concat (map piece ys)" "wf_offer True off" by blast
    with False g have "j @ [e] = xs @ Announced off # (ys @ [e]) \<and> \<not> list_ex about_arrival (ys @ [e]) \<and>
        got = concat (map piece (ys @ [e])) \<and> wf_offer True off" by simp
    then show ?thesis by blast
  qed
qed simp

lemma custody_answered:
  "custody_of j = Some (out, inc) \<Longrightarrow>
     occurs is_offered j = occurs is_accepted j + occurs is_passed j + (if out = None then 0 else 1)"
proof (induction j arbitrary: out inc rule: rev_induct)
  case (snoc e j)
  then obtain out' inc' where w: "custody_of j = Some (out', inc')" and st: "custody_step e (out', inc') = Some (out, inc)"
    by (auto simp: bind_eq_Some_conv)
  from snoc.IH [OF w] st show ?case
    by (cases e) (auto simp: is_offered_def is_passed_def split: if_splits option.splits)
qed simp

lemma custody_cut: "custody_of (xs @ e # ys) \<noteq> None \<Longrightarrow> \<exists>c. custody_of xs = Some c \<and> custody_step e c \<noteq> None"
  by (auto simp: custody_walk_append bind_eq_Some_conv)

lemma turn_overdue: "session_limit (limits_of h) < now t \<Longrightarrow> \<exists>e. turn h t s = (Inl e, s)"
  by (simp add: turn_def overdue_def)

lemma turns_end: "t \<in> set ts \<Longrightarrow> session_limit (limits_of h) < now t \<Longrightarrow> fst (turns h ts s) \<noteq> None"
  using mail.failing_input_ends [of t ts h s] turn_overdue [of h t]
  by (fastforce simp: turns_def split: prod.splits)

section \<open>Closing after an error\<close>

text \<open>A write moves bytes from the queue to the peer: none is lost, added or reordered.\<close>

definition in_flight :: "wire \<Rightarrow> bytes" where
  "in_flight w = taken w @ drop (written w) (concat (outbox w))"

lemma flush_conserves:
  "wire_ok w \<Longrightarrow> ends_in (\<lambda>_ v. in_flight v = in_flight w) (\<lambda>v. v = w) (wire_flush t r w)"
proof (cases "outbox w")
  case (Cons b rest)
  assume ok: "wire_ok w"
  then obtain f where f: "frame_decode b = Inr f" using Cons by (auto simp: wire_ok_def)
  have w: "written w < length b" using ok Cons by (simp add: wire_ok_def)
  show ?thesis
  proof (cases r)
    case (Moves k)
    define out where "out = take k (drop (written w) b)"
    have "out @ drop (written w + length out) b = drop (written w) b"
      by (simp add: out_def min_def drop_drop [symmetric] del: drop_drop) (metis append_take_drop_id drop_drop add.commute)
    moreover have "written w + length out \<le> length b" using w by (simp add: out_def)
    ultimately show ?thesis
      using w f Cons by (auto simp: wire_flush_def Moves Let_def in_flight_def simp flip: out_def)
  qed (use Cons in \<open>simp_all add: wire_flush_def\<close>)
qed (simp add: wire_flush_def)

lemma drain_conserves: "wire_ok w \<Longrightarrow> wire_ok (drain rs w) \<and> in_flight (drain rs w) = in_flight w"
proof (induction rs arbitrary: w)
  case (Cons r rs)
  show ?case
  proof (cases "outbox w = []")
    case False
    obtain x v where v: "wire_flush (last_io w) r w = (x, v)" by (cases "wire_flush (last_io w) r w")
    from flush_conserves [OF Cons.prems, of "last_io w" r] wire_flush_ok [OF Cons.prems, of "last_io w" r] v
    show ?thesis using Cons.IH [of v] Cons.prems False by (cases x) auto
  qed (use Cons.prems in simp)
qed simp

text \<open>What the peer is told of an error.\<close>

definition error_frame :: "binkp_error \<Rightarrow> bytes" where
  "error_frame e =
     (case chain (frame_command (if e = BpBusy then Bsy else Err) (error_text e), ()) (\<lambda>f _. (frame_encode f, ())) of
        (Inr b, _) \<Rightarrow> b | (Inl _, _) \<Rightarrow> [])"

lemma wire_send_error:
  assumes "length (outbox w) < 64"
  shows "wire_send (if e = BpBusy then Bsy else Err) (error_text e) w =
    (Inr (), w\<lparr>outbox := outbox w @ [error_frame e]\<rparr>)"
proof -
  obtain f where f: "frame_command (if e = BpBusy then Bsy else Err) (error_text e) = Inr f"
    by (cases e) (simp_all add: error_text_def frame_command_def MAX_COMMAND_def)
  obtain b where "frame_encode f = Inr b" using frame_encode_total [OF frame_command_wf [OF f]] by blast
  with f assms show ?thesis by (simp add: wire_send_def wire_push_def error_frame_def)
qed

lemma abort_in_flight:
  assumes "wire_ok w"
  shows "in_flight (wire_abort e rs w) =
    taken w @ (if written w = 0 then [] else drop (written w) (hd (outbox w))) @ error_frame e"
proof -
  define v where "v = (if written w = 0 then w\<lparr>outbox := []\<rparr> else w\<lparr>outbox := take 1 (outbox w)\<rparr>)"
  have v: "wire_ok v" "length (outbox v) < 64"
    and out: "outbox v = (if written w = 0 then [] else [hd (outbox w)])" "written v = written w" "taken v = taken w"
    using assms by (cases "outbox w"; auto simp: v_def wire_ok_def)+
  have sent: "wire_send (if e = BpBusy then Bsy else Err) (error_text e) v =
      (Inr (), v\<lparr>outbox := outbox v @ [error_frame e]\<rparr>)"
    by (rule wire_send_error [OF v(2)])
  then have "wire_ok (v\<lparr>outbox := outbox v @ [error_frame e]\<rparr>)"
    using wire_send_ok [OF v(1), of "if e = BpBusy then Bsy else Err" "error_text e"] by simp
  then have "in_flight (wire_abort e rs w) = in_flight (v\<lparr>outbox := outbox v @ [error_frame e]\<rparr>)"
    using drain_conserves by (simp add: wire_abort_def Let_def sent flip: v_def)
  moreover have "written w \<noteq> 0 \<Longrightarrow> written w < length (hd (outbox w))"
    using assms by (auto simp: wire_ok_def split: if_splits)
  ultimately show ?thesis by (auto simp: in_flight_def out)
qed

section \<open>A session in full\<close>

text \<open>
  A caller with one file for its link, whose peer asks for CRAM, takes the file, sends one of
  its own and ends: fourteen turns in which the socket never blocks.
\<close>

definition peer_bytes :: "frame list \<Rightarrow> bytes" where
  "peer_bytes fs = concat (map (\<lambda>f. case frame_encode f of Inl _ \<Rightarrow> [] | Inr b \<Rightarrow> b) fs)"

definition demo_aka :: "u16 \<Rightarrow> endpoint" where
  "demo_aka n = \<lparr>domain_of = ''fidonet'', address_of = Address 1 2 n 0\<rparr>"

definition demo_plan :: plan where
  "demo_plan = \<lparr>local_akas = [demo_aka 3], remote_aka = demo_aka 4, secret = as_bytes ''pw'', auth = RequireCram,
     domainless = False, mode = Poll\<rparr>"

definition demo_offer :: offer where
  "demo_offer = \<lparr>name = ''a.pkt'', size_of = 3, time_of = 100, offset_of = 0\<rparr>"

definition demo_host :: "unit host" where
  "demo_host = \<lparr>identify = (\<lambda>_ s. (Inr demo_plan, s)),
     ready = (\<lambda>_ _ _ s. (Inr [\<lparr>key = ''k'', out_offer = demo_offer\<rparr>], s)),
     next_batch = default_next_batch, load = (\<lambda>_ s. (Inr [7, 8, 9], s)), offered = (\<lambda>_ s. (Inr (), s)),
     accepted = (\<lambda>_ s. (Inr (), s)), accepts_name = (\<lambda>n _. default_accepts_file n),
     receive_file = (\<lambda>_ _ s. (Inr (), s)), mac = (\<lambda>k c. take 16 (k @ c @ replicate 16 0)),
     fresh = replicate 16 1, limits_of = default_limits\<rparr>"

definition say :: "binkp_command \<Rightarrow> string \<Rightarrow> frame" where
  "say c a = FCommand (command_id c) (as_bytes a)"

definition demo_frames :: "frame list" where
  "demo_frames = [say Nul ''OPT CRAM-MD5-0102030405060708'', say Adr ''1:2/4@fidonet'', say Ok ''secure'',
     say File ''b.pkt 2 7 0'', FData [5, 6], say Got ''a.pkt 3 100'', say Eob []]"

definition demo_ticks :: "tick list" where
  "demo_ticks = replicate 14 \<lparr>cancelled = False, now = 0, on_write = Moves 9000, on_read = Moves 9000\<rparr>"

definition demo_session :: "(binkp_error + summary) option \<times> unit mail_session" where
  "demo_session = exchange demo_host (Some demo_plan) (peer_bytes demo_frames) () demo_ticks"

lemma demo_session_value:
  "fst demo_session = Some (Inr \<lparr>n_sent = 1, n_received = 1, n_skipped = 0\<rparr>) \<and>
   journal (snd demo_session) =
     [Answered ''CRAM-MD5-70770102030405060708000000000000'', Offered ''k'' demo_offer,
      Announced \<lparr>name = ''b.pkt'', size_of = 2, time_of = 7, offset_of = 0\<rparr>, Arrived [5, 6],
      Stored \<lparr>name = ''b.pkt'', size_of = 2, time_of = 7, offset_of = 0\<rparr> [5, 6], Accepted ''k'' demo_offer]"
  by code_simp

lemmas demo_session_result = demo_session_value [THEN conjunct1]
lemmas demo_session_journal = demo_session_value [THEN conjunct2]

lemma demo_session_pair: "exchange demo_host (Some demo_plan) (peer_bytes demo_frames) () demo_ticks =
    (Some (Inr \<lparr>n_sent = 1, n_received = 1, n_skipped = 0\<rparr>), snd demo_session)"
  by (metis demo_session_def demo_session_result prod.collapse)

text \<open>The same link seen from the other side: a caller that proves the password sends a file.\<close>

definition demo_answer :: "(binkp_error + summary) option \<times> unit mail_session" where
  "demo_answer = exchange demo_host None
     (peer_bytes [say Adr ''1:2/4@fidonet'', say Pwd ''CRAM-MD5-70770101010101010101010101010101'',
        say File ''b.pkt 2 7 0'', FData [5], FData [6]]) () (take 11 demo_ticks)"

lemma demo_answer_value:
  "fst demo_answer = Some (Inl BpInterrupted) \<and>
   journal (snd demo_answer) =
     [Proved ''CRAM-MD5-70770101010101010101010101010101'', Offered ''k'' demo_offer,
      Announced \<lparr>name = ''b.pkt'', size_of = 2, time_of = 7, offset_of = 0\<rparr>, Arrived [5], Arrived [6],
      Stored \<lparr>name = ''b.pkt'', size_of = 2, time_of = 7, offset_of = 0\<rparr> [5, 6]]"
  by code_simp

lemmas demo_answer_result = demo_answer_value [THEN conjunct1]
lemmas demo_answer_journal = demo_answer_value [THEN conjunct2]

lemma demo_answer_pair: "exchange demo_host None
     (peer_bytes [say Adr ''1:2/4@fidonet'', say Pwd ''CRAM-MD5-70770101010101010101010101010101'',
        say File ''b.pkt 2 7 0'', FData [5], FData [6]]) () (take 11 demo_ticks) = (fst demo_answer, snd demo_answer)"
  by (simp only: demo_answer_def prod.collapse)

section \<open>Properties\<close>

text \<open>C19.  An answer of the peer that is taken as the acceptance or the skip of one of our files
  names the file that is on offer and no other: the file was offered before under that key, with
  the name, size and time the peer's answer gives, and since then no other was offered, accepted
  or skipped.  This holds at any moment of any session, however it ends.\<close>

theorem accepted_file_was_on_offer:
  assumes "exchange h i inc b ts = (r, s)" and "journal s = xs @ e # ys"
    and "e = Accepted k off \<or> e = Passed k off"
  shows "\<exists>it zs ws. xs = zs @ Offered k it # ws \<and> \<not> list_ex about_offer ws \<and>
    name it = name off \<and> size_of it = size_of off \<and> time_of it = time_of off"
proof -
  have "custody_of (xs @ e # ys) \<noteq> None"
    using exchange_ok [OF assms(1)] assms(2) by (auto simp: session_safe_def journal_ok_def)
  from custody_cut [OF this] obtain out c where "custody_of xs = Some (out, c)" "custody_step e (out, c) \<noteq> None"
    by auto
  with assms(3) have "names_file out k off" "custody_of xs = Some (out, c)" by (auto split: if_splits)
  with custody_offered show ?thesis unfolding names_file_def by blast
qed

theorem accepted_file_was_on_offer_witness:
  "\<exists>it zs ws. take 5 (journal (snd demo_session)) = zs @ Offered ''k'' it # ws \<and> \<not> list_ex about_offer ws \<and>
    name it = name \<lparr>name = ''a.pkt'', size_of = 3, time_of = 100, offset_of = 0\<rparr> \<and>
    size_of it = size_of \<lparr>name = ''a.pkt'', size_of = 3, time_of = 100, offset_of = 0\<rparr> \<and>
    time_of it = time_of \<lparr>name = ''a.pkt'', size_of = 3, time_of = 100, offset_of = 0\<rparr>"
  by (rule accepted_file_was_on_offer [OF demo_session_pair, of _ _ "[]", OF _ disjI1 [OF refl]])
    (simp add: demo_session_journal demo_offer_def)

text \<open>C2.  A file handed to the backend is the one the peer announced last, and its bytes are
  the pieces that arrived since then, as many as announced: nothing is lost, repeated or mixed
  with another file, whatever comes in between.\<close>

theorem stored_file_is_whole:
  assumes "exchange h i inc b ts = (r, s)" and "journal s = xs @ Stored off bs # ys"
  shows "(\<exists>zs ws. xs = zs @ Announced off # ws \<and> \<not> list_ex about_arrival ws \<and> bs = concat (map piece ws)) \<and>
    length bs = size_of off \<and> wf_offer True off"
proof -
  have "custody_of (xs @ Stored off bs # ys) \<noteq> None"
    using exchange_ok [OF assms(1)] assms(2) by (auto simp: session_safe_def journal_ok_def)
  from custody_cut [OF this] obtain out c where "custody_of xs = Some (out, c)" "custody_step (Stored off bs) (out, c) \<noteq> None"
    by auto
  then have "custody_of xs = Some (out, Some (off, bs))" "length bs = size_of off" by (auto split: if_splits)
  with custody_arriving [of xs out off bs] show ?thesis by blast
qed

theorem stored_file_is_whole_witness:
  "length [5, 6 :: u8] = size_of \<lparr>name = ''b.pkt'', size_of = 2, time_of = 7, offset_of = 0\<rparr>"
  by (rule stored_file_is_whole [OF demo_session_pair, of "take 4 (journal (snd demo_session))" _ _ "[Accepted ''k'' demo_offer]",
        THEN conjunct2, THEN conjunct1]) (simp add: demo_session_journal)

text \<open>C3.  A session that returns a summary has settled everything: nothing is queued, on
  offer, half received or unwritten, both sides have ended a batch, every file offered was
  accepted or skipped, and the summary counts exactly what happened.\<close>

theorem returned_summary_is_settled:
  assumes "exchange h i inc b ts = (Some (Inr n), s)"
  shows "authenticated s \<and> pending s = [] \<and> sending s = None \<and> receiving s = None \<and> requested s = None \<and>
    outbox (wire s) = [] \<and> 1 \<le> b_sent (batches s) \<and> 1 \<le> b_received (batches s) \<and>
    occurs is_offered (journal s) = n_sent n + occurs is_passed (journal s) \<and>
    n = \<lparr>n_sent = occurs is_accepted (journal s), n_received = occurs is_stored (journal s),
         n_skipped = occurs is_skipped (journal s)\<rparr>"
proof -
  from exchange_ok [OF assms] have ok: "session_ok h i s" and st: "settled s" and n: "n = summary s" by auto
  have "custody_of (journal s) = Some (None, None)" and "counts_ok n (journal s)"
    using ok st n by (auto simp: session_ok_def session_base_def settled_def)
  with st custody_answered [of "journal s" None None] show ?thesis
    by (auto simp: settled_def counts_ok_def)
qed

theorem returned_summary_is_settled_witness:
  "pending (snd demo_session) = [] \<and> occurs is_accepted (journal (snd demo_session)) = 1"
  using returned_summary_is_settled [OF demo_session_pair] by (metis summary.ext_inject)

text \<open>C4.  An answerer moves no file before the caller has proved the link's password: the
  announced addresses contain the link's, and before the first transfer event stands an
  accepted password argument, which for a link that requires CRAM is the digest of the
  secret over this session's own challenge.\<close>

theorem answerer_checks_password:
  assumes "exchange h None inc b ts = (r, s)" and "journal s = xs @ e # ys" and "transfer e"
  shows "\<exists>p as a. the_plan s = Some p \<and> remote s = Some as \<and> remote_aka p \<in> set as \<and>
    Proved a \<in> set xs \<and> check_password h p a = Inr () \<and>
    (auth p = AllowPlain \<or> length (mac h (secret p) (fresh h)) \<noteq> 16 \<or>
     (\<exists>d ws. split_ascii_whitespace a = (''CRAM-MD5-'' @ d) # ws \<and>
        map lower_char d = hex (mac h (secret p) (fresh h))))"
proof -
  have "journal_ok h None (caller s) (the_plan s) (remote s) (journal s)"
    using exchange_ok [OF assms(1)] by (simp add: session_safe_def)
  then have "\<not> caller s" and "proof_ok h (caller s) (the_plan s) (remote s) xs"
    using assms(2,3) by (auto simp: journal_ok_def)
  then obtain p as a where p: "the_plan s = Some p" "remote s = Some as" "remote_aka p \<in> set as"
    "Proved a \<in> set xs" and a: "check_password h p a = Inr ()"
    by (auto simp: proof_ok_def)
  have digest: "\<exists>d ws. split_ascii_whitespace a = (''CRAM-MD5-'' @ d) # ws \<and> map lower_char d = hex (mac h (secret p) (fresh h))"
    if m: "auth p = RequireCram" "length (mac h (secret p) (fresh h)) = 16"
  proof -
    from a m(1) obtain w ws where w: "split_ascii_whitespace a = w # ws"
      and v: "verify_cram (mac h) (secret p) (fresh h) w = Inr ()"
      by (auto simp: check_password_def split: if_splits list.splits)
    from v cram_accepts_exactly [of "mac h" "secret p" "fresh h" w, OF m(2)]
    obtain d where "w = ''CRAM-MD5-'' @ d" "map lower_char d = hex (mac h (secret p) (fresh h))"
      by (auto split: if_splits simp del: append_Cons)
    then show ?thesis
      unfolding w by (intro exI conjI) (simp_all del: append_Cons)
  qed
  have "auth p = AllowPlain \<or> length (mac h (secret p) (fresh h)) \<noteq> 16 \<or>
      (\<exists>d ws. split_ascii_whitespace a = (''CRAM-MD5-'' @ d) # ws \<and> map lower_char d = hex (mac h (secret p) (fresh h)))"
  proof (cases "auth p = RequireCram \<and> length (mac h (secret p) (fresh h)) = 16")
    case True
    then show ?thesis by (intro disjI2 digest) simp_all
  qed (cases "auth p"; simp)
  then show ?thesis
    by (intro exI [of _ p] exI [of _ as] exI [of _ a] conjI p a)
qed

theorem answerer_checks_password_witness:
  "\<exists>p as a. the_plan (snd demo_answer) = Some p \<and> remote (snd demo_answer) = Some as \<and> remote_aka p \<in> set as \<and>
    Proved a \<in> set [Proved ''CRAM-MD5-70770101010101010101010101010101''] \<and> check_password demo_host p a = Inr () \<and>
    (auth p = AllowPlain \<or> length (mac demo_host (secret p) (fresh demo_host)) \<noteq> 16 \<or>
     (\<exists>d ws. split_ascii_whitespace a = (''CRAM-MD5-'' @ d) # ws \<and>
        map lower_char d = hex (mac demo_host (secret p) (fresh demo_host))))"
proof (rule answerer_checks_password [OF demo_answer_pair])
  show "journal (snd demo_answer) = [Proved ''CRAM-MD5-70770101010101010101010101010101''] @ Offered ''k'' demo_offer #
      drop 2 (journal (snd demo_answer))"
    unfolding demo_answer_journal by (simp only: append_Cons append_Nil drop_Suc_Cons numeral_2_eq_2 drop_0)
  show "transfer (Offered ''k'' demo_offer)" by simp
qed

text \<open>C23.  A caller whose link requires CRAM never sends its secret: every password argument
  is the digest of the secret over a challenge, and without a challenge there is none.\<close>

theorem caller_keeps_secret:
  assumes "exchange h i inc b ts = (r, s)" and "Answered pwd \<in> set (journal s)"
  shows "\<exists>p. i = Some p \<and> (auth p = AllowPlain \<or> (\<exists>c. pwd = cram (mac h) (secret p) c))"
proof -
  have "\<exists>p. i = Some p \<and> (auth p = RequireCram \<longrightarrow> (\<exists>c. pwd = cram (mac h) (secret p) c))"
    using exchange_ok [OF assms(1)] assms(2) by (simp add: session_safe_def journal_ok_def)
  then show ?thesis by (metis binkp_auth.exhaust)
qed

theorem caller_keeps_secret_witness:
  "\<exists>p. Some demo_plan = Some p \<and>
     (auth p = AllowPlain \<or> (\<exists>c. ''CRAM-MD5-70770102030405060708000000000000'' = cram (mac demo_host) (secret p) c))"
  by (rule caller_keeps_secret [OF demo_session_pair]) (simp only: demo_session_journal list.set(2), rule insertI1)

text \<open>C20.  A session that has not failed keeps every bound the code promises: files, bytes
  in each direction, frames waiting to be written, and the file held in memory.\<close>

theorem session_stays_in_bounds:
  assumes "exchange h i inc b ts = (r, s)" and "\<And>e. r \<noteq> Some (Inl e)"
  shows "offered_count s \<le> MAX_FILES \<and> outbound_count s \<le> MAX_FILES \<and>
    received_bytes s \<le> MAX_SESSION_BYTES \<and> transmitted_bytes s \<le> MAX_SESSION_BYTES \<and>
    outbound_bytes s \<le> MAX_SESSION_BYTES \<and> length (outbox (wire s)) \<le> 64 \<and>
    (\<forall>f \<in> set_option (receiving s). length (r_bytes f) < MAX_FILE) \<and>
    (\<forall>f \<in> set_option (sending s). length (content f) \<le> MAX_FILE \<and> position f \<le> length (content f))"
proof -
  from exchange_ok [OF assms(1)] assms(2) have ok: "session_ok h i s" by blast
  then have "bounds_ok s" "wire_ok (wire s)" "receiving_ok (receiving s) (requested s) (batches s)" "sending_ok (sending s)"
    by (simp_all add: session_ok_def session_base_def session_safe_def)
  then show ?thesis
    by (auto simp: bounds_ok_def wire_ok_def receiving_ok_def sending_ok_def wf_offer_def)
qed

theorem session_stays_in_bounds_witness: "received_bytes (snd demo_session) \<le> MAX_SESSION_BYTES"
  using session_stays_in_bounds [OF demo_session_pair] by simp

text \<open>C21.  Every session ends: whatever the peer, the socket and the backend do, it has
  returned by the first turn after its time limit.\<close>

theorem session_ends:
  assumes "t \<in> set ts" and "session_limit (limits_of h) < now t"
  shows "fst (exchange h i inc b ts) \<noteq> None"
  using turns_end [of t ts h] assms
  by (cases "greet h (new_session inc i b)") (auto simp: exchange_def split: sum.split)

theorem session_ends_witness:
  "fst (exchange demo_host None [] () (replicate 1000 \<lparr>cancelled = False, now = 601 * 10 ^ 9, on_write = Blocks, on_read = Blocks\<rparr>)) \<noteq> None"
  by (rule session_ends [of "\<lparr>cancelled = False, now = 601 * 10 ^ 9, on_write = Blocks, on_read = Blocks\<rparr>"])
    (simp_all add: demo_host_def default_limits_def)

text \<open>C22.  After a failure the peer sees at most the rest of the frame whose writing had begun
  and then the error command, a fixed text: no queued frame, file data, peer text or secret
  follows the failure.\<close>

theorem failed_session_reveals_nothing:
  assumes "exchange h i inc b ts = (Some (Inl e), s)"
  shows "\<exists>rest. taken (wire (snd (run_session h i inc b ts rs))) @ rest =
    taken (wire s) @ (if written (wire s) = 0 then [] else drop (written (wire s)) (hd (outbox (wire s)))) @ error_frame e"
proof -
  have "wire_ok (wire s)" using exchange_ok [OF assms] by (simp add: session_safe_def)
  from abort_in_flight [OF this, of e rs] assms show ?thesis
    by (auto simp: run_session_def in_flight_def)
qed

theorem failed_session_reveals_nothing_witness:
  "\<exists>rest. taken (wire (snd (run_session demo_host None
     (peer_bytes [say Adr ''1:2/4@fidonet'', say Pwd ''CRAM-MD5-70770101010101010101010101010101'',
        say File ''b.pkt 2 7 0'', FData [5], FData [6]]) () (take 11 demo_ticks) []))) @ rest =
    taken (wire (snd demo_answer)) @
    (if written (wire (snd demo_answer)) = 0 then []
     else drop (written (wire (snd demo_answer))) (hd (outbox (wire (snd demo_answer))))) @ error_frame BpInterrupted"
  by (rule failed_session_reveals_nothing) (simp only: demo_answer_pair demo_answer_result)

end
