(* ===== verification/Ftn_Charset.thy ===== *)
theory Ftn_Charset
  imports Ftn_Address
begin

text \<open>
  The character sets of \<open>crates/sf-net/src/ftn/text.rs\<close>: UTF-8, ASCII and three IBM code pages,
  whose high halves are fixed tables of Unicode scalar values.
\<close>

section \<open>Writing UTF-8\<close>

definition scalar :: "nat \<Rightarrow> bool" where
  "scalar u \<longleftrightarrow> u < 0xD800 \<or> (0xDFFF < u \<and> u < 0x110000)"

definition char_utf8 :: "nat \<Rightarrow> nat list" where
  "char_utf8 u =
     (if u < 0x80 then [u]
      else if u < 0x800 then [192 + u div 64, 128 + u mod 64]
      else if u < 0x10000 then [224 + u div 4096, 128 + u div 64 mod 64, 128 + u mod 64]
      else [240 + u div 262144, 128 + u div 4096 mod 64, 128 + u div 64 mod 64, 128 + u mod 64])"

definition from_chars :: "nat list \<Rightarrow> string" where
  "from_chars us = map char_of (concat (map char_utf8 us))"

text \<open>\<open>str::trim\<close>.\<close>

definition trim :: "string \<Rightarrow> string" where
  "trim s = from_chars (rev (dropWhile white_space (rev (dropWhile white_space (chars s)))))"

section \<open>Character sets\<close>

datatype charset = Ascii | Cp437 | Cp850 | Cp866 | Utf_8

definition charset_identifier :: "charset \<Rightarrow> string" where
  "charset_identifier c =
     (case c of Ascii \<Rightarrow> ''ASCII'' | Cp437 \<Rightarrow> ''CP437'' | Cp850 \<Rightarrow> ''CP850'' | Cp866 \<Rightarrow> ''CP866''
      | Utf_8 \<Rightarrow> ''UTF-8'')"

definition charset_parse :: "string \<Rightarrow> ftn_error + charset" where
  "charset_parse s =
     (let u = map upper_char s in
      if u = ''ASCII'' then Inr Ascii
      else if u = ''CP437'' then Inr Cp437
      else if u = ''CP850'' then Inr Cp850
      else if u = ''CP866'' \<or> u = ''+7_FIDO'' then Inr Cp866
      else if u = ''UTF-8'' then Inr Utf_8
      else Inl ErrEncoding)"

definition CP437 :: "nat list" where
  "CP437 =
    [0xc7, 0xfc, 0xe9, 0xe2, 0xe4, 0xe0, 0xe5, 0xe7, 0xea, 0xeb, 0xe8, 0xef, 0xee, 0xec, 0xc4,
     0xc5, 0xc9, 0xe6, 0xc6, 0xf4, 0xf6, 0xf2, 0xfb, 0xf9, 0xff, 0xd6, 0xdc, 0xa2, 0xa3, 0xa5,
     0x20a7, 0x192, 0xe1, 0xed, 0xf3, 0xfa, 0xf1, 0xd1, 0xaa, 0xba, 0xbf, 0x2310, 0xac, 0xbd,
     0xbc, 0xa1, 0xab, 0xbb, 0x2591, 0x2592, 0x2593, 0x2502, 0x2524, 0x2561, 0x2562, 0x2556,
     0x2555, 0x2563, 0x2551, 0x2557, 0x255d, 0x255c, 0x255b, 0x2510, 0x2514, 0x2534, 0x252c,
     0x251c, 0x2500, 0x253c, 0x255e, 0x255f, 0x255a, 0x2554, 0x2569, 0x2566, 0x2560, 0x2550,
     0x256c, 0x2567, 0x2568, 0x2564, 0x2565, 0x2559, 0x2558, 0x2552, 0x2553, 0x256b, 0x256a,
     0x2518, 0x250c, 0x2588, 0x2584, 0x258c, 0x2590, 0x2580, 0x3b1, 0xdf, 0x393, 0x3c0, 0x3a3,
     0x3c3, 0xb5, 0x3c4, 0x3a6, 0x398, 0x3a9, 0x3b4, 0x221e, 0x3c6, 0x3b5, 0x2229, 0x2261, 0xb1,
     0x2265, 0x2264, 0x2320, 0x2321, 0xf7, 0x2248, 0xb0, 0x2219, 0xb7, 0x221a, 0x207f, 0xb2,
     0x25a0, 0xa0]"

definition CP850 :: "nat list" where
  "CP850 =
    [0xc7, 0xfc, 0xe9, 0xe2, 0xe4, 0xe0, 0xe5, 0xe7, 0xea, 0xeb, 0xe8, 0xef, 0xee, 0xec, 0xc4,
     0xc5, 0xc9, 0xe6, 0xc6, 0xf4, 0xf6, 0xf2, 0xfb, 0xf9, 0xff, 0xd6, 0xdc, 0xf8, 0xa3, 0xd8,
     0xd7, 0x192, 0xe1, 0xed, 0xf3, 0xfa, 0xf1, 0xd1, 0xaa, 0xba, 0xbf, 0xae, 0xac, 0xbd, 0xbc,
     0xa1, 0xab, 0xbb, 0x2591, 0x2592, 0x2593, 0x2502, 0x2524, 0xc1, 0xc2, 0xc0, 0xa9, 0x2563,
     0x2551, 0x2557, 0x255d, 0xa2, 0xa5, 0x2510, 0x2514, 0x2534, 0x252c, 0x251c, 0x2500, 0x253c,
     0xe3, 0xc3, 0x255a, 0x2554, 0x2569, 0x2566, 0x2560, 0x2550, 0x256c, 0xa4, 0xf0, 0xd0, 0xca,
     0xcb, 0xc8, 0x131, 0xcd, 0xce, 0xcf, 0x2518, 0x250c, 0x2588, 0x2584, 0xa6, 0xcc, 0x2580,
     0xd3, 0xdf, 0xd4, 0xd2, 0xf5, 0xd5, 0xb5, 0xfe, 0xde, 0xda, 0xdb, 0xd9, 0xfd, 0xdd, 0xaf,
     0xb4, 0xad, 0xb1, 0x2017, 0xbe, 0xb6, 0xa7, 0xf7, 0xb8, 0xb0, 0xa8, 0xb7, 0xb9, 0xb3, 0xb2,
     0x25a0, 0xa0]"

definition CP866 :: "nat list" where
  "CP866 =
    [0x410, 0x411, 0x412, 0x413, 0x414, 0x415, 0x416, 0x417, 0x418, 0x419, 0x41a, 0x41b, 0x41c,
     0x41d, 0x41e, 0x41f, 0x420, 0x421, 0x422, 0x423, 0x424, 0x425, 0x426, 0x427, 0x428, 0x429,
     0x42a, 0x42b, 0x42c, 0x42d, 0x42e, 0x42f, 0x430, 0x431, 0x432, 0x433, 0x434, 0x435, 0x436,
     0x437, 0x438, 0x439, 0x43a, 0x43b, 0x43c, 0x43d, 0x43e, 0x43f, 0x2591, 0x2592, 0x2593,
     0x2502, 0x2524, 0x2561, 0x2562, 0x2556, 0x2555, 0x2563, 0x2551, 0x2557, 0x255d, 0x255c,
     0x255b, 0x2510, 0x2514, 0x2534, 0x252c, 0x251c, 0x2500, 0x253c, 0x255e, 0x255f, 0x255a,
     0x2554, 0x2569, 0x2566, 0x2560, 0x2550, 0x256c, 0x2567, 0x2568, 0x2564, 0x2565, 0x2559,
     0x2558, 0x2552, 0x2553, 0x256b, 0x256a, 0x2518, 0x250c, 0x2588, 0x2584, 0x258c, 0x2590,
     0x2580, 0x440, 0x441, 0x442, 0x443, 0x444, 0x445, 0x446, 0x447, 0x448, 0x449, 0x44a, 0x44b,
     0x44c, 0x44d, 0x44e, 0x44f, 0x401, 0x451, 0x404, 0x454, 0x407, 0x457, 0x40e, 0x45e, 0xb0,
     0x2219, 0xb7, 0x221a, 0x2116, 0xa4, 0x25a0, 0xa0]"

definition high_table :: "charset \<Rightarrow> nat list" where
  "high_table c = (case c of Cp437 \<Rightarrow> CP437 | Cp850 \<Rightarrow> CP850 | Cp866 \<Rightarrow> CP866 | _ \<Rightarrow> [])"

definition char_of_byte :: "charset \<Rightarrow> u8 \<Rightarrow> ftn_error + nat" where
  "char_of_byte c b =
     (if unat b < 128 then Inr (unat b)
      else if unat b - 128 < length (high_table c) then Inr (high_table c ! (unat b - 128))
      else Inl ErrEncoding)"

definition byte_of_char :: "charset \<Rightarrow> nat \<Rightarrow> ftn_error + u8" where
  "byte_of_char c u =
     (if u < 128 then Inr (of_nat u)
      else attempt (ok_or (position (\<lambda>x. x = u) (high_table c)) ErrEncoding) (\<lambda>n. Inr (of_nat (n + 128))))"

definition charset_decode :: "charset \<Rightarrow> bytes \<Rightarrow> ftn_error + string" where
  "charset_decode c bs =
     (if c = Utf_8 then ok_or (from_utf8 bs) ErrEncoding
      else attempt (traverse (char_of_byte c) bs) (\<lambda>us. Inr (from_chars us)))"

definition charset_encode :: "charset \<Rightarrow> string \<Rightarrow> ftn_error + bytes" where
  "charset_encode c s = (if c = Utf_8 then Inr (as_bytes s) else traverse (byte_of_char c) (chars s))"

section \<open>UTF-8 written and read\<close>

lemma char_utf8_bytes: "scalar u \<Longrightarrow> n \<in> set (char_utf8 u) \<Longrightarrow> n < 256"
  by (auto simp: char_utf8_def scalar_def split: if_splits)

lemma six_bits: "x < 64 \<Longrightarrow> (64 * q + x) div 64 = q \<and> (64 * q + x) mod 64 = (x :: nat)"
  by simp

lemma char_utf8_2:
  "2 \<le> x \<Longrightarrow> x < 32 \<Longrightarrow> y < 64 \<Longrightarrow> char_utf8 (x * 64 + y) = [192 + x, 128 + y]"
  using six_bits [of y x] by (simp add: char_utf8_def mult.commute)

lemma char_utf8_3:
  assumes "x < 16" and "y < 64" and "z < 64" and "2048 \<le> x * 4096 + y * 64 + z"
  shows "char_utf8 (x * 4096 + y * 64 + z) = [224 + x, 128 + y, 128 + z]"
proof -
  define u where "u = x * 4096 + y * 64 + z"
  have u: "u = 64 * (64 * x + y) + z" by (simp add: u_def)
  have 1: "u div 64 = 64 * x + y" "u mod 64 = z" using six_bits [OF assms(3), of "64 * x + y"] unfolding u by blast+
  have 2: "u div 4096 = x"
    using div_mult2_eq [of u 64 64] six_bits [OF assms(2), of x] 1 by simp
  have "2048 \<le> u" "u < 65536" using assms by (simp_all add: u_def)
  then show ?thesis using 1 2 six_bits [OF assms(2), of x] by (simp add: char_utf8_def u_def [symmetric])
qed

lemma char_utf8_4:
  assumes "w < 5" and "x < 64" and "y < 64" and "z < 64" and "65536 \<le> w * 262144 + x * 4096 + y * 64 + z"
  shows "char_utf8 (w * 262144 + x * 4096 + y * 64 + z) = [240 + w, 128 + x, 128 + y, 128 + z]"
proof -
  define u where "u = w * 262144 + x * 4096 + y * 64 + z"
  have u: "u = 64 * (64 * (64 * w + x) + y) + z" by (simp add: u_def)
  have 1: "u div 64 = 64 * (64 * w + x) + y" "u mod 64 = z" using six_bits [OF assms(4), of "64 * (64 * w + x) + y"] unfolding u by blast+
  have 2: "u div 4096 = 64 * w + x"
    using div_mult2_eq [of u 64 64] six_bits [OF assms(3), of "64 * w + x"] 1 by simp
  have 3: "u div 262144 = w"
    using div_mult2_eq [of u 4096 64] six_bits [OF assms(2), of w] 2 by simp
  have "65536 \<le> u" using assms by (simp add: u_def)
  then show ?thesis
    using 1 2 3 six_bits [OF assms(3), of "64 * w + x"] six_bits [OF assms(2), of w]
    by (simp add: char_utf8_def u_def [symmetric])
qed

text \<open>Every scalar value has one of the four forms.\<close>

lemma scalar_forms:
  assumes "scalar u"
  obtains "u < 128"
  | x y where "2 \<le> x" "x < 32" "y < 64" "u = x * 64 + y"
  | x y z where "x < 16" "y < 64" "z < 64" "u = x * 4096 + y * 64 + z" "x = 0 \<Longrightarrow> 32 \<le> y" "x = 13 \<Longrightarrow> y < 32"
  | w x y z where "w < 5" "x < 64" "y < 64" "z < 64" "u = w * 262144 + x * 4096 + y * 64 + z"
      "w = 0 \<Longrightarrow> 16 \<le> x" "w = 4 \<Longrightarrow> x < 16"
proof -
  have split: "\<exists>q r. n = q * 64 + r \<and> r < 64" for n :: nat
    by (intro exI [of _ "n div 64"] exI [of _ "n mod 64"]) simp
  obtain q z where 1: "u = q * 64 + z" "z < 64" using split [of u] by blast
  obtain p y where 2: "q = p * 64 + y" "y < 64" using split [of q] by blast
  obtain w x where 3: "p = w * 64 + x" "x < 64" using split [of p] by blast
  have u: "u < 0xD800 \<or> (0xDFFF < u \<and> u < 0x110000)" using assms by (simp add: scalar_def)
  consider "u < 128" | "128 \<le> u" "u < 2048" | "2048 \<le> u" "u < 65536" | "65536 \<le> u" by linarith
  then show ?thesis
  proof cases
    case b: 2
    have "2 \<le> q" "q < 32" using b 1 by linarith+
    then show ?thesis using 1 that(2) by blast
  next
    case c: 3
    have "u = p * 4096 + y * 64 + z" using 1 2 by simp
    moreover have "p < 16" "p = 0 \<Longrightarrow> 32 \<le> y" "p = 13 \<Longrightarrow> y < 32"
      using c calculation 1(2) 2(2) u by linarith+
    ultimately show ?thesis using 1(2) 2(2) that(3) by blast
  next
    case d: 4
    have "u = w * 262144 + x * 4096 + y * 64 + z" using 1 2 3 by simp
    moreover have "w < 5" "w = 0 \<Longrightarrow> 16 \<le> x" "w = 4 \<Longrightarrow> x < 16"
      using d calculation 1(2) 2(2) 3(2) u by linarith+
    ultimately show ?thesis using 1(2) 2(2) 3(2) that(4) by blast
  qed (use that(1) in blast)
qed

lemma decode_char_utf8: "scalar u \<Longrightarrow> decode_utf8 (char_utf8 u @ ns) = map_option (Cons u) (decode_utf8 ns)"
proof (erule scalar_forms, goal_cases)
  case 1
  then show ?case by (simp add: char_utf8_def)
next
  case (2 x y)
  then show ?case using char_utf8_2 [of x y] by (simp add: cont_byte_def)
next
  case (3 x y z)
  then have "2048 \<le> x * 4096 + y * 64 + z" by (cases "x = 0") auto
  with 3 show ?case using char_utf8_3 [of x y z] by (auto simp: cont_byte_def)
next
  case (4 w x y z)
  then have "65536 \<le> w * 262144 + x * 4096 + y * 64 + z" by (cases "w = 0") auto
  with 4 show ?case using char_utf8_4 [of w x y z] by (auto simp: cont_byte_def)
qed

lemma decode_utf8_chars: "list_all scalar us \<Longrightarrow> decode_utf8 (concat (map char_utf8 us)) = Some us"
  by (induction us) (simp_all add: decode_char_utf8)

lemma cont_byteE:
  assumes "cont_byte b"
  obtains y where "b = 128 + y" "y < 64"
  by (rule that [of "b - 128"]) (use assms in \<open>auto simp: cont_byte_def\<close>)

lemma decode_utf8_forms:
  assumes "decode_utf8 (a # ns) = Some us"
  obtains (1) vs where "a < 128" "us = a # vs" "decode_utf8 ns = Some vs"
  | (2) x y vs ms where "a = 192 + x" "ns = (128 + y) # ms" "2 \<le> x" "x < 32" "y < 64"
      "us = (x * 64 + y) # vs" "decode_utf8 ms = Some vs"
  | (3) x y z vs ms where "a = 224 + x" "ns = (128 + y) # (128 + z) # ms" "x < 16" "y < 64" "z < 64"
      "x = 0 \<Longrightarrow> 32 \<le> y" "x = 13 \<Longrightarrow> y < 32" "us = (x * 4096 + y * 64 + z) # vs" "decode_utf8 ms = Some vs"
  | (4) w x y z vs ms where "a = 240 + w" "ns = (128 + x) # (128 + y) # (128 + z) # ms" "w < 5" "x < 64" "y < 64" "z < 64"
      "w = 0 \<Longrightarrow> 16 \<le> x" "w = 4 \<Longrightarrow> x < 16"
      "us = (w * 262144 + x * 4096 + y * 64 + z) # vs" "decode_utf8 ms = Some vs"
proof (cases "a < 128")
  case True
  with assms 1 show ?thesis by auto
next
  case False
  with assms obtain b ys where ns: "ns = b # ys" "cont_byte b" by (auto split: list.splits if_splits)
  from ns(2) obtain y where y: "b = 128 + y" "y < 64" by (rule cont_byteE)
  show ?thesis
  proof (cases "194 \<le> a \<and> a \<le> 223")
    case True
    with assms False ns obtain vs where "us = ((a - 192) * 64 + (b - 128)) # vs" "decode_utf8 ys = Some vs"
      by auto
    with True y ns show ?thesis by (intro 2 [of "a - 192" y ys vs]) auto
  next
    case a2: False
    with assms False ns obtain c zs where ys: "ys = c # zs" "cont_byte c" by (auto split: list.splits if_splits)
    from ys(2) obtain z where z: "c = 128 + z" "z < 64" by (rule cont_byteE)
    show ?thesis
    proof (cases "224 \<le> a \<and> a \<le> 239")
      case True
      with assms False a2 ns ys obtain vs where
        "us = ((a - 224) * 4096 + (b - 128) * 64 + (c - 128)) # vs" "decode_utf8 zs = Some vs"
        "\<not> ((a = 224 \<and> b < 160) \<or> (a = 237 \<and> 159 < b))" by (auto split: if_splits)
      with True y z ns ys show ?thesis by (intro 3 [of "a - 224" y z zs vs]) auto
    next
      case a3: False
      with assms False a2 ns ys obtain d ws where zs: "zs = d # ws" "cont_byte d"
        by (auto split: list.splits if_splits)
      from zs(2) obtain q where q: "d = 128 + q" "q < 64" by (rule cont_byteE)
      from assms False a2 a3 ns ys zs obtain vs where
        "us = ((a - 240) * 262144 + (b - 128) * 4096 + (c - 128) * 64 + (d - 128)) # vs" "decode_utf8 ws = Some vs"
        "240 \<le> a" "a \<le> 244" "\<not> ((a = 240 \<and> b < 144) \<or> (a = 244 \<and> 143 < b))" by (auto split: if_splits)
      with y z q ns ys zs show ?thesis by (intro 4 [of "a - 240" y z q ws vs]) auto
    qed
  qed
qed

lemma decode_utf8_write: "decode_utf8 ns = Some us \<Longrightarrow> list_all scalar us \<and> concat (map char_utf8 us) = ns"
proof (induction "length ns" arbitrary: ns us rule: less_induct)
  case less
  show ?case
  proof (cases ns)
    case (Cons a ms)
    from less.prems [unfolded Cons] show ?thesis
    proof (cases rule: decode_utf8_forms)
      case (1 vs)
      with less.hyps [of ms vs] Cons show ?thesis by (simp add: scalar_def char_utf8_def)
    next
      case (2 x y vs ks)
      with less.hyps [of ks vs] Cons char_utf8_2 [of x y] show ?thesis by (simp add: scalar_def)
    next
      case (3 x y z vs ks)
      then have "2048 \<le> x * 4096 + y * 64 + z" by (cases "x = 0") auto
      moreover have "scalar (x * 4096 + y * 64 + z)"
        using 3(3-7) by (cases "x < 13"; cases "x = 13") (auto simp: scalar_def)
      ultimately show ?thesis using 3 less.hyps [of ks vs] Cons char_utf8_3 [of x y z] by simp
    next
      case (4 w x y z vs ks)
      then have "65536 \<le> w * 262144 + x * 4096 + y * 64 + z" by (cases "w = 0") auto
      moreover from this have "scalar (w * 262144 + x * 4096 + y * 64 + z)"
        using 4(3-8) by (cases "w = 4") (auto simp: scalar_def)
      ultimately show ?thesis using 4 less.hyps [of ks vs] Cons char_utf8_4 [of w x y z] by simp
    qed
  qed (use less.prems in simp)
qed


text \<open>A Rust string: its bytes are valid UTF-8.\<close>

definition valid_str :: "string \<Rightarrow> bool" where
  "valid_str s \<longleftrightarrow> decode_utf8 (map ord s) \<noteq> None"

lemma char_utf8_mod: "scalar u \<Longrightarrow> n \<in> set (char_utf8 u) \<Longrightarrow> n mod 256 = n"
  using char_utf8_bytes by (metis mod_less)

lemma map_ord_from_chars: "list_all scalar us \<Longrightarrow> map ord (from_chars us) = concat (map char_utf8 us)"
  by (auto simp: from_chars_def list_all_iff comp_def intro!: map_idI) (metis char_utf8_mod)

lemma chars_from_chars: "list_all scalar us \<Longrightarrow> chars (from_chars us) = us"
  by (simp add: chars_def map_ord_from_chars decode_utf8_chars)

lemma valid_from_chars: "list_all scalar us \<Longrightarrow> valid_str (from_chars us)"
  by (simp add: valid_str_def map_ord_from_chars decode_utf8_chars)

lemma from_chars_chars:
  assumes "valid_str s"
  shows "from_chars (chars s) = s" and "list_all scalar (chars s)"
proof -
  from assms obtain us where us: "decode_utf8 (map ord s) = Some us" by (auto simp: valid_str_def)
  from decode_utf8_write [OF us] have "map char_of (map ord s) = from_chars us" by (simp add: from_chars_def)
  moreover have "map char_of (map ord s) = s" by (simp add: ord_def comp_def)
  ultimately show "from_chars (chars s) = s" by (simp add: chars_def us)
  show "list_all scalar (chars s)" using decode_utf8_write [OF us] by (simp add: chars_def us)
qed

lemma from_utf8_valid: "from_utf8 bs = Some s \<longleftrightarrow> bs = as_bytes s \<and> valid_str s"
  by (auto simp: from_utf8_def valid_str_def from_bytes_def as_bytes_def comp_def)

section \<open>The tables\<close>

lemma table_facts:
  "length (high_table c) \<le> 128 \<and> distinct (high_table c) \<and>
   list_all (\<lambda>u. 128 \<le> u \<and> u < 0xD800) (high_table c)"
proof (cases c)
  case Cp437
  then show ?thesis by (simp add: high_table_def CP437_def)
next
  case Cp850
  then show ?thesis by (simp add: high_table_def CP850_def)
next
  case Cp866
  then show ?thesis by (simp add: high_table_def CP866_def)
qed (simp_all add: high_table_def)

lemma position_nth: "distinct xs \<Longrightarrow> i < length xs \<Longrightarrow> position (\<lambda>x. x = xs ! i) xs = Some i"
proof (induction xs arbitrary: i)
  case (Cons x xs)
  then show ?case by (cases i) (auto simp: nth_mem)
qed simp

lemma char_of_byte_of: "char_of_byte c b = Inr u \<Longrightarrow> byte_of_char c u = Inr b \<and> scalar u"
proof -
  assume u: "char_of_byte c b = Inr u"
  show ?thesis
  proof (cases "unat b < 128")
    case True
    with u show ?thesis by (auto simp: char_of_byte_def byte_of_char_def scalar_def)
  next
    case False
    with u have i: "unat b - 128 < length (high_table c)" "u = high_table c ! (unat b - 128)"
      by (auto simp: char_of_byte_def split: if_splits)
    then have "128 \<le> u \<and> u < 0xD800" using table_facts [of c] by (auto simp: list_all_length)
    moreover have "of_nat (unat b - 128 + 128) = b" using False by simp
    ultimately show ?thesis
      using i position_nth [OF _ i(1)] table_facts [of c] by (auto simp: byte_of_char_def scalar_def)
  qed
qed

lemma byte_of_char_of: "byte_of_char c u = Inr b \<Longrightarrow> char_of_byte c b = Inr u"
proof -
  assume b: "byte_of_char c u = Inr b"
  show ?thesis
  proof (cases "u < 128")
    case True
    with b show ?thesis by (auto simp: char_of_byte_def byte_of_char_def unat_of_nat_u8)
  next
    case False
    with b obtain n where n: "position (\<lambda>x. x = u) (high_table c) = Some n" "b = of_nat (n + 128)"
      by (auto simp: byte_of_char_def result_simps)
    from position_SomeD [OF n(1)] have "n < length (high_table c)" "high_table c ! n = u" by auto
    moreover from this table_facts [of c] have "unat b = n + 128" by (simp add: n(2) unat_of_nat_u8 del: of_nat_add)
    ultimately show ?thesis by (simp add: char_of_byte_def)
  qed
qed

lemma traverse_inverse:
  "traverse f xs = Inr ys \<Longrightarrow> (\<And>x y. f x = Inr y \<Longrightarrow> g y = Inr x) \<Longrightarrow> traverse g ys = Inr xs"
  by (induction xs arbitrary: ys) (auto simp: result_simps)

lemma traverse_all: "traverse f xs = Inr ys \<Longrightarrow> (\<And>x y. f x = Inr y \<Longrightarrow> P y) \<Longrightarrow> list_all P ys"
  by (induction xs arbitrary: ys) (auto simp: result_simps)

lemma decoded_scalars: "traverse (char_of_byte c) bs = Inr us \<Longrightarrow> list_all scalar us"
  by (erule traverse_all) (simp add: char_of_byte_of)

lemma charset_decode_encode:
  "charset_decode c bs = Inr s \<Longrightarrow> charset_encode c s = Inr bs \<and> valid_str s"
  by (auto simp: charset_decode_def charset_encode_def result_simps from_utf8_valid chars_from_chars
      valid_from_chars decoded_scalars split: if_splits intro: traverse_inverse dest: char_of_byte_of)

lemma charset_encode_decode:
  "charset_encode c s = Inr bs \<Longrightarrow> valid_str s \<Longrightarrow> charset_decode c bs = Inr s"
  using traverse_inverse [of "byte_of_char c" "chars s" bs "char_of_byte c"] byte_of_char_of
  by (auto simp: charset_decode_def charset_encode_def result_simps from_utf8_valid from_chars_chars
      split: if_splits)

lemma ascii_decode:
  "c \<noteq> Utf_8 \<Longrightarrow> \<forall>b \<in> set bs. unat b < 128 \<Longrightarrow> charset_decode c bs = Inr (from_bytes bs)"
proof -
  assume c: "c \<noteq> Utf_8" and b: "\<forall>b \<in> set bs. unat b < 128"
  have "traverse (char_of_byte c) bs = Inr (map unat bs)"
    using b by (induction bs) (auto simp: char_of_byte_def)
  moreover have "from_chars (map unat bs) = from_bytes bs"
    using b by (induction bs) (auto simp: from_chars_def from_bytes_def char_utf8_def char_at_def)
  ultimately show ?thesis by (simp add: charset_decode_def c)
qed

lemma ascii_encode: "ascii s \<Longrightarrow> charset_encode c s = Inr (as_bytes s)"
proof (cases "c = Utf_8")
  case False
  assume "ascii s"
  then show ?thesis
    using charset_decode_encode [OF ascii_decode [OF False, of "as_bytes s"]]
    by (auto simp: ascii_def list_all_iff set_as_bytes)
qed (simp add: charset_encode_def)

interpretation text_codec: codec "charset_encode c" "charset_decode c" valid_str
  by unfold_locales (rule charset_encode_decode)

section \<open>Properties\<close>

text \<open>
  In every character set bytes and text determine each other: what is decoded encodes to
  the same bytes again, and a string that can be encoded is decoded from its bytes, so no two
  texts share an encoding.
\<close>

theorem charset_bijection:
  "(charset_decode c bs = Inr s) = (charset_encode c s = Inr bs \<and> valid_str s)"
  by (blast intro: charset_encode_decode dest: charset_decode_encode)

end
