(* ===== verification/Sorted_Map.thy ===== *)
theory Sorted_Map
  imports Interfaces
begin

text \<open>
  The \<open>BTreeMap\<close> of the standard library: an association list in strictly increasing order of
  the keys, so that iteration is by key.  The locale \<open>dictionary\<close> is what its clients use of
  it: lookup after insert and after removal.
\<close>

type_synonym ('k, 'v) btree = "('k \<times> 'v) list"

fun tree_insert :: "'k :: linorder \<Rightarrow> 'v \<Rightarrow> ('k, 'v) btree \<Rightarrow> ('k, 'v) btree" where
  "tree_insert k v [] = [(k, v)]"
| "tree_insert k v ((l, w) # t) =
     (if k < l then (k, v) # (l, w) # t
      else if k = l then (k, v) # t
      else (l, w) # tree_insert k v t)"

definition tree_lookup :: "('k, 'v) btree \<Rightarrow> 'k \<Rightarrow> 'v option" where
  "tree_lookup t = map_of t"

definition tree_remove :: "'k \<Rightarrow> ('k, 'v) btree \<Rightarrow> ('k, 'v) btree" where
  "tree_remove k t = filter (\<lambda>(l, _). l \<noteq> k) t"

definition tree_retain :: "('k \<Rightarrow> 'v \<Rightarrow> bool) \<Rightarrow> ('k, 'v) btree \<Rightarrow> ('k, 'v) btree" where
  "tree_retain p t = filter (\<lambda>(l, v). p l v) t"

definition tree_ok :: "('k :: linorder, 'v) btree \<Rightarrow> bool" where
  "tree_ok t \<longleftrightarrow> sorted_wrt (<) (map fst t)"

lemma tree_insert_keys: "set (map fst (tree_insert k v t)) = insert k (set (map fst t))"
  by (induction k v t rule: tree_insert.induct) auto

lemma tree_insert_ok: "tree_ok t \<Longrightarrow> tree_ok (tree_insert k v t)"
proof (induction k v t rule: tree_insert.induct)
  case (2 k v l w t)
  then have "tree_ok (tree_insert k v t)" if "\<not> k < l" "k \<noteq> l" using that by (simp add: tree_ok_def)
  with 2 tree_insert_keys [of k v t] show ?case
    by (auto simp: tree_ok_def)
qed (simp add: tree_ok_def)

lemma filter_ok: "tree_ok t \<Longrightarrow> tree_ok (filter p t)"
  by (induction t) (auto simp: tree_ok_def)

lemma tree_remove_ok: "tree_ok t \<Longrightarrow> tree_ok (tree_remove k t)"
  by (simp add: tree_remove_def filter_ok)

lemma tree_retain_ok: "tree_ok t \<Longrightarrow> tree_ok (tree_retain p t)"
  by (simp add: tree_retain_def filter_ok)

lemma lookup_insert: "tree_ok t \<Longrightarrow> tree_lookup (tree_insert k v t) = (tree_lookup t)(k \<mapsto> v)"
proof (induction k v t rule: tree_insert.induct)
  case (2 k v l w t)
  then show ?case by (auto simp: tree_lookup_def tree_ok_def fun_eq_iff)
qed (simp add: tree_lookup_def)

lemma lookup_remove: "tree_lookup (tree_remove k t) = (tree_lookup t)(k := None)"
  by (induction t) (auto simp: tree_lookup_def tree_remove_def fun_eq_iff)

lemma lookup_mem: "tree_lookup t k = Some v \<Longrightarrow> (k, v) \<in> set t"
  by (simp add: tree_lookup_def map_of_SomeD)

lemma mem_lookup: "tree_ok t \<Longrightarrow> (k, v) \<in> set t \<Longrightarrow> tree_lookup t k = Some v"
  by (auto simp: tree_lookup_def tree_ok_def strict_sorted_iff intro: map_of_is_SomeI)

lemma lookup_retain:
  "tree_ok t \<Longrightarrow> tree_lookup (tree_retain p t) k = (case tree_lookup t k of
     Some v \<Rightarrow> if p k v then Some v else None | None \<Rightarrow> None)"
proof (induction t)
  case (Cons x t)
  then have "tree_ok t" "k = fst x \<longrightarrow> map_of t k = None"
    by (auto simp: tree_ok_def map_of_eq_None_iff)
  with Cons show ?case
    by (cases x) (auto simp: tree_lookup_def tree_retain_def split: option.splits)
qed (simp add: tree_lookup_def tree_retain_def)

lemma set_tree_insert: "set (tree_insert k v t) \<subseteq> insert (k, v) (set t)"
  by (induction k v t rule: tree_insert.induct) auto

lemma set_tree_remove: "set (tree_remove k t) \<subseteq> set t" "(k, v) \<notin> set (tree_remove k t)"
  by (auto simp: tree_remove_def)

text \<open>A change of every value, as an \<open>UPDATE\<close> of a table makes it; the keys stay.\<close>

definition tree_map :: "('k \<Rightarrow> 'v \<Rightarrow> 'v) \<Rightarrow> ('k, 'v) btree \<Rightarrow> ('k, 'v) btree" where
  "tree_map f t = map (\<lambda>(k, v). (k, f k v)) t"

lemma tree_map_keys [simp]: "map fst (tree_map f t) = map fst t"
  by (simp add: tree_map_def case_prod_beta o_def)

lemma tree_map_ok: "tree_ok t \<Longrightarrow> tree_ok (tree_map f t)"
  by (simp add: tree_ok_def)

lemma length_tree_map [simp]: "length (tree_map f t) = length t"
  by (simp add: tree_map_def)

lemma lookup_tree_map: "tree_lookup (tree_map f t) k = map_option (f k) (tree_lookup t k)"
  by (induction t) (auto simp: tree_lookup_def tree_map_def)

lemma length_tree_insert: "length (tree_insert k v t) \<le> Suc (length t)"
  by (induction k v t rule: tree_insert.induct) auto

lemma length_tree_insert_present:
  "tree_ok t \<Longrightarrow> tree_lookup t k \<noteq> None \<Longrightarrow> length (tree_insert k v t) = length t"
proof (induction k v t rule: tree_insert.induct)
  case (2 k v l w t)
  then have "k < l \<Longrightarrow> map_of t k = None"
    by (auto simp: tree_ok_def map_of_eq_None_iff)
  with 2 show ?case by (auto simp: tree_ok_def tree_lookup_def)
qed (simp add: tree_lookup_def)

locale dictionary =
  fixes look :: "'m \<Rightarrow> 'k \<Rightarrow> 'v option"
    and put :: "'k \<Rightarrow> 'v \<Rightarrow> 'm \<Rightarrow> 'm"
    and del :: "'k \<Rightarrow> 'm \<Rightarrow> 'm"
    and good :: "'m \<Rightarrow> bool"
  assumes look_put: "good m \<Longrightarrow> look (put k v m) = (look m)(k \<mapsto> v)"
    and look_del: "good m \<Longrightarrow> look (del k m) = (look m)(k := None)"
    and good_put: "good m \<Longrightarrow> good (put k v m)"
    and good_del: "good m \<Longrightarrow> good (del k m)"
begin

lemma put_then_del: "good m \<Longrightarrow> look m k = None \<Longrightarrow> look (del k (put k v m)) = look m"
  by (auto simp: look_put look_del good_put fun_eq_iff)

lemma look_put_other: "good m \<Longrightarrow> k \<noteq> l \<Longrightarrow> look (put k v m) l = look m l"
  by (simp add: look_put)

lemma look_del_other: "good m \<Longrightarrow> k \<noteq> l \<Longrightarrow> look (del k m) l = look m l"
  by (simp add: look_del)

lemma look_del_same: "good m \<Longrightarrow> look (del k m) k = None"
  by (simp add: look_del)

end

interpretation tree: dictionary tree_lookup tree_insert tree_remove tree_ok
  by unfold_locales (simp_all add: lookup_insert lookup_remove tree_insert_ok tree_remove_ok)

end
