(* ===== verification/Tic.thy ===== *)
theory Tic
  imports Ftn_Charset Binkp_Wire Sorted_Map Crc "HOL-Library.List_Lexorder" "HOL-Library.Char_ord"
begin

text \<open>
  \<open>crates/sf-net/src/tic.rs\<close>: the TIC envelopes that announce files in file networks, request
  files, and the file names that may cross the network.  Parsing and writing are whole; the check
  of a password is the caller's function.
\<close>

section \<open>Data\<close>

definition MAX_TIC :: nat where "MAX_TIC = 32 * 1024"
definition MAX_LINES :: nat where "MAX_LINES = 256"
definition TIC_LINE :: nat where "TIC_LINE = 512"

definition MAX_PAYLOAD :: u64 where "MAX_PAYLOAD = of_nat MAX_FILE"

datatype tic_error = TicMalformed | TicLimit | TicFilename | TicEncoding | TicSize | TicChecksum

record direct_history =
  untimed_path :: "endpoint option"
  empty_seenby :: bool

record hop =
  hop_address :: endpoint
  hop_time :: u64
  detail :: string

record metadata =
  tic_area :: string
  tic_file :: string
  long_file :: "string option"
  tic_origin :: endpoint
  tic_from :: endpoint
  tic_to :: "endpoint option"
  tic_size :: u64
  tic_crc :: u32
  descriptions :: "string list"
  long_descriptions :: "string list"
  hops :: "hop list"
  tic_seen :: "endpoint list"
  opaque :: "string list"

record envelope =
  meta :: metadata
  direct_hatch :: "direct_history option"
  password :: string

definition authenticates :: "(string \<Rightarrow> bool) \<Rightarrow> envelope \<Rightarrow> bool" where
  "authenticates verify e \<longleftrightarrow> password e \<noteq> [] \<and> verify (password e)"

section \<open>Names and values\<close>

definition port_device :: "string \<Rightarrow> bool" where
  "port_device s \<longleftrightarrow>
     (starts_with ''COM'' s \<or> starts_with ''LPT'' s) \<and> length s = 4 \<and> 49 \<le> ord (s ! 3) \<and> ord (s ! 3) \<le> 57"

definition name_char :: "char \<Rightarrow> bool" where
  "name_char c \<longleftrightarrow> ascii_alphanumeric (ord c) \<or> c \<in> set ''._-+''"

definition tic_filename :: "string \<Rightarrow> tic_error + string" where
  "tic_filename s =
     (if s = [] \<or> 12 < length s \<or> \<not> list_all name_char s then Inl TicFilename
      else
        (let upper = map upper_char s; parts = split_on CHR ''.'' upper; stem = hd parts in
         if 2 < length parts \<or> stem = [] \<or> 8 < length stem \<or>
            (1 < length parts \<and> (parts ! 1 = [] \<or> 3 < length (parts ! 1))) \<or>
            stem \<in> {''CON'', ''PRN'', ''AUX'', ''NUL'', ''CLOCK$''} \<or> port_device stem
         then Inl TicFilename else Inr upper))"

definition area_tag :: "string \<Rightarrow> tic_error + string" where
  "area_tag s =
     (if s = [] \<or> 64 < length s \<or> \<not> list_all (\<lambda>c. ascii_alphanumeric (ord c) \<or> c \<in> set ''._-'') s
      then Inl TicMalformed else Inr (map upper_char s))"

definition tic_endpoint :: "string \<Rightarrow> domain \<Rightarrow> tic_error + endpoint" where
  "tic_endpoint v d =
     (let q = (if CHR ''@'' \<in> set v then v else v @ ''@'' @ d) in
      attempt (with_error (parse_endpoint q) TicMalformed) (\<lambda>e.
        if domain_of e \<noteq> d then Inl TicMalformed else Inr e))"

definition tic_decimal :: "string \<Rightarrow> tic_error + u64" where
  "tic_decimal s =
     (if s = [] \<or> 20 < length s \<or> \<not> all_digits s then Inl TicMalformed
      else attempt (ok_or (parse_uint 18446744073709551615 s) TicMalformed) (\<lambda>n. Inr (of_nat n)))"

definition safe_text :: "string \<Rightarrow> bool" where
  "safe_text s \<longleftrightarrow> \<not> list_ex is_control (chars s) \<and> length s \<le> TIC_LINE"

definition path_char :: "char \<Rightarrow> bool" where
  "path_char c \<longleftrightarrow> c \<in> set (CHR 0x5C # CHR 0x22 # CHR 0x60 # ''/:*?<>|$'')"

definition long_name :: "string \<Rightarrow> tic_error + string" where
  "long_name s =
     (if s = [] \<or> 64 < length s \<or> \<not> safe_text s \<or> hd s = CHR ''.'' \<or> last s \<in> {CHR ''.'', CHR '' ''} \<or>
         list_ex path_char s
      then Inl TicFilename
      else
        (let stem = map upper_char (hd (split_on CHR ''.'' s)) in
         if stem \<in> {''CON'', ''PRN'', ''AUX'', ''NUL''} \<or> port_device stem then Inl TicFilename
         else Inr s))"

text \<open>\<open>str::replace\<close>, for a pattern that is not empty.\<close>

fun replace_all :: "string \<Rightarrow> string \<Rightarrow> string \<Rightarrow> string" where
  "replace_all p r [] = []"
| "replace_all p r (c # s) =
     (if p \<noteq> [] \<and> starts_with p (c # s) then r @ replace_all p r (drop (length p - 1) s)
      else c # replace_all p r s)"

definition tic_lines :: "bytes \<Rightarrow> nat \<Rightarrow> tic_error + string list" where
  "tic_lines bs m =
     (if bs = [] \<or> m < length bs then Inl TicLimit
      else
        attempt (with_error (charset_decode Cp437 bs) TicEncoding) (\<lambda>s.
          (let normalized = replace_all [CHR 0x0D] [CHR 0x0A] (replace_all [CHR 0x0D, CHR 0x0A] [CHR 0x0A] s);
               ls = filter (\<lambda>l. l \<noteq> []) (split_on CHR 0x0A normalized) in
           if MAX_LINES < length ls \<or> \<not> list_all safe_text ls then Inl TicLimit else Inr ls)))"

section \<open>Reading\<close>

text \<open>The variables of the loop over the lines.\<close>

record reading =
  singleton :: "(string, string) btree"
  descs :: "string list"
  ldescs :: "string list"
  path_hops :: "hop list"
  seens :: "endpoint list"
  unknown :: "string list"
  untimed :: "endpoint option"

definition start_reading :: reading where
  "start_reading = \<lparr>singleton = [], descs = [], ldescs = [], path_hops = [], seens = [], unknown = [], untimed = None\<rparr>"

text \<open>\<open>splitn(3, ' ')\<close>.\<close>

definition split_three :: "string \<Rightarrow> string \<times> string option \<times> string option" where
  "split_three v =
     (case split_once CHR '' '' v of
        None \<Rightarrow> (v, None, None)
      | Some (a, r) \<Rightarrow>
          (case split_once CHR '' '' r of None \<Rightarrow> (a, Some r, None) | Some (b, c) \<Rightarrow> (a, Some b, Some c)))"

definition path_line :: "domain \<Rightarrow> bool \<Rightarrow> string \<Rightarrow> reading \<Rightarrow> tic_error + reading" where
  "path_line d direct v st =
     (case split_three v of (a, t, rest) \<Rightarrow>
        attempt (tic_endpoint a d) (\<lambda>a.
          (case t of
             Some t \<Rightarrow>
               attempt (tic_decimal t) (\<lambda>t.
                 Inr (st\<lparr>path_hops := path_hops st @ [\<lparr>hop_address = a, hop_time = t, detail = unwrap_or rest []\<rparr>]\<rparr>))
           | None \<Rightarrow>
               if direct \<and> untimed st = None then Inr (st\<lparr>untimed := Some a\<rparr>) else Inl TicMalformed)))"

definition singleton_keys :: "string list" where
  "singleton_keys =
     [''area'', ''file'', ''origin'', ''from'', ''to'', ''size'', ''crc'', ''pw'', ''lfile'', ''fullname'']"

definition singleton_line :: "string \<Rightarrow> string \<Rightarrow> reading \<Rightarrow> tic_error + reading" where
  "singleton_line key v st =
     (let canonical = (if key = ''fullname'' then ''lfile'' else key) in
      if tree_lookup (singleton st) canonical \<noteq> None then Inl TicMalformed
      else Inr (st\<lparr>singleton := tree_insert canonical v (singleton st)\<rparr>))"

definition keyed_line :: "domain \<Rightarrow> bool \<Rightarrow> string \<Rightarrow> string \<Rightarrow> string \<Rightarrow> reading \<Rightarrow> tic_error + reading" where
  "keyed_line d direct line key v st =
     (if key = ''desc'' then Inr (st\<lparr>descs := descs st @ [v]\<rparr>)
      else if key = ''ldesc'' then Inr (st\<lparr>ldescs := ldescs st @ [v]\<rparr>)
      else if key = ''path'' then path_line d direct v st
      else if key = ''seenby'' then attempt (tic_endpoint v d) (\<lambda>e. Inr (st\<lparr>seens := seens st @ [e]\<rparr>))
      else if key \<in> set singleton_keys then singleton_line key v st
      else Inr (st\<lparr>unknown := unknown st @ [line]\<rparr>))"

definition tic_line :: "domain \<Rightarrow> bool \<Rightarrow> reading \<Rightarrow> string \<Rightarrow> tic_error + reading" where
  "tic_line d direct st line =
     attempt (ok_or (split_once CHR '' '' line) TicMalformed) (\<lambda>(key, v).
       (let key = map lower_char key; v = dropWhile (\<lambda>c. c = CHR '' '') v in
        if key = [] \<or> \<not> list_all (\<lambda>c. ascii_alphanumeric (ord c)) key \<or> v = [] then Inl TicMalformed
        else keyed_line d direct line key v st))"

fun hex_number :: "nat \<Rightarrow> string \<Rightarrow> nat" where
  "hex_number a [] = a"
| "hex_number a (c # s) = hex_number (16 * a + hex_value c) s"

definition required :: "reading \<Rightarrow> string \<Rightarrow> tic_error + string" where
  "required st key = ok_or (tree_lookup (singleton st) key) TicMalformed"

definition optional :: "reading \<Rightarrow> string \<Rightarrow> (string \<Rightarrow> tic_error + 'a) \<Rightarrow> tic_error + 'a option" where
  "optional st key f =
     (case tree_lookup (singleton st) key of None \<Rightarrow> Inr None | Some v \<Rightarrow> attempt (f v) (\<lambda>x. Inr (Some x)))"

definition finish_reading :: "domain \<Rightarrow> bool \<Rightarrow> reading \<Rightarrow> tic_error + envelope" where
  "finish_reading d direct st =
     attempt (required st ''crc'') (\<lambda>crc.
       if length crc \<noteq> 8 \<or> \<not> list_all (\<lambda>c. ascii_hexdigit (ord c)) crc then Inl TicMalformed
       else
         attempt (required st ''size'') (\<lambda>size.
         attempt (tic_decimal size) (\<lambda>size.
           if size = 0 \<or> MAX_PAYLOAD < size \<or> (path_hops st = [] \<and> untimed st = None) \<or>
              (\<not> direct \<and> seens st = []) \<or> 20 < length (descs st) + length (ldescs st) \<or>
              4096 < sum_list (map length (descs st @ ldescs st))
           then Inl TicLimit
           else
             attempt (attempt (required st ''area'') area_tag) (\<lambda>area.
             attempt (attempt (required st ''file'') tic_filename) (\<lambda>file.
             attempt (optional st ''lfile'' long_name) (\<lambda>long.
             attempt (attempt (required st ''origin'') (\<lambda>v. tic_endpoint v d)) (\<lambda>origin.
             attempt (attempt (required st ''from'') (\<lambda>v. tic_endpoint v d)) (\<lambda>from.
             attempt (optional st ''to'' (\<lambda>v. tic_endpoint v d)) (\<lambda>to.
               Inr \<lparr>meta = \<lparr>tic_area = area, tic_file = file, long_file = long, tic_origin = origin, tic_from = from,
                      tic_to = to, tic_size = size, tic_crc = of_nat (hex_number 0 crc), descriptions = descs st,
                      long_descriptions = ldescs st, hops = path_hops st, tic_seen = seens st, opaque = unknown st\<rparr>,
                    direct_hatch = (if direct then Some \<lparr>untimed_path = untimed st, empty_seenby = seens st = []\<rparr> else None),
                    password = unwrap_or (tree_lookup (singleton st) ''pw'') []\<rparr>)))))))))"

definition parse_history :: "bytes \<Rightarrow> domain \<Rightarrow> bool \<Rightarrow> tic_error + envelope" where
  "parse_history bs d direct =
     attempt (tic_lines bs MAX_TIC) (\<lambda>ls.
     attempt (run_steps (tic_line d direct) start_reading ls) (finish_reading d direct))"

definition tic_parse :: "bytes \<Rightarrow> domain \<Rightarrow> tic_error + envelope" where
  "tic_parse bs d = parse_history bs d False"

definition parse_direct_hatch :: "bytes \<Rightarrow> endpoint \<Rightarrow> endpoint \<Rightarrow> tic_error + envelope" where
  "parse_direct_hatch bs peer here =
     attempt (parse_history bs (domain_of peer) True) (\<lambda>e.
     attempt (ok_or (direct_hatch e) TicMalformed) (\<lambda>h.
       (let paths = length (hops (meta e)) + (if untimed_path h = None then 0 else 1) in
        if domain_of peer \<noteq> domain_of here \<or> tic_from (meta e) \<noteq> peer \<or> tic_origin (meta e) \<noteq> peer \<or>
           tic_to (meta e) \<noteq> Some here \<or> paths \<noteq> 1 \<or> list_ex (\<lambda>p. hop_address p \<noteq> peer) (hops (meta e)) \<or>
           (untimed_path h \<noteq> None \<and> untimed_path h \<noteq> Some peer)
        then Inl TicMalformed else Inr e)))"

section \<open>Payloads\<close>

definition validate_payload :: "metadata \<Rightarrow> bytes \<Rightarrow> tic_error + unit" where
  "validate_payload m bs =
     (if length bs \<noteq> unat (tic_size m) then Inl TicSize
      else if crc32 bs \<noteq> tic_crc m then Inl TicChecksum
      else Inr ())"

fun joined :: "string \<Rightarrow> string list \<Rightarrow> string" where
  "joined s [] = []"
| "joined s [x] = x"
| "joined s (x # y # ys) = x @ s @ joined s (y # ys)"

definition description :: "metadata \<Rightarrow> string" where
  "description m =
     joined [CHR 0x0A] (if long_descriptions m = [] then descriptions m else long_descriptions m)"

section \<open>Writing\<close>

fun hex_digits_upper :: "nat \<Rightarrow> nat \<Rightarrow> string" where
  "hex_digits_upper 0 v = []"
| "hex_digits_upper (Suc k) v =
     hex_digits_upper k (v div 16) @ [char_of (if v mod 16 < 10 then 48 + v mod 16 else 55 + v mod 16)]"

definition show_u64 :: "u64 \<Rightarrow> string" where
  "show_u64 w = show_nat (unat w)"

definition trusted_keys :: "string list" where
  "trusted_keys =
     [''area'', ''origin'', ''from'', ''to'', ''file'', ''size'', ''crc'', ''pw'', ''lfile'', ''fullname'',
      ''desc'', ''ldesc'', ''path'', ''seenby'']"

definition opaque_line :: "string \<Rightarrow> tic_error + string" where
  "opaque_line l =
     attempt (ok_or (split_once CHR '' '' l) TicMalformed) (\<lambda>(key, _).
       if map lower_char key \<in> set trusted_keys then Inl TicMalformed else Inr l)"

definition hop_line :: "hop \<Rightarrow> string" where
  "hop_line h =
     ''Path '' @ show_endpoint (hop_address h) @ '' '' @ show_u64 (hop_time h) @
     (if detail h = [] then [] else '' '') @ detail h"

definition head_lines :: "metadata \<Rightarrow> string list" where
  "head_lines m =
     [''Area '' @ tic_area m, ''Origin '' @ show_endpoint (tic_origin m), ''From '' @ show_endpoint (tic_from m),
      ''File '' @ tic_file m, ''Size '' @ show_u64 (tic_size m), ''Crc '' @ hex_digits_upper 8 (unat (tic_crc m))] @
     (case tic_to m of None \<Rightarrow> [] | Some e \<Rightarrow> [''To '' @ show_endpoint e]) @
     (case long_file m of None \<Rightarrow> [] | Some n \<Rightarrow> [''Lfile '' @ n]) @
     map (\<lambda>s. ''Desc '' @ s) (descriptions m) @ map (\<lambda>s. ''Ldesc '' @ s) (long_descriptions m)"

definition end_lines :: "metadata \<Rightarrow> string \<Rightarrow> string list" where
  "end_lines m pw =
     map hop_line (hops m) @ map (\<lambda>e. ''Seenby '' @ show_endpoint e) (tic_seen m) @ [''Pw '' @ pw]"

definition tic_encode :: "metadata \<Rightarrow> string \<Rightarrow> tic_error + bytes" where
  "tic_encode m pw =
     (if pw = [] \<or> 71 < length pw \<or> \<not> list_all (\<lambda>c. ascii_graphic (ord c)) pw then Inl TicMalformed
      else
        attempt (traverse opaque_line (opaque m)) (\<lambda>others.
          (let ls = head_lines m @ others @ end_lines m pw in
           if \<not> list_all safe_text ls then Inl TicMalformed
           else
             attempt (with_error (charset_encode Cp437 (joined [CHR 0x0D, CHR 0x0A] ls @ [CHR 0x0D, CHR 0x0A])) TicEncoding) (\<lambda>bs.
             attempt (tic_parse bs (domain_of (tic_from m))) (\<lambda>parsed.
               if meta parsed \<noteq> m then Inl TicMalformed else Inr bs)))))"

section \<open>Names on the wire\<close>

definition transfer_name :: "string \<Rightarrow> string \<Rightarrow> tic_error + string" where
  "transfer_name native hash =
     (case tic_filename native of
        Inr n \<Rightarrow> Inr n
      | Inl _ \<Rightarrow>
          attempt (long_name native) (\<lambda>_.
            if length hash \<noteq> 64 \<or> \<not> list_all (\<lambda>c. ascii_hexdigit (ord c)) hash then Inl TicMalformed
            else
              (let extension = (case rsplit_once CHR ''.'' native of
                     Some (_, s) \<Rightarrow>
                       if s \<noteq> [] \<and> length s \<le> 3 \<and> list_all (\<lambda>c. ascii_alphanumeric (ord c)) s then s else ''DAT''
                   | None \<Rightarrow> ''DAT'') in
               tic_filename (take 8 hash @ ''.'' @ extension))))"

fun request_names :: "string list \<Rightarrow> (string, unit) btree \<Rightarrow> tic_error + (string, unit) btree" where
  "request_names [] names = Inr names"
| "request_names (l # ls) names =
     attempt (tic_filename l) (\<lambda>n.
       if tree_lookup names n \<noteq> None then Inl TicMalformed else request_names ls (tree_insert n () names))"

definition parse_request :: "bytes \<Rightarrow> nat \<Rightarrow> tic_error + string list" where
  "parse_request bs m =
     attempt (tic_lines bs 4096) (\<lambda>ls.
       if ls = [] \<or> m < length ls \<or> 32 < m then Inl TicLimit
       else attempt (request_names ls []) (\<lambda>names. Inr (map fst names)))"

end
