(* ===== verification/Char_Text.thy ===== *)
theory Char_Text
  imports Ftn_Charset
begin

text \<open>
  Texts made of the characters of a class: the strings that write a list of scalar values all of
  which satisfy a predicate.  Cutting such a text at an ASCII character and joining such texts
  stay in the class, which is what line formats need of a character set and of the absence of
  control characters.
\<close>

definition made_of :: "(nat \<Rightarrow> bool) \<Rightarrow> string \<Rightarrow> bool" where
  "made_of Q s \<longleftrightarrow> (\<exists>us. list_all (\<lambda>u. scalar u \<and> Q u) us \<and> s = from_chars us)"

lemma made_of_Nil [simp]: "made_of Q []"
  unfolding made_of_def by (rule exI [of _ "[]"]) (simp add: from_chars_def)

lemma from_chars_append [simp]: "from_chars (us @ vs) = from_chars us @ from_chars vs"
  by (simp add: from_chars_def)

lemma made_of_append [intro]: "made_of Q s \<Longrightarrow> made_of Q t \<Longrightarrow> made_of Q (s @ t)"
proof -
  assume "made_of Q s" "made_of Q t"
  then obtain us vs where "list_all (\<lambda>u. scalar u \<and> Q u) us" "s = from_chars us"
    "list_all (\<lambda>u. scalar u \<and> Q u) vs" "t = from_chars vs" by (auto simp: made_of_def)
  then show ?thesis unfolding made_of_def by (intro exI [of _ "us @ vs"]) simp
qed

lemma made_of_ascii: "list_all (\<lambda>c. ord c < 128 \<and> Q (ord c)) s \<Longrightarrow> made_of Q s"
proof -
  assume a: "list_all (\<lambda>c. ord c < 128 \<and> Q (ord c)) s"
  then have "s = from_chars (map ord s)"
    by (induction s) (auto simp: from_chars_def char_utf8_def ord_def)
  moreover from a have "list_all (\<lambda>u. scalar u \<and> Q u) (map ord s)"
    by (auto simp: list_all_iff scalar_def)
  ultimately show ?thesis by (auto simp: made_of_def)
qed

lemma made_of_mono: "made_of Q s \<Longrightarrow> (\<And>u. Q u \<Longrightarrow> R u) \<Longrightarrow> made_of R s"
  unfolding made_of_def by (blast intro: list.pred_mono_strong)

lemma made_of_chars: "made_of Q s \<Longrightarrow> valid_str s \<and> list_all Q (chars s)"
  by (auto simp: made_of_def valid_from_chars chars_from_chars list_all_iff)

lemma made_of_iff: "made_of Q s \<longleftrightarrow> valid_str s \<and> list_all Q (chars s)"
proof
  assume "valid_str s \<and> list_all Q (chars s)"
  with from_chars_chars [of s] show "made_of Q s"
    unfolding made_of_def by (intro exI [of _ "chars s"]) (auto simp: list_all_iff)
qed (rule made_of_chars)

lemma char_utf8_parts: "char_utf8 u = [u] \<and> u < 128 \<or> (char_utf8 u \<noteq> [] \<and> (\<forall>n \<in> set (char_utf8 u). 128 \<le> n))"
  by (auto simp: char_utf8_def)

lemma made_of_split:
  assumes "made_of Q (a @ c # b)" and "ord c < 128"
  shows "made_of Q a \<and> made_of Q b \<and> Q (ord c)"
proof -
  obtain us where us: "list_all (\<lambda>u. scalar u \<and> Q u) us" "a @ c # b = from_chars us"
    using assms(1) by (auto simp: made_of_def)
  then show ?thesis
  proof (induction us arbitrary: a)
    case (Cons u us)
    define w :: string where "w = map char_of (char_utf8 u)"
    have f: "a @ c # b = w @ from_chars us" using Cons.prems(2) by (simp add: from_chars_def w_def)
    have u: "scalar u" "Q u" "list_all (\<lambda>u. scalar u \<and> Q u) us" using Cons.prems(1) by auto
    have w: "made_of Q w" unfolding made_of_def using u by (intro exI [of _ "[u]"]) (simp add: w_def from_chars_def)
    have rest: "made_of Q (from_chars us)" using u(3) by (auto simp: made_of_def)
    consider (whole) a' where "a = w @ a'" "a' @ c # b = from_chars us"
      | (cut) w' where "w = a @ c # w'" "b = w' @ from_chars us"
      using f by (auto simp: append_eq_append_conv2 append_eq_Cons_conv Cons_eq_append_conv)
    then show ?case
    proof cases
      case whole
      from Cons.IH [OF u(3) whole(2)] w show ?thesis using whole(1) by auto
    next
      case cut
      have "c \<in> set w" by (simp add: cut(1))
      then obtain n where n: "n \<in> set (char_utf8 u)" "c = char_of n" by (auto simp: w_def)
      then have "n < 128" using assms(2) char_utf8_bytes [OF u(1) n(1)] by simp
      then have "char_utf8 u = [u]" "u < 128" using char_utf8_parts [of u] n(1) by auto
      then have "w = [char_of u]" by (simp add: w_def)
      with cut have "a = []" "c = char_of u" "w' = []" by (auto simp: append_eq_Cons_conv Cons_eq_append_conv)
      then show ?thesis using cut rest u(2) \<open>u < 128\<close> by simp
    qed
  qed (simp add: from_chars_def)
qed

lemma made_of_join_iff: "ord c < 128 \<Longrightarrow> made_of Q (a @ c # b) \<longleftrightarrow> made_of Q a \<and> made_of Q b \<and> Q (ord c)"
proof
  assume c: "ord c < 128" and "made_of Q a \<and> made_of Q b \<and> Q (ord c)"
  then have "made_of Q a" "made_of Q [c]" "made_of Q b" by (auto intro: made_of_ascii)
  then have "made_of Q (a @ [c] @ b)" by blast
  then show "made_of Q (a @ c # b)" by simp
qed (rule made_of_split)

lemma made_of_Cons [simp]: "ord c < 128 \<Longrightarrow> made_of Q (c # b) \<longleftrightarrow> Q (ord c) \<and> made_of Q b"
  using made_of_join_iff [of c Q "[]" b] by auto

lemma made_of_no_char: "made_of Q s \<Longrightarrow> ord c < 128 \<Longrightarrow> \<not> Q (ord c) \<Longrightarrow> c \<notin> set s"
  by (auto dest!: split_list made_of_split)

lemma made_of_dropWhile: "made_of Q s \<Longrightarrow> ord c < 128 \<Longrightarrow> made_of Q (dropWhile (\<lambda>x. x = c) s)"
  by (induction s) auto

lemma made_of_pieces: "ord c < 128 \<Longrightarrow> made_of Q s \<Longrightarrow> list_all (made_of Q) (split_on c s)"
proof (induction "length s" arbitrary: s rule: less_induct)
  case less
  show ?case
  proof (cases "c \<in> set s")
    case True
    then obtain a b where s: "s = a @ c # b" "c \<notin> set a" by (meson split_list_first)
    then have p: "split_on c s = a # split_on c b" by (auto intro: split_by_append)
    from less.prems s have "made_of Q a" "made_of Q b" by (auto simp: made_of_join_iff)
    with less.hyps [of b] less.prems(1) show ?thesis by (simp add: p) (simp add: s)
  next
    case False
    then have "split_on c s = [s]" by (intro split_by_none) auto
    with less.prems show ?thesis by simp
  qed
qed

section \<open>What a character set can write\<close>

definition encodable :: "charset \<Rightarrow> nat \<Rightarrow> bool" where
  "encodable c u \<longleftrightarrow> \<not> isl (byte_of_char c u)"

lemma encodable_ascii [simp]: "u < 128 \<Longrightarrow> encodable c u"
  by (simp add: encodable_def byte_of_char_def)

lemma traverse_total: "(\<exists>ys. traverse f xs = Inr ys) \<longleftrightarrow> list_all (\<lambda>x. \<not> isl (f x)) xs"
proof (induction xs)
  case (Cons x xs)
  then show ?case by (cases "f x"; cases "traverse f xs") auto
qed simp

lemma length_traverse: "traverse f xs = Inr ys \<Longrightarrow> length ys = length xs"
  using traverse_InrD by blast

lemma encode_made_of:
  assumes "c \<noteq> Utf_8"
  shows "made_of (encodable c) s \<longleftrightarrow> valid_str s \<and> (\<exists>bs. charset_encode c s = Inr bs)"
  using assms by (auto simp: made_of_iff charset_encode_def traverse_total encodable_def list_all_iff)

lemma decode_made_of:
  assumes "c \<noteq> Utf_8" and "charset_decode c bs = Inr s"
  shows "made_of (encodable c) s"
  using charset_decode_encode [OF assms(2)] by (auto simp: encode_made_of [OF assms(1)])

lemma length_encoded: "c \<noteq> Utf_8 \<Longrightarrow> charset_encode c s = Inr bs \<Longrightarrow> length bs = length (chars s)"
  by (simp add: charset_encode_def length_traverse)

end
