(* ===== verification/Tic_Codec.thy ===== *)
theory Tic_Codec
  imports Tic Char_Text
begin

text \<open>
  TIC envelopes written and read: the writer's lines are read back field by field, what parsing
  yields is well formed, and so every announcement can be passed on.  The loop over the lines is a
  guarded machine: it keeps \<open>reading_ok\<close> on lines without control characters.
\<close>

section \<open>Lines\<close>

definition plain437 :: "nat \<Rightarrow> bool" where
  "plain437 u \<longleftrightarrow> encodable Cp437 u \<and> \<not> is_control u"

abbreviation tic_text :: "string \<Rightarrow> bool" where
  "tic_text \<equiv> made_of plain437"

definition good_line :: "string \<Rightarrow> bool" where
  "good_line l \<longleftrightarrow> tic_text l \<and> l \<noteq> [] \<and> length l \<le> TIC_LINE"

lemma plain437_ascii: "32 \<le> u \<Longrightarrow> u < 127 \<Longrightarrow> plain437 u"
  by (simp add: plain437_def is_control_def)

lemma tic_text_ascii: "list_all (\<lambda>c. 32 \<le> ord c \<and> ord c < 127) s \<Longrightarrow> tic_text s"
  by (rule made_of_ascii) (auto simp: list_all_iff plain437_ascii)

lemma tic_text_no_control: "tic_text s \<Longrightarrow> ord c < 32 \<Longrightarrow> c \<notin> set s"
  by (erule made_of_no_char) (auto simp: plain437_def is_control_def)

lemma safe_text_iff: "made_of (encodable Cp437) s \<Longrightarrow> safe_text s \<longleftrightarrow> tic_text s \<and> length s \<le> TIC_LINE"
  by (auto simp: made_of_iff safe_text_def plain437_def list_all_iff list_ex_iff)

lemma good_line_safe: "good_line l \<Longrightarrow> safe_text l"
  by (auto simp: good_line_def made_of_iff safe_text_def plain437_def list_all_iff list_ex_iff)

definition normal_lines :: "string \<Rightarrow> string" where
  "normal_lines s = replace_all [CHR 0x0D] [CHR 0x0A] (replace_all [CHR 0x0D, CHR 0x0A] [CHR 0x0A] s)"

lemma replace_cr: "replace_all [CHR 0x0D] [CHR 0x0A] s = map (\<lambda>c. if c = CHR 0x0D then CHR 0x0A else c) s"
  by (induction s) (auto simp: starts_with_def)

lemma replace_crlf_plain:
  "CHR 0x0D \<notin> set a \<Longrightarrow> replace_all [CHR 0x0D, CHR 0x0A] r (a @ s) = a @ replace_all [CHR 0x0D, CHR 0x0A] r s"
  by (induction a) (auto simp: starts_with_def)

lemma replace_crlf_pair:
  "replace_all [CHR 0x0D, CHR 0x0A] r (CHR 0x0D # CHR 0x0A # s) = r @ replace_all [CHR 0x0D, CHR 0x0A] r s"
  by (simp add: starts_with_def)

lemma replace_crlf_alone:
  "s = [] \<or> hd s \<noteq> CHR 0x0A \<Longrightarrow>
   replace_all [CHR 0x0D, CHR 0x0A] r (CHR 0x0D # s) = CHR 0x0D # replace_all [CHR 0x0D, CHR 0x0A] r s"
  by (cases s) (simp_all add: starts_with_def)

lemma made_of_replace_crlf:
  assumes "Q 10" and "Q 13"
  shows "made_of Q s \<Longrightarrow> made_of Q (replace_all [CHR 0x0D, CHR 0x0A] [CHR 0x0A] s)"
proof (induction "length s" arbitrary: s rule: less_induct)
  case less
  show ?case
  proof (cases "CHR 0x0D \<in> set s")
    case True
    then obtain a b where s: "s = a @ CHR 0x0D # b" "CHR 0x0D \<notin> set a" by (meson split_list_first)
    then have ab: "made_of Q a" "made_of Q b" using less.prems by (auto simp: made_of_join_iff)
    show ?thesis
    proof (cases "b = [] \<or> hd b \<noteq> CHR 0x0A")
      case True
      have "made_of Q (replace_all [CHR 0x0D, CHR 0x0A] [CHR 0x0A] b)" using less.hyps [of b] ab(2) s(1) by simp
      with ab(1) assms show ?thesis
        unfolding s(1) replace_crlf_plain [OF s(2)] replace_crlf_alone [OF True] by (intro made_of_append) simp_all
    next
      case False
      then obtain b' where b: "b = CHR 0x0A # b'" by (cases b) auto
      then have "made_of Q (replace_all [CHR 0x0D, CHR 0x0A] [CHR 0x0A] b')"
        using less.hyps [of b'] ab(2) s(1) by simp
      with ab(1) assms show ?thesis
        unfolding s(1) b replace_crlf_plain [OF s(2)] replace_crlf_pair by (intro made_of_append) simp_all
    qed
  next
    case False
    then show ?thesis using less.prems replace_crlf_plain [OF False, of "[CHR 0x0A]" "[]"] by simp
  qed
qed

lemma made_of_map_cr:
  assumes "Q 10"
  shows "made_of Q s \<Longrightarrow> made_of Q (map (\<lambda>c. if c = CHR 0x0D then CHR 0x0A else c) s)"
proof (induction "length s" arbitrary: s rule: less_induct)
  case less
  show ?case
  proof (cases "CHR 0x0D \<in> set s")
    case True
    then obtain a b where s: "s = a @ CHR 0x0D # b" "CHR 0x0D \<notin> set a" by (meson split_list_first)
    then have "made_of Q a" "made_of Q b" using less.prems by (auto simp: made_of_join_iff)
    moreover have "map (\<lambda>c. if c = CHR 0x0D then CHR 0x0A else c) a = a" using s(2) by (intro map_idI) auto
    moreover have "length b < length s" by (simp add: s(1))
    ultimately show ?thesis using less.hyps [of b] assms by (simp add: s(1) made_of_join_iff)
  next
    case False
    then have "map (\<lambda>c. if c = CHR 0x0D then CHR 0x0A else c) s = s" by (intro map_idI) auto
    with less.prems show ?thesis by simp
  qed
qed

lemma made_of_normal: "Q 10 \<Longrightarrow> Q 13 \<Longrightarrow> made_of Q s \<Longrightarrow> made_of Q (normal_lines s)"
  unfolding normal_lines_def replace_cr by (intro made_of_map_cr made_of_replace_crlf)

lemma tic_lines_sound:
  assumes "tic_lines bs m = Inr ls"
  shows "list_all good_line ls \<and> length ls \<le> MAX_LINES"
proof -
  obtain s where s: "charset_decode Cp437 bs = Inr s"
    and ls: "ls = filter (\<lambda>l. l \<noteq> []) (split_on CHR 0x0A (normal_lines s))"
    and b: "length ls \<le> MAX_LINES" "list_all safe_text ls"
    using assms unfolding tic_lines_def Let_def normal_lines_def [symmetric]
    by (auto simp: result_simps not_less split: if_splits)
  have "made_of (encodable Cp437) (normal_lines s)"
    using decode_made_of [OF _ s] by (intro made_of_normal) simp_all
  then have "list_all (made_of (encodable Cp437)) (split_on CHR 0x0A (normal_lines s))"
    by (intro made_of_pieces) simp_all
  with b show ?thesis by (auto simp: ls list_all_iff good_line_def safe_text_iff)
qed

definition crlf_lines :: "string list \<Rightarrow> string" where
  "crlf_lines ls = concat (map (\<lambda>l. l @ [CHR 0x0D, CHR 0x0A]) ls)"

lemma joined_crlf: "ls \<noteq> [] \<Longrightarrow> joined s ls @ s = concat (map (\<lambda>l. l @ s) ls)"
  by (induction s ls rule: joined.induct) auto

lemma normal_crlf_lines: "list_all tic_text ls \<Longrightarrow> normal_lines (crlf_lines ls) = concat (map (\<lambda>l. l @ [CHR 0x0A]) ls)"
proof (induction ls)
  case (Cons l ls)
  then have "CHR 0x0D \<notin> set l" by (simp add: tic_text_no_control)
  moreover from this have "map (\<lambda>c. if c = CHR 0x0D then CHR 0x0A else c) l = l" by (intro map_idI) auto
  ultimately show ?case
    using Cons replace_crlf_plain [of l "[CHR 0x0A]" "CHR 0x0D # CHR 0x0A # crlf_lines ls"]
    by (simp add: normal_lines_def replace_cr crlf_lines_def replace_crlf_pair del: replace_all.simps)
qed (simp add: normal_lines_def crlf_lines_def)

lemma split_lf_lines: "list_all tic_text ls \<Longrightarrow> split_on CHR 0x0A (concat (map (\<lambda>l. l @ [CHR 0x0A]) ls)) = ls @ [[]]"
proof (induction ls)
  case (Cons l ls)
  then have "CHR 0x0A \<notin> set l" by (simp add: tic_text_no_control)
  then have "split_on CHR 0x0A (l @ CHR 0x0A # concat (map (\<lambda>l. l @ [CHR 0x0A]) ls)) =
      l # split_on CHR 0x0A (concat (map (\<lambda>l. l @ [CHR 0x0A]) ls))" by (intro split_by_append) auto
  with Cons show ?case by simp
qed simp

lemma crlf_lines_made: "list_all tic_text ls \<Longrightarrow> made_of (encodable Cp437) (crlf_lines ls)"
proof (induction ls)
  case (Cons l ls)
  then have "made_of (encodable Cp437) l" by (auto intro: made_of_mono simp: plain437_def)
  with Cons show ?case by (auto simp: crlf_lines_def intro!: made_of_append)
qed (simp add: crlf_lines_def)

lemma tic_lines_written:
  assumes "list_all good_line ls" and "ls \<noteq> []" and "length ls \<le> MAX_LINES"
    and bs: "charset_encode Cp437 (crlf_lines ls) = Inr bs" and "length bs \<le> m"
  shows "tic_lines bs m = Inr ls"
proof -
  have t: "list_all tic_text ls" using assms(1) by (auto simp: list_all_iff good_line_def)
  have d: "charset_decode Cp437 bs = Inr (crlf_lines ls)"
    using crlf_lines_made [OF t] by (intro charset_encode_decode [OF bs]) (simp add: made_of_iff)
  have "crlf_lines ls \<noteq> []" using assms(2) by (cases ls) (simp_all add: crlf_lines_def)
  then have "bs \<noteq> []" using d by (auto simp: charset_decode_def from_chars_def)
  moreover have "filter (\<lambda>l. l \<noteq> []) (ls @ [[]]) = ls"
    using assms(1) by (auto simp: list_all_iff good_line_def intro!: filter_True)
  moreover have "list_all safe_text ls" using assms(1) by (auto simp: list_all_iff good_line_safe)
  ultimately show ?thesis
    using assms(3,5) unfolding tic_lines_def Let_def normal_lines_def [symmetric] d with_error_simps attempt_Inr
      normal_crlf_lines [OF t] split_lf_lines [OF t] by simp
qed

section \<open>Reading written lines\<close>

definition tic_value :: "string \<Rightarrow> bool" where
  "tic_value v \<longleftrightarrow> tic_text v \<and> v \<noteq> [] \<and> hd v \<noteq> CHR '' ''"

lemma tic_value_ascii: "list_all (\<lambda>c. 33 \<le> ord c \<and> ord c < 127) v \<Longrightarrow> v \<noteq> [] \<Longrightarrow> tic_value v"
proof -
  assume v: "list_all (\<lambda>c. 33 \<le> ord c \<and> ord c < 127) v" "v \<noteq> []"
  then have "tic_text v" by (intro tic_text_ascii) (erule list.pred_mono_strong, simp)
  with v show ?thesis by (cases v) (auto simp: tic_value_def)
qed

lemma tic_line_keyed:
  assumes "CHR '' '' \<notin> set k" and "k \<noteq> []" and "list_all (\<lambda>c. ascii_alphanumeric (ord c)) (map lower_char k)"
    and "v \<noteq> []" and "hd v \<noteq> CHR '' ''"
  shows "tic_line d direct st (k @ CHR '' '' # v) = keyed_line d direct (k @ CHR '' '' # v) (map lower_char k) v st"
proof -
  have "dropWhile (\<lambda>c. c = CHR '' '') v = v" using assms(4,5) by (cases v) auto
  then show ?thesis using assms by (simp add: tic_line_def del: dropWhile_eq_Nil_conv)
qed

text \<open>The state of the loop as the lines written so far determine it.\<close>

definition holds ::
  "reading \<Rightarrow> (string \<rightharpoonup> string) \<Rightarrow> string list \<Rightarrow> string list \<Rightarrow> hop list \<Rightarrow> endpoint list \<Rightarrow> string list \<Rightarrow> bool" where
  "holds st f ds lds hs es us \<longleftrightarrow>
     tree_ok (singleton st) \<and> tree_lookup (singleton st) = f \<and> descs st = ds \<and> ldescs st = lds \<and>
     path_hops st = hs \<and> seens st = es \<and> unknown st = us \<and> untimed st = None"

lemma holds_start: "holds start_reading Map.empty [] [] [] [] []"
  by (simp add: holds_def start_reading_def tree_ok_def tree_lookup_def fun_eq_iff)

abbreviation reads :: "domain \<Rightarrow> reading \<Rightarrow> string list \<Rightarrow> reading \<Rightarrow> bool" where
  "reads d st ls t \<equiv> run_steps (tic_line d False) st ls = Inr t"

lemma reads_append: "reads d st ls t \<Longrightarrow> reads d t ks u \<Longrightarrow> reads d st (ls @ ks) u"
  by (simp add: run_steps_append)

lemma holds_singleton:
  assumes "holds st f ds lds hs es us" and "f k = None" and "k \<in> set singleton_keys" "k \<noteq> ''fullname''"
  obtains t where "keyed_line d direct l k v st = Inr t" "holds t (f(k \<mapsto> v)) ds lds hs es us"
proof -
  have n: "k \<noteq> ''desc''" "k \<noteq> ''ldesc''" "k \<noteq> ''path''" "k \<noteq> ''seenby''" using assms(3) by (auto simp: singleton_keys_def)
  show ?thesis
  proof (rule that)
    show "keyed_line d direct l k v st = Inr (st\<lparr>singleton := tree_insert k v (singleton st)\<rparr>)"
      using assms n unfolding keyed_line_def singleton_line_def holds_def by simp
    show "holds (st\<lparr>singleton := tree_insert k v (singleton st)\<rparr>) (f(k \<mapsto> v)) ds lds hs es us"
      using assms by (simp add: holds_def tree.look_put tree.good_put)
  qed
qed

lemma reads_single:
  assumes "holds st f ds lds hs es us" and "f (map lower_char k) = None"
    and "map lower_char k \<in> set singleton_keys" "map lower_char k \<noteq> ''fullname''" "CHR '' '' \<notin> set k"
    and "v \<noteq> []" "hd v \<noteq> CHR '' ''"
  obtains t where "reads d st [k @ CHR '' '' # v] t" "holds t (f(map lower_char k \<mapsto> v)) ds lds hs es us"
proof -
  have k: "k \<noteq> []" "list_all (\<lambda>c. ascii_alphanumeric (ord c)) (map lower_char k)"
    using assms(3) by (auto simp: singleton_keys_def)
  obtain t where "keyed_line d False (k @ CHR '' '' # v) (map lower_char k) v st = Inr t"
    "holds t (f(map lower_char k \<mapsto> v)) ds lds hs es us"
    using holds_singleton [OF assms(1-4)] by blast
  with that tic_line_keyed [OF assms(5) k assms(6,7)] show ?thesis by simp
qed

lemma reads_map:
  assumes "\<And>x s. x \<in> set xs \<Longrightarrow> tic_line d False s (g x) = Inr (effect x s)"
  shows "reads d st (map g xs) (fold effect xs st)"
  using assms by (rule run_steps_map)

lemma fold_effects:
  "fold (\<lambda>x st. st\<lparr>descs := descs st @ [x]\<rparr>) xs st = st\<lparr>descs := descs st @ xs\<rparr>"
  "fold (\<lambda>x st. st\<lparr>ldescs := ldescs st @ [x]\<rparr>) xs st = st\<lparr>ldescs := ldescs st @ xs\<rparr>"
  "fold (\<lambda>x st. st\<lparr>unknown := unknown st @ [x]\<rparr>) xs st = st\<lparr>unknown := unknown st @ xs\<rparr>"
  "fold (\<lambda>x st. st\<lparr>path_hops := path_hops st @ [x]\<rparr>) hs st = st\<lparr>path_hops := path_hops st @ hs\<rparr>"
  "fold (\<lambda>x st. st\<lparr>seens := seens st @ [x]\<rparr>) es st = st\<lparr>seens := seens st @ es\<rparr>"
  by (induction xs arbitrary: st; induction hs arbitrary: st; induction es arbitrary: st; simp)+

lemma reads_descs:
  assumes "list_all tic_value xs"
  shows "reads d st (map (\<lambda>s. ''Desc '' @ s) xs) (st\<lparr>descs := descs st @ xs\<rparr>)"
    and "reads d st (map (\<lambda>s. ''Ldesc '' @ s) xs) (st\<lparr>ldescs := ldescs st @ xs\<rparr>)"
proof -
  have x: "tic_line d False s (''Desc'' @ CHR '' '' # x) = Inr (s\<lparr>descs := descs s @ [x]\<rparr>)"
    "tic_line d False s (''Ldesc'' @ CHR '' '' # x) = Inr (s\<lparr>ldescs := ldescs s @ [x]\<rparr>)" if "x \<in> set xs" for x s
    using assms that
    by (subst tic_line_keyed; auto simp: list_all_iff tic_value_def keyed_line_def lower_char_def)+
  show "reads d st (map (\<lambda>s. ''Desc '' @ s) xs) (st\<lparr>descs := descs st @ xs\<rparr>)"
    using reads_map [where g = "\<lambda>s. ''Desc '' @ s" and xs = xs and effect = "\<lambda>x st. st\<lparr>descs := descs st @ [x]\<rparr>"] x(1)
    by (simp add: fold_effects)
  show "reads d st (map (\<lambda>s. ''Ldesc '' @ s) xs) (st\<lparr>ldescs := ldescs st @ xs\<rparr>)"
    using reads_map [where g = "\<lambda>s. ''Ldesc '' @ s" and xs = xs and effect = "\<lambda>x st. st\<lparr>ldescs := ldescs st @ [x]\<rparr>"] x(2)
    by (simp add: fold_effects)
qed

definition endpoint_in :: "domain \<Rightarrow> endpoint \<Rightarrow> bool" where
  "endpoint_in d e \<longleftrightarrow> wf_endpoint e \<and> domain_of e = d"

definition hop_ok :: "domain \<Rightarrow> hop \<Rightarrow> bool" where
  "hop_ok d h \<longleftrightarrow> endpoint_in d (hop_address h) \<and> tic_text (detail h)"

definition opaque_ok :: "string \<Rightarrow> bool" where
  "opaque_ok l \<longleftrightarrow>
     (case split_once CHR '' '' l of None \<Rightarrow> False
      | Some (k, r) \<Rightarrow> k \<noteq> [] \<and> list_all (\<lambda>c. ascii_alphanumeric (ord c)) (map lower_char k) \<and>
          \<not> list_all (\<lambda>c. c = CHR '' '') r \<and> map lower_char k \<notin> set trusted_keys)"

lemma show_endpoint_at [simp]: "CHR ''@'' \<in> set (show_endpoint e)"
  by (simp add: show_endpoint_def)

lemma tic_endpoint_show [simp]: "endpoint_in d e \<Longrightarrow> tic_endpoint (show_endpoint e) d = Inr e"
  by (simp add: tic_endpoint_def endpoint_in_def)

lemma domain_plain: "wf_domain d \<Longrightarrow> list_all (\<lambda>c. 33 \<le> ord c \<and> ord c < 127) d"
  by (auto simp: wf_domain_def valid_domain_def domain_char_def list_all_iff ascii_defs)

lemma digits_plain: "all_digits s \<Longrightarrow> list_all (\<lambda>c. 33 \<le> ord c \<and> ord c < 127) s"
  by (auto simp: all_digits_def list_all_iff ascii_defs)

lemma endpoint_plain:
  "endpoint_in d e \<Longrightarrow> list_all (\<lambda>c. 33 \<le> ord c \<and> ord c < 127) (show_endpoint e)"
  by (auto simp: show_endpoint_def show_address_def show_u16_def endpoint_in_def wf_endpoint_def digits_plain
      domain_plain simp del: list_all_iff)

lemma endpoint_value: "endpoint_in d e \<Longrightarrow> tic_value (show_endpoint e)"
  by (rule tic_value_ascii, erule endpoint_plain) (simp add: show_endpoint_def)

lemma no_space_plain: "list_all (\<lambda>c. 33 \<le> ord c \<and> ord c < 127) s \<Longrightarrow> CHR '' '' \<notin> set s"
  by (auto simp: list_all_iff)

lemma decimal_u64 [simp]: "tic_decimal (show_u64 w) = Inr w"
proof -
  have u: "unat w < 18446744073709551616" using unsigned_less [of w, where ?'a = nat] by simp
  then have "unat w < 10 ^ 20" by simp
  then have "length (show_u64 w) \<le> 20" unfolding show_u64_def by (rule length_show_nat_le) simp
  with u show ?thesis by (simp add: tic_decimal_def show_u64_def)
qed

lemma reads_seen:
  assumes "list_all (endpoint_in d) es"
  shows "reads d st (map (\<lambda>e. ''Seenby '' @ show_endpoint e) es) (st\<lparr>seens := seens st @ es\<rparr>)"
proof -
  have "tic_line d False s (''Seenby'' @ CHR '' '' # show_endpoint x) = Inr (s\<lparr>seens := seens s @ [x]\<rparr>)"
    if "x \<in> set es" for x s
  proof -
    have x: "endpoint_in d x" using assms that by (simp add: list_all_iff)
    with endpoint_value [OF x] show ?thesis
      by (subst tic_line_keyed) (auto simp: tic_value_def keyed_line_def lower_char_def)
  qed
  then show ?thesis
    using reads_map [where g = "\<lambda>e. ''Seenby '' @ show_endpoint e" and xs = es and effect = "\<lambda>x st. st\<lparr>seens := seens st @ [x]\<rparr>"]
    by (simp add: fold_effects)
qed

lemma path_line_hop:
  assumes "hop_ok d h"
  shows "path_line d False (show_endpoint (hop_address h) @ CHR '' '' # show_u64 (hop_time h) @
      (if detail h = [] then [] else '' '') @ detail h) st = Inr (st\<lparr>path_hops := path_hops st @ [h]\<rparr>)"
proof -
  have e: "endpoint_in d (hop_address h)" using assms by (simp add: hop_ok_def)
  have n: "CHR '' '' \<notin> set (show_endpoint (hop_address h))" by (rule no_space_plain, rule endpoint_plain [OF e])
  have t: "CHR '' '' \<notin> set (show_u64 (hop_time h))" by (simp add: show_u64_def)
  show ?thesis
    using n t e by (cases "detail h = []") (simp_all add: path_line_def split_three_def)
qed

lemma reads_hops:
  assumes "list_all (hop_ok d) hs"
  shows "reads d st (map hop_line hs) (st\<lparr>path_hops := path_hops st @ hs\<rparr>)"
proof -
  have "tic_line d False s (hop_line x) = Inr (s\<lparr>path_hops := path_hops s @ [x]\<rparr>)" if "x \<in> set hs" for x s
  proof -
    have x: "hop_ok d x" using assms that by (simp add: list_all_iff)
    let ?v = "show_endpoint (hop_address x) @ CHR '' '' # show_u64 (hop_time x) @
      (if detail x = [] then [] else '' '') @ detail x"
    have "?v \<noteq> []" "hd ?v \<noteq> CHR '' ''"
      using endpoint_value [of d "hop_address x"] x by (auto simp: hop_ok_def tic_value_def hd_append)
    then have "tic_line d False s (''Path'' @ CHR '' '' # ?v) = Inr (s\<lparr>path_hops := path_hops s @ [x]\<rparr>)"
      by (subst tic_line_keyed) (auto simp: keyed_line_def lower_char_def path_line_hop [OF x])
    then show ?thesis by (simp add: hop_line_def)
  qed
  then show ?thesis
    using reads_map [where g = hop_line and xs = hs and effect = "\<lambda>x st. st\<lparr>path_hops := path_hops st @ [x]\<rparr>"]
    by (simp add: fold_effects)
qed

lemma reads_opaque:
  assumes "list_all opaque_ok us"
  shows "reads d st us (st\<lparr>unknown := unknown st @ us\<rparr>)"
proof -
  have "tic_line d False s u = Inr (s\<lparr>unknown := unknown s @ [u]\<rparr>)" if "u \<in> set us" for u s
  proof -
    have "opaque_ok u" using assms that by (simp add: list_all_iff)
    then obtain k r where u: "split_once CHR '' '' u = Some (k, r)" "k \<noteq> []"
      "list_all (\<lambda>c. ascii_alphanumeric (ord c)) (map lower_char k)" "\<not> list_all (\<lambda>c. c = CHR '' '') r"
      "map lower_char k \<notin> set trusted_keys" by (auto simp: opaque_ok_def split: option.splits)
    have n: "map lower_char k \<noteq> ''desc''" "map lower_char k \<noteq> ''ldesc''" "map lower_char k \<noteq> ''path''"
      "map lower_char k \<noteq> ''seenby''" "map lower_char k \<notin> set singleton_keys"
      using u(5) by (auto simp: trusted_keys_def singleton_keys_def)
    have "keyed_line d False u (map lower_char k) v s = Inr (s\<lparr>unknown := unknown s @ [u]\<rparr>)" for v
      using n by (simp add: keyed_line_def)
    with u show ?thesis by (auto simp: tic_line_def list_all_iff)
  qed
  then show ?thesis
    using reads_map [where g = "\<lambda>u. u" and xs = us and effect = "\<lambda>x st. st\<lparr>unknown := unknown st @ [x]\<rparr>"]
    by (simp add: fold_effects)
qed

section \<open>The fields that occur once\<close>

lemma hex_number_snoc: "hex_number a (s @ [c]) = 16 * hex_number a s + hex_value c"
  by (induction s arbitrary: a) auto

lemma upper_digit:
  "n < 16 \<Longrightarrow> hex_value (char_of (if n < 10 then 48 + n else 55 + n)) = n \<and>
   ascii_hexdigit (ord (char_of (if n < 10 then 48 + n else 55 + n)))"
  by (auto simp: hex_value_def ascii_hexdigit_def ascii_digit_def)

lemma hex_digits:
  "length (hex_digits_upper k v) = k \<and> list_all (\<lambda>c. ascii_hexdigit (ord c)) (hex_digits_upper k v) \<and>
   (v < 16 ^ k \<longrightarrow> hex_number 0 (hex_digits_upper k v) = v)"
proof (induction k arbitrary: v)
  case (Suc k)
  have "v < 16 ^ Suc k \<Longrightarrow> v div 16 < 16 ^ k" by (simp add: less_mult_imp_div_less mult.commute)
  with Suc.IH [of "v div 16"] upper_digit [of "v mod 16"] show ?case by (simp add: hex_number_snoc)
qed simp

lemma crc_text: "of_nat (hex_number 0 (hex_digits_upper 8 (unat w))) = (w :: u32)"
proof -
  have "unat w < 16 ^ 8" using unsigned_less [of w, where ?'a = nat] by simp
  then show ?thesis using hex_digits [of 8 "unat w"] by simp
qed

lemma hex_plain: "list_all (\<lambda>c. ascii_hexdigit (ord c)) s \<Longrightarrow> list_all (\<lambda>c. 33 \<le> ord c \<and> ord c < 127) s"
  by (erule list.pred_mono_strong) (auto simp: ascii_defs)

lemma name_char_plain:
  "name_char c \<Longrightarrow> 33 \<le> ord (upper_char c) \<and> ord (upper_char c) < 127"
  "ascii_alphanumeric (ord c) \<or> c \<in> set ''._-'' \<Longrightarrow> 33 \<le> ord (upper_char c) \<and> ord (upper_char c) < 127"
  by (auto simp: name_char_def ord_upper_char ascii_defs)

lemma filename_shape: "tic_filename s = Inr n \<Longrightarrow> n = map upper_char s \<and> s \<noteq> [] \<and> list_all name_char s"
  by (simp add: tic_filename_def Let_def split: if_splits)

lemma area_shape:
  "area_tag s = Inr n \<Longrightarrow>
   n = map upper_char s \<and> s \<noteq> [] \<and> list_all (\<lambda>c. ascii_alphanumeric (ord c) \<or> c \<in> set ''._-'') s"
  by (simp add: area_tag_def del: set_simps split: if_splits)

lemma filename_plain: "tic_filename s = Inr n \<Longrightarrow> list_all (\<lambda>c. 33 \<le> ord c \<and> ord c < 127) n \<and> n \<noteq> []"
  using filename_shape [of s n] name_char_plain(1) unfolding list_all_iff by auto

lemma area_plain: "area_tag s = Inr n \<Longrightarrow> list_all (\<lambda>c. 33 \<le> ord c \<and> ord c < 127) n \<and> n \<noteq> []"
proof -
  assume "area_tag s = Inr n"
  then have n: "n = map upper_char s" "s \<noteq> []" and s: "\<forall>c \<in> set s. ascii_alphanumeric (ord c) \<or> c \<in> set ''._-''"
    using area_shape [of s n] unfolding list_all_iff by blast+
  have "33 \<le> ord (upper_char c) \<and> ord (upper_char c) < 127" if "c \<in> set s" for c
    by (rule name_char_plain(2)) (use s that in blast)
  with n show ?thesis unfolding list_all_iff by simp
qed

definition field_line :: "string \<times> string \<Rightarrow> string" where
  "field_line kv = fst kv @ CHR '' '' # snd kv"

definition lower_key :: "string \<times> string \<Rightarrow> string" where
  "lower_key kv = map lower_char (fst kv)"

definition field_ok :: "(string \<rightharpoonup> string) \<Rightarrow> string \<times> string \<Rightarrow> bool" where
  "field_ok f kv \<longleftrightarrow> lower_key kv \<in> set singleton_keys \<and> lower_key kv \<noteq> ''fullname'' \<and>
     CHR '' '' \<notin> set (fst kv) \<and> snd kv \<noteq> [] \<and> hd (snd kv) \<noteq> CHR '' '' \<and> f (lower_key kv) = None"

definition fields :: "(string \<times> string) list \<Rightarrow> string \<rightharpoonup> string" where
  "fields kvs = map_of (map (\<lambda>kv. (lower_key kv, snd kv)) kvs)"

lemma field_ok_update: "field_ok f kv \<Longrightarrow> lower_key kv \<noteq> k \<Longrightarrow> field_ok (f(k \<mapsto> v)) kv"
  by (simp add: field_ok_def)

lemma fields_update:
  "lower_key kv \<notin> lower_key ` set kvs \<Longrightarrow> f(lower_key kv \<mapsto> snd kv) ++ fields kvs = f ++ fields (kv # kvs)"
proof -
  assume "lower_key kv \<notin> lower_key ` set kvs"
  then have "fields kvs (lower_key kv) = None" by (auto simp: fields_def map_of_eq_None_iff image_image)
  then show ?thesis by (auto simp: fun_eq_iff map_add_def fields_def split: option.splits)
qed

lemma reads_fields:
  assumes "holds st f ds lds hs es us" and "distinct (map lower_key kvs)" and "list_all (field_ok f) kvs"
  shows "\<exists>t. reads d st (map field_line kvs) t \<and> holds t (f ++ fields kvs) ds lds hs es us"
  using assms
proof (induction kvs arbitrary: st f)
  case (Cons kv kvs)
  then have kv: "field_ok f kv" by simp
  obtain t where t: "reads d st [field_line kv] t" "holds t (f(lower_key kv \<mapsto> snd kv)) ds lds hs es us"
    using reads_single [OF Cons.prems(1), of "fst kv" "snd kv" d] kv
    unfolding field_ok_def lower_key_def field_line_def by blast
  have rest: "list_all (field_ok (f(lower_key kv \<mapsto> snd kv))) kvs"
  proof -
    have "lower_key x \<noteq> lower_key kv" if "x \<in> set kvs" for x
      using imageI [OF that, of lower_key] Cons.prems(2) by (metis distinct.simps(2) list.set_map list.simps(9))
    then show ?thesis using Cons.prems(3) unfolding list_all_iff by (metis field_ok_update list.set_intros(2))
  qed
  have "distinct (map lower_key kvs)" using Cons.prems(2) by simp
  from Cons.IH [OF t(2) this rest] obtain u where
    "reads d t (map field_line kvs) u" "holds u (f(lower_key kv \<mapsto> snd kv) ++ fields kvs) ds lds hs es us"
    by blast
  then have "reads d st (map field_line (kv # kvs)) u" "holds u (f ++ fields (kv # kvs)) ds lds hs es us"
    using t(1) Cons.prems(2) fields_update [of kv kvs f] by (auto simp: result_simps)
  then show ?case by blast
qed (simp add: fields_def)

section \<open>Well-formed metadata\<close>

definition metadata_ok :: "domain \<Rightarrow> metadata \<Rightarrow> bool" where
  "metadata_ok d m \<longleftrightarrow>
     area_tag (tic_area m) = Inr (tic_area m) \<and> tic_filename (tic_file m) = Inr (tic_file m) \<and>
     (case long_file m of None \<Rightarrow> True | Some n \<Rightarrow> long_name n = Inr n \<and> tic_value n) \<and>
     endpoint_in d (tic_origin m) \<and> endpoint_in d (tic_from m) \<and>
     (case tic_to m of None \<Rightarrow> True | Some e \<Rightarrow> endpoint_in d e) \<and>
     tic_size m \<noteq> 0 \<and> tic_size m \<le> MAX_PAYLOAD \<and>
     list_all tic_value (descriptions m) \<and> list_all tic_value (long_descriptions m) \<and>
     length (descriptions m) + length (long_descriptions m) \<le> 20 \<and>
     sum_list (map length (descriptions m @ long_descriptions m)) \<le> 4096 \<and>
     list_all (hop_ok d) (hops m) \<and> hops m \<noteq> [] \<and> list_all (endpoint_in d) (tic_seen m) \<and> tic_seen m \<noteq> [] \<and>
     list_all (\<lambda>l. tic_text l \<and> opaque_ok l) (opaque m)"

definition password_ok :: "string \<Rightarrow> bool" where
  "password_ok pw \<longleftrightarrow> pw \<noteq> [] \<and> length pw \<le> 71 \<and> list_all (\<lambda>c. ascii_graphic (ord c)) pw"

definition head_fields :: "metadata \<Rightarrow> (string \<times> string) list" where
  "head_fields m =
     [(''Area'', tic_area m), (''Origin'', show_endpoint (tic_origin m)), (''From'', show_endpoint (tic_from m)),
      (''File'', tic_file m), (''Size'', show_u64 (tic_size m)), (''Crc'', hex_digits_upper 8 (unat (tic_crc m)))] @
     (case tic_to m of None \<Rightarrow> [] | Some e \<Rightarrow> [(''To'', show_endpoint e)]) @
     (case long_file m of None \<Rightarrow> [] | Some n \<Rightarrow> [(''Lfile'', n)])"

lemma head_lines_fields:
  "head_lines m = map field_line (head_fields m) @ map (\<lambda>s. ''Desc '' @ s) (descriptions m) @
     map (\<lambda>s. ''Ldesc '' @ s) (long_descriptions m)"
  by (cases "tic_to m"; cases "long_file m") (simp_all add: head_lines_def head_fields_def field_line_def)

lemma graphic_value: "list_all (\<lambda>c. ascii_graphic (ord c)) pw \<Longrightarrow> pw \<noteq> [] \<Longrightarrow> tic_value pw"
  by (rule tic_value_ascii) (auto simp: list_all_iff ascii_graphic_def)

lemma size_value: "tic_value (show_u64 w)"
  unfolding show_u64_def by (intro tic_value_ascii digits_plain) simp_all

lemma crc_value: "tic_value (hex_digits_upper 8 v)"
proof (rule tic_value_ascii)
  show "list_all (\<lambda>c. 33 \<le> ord c \<and> ord c < 127) (hex_digits_upper 8 v)" using hex_digits [of 8 v] by (intro hex_plain) simp
  show "hex_digits_upper 8 v \<noteq> []" using hex_digits [of 8 v] by (metis list.size(3) zero_neq_numeral)
qed

lemma head_values:
  assumes "metadata_ok d m"
  shows "list_all (\<lambda>(k, v). tic_value v) (head_fields m)"
proof -
  have "tic_value (tic_area m)" "tic_value (tic_file m)"
    using assms area_plain filename_plain by (auto simp: metadata_ok_def intro!: tic_value_ascii)
  moreover have "tic_value (show_endpoint (tic_origin m))" "tic_value (show_endpoint (tic_from m))"
    "\<And>e. tic_to m = Some e \<Longrightarrow> tic_value (show_endpoint e)" "\<And>n. long_file m = Some n \<Longrightarrow> tic_value n"
    using assms by (auto simp: metadata_ok_def intro: endpoint_value)
  ultimately show ?thesis
    by (cases "tic_to m"; cases "long_file m") (simp_all add: head_fields_def size_value crc_value)
qed

lemma lower_keys:
  "map lower_char ''Area'' = ''area''" "map lower_char ''Origin'' = ''origin''" "map lower_char ''From'' = ''from''"
  "map lower_char ''File'' = ''file''" "map lower_char ''Size'' = ''size''" "map lower_char ''Crc'' = ''crc''"
  "map lower_char ''To'' = ''to''" "map lower_char ''Lfile'' = ''lfile''" "map lower_char ''Pw'' = ''pw''"
  by (simp_all add: lower_char_def)

lemma lower_key_simps [simp]:
  "lower_key (''Area'', v) = ''area''" "lower_key (''Origin'', v) = ''origin''" "lower_key (''From'', v) = ''from''"
  "lower_key (''File'', v) = ''file''" "lower_key (''Size'', v) = ''size''" "lower_key (''Crc'', v) = ''crc''"
  "lower_key (''To'', v) = ''to''" "lower_key (''Lfile'', v) = ''lfile''" "lower_key (''Pw'', v) = ''pw''"
  by (simp_all only: lower_key_def fst_conv lower_keys)

lemma head_keys: "distinct (map lower_key (head_fields m @ [(''Pw'', pw)]))"
  by (cases "tic_to m"; cases "long_file m") (simp_all add: head_fields_def)

lemma head_fields_ok: "metadata_ok d m \<Longrightarrow> list_all (field_ok Map.empty) (head_fields m)"
proof -
  assume "metadata_ok d m"
  note v = head_values [OF this]
  have "list_all (\<lambda>(k, v). lower_key (k, v) \<in> set singleton_keys \<and> lower_key (k, v) \<noteq> ''fullname'' \<and> CHR '' '' \<notin> set k)
      (head_fields m)"
    by (cases "tic_to m"; cases "long_file m")
      (simp_all add: head_fields_def singleton_keys_def)
  with v show ?thesis by (auto simp: list_all_iff field_ok_def tic_value_def)
qed

definition written :: "metadata \<Rightarrow> string \<Rightarrow> string list" where
  "written m pw = head_lines m @ opaque m @ end_lines m pw"

lemma reads_written:
  assumes "metadata_ok d m" and "password_ok pw"
  shows "\<exists>t. reads d start_reading (written m pw) t \<and>
    holds t (fields (head_fields m) ++ fields [(''Pw'', pw)]) (descriptions m) (long_descriptions m) (hops m) (tic_seen m) (opaque m)"
proof -
  obtain t1 where t1: "reads d start_reading (map field_line (head_fields m)) t1"
    "holds t1 (fields (head_fields m)) [] [] [] [] []"
    using reads_fields [OF holds_start _ head_fields_ok [OF assms(1)]] head_keys [of m pw] by auto
  let ?ds = "descriptions m" and ?ls = "long_descriptions m"
  define t2 where "t2 = t1\<lparr>descs := ?ds\<rparr>\<lparr>ldescs := ?ls\<rparr>"
  define t3 where "t3 = t2\<lparr>unknown := opaque m\<rparr>\<lparr>path_hops := hops m\<rparr>\<lparr>seens := tic_seen m\<rparr>"
  have m: "list_all tic_value ?ds" "list_all tic_value ?ls" "list_all (hop_ok d) (hops m)" "list_all (endpoint_in d) (tic_seen m)"
    "list_all opaque_ok (opaque m)" using assms(1) by (auto simp: metadata_ok_def list_all_iff)
  have e: "descs t1 = []" "ldescs t1 = []" "path_hops t1 = []" "seens t1 = []" "unknown t1 = []"
    using t1(2) by (auto simp: holds_def)
  have r2: "reads d t1 (map (\<lambda>s. ''Desc '' @ s) ?ds @ map (\<lambda>s. ''Ldesc '' @ s) ?ls) t2"
    using reads_append [OF reads_descs(1) [OF m(1)] reads_descs(2) [OF m(2)], of d t1] e by (simp add: t2_def)
  have r3: "reads d t2 (opaque m @ map hop_line (hops m) @ map (\<lambda>e. ''Seenby '' @ show_endpoint e) (tic_seen m)) t3"
    using reads_append [OF reads_opaque [OF m(5)] reads_append [OF reads_hops [OF m(3)] reads_seen [OF m(4)]], of t2] e
    by (simp add: t3_def t2_def)
  have h3: "holds t3 (fields (head_fields m)) ?ds ?ls (hops m) (tic_seen m) (opaque m)"
    using t1(2) by (simp add: t3_def t2_def holds_def)
  have "field_ok (fields (head_fields m)) (''Pw'', pw)"
  proof -
    have "fields (head_fields m) ''pw'' = None"
      using head_keys [of m pw] by (auto simp: fields_def map_of_eq_None_iff image_image)
    moreover have "tic_value pw" using assms(2) by (auto simp: password_ok_def intro: graphic_value)
    ultimately show ?thesis by (simp add: field_ok_def singleton_keys_def tic_value_def)
  qed
  then obtain t4 where t4: "reads d t3 (map field_line [(''Pw'', pw)]) t4"
    "holds t4 (fields (head_fields m) ++ fields [(''Pw'', pw)]) ?ds ?ls (hops m) (tic_seen m) (opaque m)"
    using reads_fields [OF h3, of "[(''Pw'', pw)]" d] by auto
  have "map field_line [(''Pw'', pw)] = [''Pw '' @ pw]" by (simp add: field_line_def)
  with reads_append [OF t1(1) reads_append [OF r2 reads_append [OF r3 t4(1)]]]
  have "reads d start_reading (written m pw) t4"
    unfolding written_def head_lines_fields end_lines_def by (simp only: append.assoc)
  with t4(2) show ?thesis by blast
qed

lemma all_fields:
  "(fields (head_fields m) ++ fields [(''Pw'', pw)]) k =
     (if k = ''pw'' then Some pw else if k = ''area'' then Some (tic_area m)
      else if k = ''origin'' then Some (show_endpoint (tic_origin m))
      else if k = ''from'' then Some (show_endpoint (tic_from m)) else if k = ''file'' then Some (tic_file m)
      else if k = ''size'' then Some (show_u64 (tic_size m))
      else if k = ''crc'' then Some (hex_digits_upper 8 (unat (tic_crc m)))
      else if k = ''to'' then map_option show_endpoint (tic_to m)
      else if k = ''lfile'' then long_file m else None)"
proof -
  have "fields (head_fields m) =
      [''area'' \<mapsto> tic_area m, ''origin'' \<mapsto> show_endpoint (tic_origin m), ''from'' \<mapsto> show_endpoint (tic_from m),
       ''file'' \<mapsto> tic_file m, ''size'' \<mapsto> show_u64 (tic_size m), ''crc'' \<mapsto> hex_digits_upper 8 (unat (tic_crc m))] ++
      (case tic_to m of None \<Rightarrow> Map.empty | Some e \<Rightarrow> [''to'' \<mapsto> show_endpoint e]) ++
      (case long_file m of None \<Rightarrow> Map.empty | Some n \<Rightarrow> [''lfile'' \<mapsto> n])"
    by (cases "tic_to m"; cases "long_file m")
      (simp_all add: head_fields_def fields_def fun_eq_iff)
  then show ?thesis
    by (cases "tic_to m"; cases "long_file m") (simp_all add: fields_def map_add_def)
qed

lemma finish_written:
  assumes ok: "metadata_ok d m"
    and t: "holds t (fields (head_fields m) ++ fields [(''Pw'', pw)]) (descriptions m) (long_descriptions m) (hops m)
      (tic_seen m) (opaque m)"
  shows "finish_reading d False t = Inr \<lparr>meta = m, direct_hatch = None, password = pw\<rparr>"
proof -
  have look: "tree_lookup (singleton t) = fields (head_fields m) ++ fields [(''Pw'', pw)]" using t by (simp add: holds_def)
  have h: "length (hex_digits_upper 8 (unat (tic_crc m))) = 8"
    "list_all (\<lambda>c. ascii_hexdigit (ord c)) (hex_digits_upper 8 (unat (tic_crc m)))" using hex_digits by blast+
  have req: "required t ''crc'' = Inr (hex_digits_upper 8 (unat (tic_crc m)))" "required t ''size'' = Inr (show_u64 (tic_size m))"
    "required t ''area'' = Inr (tic_area m)" "required t ''file'' = Inr (tic_file m)"
    "required t ''origin'' = Inr (show_endpoint (tic_origin m))" "required t ''from'' = Inr (show_endpoint (tic_from m))"
    by (simp_all add: required_def look all_fields)
  have opt: "optional t ''lfile'' long_name = Inr (long_file m)" "optional t ''to'' (\<lambda>v. tic_endpoint v d) = Inr (tic_to m)"
    using ok by (auto simp: optional_def look all_fields metadata_ok_def split: option.splits)
  have pw: "tree_lookup (singleton t) ''pw'' = Some pw" by (simp add: look all_fields)
  have ranges: "\<not> (tic_size m = 0 \<or> MAX_PAYLOAD < tic_size m \<or> (path_hops t = [] \<and> untimed t = None) \<or>
      (\<not> False \<and> seens t = []) \<or> 20 < length (descs t) + length (ldescs t) \<or>
      4096 < sum_list (map length (descs t @ ldescs t)))"
    using ok t by (auto simp: holds_def metadata_ok_def)
  have m: "area_tag (tic_area m) = Inr (tic_area m)" "tic_filename (tic_file m) = Inr (tic_file m)"
    "tic_endpoint (show_endpoint (tic_origin m)) d = Inr (tic_origin m)"
    "tic_endpoint (show_endpoint (tic_from m)) d = Inr (tic_from m)"
    using ok by (simp_all add: metadata_ok_def)
  have crc: "(of_nat (hex_number 0 (hex_digits_upper 8 (unat (tic_crc m)))) :: u32) = tic_crc m" by (rule crc_text)
  show ?thesis
    unfolding finish_reading_def req attempt_Inr decimal_u64 if_not_P [OF ranges] m opt crc pw
    using h t by (simp add: holds_def)
qed

text \<open>What the lines must keep within: their number, each one's length, and all of them together.\<close>

definition fits :: "metadata \<Rightarrow> string \<Rightarrow> bool" where
  "fits m pw \<longleftrightarrow>
     length (written m pw) \<le> MAX_LINES \<and> list_all (\<lambda>l. length l \<le> TIC_LINE) (written m pw) \<and>
     sum_list (map (\<lambda>l. length (chars l) + 2) (written m pw)) \<le> MAX_TIC"

lemma tic_text_append: "tic_text a \<Longrightarrow> tic_text b \<Longrightarrow> tic_text (a @ CHR '' '' # b)"
  by (simp add: made_of_join_iff plain437_ascii)

lemma tic_text_word: "tic_value v \<Longrightarrow> list_all (\<lambda>c. 32 \<le> ord c \<and> ord c < 127) k \<Longrightarrow> tic_text (k @ CHR '' '' # v)"
  by (rule tic_text_append) (simp_all add: tic_text_ascii tic_value_def)

lemma written_text:
  assumes "metadata_ok d m" and "password_ok pw"
  shows "list_all tic_text (written m pw)"
proof -
  have "list_all tic_text (map field_line (head_fields m))"
  proof -
    have k: "list_all (\<lambda>(k, v). list_all (\<lambda>c. 32 \<le> ord c \<and> ord c < 127) k) (head_fields m)"
      by (cases "tic_to m"; cases "long_file m") (simp_all add: head_fields_def)
    have "tic_text (field_line kv)" if "kv \<in> set (head_fields m)" for kv
      using k head_values [OF assms(1)] that unfolding field_line_def list_all_iff
      by (intro tic_text_word) (auto simp: list_all_iff)
    then show ?thesis by (simp add: list_all_iff)
  qed
  moreover have "tic_text (''Desc'' @ CHR '' '' # s)" "tic_text (''Ldesc'' @ CHR '' '' # s)" if "tic_value s" for s
    using that by (intro tic_text_word; simp)+
  then have "list_all tic_text (map (\<lambda>s. ''Desc '' @ s) (descriptions m) @ map (\<lambda>s. ''Ldesc '' @ s) (long_descriptions m))"
    using assms(1) by (auto simp: metadata_ok_def list_all_iff)
  moreover have "list_all tic_text (opaque m)" using assms(1) by (auto simp: metadata_ok_def list_all_iff)
  moreover have "list_all tic_text (map hop_line (hops m))"
  proof -
    have "tic_text (hop_line h)" if "hop_ok d h" for h
    proof -
      have "tic_text (show_endpoint (hop_address h))" "tic_text (show_u64 (hop_time h))" "tic_text (detail h)"
        using that endpoint_value size_value by (auto simp: hop_ok_def tic_value_def)
      then have "tic_text (show_endpoint (hop_address h) @ CHR '' '' # show_u64 (hop_time h) @
          (if detail h = [] then [] else '' '') @ detail h)"
        by (cases "detail h = []") (simp_all add: tic_text_append)
      from tic_text_append [OF tic_text_ascii this, of "''Path''"]
      have "tic_text (''Path'' @ CHR '' '' # show_endpoint (hop_address h) @ CHR '' '' # show_u64 (hop_time h) @
          (if detail h = [] then [] else '' '') @ detail h)" by simp
      then show ?thesis by (simp add: hop_line_def)
    qed
    then show ?thesis using assms(1) by (auto simp: metadata_ok_def list_all_iff)
  qed
  moreover have "list_all tic_text (map (\<lambda>e. ''Seenby '' @ show_endpoint e) (tic_seen m))"
  proof -
    have "tic_text (''Seenby'' @ CHR '' '' # show_endpoint e)" if "endpoint_in d e" for e
      using endpoint_value [OF that] by (intro tic_text_word) simp_all
    then show ?thesis using assms(1) by (auto simp: metadata_ok_def list_all_iff)
  qed
  moreover have "tic_text (''Pw'' @ CHR '' '' # pw)"
    using assms(2) by (intro tic_text_word graphic_value) (auto simp: password_ok_def)
  ultimately show ?thesis by (simp add: written_def head_lines_fields end_lines_def)
qed

lemma written_good:
  assumes "metadata_ok d m" and "password_ok pw" and "fits m pw"
  shows "list_all good_line (written m pw)"
proof -
  have "[] \<notin> set (written m pw)"
    using assms(1) by (auto simp: written_def head_lines_fields end_lines_def field_line_def hop_line_def metadata_ok_def
        list_all_iff opaque_ok_def)
  with written_text [OF assms(1,2)] assms(3) show ?thesis by (auto simp: list_all_iff good_line_def fits_def)
qed

lemma opaque_kept: "list_all opaque_ok us \<Longrightarrow> traverse opaque_line us = Inr us"
proof -
  assume "list_all opaque_ok us"
  then have "opaque_line u = Inr u" if "u \<in> set us" for u
  proof -
    have "opaque_ok u" using \<open>list_all opaque_ok us\<close> that by (simp add: list_all_iff)
    then obtain k r where "split_once CHR '' '' u = Some (k, r)" "map lower_char k \<notin> set trusted_keys"
      by (auto simp: opaque_ok_def split: option.splits)
    then show ?thesis by (simp add: opaque_line_def)
  qed
  then show ?thesis using traverse_map [of us opaque_line "\<lambda>u. u" "\<lambda>u. u"] by simp
qed

lemma chars_append: "valid_str a \<Longrightarrow> valid_str b \<Longrightarrow> chars (a @ b) = chars a @ chars b"
  using from_chars_chars [of a] from_chars_chars [of b] chars_from_chars [of "chars a @ chars b"] by simp

lemma length_crlf_chars:
  "list_all tic_text ls \<Longrightarrow> length (chars (crlf_lines ls)) = sum_list (map (\<lambda>l. length (chars l) + 2) ls)"
proof (induction ls)
  case (Cons l ls)
  have end_chars: "chars [CHR 0x0D, CHR 0x0A] = [13, 10]" by (simp add: chars_def)
  have "valid_str l" "valid_str (crlf_lines ls)"
    using Cons.prems made_of_chars made_of_chars [OF crlf_lines_made [of ls]] by auto
  moreover have "valid_str [CHR 0x0D, CHR 0x0A]" by (simp add: valid_str_def)
  ultimately have "chars ((l @ [CHR 0x0D, CHR 0x0A]) @ crlf_lines ls) = (chars l @ chars [CHR 0x0D, CHR 0x0A]) @ chars (crlf_lines ls)"
    using made_of_chars [OF crlf_lines_made [of "[l]"]] Cons.prems
    by (subst chars_append) (simp_all add: chars_append crlf_lines_def)
  with Cons show ?case by (simp add: crlf_lines_def end_chars)
qed (simp add: crlf_lines_def chars_def)

lemma encode_complete:
  assumes ok: "metadata_ok d m" and pw: "password_ok pw" and fits: "fits m pw"
  shows "\<exists>bs. tic_encode m pw = Inr bs \<and> tic_parse bs d = Inr \<lparr>meta = m, direct_hatch = None, password = pw\<rparr>"
proof -
  let ?ls = "written m pw"
  note plain = written_text [OF ok pw] and good = written_good [OF ok pw fits]
  have ne: "?ls \<noteq> []" by (simp add: written_def end_lines_def)
  obtain bs where bs: "charset_encode Cp437 (crlf_lines ?ls) = Inr bs"
    using crlf_lines_made [OF plain] by (auto simp: encode_made_of)
  have "length bs \<le> MAX_TIC"
    using length_encoded [OF _ bs] length_crlf_chars [OF plain] fits by (simp add: fits_def)
  then have lines: "tic_lines bs MAX_TIC = Inr ?ls"
    using fits by (intro tic_lines_written [OF good ne _ bs]) (simp_all add: fits_def)
  obtain t where t: "reads d start_reading ?ls t"
    "holds t (fields (head_fields m) ++ fields [(''Pw'', pw)]) (descriptions m) (long_descriptions m) (hops m) (tic_seen m) (opaque m)"
    using reads_written [OF ok pw] by blast
  have parsed: "tic_parse bs d = Inr \<lparr>meta = m, direct_hatch = None, password = pw\<rparr>"
    by (simp add: tic_parse_def parse_history_def lines t(1) finish_written [OF ok t(2)])
  have d: "domain_of (tic_from m) = d" using ok by (simp add: metadata_ok_def endpoint_in_def)
  have others: "traverse opaque_line (opaque m) = Inr (opaque m)"
    using ok by (intro opaque_kept) (auto simp: metadata_ok_def list_all_iff)
  have safe: "list_all safe_text ?ls" using good by (auto simp: list_all_iff good_line_safe)
  have j: "joined [CHR 0x0D, CHR 0x0A] ?ls @ [CHR 0x0D, CHR 0x0A] = crlf_lines ?ls"
    unfolding crlf_lines_def by (rule joined_crlf [OF ne])
  have "tic_encode m pw = Inr bs"
    using pw safe unfolding tic_encode_def others attempt_Inr Let_def
    unfolding written_def [symmetric] j bs with_error_simps attempt_Inr d parsed
    by (auto simp: password_ok_def)
  with parsed show ?thesis by blast
qed

section \<open>What parsing yields\<close>

definition reading_ok :: "domain \<Rightarrow> bool \<Rightarrow> reading \<Rightarrow> bool" where
  "reading_ok d b st \<longleftrightarrow>
     tree_ok (singleton st) \<and> (\<forall>k v. tree_lookup (singleton st) k = Some v \<longrightarrow> tic_value v) \<and>
     list_all tic_value (descs st) \<and> list_all tic_value (ldescs st) \<and> list_all (hop_ok d) (path_hops st) \<and>
     list_all (endpoint_in d) (seens st) \<and> list_all (\<lambda>l. tic_text l \<and> opaque_ok l) (unknown st) \<and>
     (\<not> b \<longrightarrow> untimed st = None)"

lemma tic_endpoint_typed: "tic_endpoint v d = Inr e \<Longrightarrow> endpoint_in d e"
  by (auto simp: tic_endpoint_def endpoint_in_def result_simps Let_def dest: parse_endpoint_wf split: if_splits)

lemma path_line_typed:
  assumes "path_line d b v st = Inr t" and "tic_text v" and "reading_ok d b st"
  shows "reading_ok d b t"
proof -
  obtain a x rest where s: "split_three v = (a, x, rest)" by (metis prod_cases3)
  have rest: "tic_text (unwrap_or rest [])"
  proof (cases rest)
    case (Some r)
    with s obtain q b where "split_once CHR '' '' v = Some (a, q)" "split_once CHR '' '' q = Some (b, r)"
      unfolding split_three_def by (auto split: option.splits)
    then have v: "v = a @ CHR '' '' # q" "q = b @ CHR '' '' # r" by (blast dest: split_once_SomeD)+
    have "tic_text q" using made_of_split [OF assms(2) [unfolded v(1)]] by simp
    then have "tic_text r" using made_of_split [of plain437 b "CHR '' ''" r] v(2) by simp
    with Some show ?thesis by simp
  qed simp
  obtain e where e: "tic_endpoint a d = Inr e" using assms(1) by (auto simp: path_line_def s result_simps)
  show ?thesis
  proof (cases x)
    case None
    then show ?thesis using assms(1,3) e by (auto simp: path_line_def s reading_ok_def split: if_splits)
  next
    case (Some w)
    then obtain n where "t = st\<lparr>path_hops := path_hops st @ [\<lparr>hop_address = e, hop_time = n, detail = unwrap_or rest []\<rparr>]\<rparr>"
      using assms(1) e by (auto simp: path_line_def s result_simps)
    then show ?thesis using assms(3) rest tic_endpoint_typed [OF e] by (simp add: reading_ok_def hop_ok_def)
  qed
qed

lemma singleton_line_typed:
  "singleton_line k v st = Inr t \<Longrightarrow> tic_value v \<Longrightarrow> reading_ok d b st \<Longrightarrow> reading_ok d b t"
  by (auto simp: singleton_line_def reading_ok_def Let_def tree.look_put tree.good_put split: if_splits)

lemma keyed_line_typed:
  assumes "keyed_line d b l k v st = Inr t" and "tic_value v" and "tic_text l"
    and "k \<notin> set trusted_keys \<Longrightarrow> opaque_ok l" and "reading_ok d b st"
  shows "reading_ok d b t"
proof -
  consider (desc) "k = ''desc''" | (ldesc) "k = ''ldesc''" | (path) "k = ''path''" | (seenby) "k = ''seenby''"
    | (single) "k \<noteq> ''desc''" "k \<noteq> ''ldesc''" "k \<noteq> ''path''" "k \<noteq> ''seenby''" "k \<in> set singleton_keys"
    | (other) "k \<noteq> ''desc''" "k \<noteq> ''ldesc''" "k \<noteq> ''path''" "k \<noteq> ''seenby''" "k \<notin> set singleton_keys"
    by argo
  then show ?thesis
  proof cases
    case desc
    then show ?thesis using assms by (auto simp: keyed_line_def reading_ok_def)
  next
    case ldesc
    then show ?thesis using assms by (auto simp: keyed_line_def reading_ok_def)
  next
    case path
    then have "path_line d b v st = Inr t" using assms(1) by (simp add: keyed_line_def)
    then show ?thesis using assms(2,5) by (auto simp: tic_value_def intro: path_line_typed)
  next
    case seenby
    then show ?thesis using assms by (auto simp: keyed_line_def reading_ok_def result_simps dest: tic_endpoint_typed)
  next
    case single
    then have "singleton_line k v st = Inr t" using assms(1) unfolding keyed_line_def by simp
    then show ?thesis by (rule singleton_line_typed) (rule assms(2,5))+
  next
    case other
    then have "k \<notin> set trusted_keys" by (auto simp: trusted_keys_def singleton_keys_def)
    moreover have "t = st\<lparr>unknown := unknown st @ [l]\<rparr>" using assms(1) other unfolding keyed_line_def by simp
    ultimately show ?thesis using assms(3-5) by (simp add: reading_ok_def)
  qed
qed

lemma dropWhile_empty: "dropWhile P xs = [] \<longleftrightarrow> list_all P xs"
  by (simp add: list_all_iff)

interpretation tic: guarded_machine "tic_line d b" "reading_ok d b" good_line for d b
proof unfold_locales
  fix st l t
  assume ok: "reading_ok d b st" and l: "good_line l" and t: "tic_line d b st l = Inr t"
  obtain key r where kr: "split_once CHR '' '' l = Some (key, r)"
    using t by (auto simp: tic_line_def result_simps)
  let ?k = "map lower_char key" and ?v = "dropWhile (\<lambda>c. c = CHR '' '') r"
  have v: "?v \<noteq> []" and k: "key \<noteq> []" "list_all (\<lambda>c. ascii_alphanumeric (ord c)) ?k"
    and run: "keyed_line d b l ?k ?v st = Inr t"
    using t unfolding tic_line_def kr ok_or_Some attempt_Inr prod.case Let_def by (auto split: if_splits)
  have "tic_text r" using l split_once_SomeD [OF kr] made_of_split [of plain437 key "CHR '' ''" r] by (auto simp: good_line_def)
  then have "tic_value ?v"
    using v hd_dropWhile [OF v] by (simp add: tic_value_def made_of_dropWhile)
  moreover have "opaque_ok l" if "?k \<notin> set trusted_keys"
    using that k v unfolding opaque_ok_def kr dropWhile_empty by simp
  ultimately show "reading_ok d b t"
    using keyed_line_typed [OF run] ok l by (auto simp: good_line_def)
qed

lemma start_ok: "reading_ok d b start_reading"
  by (simp add: reading_ok_def start_reading_def tree_ok_def tree_lookup_def)

lemma upper_idem: "map upper_char (map upper_char s) = map upper_char s"
  by simp

lemma filename_canonical: "tic_filename s = Inr n \<Longrightarrow> tic_filename n = Inr n"
proof -
  assume f: "tic_filename s = Inr n"
  have n: "n = map upper_char s" and c: "list_all name_char s" using filename_shape [OF f] by auto
  have "name_char (upper_char c)" if "name_char c" for c
    using that ord_upper_char [of c] by (auto simp: name_char_def upper_char_def ascii_defs)
  then have "list_all name_char n" using c by (simp add: n list_all_iff)
  moreover have "map upper_char n = n" by (simp add: n)
  ultimately show ?thesis using f unfolding n tic_filename_def Let_def by (simp add: comp_def split: if_splits)
qed

lemma area_canonical: "area_tag s = Inr n \<Longrightarrow> area_tag n = Inr n"
proof -
  assume a: "area_tag s = Inr n"
  have n: "n = map upper_char s" "s \<noteq> []"
    and c: "\<forall>c \<in> set s. ascii_alphanumeric (ord c) \<or> c \<in> set ''._-''" using area_shape [OF a] unfolding list_all_iff by blast+
  have u: "ascii_alphanumeric (ord (upper_char c)) \<or> upper_char c \<in> set ''._-''"
    if "ascii_alphanumeric (ord c) \<or> c \<in> set ''._-''" for c
    using that ord_upper_char [of c] by (auto simp: upper_char_def ascii_defs)
  have "length s \<le> 64" using a by (simp add: area_tag_def split: if_splits)
  then show ?thesis using n c u unfolding area_tag_def list_all_iff by (simp add: n(1))
qed

lemma long_name_canonical: "long_name s = Inr n \<Longrightarrow> n = s \<and> long_name n = Inr n"
proof -
  assume l: "long_name s = Inr n"
  then have "n = s" by (simp add: long_name_def Let_def split: if_splits)
  with l show ?thesis by simp
qed

lemma requiredD: "required st k = Inr v \<Longrightarrow> reading_ok d b st \<Longrightarrow> tic_value v"
  by (auto simp: required_def reading_ok_def result_simps)

lemma optionalD:
  "optional st k f = Inr x \<Longrightarrow> reading_ok d b st \<Longrightarrow>
   x = None \<or> (\<exists>v y. x = Some y \<and> f v = Inr y \<and> tic_value v)"
  by (auto simp: optional_def reading_ok_def result_simps split: option.splits)

lemma finish_typed:
  assumes f: "finish_reading d b st = Inr e" and ok: "reading_ok d b st"
    and b: "\<not> b"
  shows "metadata_ok d (meta e) \<and> direct_hatch e = None \<and> (password e = [] \<or> tic_value (password e))"
proof -
  obtain sz ar fl long org frm dst where
    s: "sz \<noteq> 0" "sz \<le> MAX_PAYLOAD"
    and c: "path_hops st \<noteq> [] \<or> untimed st \<noteq> None" "seens st \<noteq> []" "length (descs st) + length (ldescs st) \<le> 20"
      "sum_list (map length (descs st @ ldescs st)) \<le> 4096"
    and ar: "attempt (required st ''area'') area_tag = Inr ar"
    and fl: "attempt (required st ''file'') tic_filename = Inr fl"
    and long: "optional st ''lfile'' long_name = Inr long"
    and ends: "attempt (required st ''origin'') (\<lambda>v. tic_endpoint v d) = Inr org"
      "attempt (required st ''from'') (\<lambda>v. tic_endpoint v d) = Inr frm"
      "optional st ''to'' (\<lambda>v. tic_endpoint v d) = Inr dst"
    and e: "tic_area (meta e) = ar" "tic_file (meta e) = fl" "long_file (meta e) = long" "tic_origin (meta e) = org"
      "tic_from (meta e) = frm" "tic_to (meta e) = dst" "tic_size (meta e) = sz" "descriptions (meta e) = descs st"
      "long_descriptions (meta e) = ldescs st" "hops (meta e) = path_hops st" "tic_seen (meta e) = seens st"
      "opaque (meta e) = unknown st" "direct_hatch e = None"
      "password e = unwrap_or (tree_lookup (singleton st) ''pw'') []"
    using f b unfolding finish_reading_def attempt_eq_Inr if_Inl_eq_Inr by (auto simp: not_less)
  have "area_tag ar = Inr ar" "tic_filename fl = Inr fl"
    using ar fl by (auto simp: result_simps dest: area_canonical filename_canonical)
  moreover have "case long of None \<Rightarrow> True | Some n \<Rightarrow> long_name n = Inr n \<and> tic_value n"
    using optionalD [OF long ok] long_name_canonical by (auto split: option.splits)
  moreover have "endpoint_in d org" "endpoint_in d frm" "case dst of None \<Rightarrow> True | Some e \<Rightarrow> endpoint_in d e"
    using ends optionalD [OF ends(3) ok] by (auto simp: result_simps dest: tic_endpoint_typed split: option.splits)
  ultimately show ?thesis
    using s c ok b unfolding metadata_ok_def e by (auto simp: reading_ok_def unwrap_or_def split: option.splits)
qed

lemma parse_typed:
  assumes "tic_parse bs d = Inr e"
  shows "metadata_ok d (meta e) \<and> direct_hatch e = None \<and> (password e = [] \<or> tic_value (password e))"
proof -
  obtain ls st where ls: "tic_lines bs MAX_TIC = Inr ls" and st: "reads d start_reading ls st"
    and f: "finish_reading d False st = Inr e"
    using assms by (auto simp: tic_parse_def parse_history_def result_simps)
  have "reading_ok d False st" using tic.guarded_run [OF start_ok _ st] tic_lines_sound [OF ls] by blast
  from finish_typed [OF f this] show ?thesis by simp
qed

interpretation tic_codec: codec "\<lambda>m. tic_encode m pw" "\<lambda>bs. attempt (tic_parse bs d) (\<lambda>e. Inr (meta e))"
    "\<lambda>m. domain_of (tic_from m) = d" for pw d
  by unfold_locales (auto simp: tic_encode_def result_simps Let_def split: if_splits)

section \<open>Properties\<close>

text \<open>
  C15.  An announcement can be passed on: the metadata that parsing yields is accepted by the writer
  under any well-formed new password, as long as the written lines keep within the bounds of the
  format, and what is written parses to the same metadata, the new password and no omissions.
\<close>

theorem tic_passed_on:
  assumes "tic_parse bs d = Inr e" and "password_ok pw" and "fits (meta e) pw"
  shows "\<exists>cs. tic_encode (meta e) pw = Inr cs \<and>
    tic_parse cs d = Inr \<lparr>meta = meta e, direct_hatch = None, password = pw\<rparr>"
  using parse_typed [OF assms(1)] by (intro encode_complete assms(2,3)) simp

fun join_on :: "'a \<Rightarrow> 'a list list \<Rightarrow> 'a list" where
  "join_on c [] = []"
| "join_on c [q] = q"
| "join_on c (q # r # qs) = q @ c # join_on c (r # qs)"

lemma split_by_join: "join_on c (split_on c s) = s"
proof (induction s)
  case (Cons x s)
  obtain q qs where q: "split_on c s = q # qs" by (cases "split_on c s") auto
  with Cons show ?case by (cases qs) auto
qed simp

text \<open>The device names of DOS and the characters of a plain name, one by one.\<close>

definition dos_devices :: "string list" where
  "dos_devices =
     [''CON'', ''PRN'', ''AUX'', ''NUL'', ''CLOCK$'',
      ''COM1'', ''COM2'', ''COM3'', ''COM4'', ''COM5'', ''COM6'', ''COM7'', ''COM8'', ''COM9'',
      ''LPT1'', ''LPT2'', ''LPT3'', ''LPT4'', ''LPT5'', ''LPT6'', ''LPT7'', ''LPT8'', ''LPT9'']"

definition plain_chars :: string where
  "plain_chars = ''ABCDEFGHIJKLMNOPQRSTUVWXYZ0123456789._-+''"

lemma devices_refused:
  assumes "s \<notin> {''CON'', ''PRN'', ''AUX'', ''NUL'', ''CLOCK$''}" and "\<not> port_device s"
  shows "s \<notin> set dos_devices"
proof
  assume "s \<in> set dos_devices"
  with assms(1) have "s \<in> set (drop 5 dos_devices)" by (simp add: dos_devices_def)
  moreover have "list_all port_device (drop 5 dos_devices)"
    by (simp add: dos_devices_def port_device_def starts_with_def)
  ultimately show False using assms(2) by (simp only: list_all_iff) blast
qed

lemma name_char_listed: "name_char c \<Longrightarrow> upper_char c = c \<Longrightarrow> c \<in> set plain_chars"
proof -
  assume n: "name_char c" and u: "upper_char c = c"
  have "\<not> ascii_lower (ord c)" using arg_cong [OF u, of ord] by (auto simp: ord_upper_char ascii_lower_def)
  then have alnum: "ord c \<in> set ([65..<91] @ [48..<58])" if "ascii_alphanumeric (ord c)"
    using that unfolding set_append set_upt Un_iff atLeastLessThan_iff by (auto simp: ascii_defs)
  have punct: "ord c \<in> set (map ord ''._-+'')" if "c \<in> set ''._-+''"
    unfolding set_map by (rule imageI) (rule that)
  have "ascii_alphanumeric (ord c) \<or> c \<in> set ''._-+''" using n unfolding name_char_def .
  then have "ord c \<in> set ([65..<91] @ [48..<58]) \<union> set (map ord ''._-+'')"
    by (elim disjE) (rule UnI1, erule alnum, rule UnI2, erule punct)
  also have "\<dots> = set ([65..<91] @ [48..<58] @ map ord ''._-+'')" by (simp only: set_append Un_assoc)
  also have "[65..<91] @ [48..<58] @ map ord ''._-+'' = map ord plain_chars"
    by (simp add: plain_chars_def upt_rec)
  finally show ?thesis by (simp only: set_map image_iff ord_inject) blast
qed

lemma filename_shape_checked:
  assumes "tic_filename s = Inr n"
  shows "tic_filename n = Inr n \<and> n \<noteq> [] \<and> length n \<le> 12 \<and> list_all name_char n \<and>
    hd n \<noteq> CHR ''.'' \<and> last n \<noteq> CHR ''.'' \<and> map upper_char n = n \<and>
    (\<exists>base ext. n = base @ ext \<and> 0 < length base \<and> length base \<le> 8 \<and> CHR ''.'' \<notin> set base \<and>
       base \<notin> set dos_devices \<and>
       (ext = [] \<or> (\<exists>x. ext = CHR ''.'' # x \<and> 0 < length x \<and> length x \<le> 3 \<and> CHR ''.'' \<notin> set x)))"
proof -
  have c: "tic_filename n = Inr n" by (rule filename_canonical [OF assms])
  have u: "map upper_char n = n" using filename_shape [OF c] by simp
  note f = c [unfolded tic_filename_def Let_def u]
  obtain base rest where p: "split_on CHR ''.'' n = base # rest" by (cases "split_on CHR ''.'' n") auto
  from f have basic: "n \<noteq> []" "length n \<le> 12" "list_all name_char n"
    and b': "base \<noteq> []" "length base \<le> 8" "base \<notin> {''CON'', ''PRN'', ''AUX'', ''NUL'', ''CLOCK$''}" "\<not> port_device base"
    and r: "rest = [] \<or> (\<exists>x. rest = [x] \<and> x \<noteq> [] \<and> length x \<le> 3)"
    unfolding p by (cases rest; cases "tl rest"; auto split: if_splits)+
  have b: "base \<noteq> []" "length base \<le> 8" "base \<notin> set dos_devices"
    using b'(1,2) devices_refused [OF b'(3,4)] by simp_all
  have dots: "\<forall>q \<in> set (base # rest). CHR ''.'' \<notin> set q" using split_by_pieces [of _ "\<lambda>c. c = CHR ''.''" n] p by fastforce
  have n: "n = base @ (case rest of [] \<Rightarrow> [] | x # _ \<Rightarrow> CHR ''.'' # x)"
    using r split_by_join [of "CHR ''.''" n] p by (auto split: list.splits)
  have ends: "hd q \<noteq> CHR ''.''" "last q \<noteq> CHR ''.''" if "q \<noteq> []" "CHR ''.'' \<notin> set q" for q :: string
    using hd_in_set [OF that(1)] last_in_set [OF that(1)] that(2) by (metis, metis)
  have hd: "hd base \<noteq> CHR ''.''" using ends b(1) dots by simp
  show ?thesis
  proof (cases rest)
    case Nil
    then have e: "n = base" using n by simp
    have "last base \<noteq> CHR ''.''" using ends b(1) dots by simp
    then show ?thesis using c basic u b dots hd by (intro conjI exI [of _ base] exI [of _ "[]"]) (auto simp: e)
  next
    case (Cons x xs)
    then have x: "x \<noteq> []" "length x \<le> 3" "CHR ''.'' \<notin> set x" and e: "n = base @ CHR ''.'' # x" using r dots n by auto
    have "last x \<noteq> CHR ''.''" using ends x by simp
    then have "hd n \<noteq> CHR ''.''" "last n \<noteq> CHR ''.''" using hd b(1) x(1) by (simp_all add: e)
    then show ?thesis
      using c basic u b dots x by (intro conjI exI [of _ base] exI [of _ "CHR ''.'' # x"]) (auto simp: e)
  qed
qed

text \<open>
  C16.  File names from the network are harmless: an accepted name consists of capital letters,
  digits and the characters \<open>._-+\<close> (so there is no slash, backslash, colon, quote, wild card, blank
  or control character in it), has a base of one to eight characters and at most one extension of
  one to three, neither begins nor ends with a dot, and its base is none of the devices of DOS
  (\<open>CON\<close>, \<open>PRN\<close>, \<open>AUX\<close>, \<open>NUL\<close>, \<open>CLOCK$\<close>, \<open>COM1\<close> to \<open>COM9\<close> and \<open>LPT1\<close> to \<open>LPT9\<close>, listed in
  \<open>dos_devices\<close>); accepting it again changes nothing.
\<close>

theorem filename_is_harmless:
  assumes "tic_filename s = Inr n"
  shows "tic_filename n = Inr n \<and> n \<noteq> [] \<and> length n \<le> 12 \<and>
    set n \<subseteq> set ''ABCDEFGHIJKLMNOPQRSTUVWXYZ0123456789._-+'' \<and> hd n \<noteq> CHR ''.'' \<and> last n \<noteq> CHR ''.'' \<and>
    (\<exists>base ext. n = base @ ext \<and> 0 < length base \<and> length base \<le> 8 \<and> CHR ''.'' \<notin> set base \<and>
       base \<notin> set dos_devices \<and>
       (ext = [] \<or> (\<exists>x. ext = CHR ''.'' # x \<and> 0 < length x \<and> length x \<le> 3 \<and> CHR ''.'' \<notin> set x)))"
proof -
  note parts = filename_shape_checked [OF assms]
  have "set n \<subseteq> set plain_chars"
  proof
    fix c assume c: "c \<in> set n"
    have "name_char c" using parts c by (simp only: list_all_iff)
    moreover have "upper_char c = c" using parts c by (metis list.map_id map_eq_conv id_apply)
    ultimately show "c \<in> set plain_chars" by (rule name_char_listed)
  qed
  with parts show ?thesis unfolding plain_chars_def by (simp only: simp_thms)
qed

text \<open>
  A payload that was checked against its announcement is intact: any one changed byte fails the
  checksum, any other length the size.
\<close>

theorem payload_checked:
  assumes "validate_payload m bs = Inr ()"
  shows "(\<forall>i b. i < length bs \<and> b \<noteq> bs ! i \<longrightarrow> validate_payload m (bs[i := b]) = Inl TicChecksum) \<and>
    (\<forall>cs. length cs \<noteq> length bs \<longrightarrow> validate_payload m cs = Inl TicSize)"
proof -
  have ok: "length bs = unat (tic_size m)" "crc32 bs = tic_crc m"
    using assms by (auto simp: validate_payload_def split: if_splits)
  have "crc32 (bs[i := b]) \<noteq> tic_crc m" if "i < length bs" "b \<noteq> bs ! i" for i b
    using crc32_one_byte [of b "bs ! i" "take i bs" "drop (Suc i) bs"] that ok(2)
    by (simp add: upd_conv_take_nth_drop id_take_nth_drop [symmetric])
  then show ?thesis using ok(1) by (auto simp: validate_payload_def)
qed

lemma direct_line:
  assumes "tic_line d True st l = Inr t" and "untimed t = None"
  shows "tic_line d False st l = Inr t \<and> untimed st = None"
proof -
  obtain key v where kv: "split_once CHR '' '' l = Some (key, v)" using assms(1) by (auto simp: tic_line_def result_simps)
  let ?k = "map lower_char key" and ?v = "dropWhile (\<lambda>c. c = CHR '' '') v"
  have p: "\<not> (?k = [] \<or> \<not> list_all (\<lambda>c. ascii_alphanumeric (ord c)) ?k \<or> ?v = [])"
    and k: "keyed_line d True l ?k ?v st = Inr t"
    using assms(1) unfolding tic_line_def kv ok_or_Some attempt_Inr prod.case Let_def by (auto split: if_splits)
  have "keyed_line d False l ?k ?v st = Inr t \<and> untimed st = None"
  proof (cases "?k = ''path''")
    case True
    then have "path_line d True ?v st = Inr t" using k by (simp add: keyed_line_def)
    then have "path_line d False ?v st = Inr t \<and> untimed st = None"
      using assms(2) by (auto simp: path_line_def result_simps split: prod.splits option.splits if_splits)
    with True show ?thesis by (simp add: keyed_line_def)
  next
    case False
    have "keyed_line d False l ?k ?v st = keyed_line d True l ?k ?v st" using False unfolding keyed_line_def by simp
    moreover have "untimed t = untimed st"
      using k False unfolding keyed_line_def singleton_line_def Let_def if_not_P [OF False]
      by (auto simp: result_simps split: if_splits)
    ultimately show ?thesis using k assms(2) by simp
  qed
  with p show ?thesis unfolding tic_line_def kv ok_or_Some attempt_Inr prod.case Let_def by simp
qed

lemma direct_run:
  "run_steps (tic_line d True) st ls = Inr t \<Longrightarrow> untimed t = None \<Longrightarrow>
   run_steps (tic_line d False) st ls = Inr t \<and> untimed st = None"
proof (induction ls arbitrary: st)
  case (Cons l ls)
  then obtain u where u: "tic_line d True st l = Inr u" "run_steps (tic_line d True) u ls = Inr t" by (auto simp: result_simps)
  from Cons.IH [OF u(2) Cons.prems(2)] direct_line [OF u(1)] show ?case by simp
qed simp

lemma history_recorded:
  "parse_history bs d True = Inr e \<Longrightarrow> direct_hatch e = Some h \<Longrightarrow> empty_seenby h \<longleftrightarrow> tic_seen (meta e) = []"
  by (auto simp: parse_history_def finish_reading_def result_simps split: if_splits)

lemma direct_is_strict:
  assumes "parse_history bs d True = Inr e"
    and "direct_hatch e = Some \<lparr>untimed_path = None, empty_seenby = False\<rparr>"
  shows "tic_parse bs d = Inr (e\<lparr>direct_hatch := None\<rparr>)"
proof -
  obtain ls st where ls: "tic_lines bs MAX_TIC = Inr ls"
    and st: "run_steps (tic_line d True) start_reading ls = Inr st"
    and f: "finish_reading d True st = Inr e"
    using assms(1) by (auto simp: parse_history_def result_simps)
  have "direct_hatch e = Some \<lparr>untimed_path = untimed st, empty_seenby = seens st = []\<rparr>"
    using f by (auto simp: finish_reading_def result_simps split: if_splits)
  then have u: "untimed st = None" "seens st \<noteq> []" using assms(2) by auto
  have "finish_reading d False st = Inr (e\<lparr>direct_hatch := None\<rparr>)"
    using f u unfolding finish_reading_def attempt_eq_Inr if_Inl_eq_Inr by auto
  then show ?thesis using ls direct_run [OF st u(1)] by (simp add: tic_parse_def parse_history_def)
qed

lemma strict_line: "tic_line d False st l = Inr t \<Longrightarrow> tic_line d True st l = Inr t"
proof -
  assume t: "tic_line d False st l = Inr t"
  have "path_line d False v st = Inr u \<Longrightarrow> path_line d True v st = Inr u" for v u
    by (auto simp: path_line_def result_simps split: prod.splits option.splits)
  then have "keyed_line d False l k v st = Inr u \<Longrightarrow> keyed_line d True l k v st = Inr u" for k v u
    unfolding keyed_line_def by (simp split: if_splits)
  with t show ?thesis unfolding tic_line_def by (auto simp: result_simps Let_def split: if_splits)
qed

lemma strict_run: "run_steps (tic_line d False) st ls = Inr t \<Longrightarrow> run_steps (tic_line d True) st ls = Inr t"
  by (induction ls arbitrary: st) (auto simp: result_simps dest: strict_line)

lemma strict_untimed: "reads d start_reading ls t \<Longrightarrow> list_all good_line ls \<Longrightarrow> untimed t = None"
  using tic.guarded_run [OF start_ok, of ls d False t] by (simp add: reading_ok_def)

lemma strict_is_direct:
  assumes "tic_parse bs d = Inr e"
  shows "parse_history bs d True = Inr (e\<lparr>direct_hatch := Some \<lparr>untimed_path = None, empty_seenby = False\<rparr>\<rparr>)"
proof -
  obtain ls st where ls: "tic_lines bs MAX_TIC = Inr ls" and st: "reads d start_reading ls st"
    and f: "finish_reading d False st = Inr e"
    using assms by (auto simp: tic_parse_def parse_history_def result_simps)
  have u: "untimed st = None" using strict_untimed [OF st] tic_lines_sound [OF ls] by blast
  have "seens st \<noteq> []" using f by (auto simp: finish_reading_def result_simps split: if_splits)
  with f u have "finish_reading d True st = Inr (e\<lparr>direct_hatch := Some \<lparr>untimed_path = None, empty_seenby = False\<rparr>\<rparr>)"
    unfolding finish_reading_def attempt_eq_Inr if_Inl_eq_Inr by auto
  with ls strict_run [OF st] show ?thesis by (simp add: parse_history_def)
qed

text \<open>
  C17.  The direct-hatch profile only forgives omissions.  What it accepts was sent from and by
  the authenticated peer to this system, in the domain of both, over exactly one hop, the peer's:
  either a complete path line and no other, or one path line without a time, which is kept apart
  from the path.  An empty list of seen systems is recorded as such.  And the strict parser
  accepts the same bytes if and only if nothing was omitted, with the same envelope.
\<close>

theorem direct_hatch_provenance:
  assumes "parse_direct_hatch bs peer here = Inr e"
  shows "tic_from (meta e) = peer \<and> tic_origin (meta e) = peer \<and> tic_to (meta e) = Some here \<and>
    domain_of peer = domain_of here \<and>
    (\<exists>h. direct_hatch e = Some h \<and> (empty_seenby h \<longleftrightarrow> tic_seen (meta e) = []) \<and>
       (untimed_path h = None \<and> map hop_address (hops (meta e)) = [peer] \<or>
        untimed_path h = Some peer \<and> hops (meta e) = []) \<and>
       (\<forall>e'. tic_parse bs (domain_of peer) = Inr e' \<longleftrightarrow>
          untimed_path h = None \<and> \<not> empty_seenby h \<and> e' = e\<lparr>direct_hatch := None\<rparr>))"
proof -
  obtain h where p: "parse_history bs (domain_of peer) True = Inr e" and h: "direct_hatch e = Some h"
    and c: "domain_of peer = domain_of here" "tic_from (meta e) = peer" "tic_origin (meta e) = peer"
      "tic_to (meta e) = Some here"
    and n: "length (hops (meta e)) + (if untimed_path h = None then 0 else 1) = 1"
      "\<not> list_ex (\<lambda>p. hop_address p \<noteq> peer) (hops (meta e))"
    and u: "untimed_path h = None \<or> untimed_path h = Some peer"
    using assms unfolding parse_direct_hatch_def Let_def attempt_eq_Inr if_Inl_eq_Inr ok_or_eq_Inr by auto
  have path: "untimed_path h = None \<and> map hop_address (hops (meta e)) = [peer] \<or>
      untimed_path h = Some peer \<and> hops (meta e) = []"
    using u n by (cases "hops (meta e)") auto
  have strict: "tic_parse bs (domain_of peer) = Inr e' \<longleftrightarrow>
      untimed_path h = None \<and> \<not> empty_seenby h \<and> e' = e\<lparr>direct_hatch := None\<rparr>" for e'
  proof
    assume t: "tic_parse bs (domain_of peer) = Inr e'"
    with strict_is_direct [OF t] p have e: "e = e'\<lparr>direct_hatch := Some \<lparr>untimed_path = None, empty_seenby = False\<rparr>\<rparr>"
      by simp
    moreover have "direct_hatch e' = None"
      using t by (auto simp: tic_parse_def parse_history_def finish_reading_def result_simps split: if_splits)
    ultimately show "untimed_path h = None \<and> \<not> empty_seenby h \<and> e' = e\<lparr>direct_hatch := None\<rparr>"
      using h by auto
  next
    assume "untimed_path h = None \<and> \<not> empty_seenby h \<and> e' = e\<lparr>direct_hatch := None\<rparr>"
    with direct_is_strict [OF p] h show "tic_parse bs (domain_of peer) = Inr e'" by simp
  qed
  show ?thesis by (intro exI [of _ h] conjI allI c h path strict history_recorded [OF p h])
qed

lemma upper_no_dot: "CHR ''.'' \<notin> set s \<Longrightarrow> CHR ''.'' \<notin> set (map upper_char s)"
proof
  assume n: "CHR ''.'' \<notin> set s" and "CHR ''.'' \<in> set (map upper_char s)"
  then obtain c where c: "c \<in> set s" "CHR ''.'' = upper_char c" by (simp only: set_map image_iff) blast
  then have "ord (upper_char c) = 46" by (simp flip: c(2))
  then have "ord c = ord CHR ''.''" by (auto simp: ord_upper_char ascii_lower_def split: if_splits)
  then have eq: "c = CHR ''.''" by (simp only: ord_inject)
  show False using n c(1) unfolding eq by (rule notE)
qed

lemma filename_parts:
  assumes "list_all name_char base" "list_all name_char ext" and "CHR ''.'' \<notin> set base" "CHR ''.'' \<notin> set ext"
    and "length base = 8" "0 < length ext" "length ext \<le> 3"
  shows "tic_filename (base @ ''.'' @ ext) = Inr (map upper_char (base @ ''.'' @ ext))"
proof -
  have split: "split_on CHR ''.'' (map upper_char (base @ ''.'' @ ext)) = [map upper_char base, map upper_char ext]"
  proof -
    have dot: "upper_char CHR ''.'' = CHR ''.''" by (simp add: upper_char_def)
    have "split_on CHR ''.'' (map upper_char base @ CHR ''.'' # map upper_char ext) =
        map upper_char base # split_on CHR ''.'' (map upper_char ext)"
      by (rule split_by_append) (use upper_no_dot [OF assms(3)] in metis, rule refl)
    also have "split_on CHR ''.'' (map upper_char ext) = [map upper_char ext]"
      by (rule split_by_none) (use upper_no_dot [OF assms(4)] in metis)
    finally show ?thesis by (simp add: dot)
  qed
  have stem: "length (map upper_char base) = 8" using assms(5) by simp
  then have "map upper_char base \<notin> {''CON'', ''PRN'', ''AUX'', ''NUL'', ''CLOCK$''}" "\<not> port_device (map upper_char base)"
    by (auto simp: port_device_def)
  moreover have "\<not> (base @ ''.'' @ ext = [] \<or> 12 < length (base @ ''.'' @ ext) \<or> \<not> list_all name_char (base @ ''.'' @ ext))"
    using assms by (simp add: name_char_def)
  ultimately show ?thesis
    using stem assms(6,7) unfolding tic_filename_def Let_def split by (auto split: if_splits)
qed

text \<open>
  Every file with an acceptable long name gets a name for the wire, and it is a harmless one:
  the name itself when it fits, otherwise eight digits of its hash with a short extension.
\<close>

theorem transfer_name_total:
  assumes "long_name native = Inr native" and "length hash = 64" and "list_all (\<lambda>c. ascii_hexdigit (ord c)) hash"
  shows "\<exists>n. transfer_name native hash = Inr n \<and> tic_filename n = Inr n \<and>
    (tic_filename native = Inr n \<or> take 8 n = map upper_char (take 8 hash))"
proof (cases "tic_filename native")
  case (Inr n)
  then show ?thesis using filename_canonical by (auto simp: transfer_name_def)
next
  case (Inl e)
  define ext where "ext = (case rsplit_once CHR ''.'' native of
      Some (_, s) \<Rightarrow> if s \<noteq> [] \<and> length s \<le> 3 \<and> list_all (\<lambda>c. ascii_alphanumeric (ord c)) s then s else ''DAT''
    | None \<Rightarrow> ''DAT'')"
  have ext: "list_all (\<lambda>c. ascii_alphanumeric (ord c)) ext" "0 < length ext" "length ext \<le> 3"
    by (auto simp: ext_def split: option.splits)
  have base: "list_all (\<lambda>c. ascii_alphanumeric (ord c)) (take 8 hash)" "length (take 8 hash) = 8"
    using assms(2,3) by (auto simp: list_all_iff ascii_defs dest!: in_set_takeD)
  have plain: "list_all name_char s \<and> CHR ''.'' \<notin> set s" if "list_all (\<lambda>c. ascii_alphanumeric (ord c)) s" for s
    using that by (auto simp: list_all_iff name_char_def)
  have f: "tic_filename (take 8 hash @ ''.'' @ ext) = Inr (map upper_char (take 8 hash @ ''.'' @ ext))"
    using plain [OF base(1)] plain [OF ext(1)] base(2) ext(2,3) by (intro filename_parts) simp_all
  have "transfer_name native hash = tic_filename (take 8 hash @ ''.'' @ ext)"
    using assms by (simp add: transfer_name_def Inl ext_def [symmetric])
  then show ?thesis using f filename_canonical [OF f] base(2) by simp
qed

section \<open>Witnesses\<close>

definition hub_end :: endpoint where "hub_end = \<lparr>domain_of = ''net'', address_of = Address 10 1 1 0\<rparr>"
definition leaf_end :: endpoint where "leaf_end = \<lparr>domain_of = ''net'', address_of = Address 10 1 2 0\<rparr>"

definition announced :: metadata where
  "announced = \<lparr>tic_area = ''TEST'', tic_file = ''TEST.ZIP'', long_file = None, tic_origin = hub_end, tic_from = hub_end,
     tic_to = Some leaf_end, tic_size = 1, tic_crc = crc32 [49], descriptions = [''A test''], long_descriptions = [],
     hops = [\<lparr>hop_address = hub_end, hop_time = 1, detail = []\<rparr>], tic_seen = [hub_end], opaque = [''Magic X'']\<rparr>"

lemma ends_in: "endpoint_in ''net'' hub_end" "endpoint_in ''net'' leaf_end"
  by (simp_all add: endpoint_in_def wf_endpoint_def hub_end_def leaf_end_def wf_domain_def valid_domain_def domain_char_def
      lower_char_def wf_address_def)

lemma announced_ok: "metadata_ok ''net'' announced"
proof -
  have "tic_value ''A test''" by (simp add: tic_value_def plain437_ascii)
  moreover have "tic_text ''Magic X''" by (simp add: plain437_ascii)
  moreover have "opaque_ok ''Magic X''" by (simp add: opaque_ok_def lower_char_def trusted_keys_def)
  moreover have "area_tag ''TEST'' = Inr ''TEST''" by (simp add: area_tag_def upper_char_def)
  moreover have "tic_filename ''TEST.ZIP'' = Inr ''TEST.ZIP''"
    by (simp add: tic_filename_def name_char_def upper_char_def port_device_def starts_with_def)
  moreover have "(1 :: u64) \<le> MAX_PAYLOAD" by (simp add: MAX_PAYLOAD_def MAX_FILE_def word_le_nat_alt)
  ultimately show ?thesis by (simp add: metadata_ok_def announced_def ends_in hop_ok_def)
qed

lemma passwords: "password_ok ''SECRET''" "password_ok ''NEW''"
  by (simp_all add: password_ok_def)

lemma shown_ends: "show_endpoint hub_end = ''10:1/1@net''" "show_endpoint leaf_end = ''10:1/2@net''" "show_u64 1 = ''1''"
  by (simp_all add: show_endpoint_def show_address_def hub_end_def leaf_end_def show_u16_def show_u64_def show_nat.simps digit_def)

lemma announced_fits: "password_ok pw \<Longrightarrow> fits announced pw"
proof -
  assume pw: "password_ok pw"
  have "ascii pw" "length pw \<le> 71" using pw by (auto simp: password_ok_def ascii_def list_all_iff ascii_graphic_def)
  moreover have "ascii (hex_digits_upper 8 v)" "length (hex_digits_upper 8 v) = 8" for v
    using hex_digits [of 8 v] by (auto simp: ascii_def list_all_iff ascii_defs)
  ultimately show ?thesis
    by (simp add: fits_def written_def head_lines_fields head_fields_def field_line_def end_lines_def hop_line_def
        announced_def shown_ends MAX_LINES_def TIC_LINE_def MAX_TIC_def)
qed

theorem tic_passed_on_witness:
  "\<exists>bs e cs. tic_parse bs ''net'' = Inr e \<and> meta e = announced \<and> tic_encode (meta e) ''NEW'' = Inr cs \<and>
    tic_parse cs ''net'' = Inr \<lparr>meta = announced, direct_hatch = None, password = ''NEW''\<rparr>"
proof -
  obtain bs where bs: "tic_parse bs ''net'' = Inr \<lparr>meta = announced, direct_hatch = None, password = ''SECRET''\<rparr>"
    using encode_complete [OF announced_ok passwords(1) announced_fits [OF passwords(1)]] by blast
  obtain cs where "tic_encode announced ''NEW'' = Inr cs"
    "tic_parse cs ''net'' = Inr \<lparr>meta = announced, direct_hatch = None, password = ''NEW''\<rparr>"
    using tic_passed_on [OF bs passwords(2)] announced_fits [OF passwords(2)] by auto
  with bs show ?thesis
    by (intro exI [of _ bs] exI [of _ "\<lparr>meta = announced, direct_hatch = None, password = ''SECRET''\<rparr>"] exI [of _ cs]) simp
qed

theorem filename_is_harmless_witness: "tic_filename ''test.zip'' = Inr ''TEST.ZIP'' \<and> tic_filename ''TEST.ZIP'' = Inr ''TEST.ZIP''"
proof -
  have "tic_filename ''test.zip'' = Inr ''TEST.ZIP''"
    by (simp add: tic_filename_def name_char_def upper_char_def port_device_def starts_with_def)
  with filename_is_harmless [OF this] show ?thesis by blast
qed

theorem payload_checked_witness: "validate_payload announced [49] = Inr () \<and> validate_payload announced [50] = Inl TicChecksum"
proof -
  have "validate_payload announced [49] = Inr ()" by (simp add: validate_payload_def announced_def)
  with payload_checked [OF this] show ?thesis by (auto dest!: spec [of _ "0 :: nat"])
qed

theorem direct_hatch_provenance_witness:
  "\<exists>bs e. parse_direct_hatch bs hub_end leaf_end = Inr e \<and> tic_from (meta e) = hub_end \<and> tic_to (meta e) = Some leaf_end"
proof -
  obtain bs where bs: "tic_parse bs ''net'' = Inr \<lparr>meta = announced, direct_hatch = None, password = ''SECRET''\<rparr>"
    using encode_complete [OF announced_ok passwords(1) announced_fits [OF passwords(1)]] by blast
  have d: "domain_of hub_end = ''net''" "domain_of leaf_end = ''net''" by (simp_all add: hub_end_def leaf_end_def)
  have "\<exists>e. parse_direct_hatch bs hub_end leaf_end = Inr e"
    using strict_is_direct [OF bs] by (simp add: parse_direct_hatch_def d announced_def)
  with direct_hatch_provenance show ?thesis by blast
qed

theorem transfer_name_total_witness:
  "\<exists>n. transfer_name ''LongNativeName.zip'' (replicate 64 CHR ''a'') = Inr n \<and> tic_filename n = Inr n"
proof -
  have "long_name ''LongNativeName.zip'' = Inr ''LongNativeName.zip''"
    by (simp add: long_name_def safe_text_def TIC_LINE_def path_char_def upper_char_def port_device_def starts_with_def is_control_def)
  from transfer_name_total [OF this, of "replicate 64 CHR ''a''"] show ?thesis by (auto simp: list_all_iff)
qed

end
