(* ===== verification/Ftn_Packet.thy ===== *)
theory Ftn_Packet
  imports Ftn_Address
begin

unbundle bit_operations_syntax

text \<open>
  \<open>crates/sf-net/src/ftn/packet.rs\<close>: the Type 2 and Type-2+ packet codec.  The cursor of the
  decoder is the rest of the input from that position on.  The calendar is third-party code
  (\<open>chrono\<close>): a date-time is its six civil fields, and \<open>cal\<close>, the parameter of \<open>packet_decode\<close>,
  says which of them \<open>NaiveDate::from_ymd_opt\<close> and \<open>and_hms_opt\<close> accept.  Fixed arrays are
  byte lists whose lengths are part of \<open>wf_header\<close> and \<open>wf_message\<close>.
\<close>

record datetime =
  year :: nat
  month :: nat
  day :: nat
  hour :: nat
  minute :: nat
  second :: nat

datatype packet_profile = Type2 | Type2Plus

record packet_header =
  profile :: packet_profile
  origin :: address
  destination :: address
  created :: datetime
  password :: bytes
  product :: bytes
  product_data :: bytes
  baud :: u16
  spare :: bytes

record packed_message =
  m_origin :: "u16 \<times> u16"
  m_destination :: "u16 \<times> u16"
  attributes :: u16
  cost :: u16
  date :: bytes
  m_to :: bytes
  m_from :: bytes
  subject :: bytes
  m_text :: bytes

record packet =
  header :: packet_header
  messages :: "packed_message list"

section \<open>Reading and writing words\<close>

definition word_at :: "bytes \<Rightarrow> nat \<Rightarrow> ftn_error + u16" where
  "word_at b i = attempt (ok_or (get_range b i (i + 2)) ErrPacket) (\<lambda>x. Inr (u16_of (x ! 1) (x ! 0)))"

text \<open>\<open>b[i..].copy_from_slice(xs)\<close>, and \<open>set\<close>.\<close>

definition blit :: "bytes \<Rightarrow> nat \<Rightarrow> bytes \<Rightarrow> bytes" where
  "blit b i xs = take i b @ xs @ drop (i + length xs) b"

definition set_word :: "bytes \<Rightarrow> nat \<Rightarrow> u16 \<Rightarrow> bytes" where
  "set_word b i v = blit b i (le_bytes v)"

definition set_words :: "bytes \<Rightarrow> (nat \<times> u16) list \<Rightarrow> bytes" where
  "set_words b ps = foldl (\<lambda>b (i, v). set_word b i v) b ps"

definition swap_bytes :: "u16 \<Rightarrow> u16" where
  "swap_bytes w = u16_of (lo_byte w) (hi_byte w)"

text \<open>\<open>cstring\<close>: the bytes before a NUL that comes within \<open>m + 1\<close> bytes, and the rest after it.\<close>

definition cstring :: "bytes \<Rightarrow> nat \<Rightarrow> ftn_error + bytes \<times> bytes" where
  "cstring rest m =
     (case position (\<lambda>b. b = 0) (take (m + 1) rest) of
        None \<Rightarrow> Inl ErrPacket
      | Some n \<Rightarrow> Inr (take n rest, drop (n + 1) rest))"

section \<open>Decoding\<close>

definition message_decode :: "bytes \<Rightarrow> ftn_error + packed_message \<times> bytes" where
  "message_decode rest =
     attempt (ok_or (get_range rest 0 32) ErrPacket) (\<lambda>h.
     attempt (word_at h 4) (\<lambda>onet. attempt (word_at h 0) (\<lambda>onode.
     attempt (word_at h 6) (\<lambda>dnet. attempt (word_at h 2) (\<lambda>dnode.
     attempt (word_at h 8) (\<lambda>attr. attempt (word_at h 10) (\<lambda>cst.
       if onet = 0 \<or> dnet = 0 \<or> h ! 31 \<noteq> 0 then Inl ErrPacket
       else
         attempt (cstring (drop 32 rest) 35) (\<lambda>(t, rest).
         attempt (cstring rest 35) (\<lambda>(f, rest).
         attempt (cstring rest 71) (\<lambda>(s, rest).
         attempt (cstring rest MAX_TEXT) (\<lambda>(x, rest).
           Inr (\<lparr>m_origin = (onet, onode), m_destination = (dnet, dnode), attributes = attr,
                 cost = cst, date = drop 12 h, m_to = t, m_from = f, subject = s, m_text = x\<rparr>,
                rest))))))))))))"

lemma cstring_shorter: "cstring r m = Inr (s, r') \<Longrightarrow> length r' < length r"
  by (auto simp: cstring_def dest!: position_SomeD split: option.splits)

lemma message_decode_shorter: "message_decode r = Inr (m, r') \<Longrightarrow> length r' < length r"
  by (auto simp: message_decode_def result_simps dest!: cstring_shorter split: if_splits)

text \<open>The message loop, with the number of messages read so far.\<close>

function messages_decode :: "nat \<Rightarrow> bytes \<Rightarrow> ftn_error + packed_message list" where
  "messages_decode n rest =
     (case word_at rest 0 of
        Inl e \<Rightarrow> Inl e
      | Inr kind \<Rightarrow>
          if kind = 0 then (if drop 2 rest \<noteq> [] then Inl ErrPacket else Inr [])
          else if kind \<noteq> 2 then Inl ErrPacket
          else if MAX_MESSAGES \<le> n then Inl ErrLimit
          else (case message_decode (drop 2 rest) of
                  Inl e \<Rightarrow> Inl e
                | Inr (m, rest') \<Rightarrow> attempt (messages_decode (n + 1) rest') (\<lambda>ms. Inr (m # ms))))"
  by pat_completeness auto
termination
  by (relation "measure (\<lambda>(n, rest). length rest)") (auto dest!: message_decode_shorter)

declare messages_decode.simps [simp del]

definition plus_zone :: "u16 \<Rightarrow> u16 \<Rightarrow> ftn_error + u16" where
  "plus_zone z x =
     (if x \<noteq> 0 then (if z \<noteq> 0 \<and> z \<noteq> x then Inl ErrAddress else Inr x) else Inr z)"

definition is_plus :: "bytes \<Rightarrow> ftn_error + bool" where
  "is_plus bs =
     attempt (word_at bs 44) (\<lambda>cw. attempt (word_at bs 40) (\<lambda>v.
       Inr (cw AND 1 \<noteq> 0 \<and> swap_bytes cw = v)))"

text \<open>The zones of origin and destination, from the header or the caller's context.\<close>

definition header_zones :: "bytes \<Rightarrow> bool \<Rightarrow> u16 \<times> u16 \<Rightarrow> ftn_error + u16 \<times> u16" where
  "header_zones bs pl ctx =
     attempt (word_at bs 34) (\<lambda>z0. attempt (word_at bs 36) (\<lambda>z1.
     attempt (if pl then attempt (word_at bs 46) (plus_zone z0) else Inr z0) (\<lambda>z0.
     attempt (if pl then attempt (word_at bs 48) (plus_zone z1) else Inr z1) (\<lambda>z1.
       Inr (if z0 = 0 then fst ctx else z0, if z1 = 0 then snd ctx else z1)))))"

definition header_addresses :: "bytes \<Rightarrow> bool \<Rightarrow> u16 \<times> u16 \<Rightarrow> ftn_error + address \<times> address" where
  "header_addresses bs pl zs =
     attempt (if pl then word_at bs 50 else Inr 0) (\<lambda>op.
     attempt (if pl then word_at bs 52 else Inr 0) (\<lambda>dp.
     attempt (word_at bs 20) (\<lambda>nt.
     attempt (if pl \<and> nt = 65535 \<and> op \<noteq> 0 then word_at bs 38 else Inr nt) (\<lambda>nt.
     attempt (word_at bs 0) (\<lambda>onode.
     attempt (address_new (fst zs) nt onode op) (\<lambda>org.
     attempt (word_at bs 22) (\<lambda>dnet. attempt (word_at bs 2) (\<lambda>dnode.
     attempt (address_new (snd zs) dnet dnode dp) (\<lambda>dst. Inr (org, dst))))))))))"

definition header_created :: "(datetime \<Rightarrow> bool) \<Rightarrow> bytes \<Rightarrow> ftn_error + datetime" where
  "header_created cal bs =
     attempt (word_at bs 4) (\<lambda>y. attempt (word_at bs 6) (\<lambda>mo. attempt (word_at bs 8) (\<lambda>d.
     attempt (word_at bs 10) (\<lambda>h. attempt (word_at bs 12) (\<lambda>mi. attempt (word_at bs 14) (\<lambda>s.
       (let t = \<lparr>year = unat y, month = unat mo + 1, day = unat d, hour = unat h,
                 minute = unat mi, second = unat s\<rparr> in
        if cal t then Inr t else Inl ErrTimestamp)))))))"

definition header_decode ::
    "(datetime \<Rightarrow> bool) \<Rightarrow> bytes \<Rightarrow> u16 \<times> u16 \<Rightarrow> ftn_error + packet_header" where
  "header_decode cal bs ctx =
     attempt (is_plus bs) (\<lambda>pl.
     attempt (header_zones bs pl ctx) (\<lambda>zs.
     attempt (header_addresses bs pl zs) (\<lambda>(org, dst).
     attempt (header_created cal bs) (\<lambda>t.
     attempt (word_at bs 16) (\<lambda>bd.
       Inr \<lparr>profile = (if pl then Type2Plus else Type2), origin = org, destination = dst,
            created = t, password = take 8 (drop 26 bs),
            product = [bs ! 24, bs ! 25, bs ! 42, bs ! 43],
            product_data = take 4 (drop 54 bs), baud = bd, spare = take 20 (drop 38 bs)\<rparr>)))))"

definition packet_decode ::
    "(datetime \<Rightarrow> bool) \<Rightarrow> bytes \<Rightarrow> u16 \<times> u16 \<Rightarrow> ftn_error + packet" where
  "packet_decode cal bs ctx =
     (if MAX_PACKET < length bs then Inl ErrLimit
      else if length bs < 60 then Inl ErrPacket
      else
        attempt (word_at bs 18) (\<lambda>version. if version \<noteq> 2 then Inl ErrPacket else
        attempt (word_at bs 16) (\<lambda>bd. if bd = 2 then Inl ErrProfile else
        attempt (header_decode cal bs ctx) (\<lambda>h.
        attempt (messages_decode 0 (drop 58 bs)) (\<lambda>ms.
          Inr \<lparr>header = h, messages = ms\<rparr>)))))"

section \<open>Encoding\<close>

definition header_base :: "packet_header \<Rightarrow> bytes" where
  "header_base h =
     blit (blit (blit
       (set_words (replicate 58 0)
          [(0, node (origin h)), (2, node (destination h)), (4, of_nat (year (created h))),
           (6, of_nat (month (created h) - 1)), (8, of_nat (day (created h))),
           (10, of_nat (hour (created h))), (12, of_nat (minute (created h))),
           (14, of_nat (second (created h))), (16, baud h), (18, 2), (20, net (origin h)),
           (22, net (destination h)), (34, zone (origin h)), (36, zone (destination h))])
       24 [product h ! 0]) 25 [product h ! 1]) 26 (password h)"

definition header_encode :: "packet_header \<Rightarrow> bytes" where
  "header_encode h =
     (let b = header_base h in
      if profile h = Type2Plus then
        (let b = (if point (origin h) \<noteq> 0
                  then set_words b [(20, 65535), (38, net (origin h))] else b) in
         blit (blit (blit
           (set_words b [(40, 256), (44, 1), (46, zone (origin h)), (48, zone (destination h)),
                         (50, point (origin h)), (52, point (destination h))])
           42 [product h ! 2]) 43 [product h ! 3]) 54 (product_data h))
      else blit b 38 (spare h))"

definition cstring_encode :: "bytes \<Rightarrow> nat \<Rightarrow> ftn_error + bytes" where
  "cstring_encode s m = (if m < length s \<or> 0 \<in> set s then Inl ErrLimit else Inr (s @ [0]))"

definition message_encode :: "packed_message \<Rightarrow> ftn_error + bytes" where
  "message_encode m =
     (if date m ! 19 \<noteq> 0 \<or> fst (m_origin m) = 0 \<or> fst (m_destination m) = 0 then Inl ErrPacket
      else
        attempt (cstring_encode (m_to m) 35) (\<lambda>t.
        attempt (cstring_encode (m_from m) 35) (\<lambda>f.
        attempt (cstring_encode (subject m) 71) (\<lambda>s.
        attempt (cstring_encode (m_text m) MAX_TEXT) (\<lambda>x.
          Inr (concat (map le_bytes [2, snd (m_origin m), snd (m_destination m), fst (m_origin m),
                 fst (m_destination m), attributes m, cost m]) @ date m @ t @ f @ s @ x))))))"

fun messages_encode :: "bytes \<Rightarrow> packed_message list \<Rightarrow> ftn_error + bytes" where
  "messages_encode b [] = Inr b"
| "messages_encode b (m # ms) =
     attempt (message_encode m) (\<lambda>x.
       if MAX_PACKET < length (b @ x) + 2 then Inl ErrLimit else messages_encode (b @ x) ms)"

definition packet_encode :: "packet \<Rightarrow> ftn_error + bytes" where
  "packet_encode p =
     (if MAX_MESSAGES < length (messages p) then Inl ErrLimit
      else if \<not> (1 \<le> year (created (header p)) \<and> year (created (header p)) \<le> 9999) then Inl ErrTimestamp
      else if profile (header p) = Type2 \<and>
        (point (origin (header p)) \<noteq> 0 \<or> point (destination (header p)) \<noteq> 0) then Inl ErrProfile
      else attempt (messages_encode (header_encode (header p)) (messages p)) (\<lambda>b. Inr (b @ [0, 0])))"

section \<open>Words in buffers\<close>

lemma length_blit [simp]: "i + length xs \<le> length b \<Longrightarrow> length (blit b i xs) = length b"
  by (simp add: blit_def)

lemma nth_blit:
  "i + length xs \<le> length b \<Longrightarrow> j < length b \<Longrightarrow>
     blit b i xs ! j = (if i \<le> j \<and> j < i + length xs then xs ! (j - i) else b ! j)"
  by (auto simp: blit_def nth_append min_def)

lemma word_at_nth: "i + 2 \<le> length b \<Longrightarrow> word_at b i = Inr (u16_of (b ! (i + 1)) (b ! i))"
  by (simp add: word_at_def get_range_def)

lemma word_at_append [simp]: "i + 2 \<le> length b \<Longrightarrow> word_at (b @ c) i = word_at b i"
  by (simp add: word_at_nth nth_append)

lemma word_at_blit_other:
  "i + length xs \<le> length b \<Longrightarrow> j + 2 \<le> length b \<Longrightarrow> j + 2 \<le> i \<or> i + length xs \<le> j \<Longrightarrow>
     word_at (blit b i xs) j = word_at b j"
  by (auto simp: word_at_nth nth_blit)

lemma word_at_blit_in:
  "i + length xs \<le> length b \<Longrightarrow> i \<le> j \<Longrightarrow> j + 2 \<le> i + length xs \<Longrightarrow>
     word_at (blit b i xs) j = word_at xs (j - i)"
  by (simp add: word_at_nth nth_blit Suc_diff_le)

lemma word_at_set_word:
  "even i \<Longrightarrow> even j \<Longrightarrow> i + 2 \<le> length b \<Longrightarrow> j + 2 \<le> length b \<Longrightarrow>
     word_at (set_word b i v) j = (if i = j then Inr v else word_at b j)"
proof (cases "i = j")
  case False
  assume "even i" "even j" "i + 2 \<le> length b" "j + 2 \<le> length b"
  moreover from this False have "j + 2 \<le> i \<or> i + 2 \<le> j" by presburger
  ultimately show ?thesis
    using False by (simp add: set_word_def word_at_blit_other)
qed (simp add: set_word_def word_at_nth nth_blit le_bytes_def)

definition word_offsets :: "nat \<Rightarrow> (nat \<times> u16) list \<Rightarrow> bool" where
  "word_offsets n ps \<longleftrightarrow> list_all (\<lambda>(i, v). even i \<and> i + 2 \<le> n) ps"

lemma length_set_words [simp]: "word_offsets (length b) ps \<Longrightarrow> length (set_words b ps) = length b"
  by (induction ps arbitrary: b) (auto simp: set_words_def set_word_def word_offsets_def)

lemma word_at_set_words:
  "word_offsets (length b) ps \<Longrightarrow> even j \<Longrightarrow> j + 2 \<le> length b \<Longrightarrow>
     word_at (set_words b ps) j = (case map_of (rev ps) j of Some v \<Rightarrow> Inr v | None \<Rightarrow> word_at b j)"
proof (induction ps rule: rev_induct)
  case (snoc p ps)
  obtain i v where p: "p = (i, v)" by force
  have "set_words b (ps @ [p]) = set_word (set_words b ps) i v" by (simp add: set_words_def p)
  moreover have "length (set_words b ps) = length b" using snoc.prems by (simp add: word_offsets_def)
  ultimately show ?case
    using snoc by (auto simp: word_at_set_word word_offsets_def p)
qed (simp add: set_words_def)

lemma nth_set_words:
  "word_offsets (length b) ps \<Longrightarrow> k < length b \<Longrightarrow> list_all (\<lambda>(i, v). k \<noteq> i \<and> k \<noteq> i + 1) ps \<Longrightarrow>
     set_words b ps ! k = b ! k"
proof (induction ps rule: rev_induct)
  case (snoc p ps)
  obtain i v where p: "p = (i, v)" by force
  have "set_words b (ps @ [p]) = set_word (set_words b ps) i v" by (simp add: set_words_def p)
  moreover have "length (set_words b ps) = length b" using snoc.prems by (simp add: word_offsets_def)
  ultimately show ?case
    using snoc by (auto simp: set_word_def nth_blit word_offsets_def p)
qed (simp add: set_words_def)

section \<open>The header round trip\<close>

definition wf_datetime :: "datetime \<Rightarrow> bool" where
  "wf_datetime t \<longleftrightarrow> 1 \<le> year t \<and> year t \<le> 9999 \<and> 1 \<le> month t \<and> month t \<le> 12 \<and>
     day t \<le> 31 \<and> hour t \<le> 23 \<and> minute t \<le> 59 \<and> second t \<le> 59"

definition wf_header :: "(datetime \<Rightarrow> bool) \<Rightarrow> packet_header \<Rightarrow> bool" where
  "wf_header cal h \<longleftrightarrow>
     wf_address (origin h) \<and> wf_address (destination h) \<and> length (password h) = 8 \<and>
     length (product h) = 4 \<and> length (product_data h) = 4 \<and> length (spare h) = 20 \<and>
     cal (created h) \<and> wf_datetime (created h) \<and> baud h \<noteq> 2 \<and>
     (if profile h = Type2Plus then spare h = take 20 (drop 38 (header_encode h))
      else point (origin h) = 0 \<and> point (destination h) = 0 \<and> product h ! 2 = spare h ! 4 \<and>
        product h ! 3 = spare h ! 5 \<and> product_data h = drop 16 (spare h) \<and>
        \<not> (u16_of (spare h ! 7) (spare h ! 6) AND 1 \<noteq> 0 \<and>
           swap_bytes (u16_of (spare h ! 7) (spare h ! 6)) = u16_of (spare h ! 3) (spare h ! 2)))"

definition base_words :: "packet_header \<Rightarrow> (nat \<times> u16) list" where
  "base_words h =
     [(0, node (origin h)), (2, node (destination h)), (4, of_nat (year (created h))),
      (6, of_nat (month (created h) - 1)), (8, of_nat (day (created h))),
      (10, of_nat (hour (created h))), (12, of_nat (minute (created h))),
      (14, of_nat (second (created h))), (16, baud h), (18, 2), (20, net (origin h)),
      (22, net (destination h)), (34, zone (origin h)), (36, zone (destination h))]"

lemma map_of_rev_distinct: "distinct (map fst ps) \<Longrightarrow> map_of (rev ps) = map_of ps"
proof (induction ps)
  case (Cons p ps)
  then have "map_of ps (fst p) = None" by (simp add: map_of_eq_None_iff)
  with Cons show ?case by (auto simp: map_add_def split: option.splits)
qed simp

lemma length_header_base: "length (password h) = 8 \<Longrightarrow> length (header_base h) = 58"
  by (simp add: header_base_def word_offsets_def)

lemma word_at_header_base:
  "length (password h) = 8 \<Longrightarrow> even j \<Longrightarrow> j + 2 \<le> 24 \<or> (34 \<le> j \<and> j + 2 \<le> 58) \<Longrightarrow>
     word_at (header_base h) j = Inr (case map_of (base_words h) j of Some v \<Rightarrow> v | None \<Rightarrow> 0)"
proof -
  assume p: "length (password h) = 8" and j: "even j" "j + 2 \<le> 24 \<or> (34 \<le> j \<and> j + 2 \<le> 58)"
  let ?b = "set_words (replicate 58 0) (base_words h)"
  have off: "word_offsets 58 (base_words h)" by (simp add: base_words_def word_offsets_def)
  then have len: "length ?b = 58" by simp
  have "word_at (header_base h) j = word_at ?b j"
    using p j len unfolding header_base_def base_words_def
    by (auto simp: word_at_blit_other)
  also have "\<dots> = (case map_of (rev (base_words h)) j of Some v \<Rightarrow> Inr v | None \<Rightarrow> word_at (replicate 58 0) j)"
    using j off by (intro word_at_set_words) auto
  also have "map_of (rev (base_words h)) j = map_of (base_words h) j"
    by (rule map_of_rev_distinct [THEN fun_cong]) (simp add: base_words_def)
  also have "word_at (replicate 58 0) j = Inr 0"
    using j by (auto simp: word_at_nth u16_of_def)
  finally show ?thesis by (simp split: option.splits)
qed

definition plus_words :: "packet_header \<Rightarrow> (nat \<times> u16) list" where
  "plus_words h =
     (if point (origin h) \<noteq> 0 then [(20, 65535), (38, net (origin h))] else []) @
     [(40, 256), (44, 1), (46, zone (origin h)), (48, zone (destination h)),
      (50, point (origin h)), (52, point (destination h))]"

lemma header_encode_plus:
  "profile h = Type2Plus \<Longrightarrow> header_encode h =
     blit (blit (blit (set_words (header_base h) (plus_words h)) 42 [product h ! 2]) 43 [product h ! 3])
       54 (product_data h)"
  by (simp add: header_encode_def Let_def plus_words_def set_words_def)

lemma word_offsets_plus: "word_offsets 58 (plus_words h)"
  by (simp add: plus_words_def word_offsets_def)

lemma length_header_encode: "wf_header cal h \<Longrightarrow> length (header_encode h) = 58"
proof (cases "profile h")
  case Type2
  then show "wf_header cal h \<Longrightarrow> ?thesis"
    by (simp add: header_encode_def wf_header_def length_header_base)
next
  case Type2Plus
  assume "wf_header cal h"
  with word_offsets_plus [of h] Type2Plus show ?thesis
    by (simp add: header_encode_plus wf_header_def length_header_base)
qed

lemma word_at_type2:
  assumes h: "wf_header cal h" and p: "profile h = Type2" and j: "even j"
  shows "j + 2 \<le> 24 \<or> (34 \<le> j \<and> j + 2 \<le> 38) \<Longrightarrow>
      word_at (header_encode h) j = Inr (case map_of (base_words h) j of Some v \<Rightarrow> v | None \<Rightarrow> 0)"
    and "38 \<le> j \<Longrightarrow> j + 2 \<le> 58 \<Longrightarrow> word_at (header_encode h) j = word_at (spare h) (j - 38)"
proof -
  from h have l: "length (password h) = 8" "length (spare h) = 20" by (simp_all add: wf_header_def)
  then have b: "length (header_base h) = 58" by (simp add: length_header_base)
  show "word_at (header_encode h) j = Inr (case map_of (base_words h) j of Some v \<Rightarrow> v | None \<Rightarrow> 0)"
    if "j + 2 \<le> 24 \<or> (34 \<le> j \<and> j + 2 \<le> 38)"
  proof -
    have "word_at (header_encode h) j = word_at (header_base h) j"
      using that b l p by (auto simp: header_encode_def word_at_blit_other)
    also have "\<dots> = Inr (case map_of (base_words h) j of Some v \<Rightarrow> v | None \<Rightarrow> 0)"
      using that l j by (intro word_at_header_base) auto
    finally show ?thesis .
  qed
  show "word_at (header_encode h) j = word_at (spare h) (j - 38)" if "38 \<le> j" "j + 2 \<le> 58"
    using that b l p by (simp add: header_encode_def word_at_blit_in)
qed

lemma word_at_plus:
  assumes h: "wf_header cal h" and p: "profile h = Type2Plus" and j: "even j"
    and r: "j + 2 \<le> 24 \<or> (34 \<le> j \<and> j + 2 \<le> 42) \<or> (44 \<le> j \<and> j + 2 \<le> 54)"
  shows "word_at (header_encode h) j =
    Inr (case map_of (plus_words h) j of Some v \<Rightarrow> v
         | None \<Rightarrow> (case map_of (base_words h) j of Some v \<Rightarrow> v | None \<Rightarrow> 0))"
proof -
  from h have l: "length (password h) = 8" "length (product_data h) = 4" by (simp_all add: wf_header_def)
  then have b: "length (header_base h) = 58" by (simp add: length_header_base)
  let ?b = "set_words (header_base h) (plus_words h)"
  have len: "length ?b = 58" using word_offsets_plus [of h] b by simp
  have "word_at (header_encode h) j = word_at ?b j"
    using r len l by (auto simp: header_encode_plus [OF p] word_at_blit_other)
  also have "\<dots> = (case map_of (rev (plus_words h)) j of Some v \<Rightarrow> Inr v | None \<Rightarrow> word_at (header_base h) j)"
    using j r b word_offsets_plus [of h] by (intro word_at_set_words) auto
  also have "map_of (rev (plus_words h)) j = map_of (plus_words h) j"
    by (rule map_of_rev_distinct [THEN fun_cong]) (auto simp: plus_words_def)
  also have "word_at (header_base h) j = Inr (case map_of (base_words h) j of Some v \<Rightarrow> v | None \<Rightarrow> 0)"
    using l j r by (intro word_at_header_base) auto
  finally show ?thesis by (simp split: option.splits)
qed

lemma blit_read: "i + length xs \<le> length b \<Longrightarrow> n = length xs \<Longrightarrow> take n (drop i (blit b i xs)) = xs"
  by (simp add: blit_def)

lemma blit_read_other:
  "i + length xs \<le> length b \<Longrightarrow> k + n \<le> length b \<Longrightarrow> k + n \<le> i \<or> i + length xs \<le> k \<Longrightarrow>
     take n (drop k (blit b i xs)) = take n (drop k b)"
  by (rule nth_equalityI) (auto simp: nth_blit)

lemma base_product:
  "length (password h) = 8 \<Longrightarrow> header_base h ! 24 = product h ! 0 \<and> header_base h ! 25 = product h ! 1"
  by (simp add: header_base_def nth_blit word_offsets_def)

lemma header_bytes:
  assumes h: "wf_header cal h"
  shows "take 8 (drop 26 (header_encode h)) = password h"
    and "[header_encode h ! 24, header_encode h ! 25, header_encode h ! 42, header_encode h ! 43] = product h"
    and "take 4 (drop 54 (header_encode h)) = product_data h"
    and "take 20 (drop 38 (header_encode h)) = spare h"
proof -
  from h have l: "length (password h) = 8" "length (product_data h) = 4" "length (spare h) = 20"
    "length (product h) = 4" by (simp_all add: wf_header_def)
  then have b: "length (header_base h) = 58" by (simp add: length_header_base)
  have pw: "take 8 (drop 26 (header_base h)) = password h"
    unfolding header_base_def using l by (intro blit_read) (simp_all add: word_offsets_def)
  have prod: "[product h ! 0, product h ! 1, product h ! 2, product h ! 3] = product h"
    using l(4) by (auto simp: list_eq_iff_nth_eq less_Suc_eq eval_nat_numeral)
  have "take 8 (drop 26 (header_encode h)) = password h \<and>
    [header_encode h ! 24, header_encode h ! 25, header_encode h ! 42, header_encode h ! 43] = product h \<and>
    take 4 (drop 54 (header_encode h)) = product_data h \<and>
    take 20 (drop 38 (header_encode h)) = spare h"
  proof (cases "profile h")
    case Type2
    let ?e = "blit (header_base h) 38 (spare h)"
    have e: "header_encode h = ?e" using Type2 by (simp add: header_encode_def)
    have "take 20 (drop 38 ?e) = spare h" using b l by (intro blit_read) simp_all
    moreover from this have "drop 16 (take 20 (drop 38 ?e)) = drop 16 (spare h)" by simp
    then have "take 4 (drop 54 ?e) = drop 16 (spare h)" by (simp add: drop_take)
    moreover have "take 8 (drop 26 ?e) = password h" using b l pw by (simp add: blit_read_other)
    moreover have "[?e ! 24, ?e ! 25, ?e ! 42, ?e ! 43] = product h"
      using b l prod h Type2 base_product [OF l(1)] by (simp add: nth_blit wf_header_def)
    ultimately show ?thesis using h Type2 by (simp add: e wf_header_def)
  next
    case Type2Plus
    let ?w = "set_words (header_base h) (plus_words h)"
    have lw: "length ?w = 58" using word_offsets_plus [of h] b by simp
    have keep: "?w ! k = header_base h ! k" if "24 \<le> k" "k < 34" for k
      using that b word_offsets_plus [of h] by (intro nth_set_words) (auto simp: plus_words_def)
    note e = header_encode_plus [OF Type2Plus]
    have "take 8 (drop 26 (header_encode h)) = take 8 (drop 26 ?w)"
      using lw l by (simp add: e blit_read_other)
    also have "\<dots> = take 8 (drop 26 (header_base h))"
      using lw b keep by (intro nth_equalityI) auto
    finally have "take 8 (drop 26 (header_encode h)) = password h" using pw by simp
    moreover have "take 4 (drop 54 (header_encode h)) = product_data h"
      unfolding e using lw l by (intro blit_read) simp_all
    moreover have "[header_encode h ! 24, header_encode h ! 25, header_encode h ! 42, header_encode h ! 43] = product h"
      using lw l prod keep [of 24] keep [of 25] base_product [OF l(1)] by (simp add: e nth_blit)
    ultimately show ?thesis using h Type2Plus by (simp add: wf_header_def)
  qed
  then show "take 8 (drop 26 (header_encode h)) = password h"
    and "[header_encode h ! 24, header_encode h ! 25, header_encode h ! 42, header_encode h ! 43] = product h"
    and "take 4 (drop 54 (header_encode h)) = product_data h"
    and "take 20 (drop 38 (header_encode h)) = spare h" by blast+
qed

lemma one_and_one [simp]: "(1 :: u16) AND 1 = 1"
  by simp

lemma base_lookup:
  "map_of (base_words h) 0 = Some (node (origin h))" "map_of (base_words h) 2 = Some (node (destination h))"
  "map_of (base_words h) 4 = Some (of_nat (year (created h)))"
  "map_of (base_words h) 6 = Some (of_nat (month (created h) - 1))"
  "map_of (base_words h) 8 = Some (of_nat (day (created h)))"
  "map_of (base_words h) 10 = Some (of_nat (hour (created h)))"
  "map_of (base_words h) 12 = Some (of_nat (minute (created h)))"
  "map_of (base_words h) 14 = Some (of_nat (second (created h)))"
  "map_of (base_words h) 16 = Some (baud h)" "map_of (base_words h) 18 = Some 2"
  "map_of (base_words h) 20 = Some (net (origin h))" "map_of (base_words h) 22 = Some (net (destination h))"
  "map_of (base_words h) 34 = Some (zone (origin h))" "map_of (base_words h) 36 = Some (zone (destination h))"
  "map_of (base_words h) 38 = None" "map_of (base_words h) 40 = None" "map_of (base_words h) 44 = None"
  by (simp_all add: base_words_def)

text \<open>Every word the decoder reads, in an encoded header.\<close>

lemma header_words:
  assumes h: "wf_header cal h" and j: "even j" "j + 2 \<le> 24 \<or> j = 34 \<or> j = 36"
    and "profile h = Type2 \<or> j \<noteq> 20"
  shows "word_at (header_encode h) j = Inr (case map_of (base_words h) j of Some v \<Rightarrow> v | None \<Rightarrow> 0)"
proof (cases "profile h")
  case Type2
  show ?thesis using word_at_type2(1) [OF h Type2 j(1)] j(2) by auto
next
  case Type2Plus
  have "map_of (plus_words h) j = None" using j(2) assms(4) Type2Plus by (auto simp: plus_words_def map_of_eq_None_iff)
  then show ?thesis using word_at_plus [OF h Type2Plus j(1)] j(2) by auto
qed

lemma created_round_trip: "wf_header cal h \<Longrightarrow> header_created cal (header_encode h) = Inr (created h)"
proof -
  assume h: "wf_header cal h"
  obtain y mo d hr mi s where c: "created h = \<lparr>year = y, month = mo, day = d, hour = hr, minute = mi, second = s\<rparr>"
    by (cases "created h") auto
  from h have ok: "cal (created h)" and b: "y \<le> 9999" "1 \<le> mo" "mo \<le> 12" "d \<le> 31" "hr \<le> 23" "mi \<le> 59" "s \<le> 59"
    by (simp_all add: wf_header_def wf_datetime_def c)
  obtain m where m: "mo = Suc m" using b(2) by (cases mo) auto
  show ?thesis
    using ok b by (simp add: header_created_def header_words [OF h] base_lookup c m unat_of_nat_u16 Let_def)
qed

lemma is_plus_round_trip: "wf_header cal h \<Longrightarrow> is_plus (header_encode h) = Inr (profile h = Type2Plus)"
proof (cases "profile h")
  case Type2
  assume h: "wf_header cal h"
  then have "length (spare h) = 20" by (simp add: wf_header_def)
  with h Type2 show ?thesis
    by (simp add: is_plus_def word_at_type2(2) [OF h Type2] word_at_nth wf_header_def)
next
  case Type2Plus
  assume h: "wf_header cal h"
  have "swap_bytes 1 = 256" by (simp add: swap_bytes_def u16_of_def hi_byte_def lo_byte_def)
  then show ?thesis
    by (simp add: is_plus_def word_at_plus [OF h Type2Plus] plus_words_def Type2Plus)
qed

lemma plus_zone_same [simp]: "plus_zone z z = Inr z"
  by (simp add: plus_zone_def)

lemma zones_round_trip:
  "wf_header cal h \<Longrightarrow>
     header_zones (header_encode h) (profile h = Type2Plus) ctx = Inr (zone (origin h), zone (destination h))"
proof (cases "profile h")
  case Type2
  assume h: "wf_header cal h"
  then have "zone (origin h) \<noteq> 0" "zone (destination h) \<noteq> 0" by (simp_all add: wf_header_def wf_address_def)
  then show ?thesis by (simp add: header_zones_def header_words [OF h] base_lookup Type2)
next
  case Type2Plus
  assume h: "wf_header cal h"
  then have "zone (origin h) \<noteq> 0" "zone (destination h) \<noteq> 0" by (simp_all add: wf_header_def wf_address_def)
  then show ?thesis
    by (simp add: header_zones_def header_words [OF h] base_lookup Type2Plus
        word_at_plus [OF h Type2Plus] plus_words_def)
qed

lemma addresses_round_trip:
  "wf_header cal h \<Longrightarrow>
     header_addresses (header_encode h) (profile h = Type2Plus) (zone (origin h), zone (destination h)) =
       Inr (origin h, destination h)"
proof (cases "profile h")
  case Type2
  assume h: "wf_header cal h"
  with Type2 have a: "wf_address (origin h)" "wf_address (destination h)" "point (origin h) = 0" "point (destination h) = 0"
    by (simp_all add: wf_header_def)
  then show ?thesis
    using address_new_parts [OF a(1)] address_new_parts [OF a(2)]
    by (simp add: header_addresses_def header_words [OF h] base_lookup Type2)
next
  case Type2Plus
  assume h: "wf_header cal h"
  then have a: "wf_address (origin h)" "wf_address (destination h)" by (simp_all add: wf_header_def)
  then show ?thesis
    using address_new_parts [OF a(1)] address_new_parts [OF a(2)]
    by (cases "point (origin h) = 0")
      (simp_all add: header_addresses_def header_words [OF h] base_lookup Type2Plus
        word_at_plus [OF h Type2Plus] plus_words_def)
qed

lemma header_round_trip: "wf_header cal h \<Longrightarrow> header_decode cal (header_encode h @ rest) ctx = Inr h"
proof -
  assume h: "wf_header cal h"
  note len = length_header_encode [OF h]
  have app: "is_plus (header_encode h @ rest) = is_plus (header_encode h)"
    "header_zones (header_encode h @ rest) pl ctx = header_zones (header_encode h) pl ctx"
    "header_addresses (header_encode h @ rest) pl zs = header_addresses (header_encode h) pl zs"
    "header_created cal (header_encode h @ rest) = header_created cal (header_encode h)" for pl zs
    using len by (simp_all add: is_plus_def header_zones_def header_addresses_def header_created_def cong: if_cong)
  have slices: "take n (drop i (header_encode h @ rest)) = take n (drop i (header_encode h))"
    if "i + n \<le> 58" for i n using that len by simp
  have bytes: "(header_encode h @ rest) ! i = header_encode h ! i" if "i < 58" for i
    using that len by (simp add: nth_append)
  have bd: "word_at (header_encode h @ rest) 16 = Inr (baud h)"
    using len by (simp add: header_words [OF h] base_lookup)
  have "header_decode cal (header_encode h @ rest) ctx =
      Inr \<lparr>profile = (if profile h = Type2Plus then Type2Plus else Type2), origin = origin h,
           destination = destination h, created = created h, password = password h,
           product = product h, product_data = product_data h, baud = baud h, spare = spare h\<rparr>"
    unfolding header_decode_def
    by (simp add: app is_plus_round_trip [OF h] created_round_trip [OF h] zones_round_trip [OF h]
        addresses_round_trip [OF h] bd slices bytes header_bytes [OF h] del: take_append drop_append)
  moreover have "(if profile h = Type2Plus then Type2Plus else Type2) = profile h"
    by (cases "profile h") simp_all
  ultimately show ?thesis by simp
qed

section \<open>Messages\<close>

definition wf_cstring :: "nat \<Rightarrow> bytes \<Rightarrow> bool" where
  "wf_cstring m s \<longleftrightarrow> length s \<le> m \<and> 0 \<notin> set s"

definition wf_message :: "packed_message \<Rightarrow> bool" where
  "wf_message m \<longleftrightarrow>
     fst (m_origin m) \<noteq> 0 \<and> fst (m_destination m) \<noteq> 0 \<and> length (date m) = 20 \<and> date m ! 19 = 0 \<and>
     wf_cstring 35 (m_to m) \<and> wf_cstring 35 (m_from m) \<and> wf_cstring 71 (subject m) \<and>
     wf_cstring MAX_TEXT (m_text m)"

lemma position_append_first: "0 \<notin> set s \<Longrightarrow> position (\<lambda>b. b = 0) (s @ 0 # r) = Some (length s)" for s :: bytes
  by (induction s) auto

lemma cstring_encoded: "wf_cstring m s \<Longrightarrow> cstring (s @ 0 # rest) m = Inr (s, rest)"
proof -
  assume s: "wf_cstring m s"
  then have "take (m + 1) (s @ 0 # rest) = s @ 0 # take (m - length s) rest"
    by (simp add: wf_cstring_def Suc_diff_le)
  moreover have "0 \<notin> set s" using s by (simp add: wf_cstring_def)
  ultimately show ?thesis by (simp add: cstring_def position_append_first)
qed

lemma cstring_wf: "cstring r m = Inr (s, r') \<Longrightarrow> wf_cstring m s \<and> r = s @ 0 # r'"
proof -
  assume c: "cstring r m = Inr (s, r')"
  then obtain n where n: "position (\<lambda>b. b = 0) (take (m + 1) r) = Some n"
    and s: "s = take n r" and r': "r' = drop (Suc n) r"
    by (auto simp: cstring_def split: option.splits)
  from position_SomeD [OF n] have b: "n < length r" "n \<le> m" "r ! n = 0" "\<forall>j < n. r ! j \<noteq> 0" by auto
  have "0 \<notin> set s" using b by (auto simp: s in_set_conv_nth)
  moreover have "r = take n r @ r ! n # drop (Suc n) r" using b(1) by (rule id_take_nth_drop)
  ultimately show ?thesis using b by (simp add: wf_cstring_def s r')
qed

lemma cstring_encode_ok: "wf_cstring m s \<Longrightarrow> cstring_encode s m = Inr (s @ [0])"
  by (simp add: wf_cstring_def cstring_encode_def)

definition message_bytes :: "packed_message \<Rightarrow> bytes" where
  "message_bytes m =
     le_bytes 2 @ le_bytes (snd (m_origin m)) @ le_bytes (snd (m_destination m)) @
     le_bytes (fst (m_origin m)) @ le_bytes (fst (m_destination m)) @ le_bytes (attributes m) @
     le_bytes (cost m) @ date m @ m_to m @ [0] @ m_from m @ [0] @ subject m @ [0] @ m_text m @ [0]"

lemma message_encode_ok: "wf_message m \<Longrightarrow> message_encode m = Inr (message_bytes m)"
  by (simp add: message_encode_def wf_message_def cstring_encode_ok message_bytes_def)

lemma word_at_cons2: "word_at (le_bytes v @ r) 0 = Inr v" "word_at (a # b # r) (Suc (Suc i)) = word_at r i"
  by (simp_all add: word_at_def get_range_def le_bytes_def)

lemma message_decode_bytes:
  "wf_message m \<Longrightarrow> message_decode (drop 2 (message_bytes m) @ rest) = Inr (m, rest)"
proof -
  assume m: "wf_message m"
  define h where "h = le_bytes (snd (m_origin m)) @ le_bytes (snd (m_destination m)) @
     le_bytes (fst (m_origin m)) @ le_bytes (fst (m_destination m)) @ le_bytes (attributes m) @
     le_bytes (cost m) @ date m"
  define t where "t = m_to m @ 0 # m_from m @ 0 # subject m @ 0 # m_text m @ 0 # rest"
  have len: "length h = 32" using m by (simp add: h_def wf_message_def)
  have b: "drop 2 (message_bytes m) @ rest = h @ t" by (simp add: message_bytes_def h_def t_def)
  have w: "word_at h 0 = Inr (snd (m_origin m))" "word_at h 2 = Inr (snd (m_destination m))"
    "word_at h 4 = Inr (fst (m_origin m))" "word_at h 6 = Inr (fst (m_destination m))"
    "word_at h 8 = Inr (attributes m)" "word_at h 10 = Inr (cost m)"
    using len by (simp_all add: word_at_nth) (simp_all add: h_def le_bytes_def nth_append)
  have d: "drop 12 h = date m" "h ! 31 = date m ! 19"
    by (simp_all add: h_def nth_append)
  have g: "get_range (h @ t) 0 32 = Some h" "drop 32 (h @ t) = t"
    using len by (simp_all add: get_range_def)
  from m have cs: "wf_cstring 35 (m_to m)" "wf_cstring 35 (m_from m)" "wf_cstring 71 (subject m)"
    "wf_cstring MAX_TEXT (m_text m)" and ok: "fst (m_origin m) \<noteq> 0" "fst (m_destination m) \<noteq> 0" "date m ! 19 = 0"
    by (simp_all add: wf_message_def)
  show ?thesis
    unfolding b message_decode_def g
    by (simp add: w d ok, simp add: t_def cstring_encoded cs)
qed

lemma message_decode_wf: "message_decode r = Inr (m, r') \<Longrightarrow> wf_message m"
  by (auto simp: message_decode_def result_simps wf_message_def get_range_def
      dest!: cstring_wf split: if_splits)

lemma messages_decode_bytes:
  "list_all wf_message ms \<Longrightarrow> n + length ms \<le> MAX_MESSAGES \<Longrightarrow>
     messages_decode n (concat (map message_bytes ms) @ [0, 0]) = Inr ms"
proof (induction ms arbitrary: n)
  case Nil
  have "word_at [0, 0] 0 = Inr 0" by (simp add: word_at_def get_range_def u16_of_def)
  then show ?case by (simp add: messages_decode.simps [of n "[0, 0]"])
next
  case (Cons m ms)
  let ?rest = "concat (map message_bytes ms) @ [0, 0]"
  have k: "word_at (message_bytes m @ ?rest) 0 = Inr 2"
    by (simp add: message_bytes_def word_at_cons2)
  have d: "drop 2 (message_bytes m @ ?rest) = drop 2 (message_bytes m) @ ?rest"
    by (simp add: message_bytes_def)
  have "messages_decode n (message_bytes m @ ?rest) = Inr (m # ms)"
    using Cons by (subst messages_decode.simps) (simp add: k d message_decode_bytes del: append_assoc drop_append)
  then show ?case by simp
qed

text \<open>The one way for the loop to accept a message.\<close>

lemma messages_decode_step:
  assumes "messages_decode n r = Inr ms" "word_at r 0 = Inr kind" "kind \<noteq> 0"
  obtains m r' ms' where "kind = 2" "\<not> MAX_MESSAGES \<le> n" "message_decode (drop 2 r) = Inr (m, r')"
    "messages_decode (n + 1) r' = Inr ms'" "ms = m # ms'"
  using assms by (subst (asm) messages_decode.simps)
    (auto simp: result_simps split: sum.splits if_splits prod.splits)

lemma messages_decode_ok:
  "messages_decode n r = Inr ms \<Longrightarrow> n \<le> MAX_MESSAGES \<Longrightarrow>
     list_all wf_message ms \<and> n + length ms \<le> MAX_MESSAGES"
proof (induction n r arbitrary: ms rule: messages_decode.induct)
  case (1 n r)
  from "1.prems"(1) obtain kind where k: "word_at r 0 = Inr kind"
    by (subst (asm) messages_decode.simps) (auto split: sum.splits)
  show ?case
  proof (cases "kind = 0")
    case True
    with "1.prems" k show ?thesis by (subst (asm) messages_decode.simps) (auto split: if_splits)
  next
    case False
    then obtain m r' ms' where ok: "kind = 2" "\<not> MAX_MESSAGES \<le> n"
      and m: "message_decode (drop 2 r) = Inr (m, r')" and ms': "messages_decode (n + 1) r' = Inr ms'"
      and ms: "ms = m # ms'"
      using messages_decode_step [OF "1.prems"(1) k] by metis
    have "list_all wf_message ms' \<and> n + 1 + length ms' \<le> MAX_MESSAGES"
      using "1.IH" [OF k False _ ok(2) m _ ms'] ok by simp
    then show ?thesis using message_decode_wf [OF m] by (simp add: ms)
  qed
qed

lemma cstring_extend: "cstring r m = Inr (s, r') \<Longrightarrow> cstring (r @ e) m = Inr (s, r' @ e)"
  using cstring_encoded [of m s "r' @ e"] by (auto dest!: cstring_wf)

lemma message_decode_extend:
  "message_decode r = Inr (m, r') \<Longrightarrow> message_decode (r @ e) = Inr (m, r' @ e)"
proof -
  assume d: "message_decode r = Inr (m, r')"
  then have g: "get_range r 0 32 = Some (take 32 r)" and len: "32 \<le> length r"
    by (auto simp: message_decode_def result_simps get_range_def split: if_splits)
  have g': "get_range (r @ e) 0 32 = Some (take 32 r)" and dr: "drop 32 (r @ e) = drop 32 r @ e"
    using len by (simp_all add: get_range_def)
  from d show ?thesis
    unfolding message_decode_def g g' dr
    by (auto simp: result_simps cstring_extend split: if_splits)
qed

lemma messages_decode_extend:
  "messages_decode n r = Inr ms \<Longrightarrow> e \<noteq> [] \<Longrightarrow> messages_decode n (r @ e) = Inl ErrPacket"
proof (induction n r arbitrary: ms rule: messages_decode.induct)
  case (1 n r)
  from "1.prems"(1) obtain kind where k: "word_at r 0 = Inr kind"
    by (subst (asm) messages_decode.simps) (auto split: sum.splits)
  then have len: "2 \<le> length r" by (auto simp: word_at_def get_range_def result_simps split: if_splits)
  then have k': "word_at (r @ e) 0 = Inr kind" and dr: "drop 2 (r @ e) = drop 2 r @ e"
    using k by simp_all
  show ?case
  proof (cases "kind = 0")
    case True
    then show ?thesis
      using "1.prems"(2) by (subst messages_decode.simps) (simp add: k' dr del: drop_append)
  next
    case False
    then obtain m r' ms' where ok: "kind = 2" "\<not> MAX_MESSAGES \<le> n"
      and m: "message_decode (drop 2 r) = Inr (m, r')" and ms': "messages_decode (n + 1) r' = Inr ms'"
      using messages_decode_step [OF "1.prems"(1) k] by metis
    have "messages_decode (n + 1) (r' @ e) = Inl ErrPacket"
      using "1.IH" [OF k False _ ok(2) m _ ms' "1.prems"(2)] ok by simp
    then show ?thesis
      using False ok message_decode_extend [OF m, of e]
      by (subst messages_decode.simps) (simp add: k' dr del: drop_append)
  qed
qed

section \<open>The packet codec\<close>

definition packet_bytes :: "packet \<Rightarrow> bytes" where
  "packet_bytes p = header_encode (header p) @ concat (map message_bytes (messages p)) @ [0, 0]"

definition wf_packet :: "(datetime \<Rightarrow> bool) \<Rightarrow> packet \<Rightarrow> bool" where
  "wf_packet cal p \<longleftrightarrow> wf_header cal (header p) \<and> list_all wf_message (messages p) \<and>
     length (messages p) \<le> MAX_MESSAGES \<and> length (packet_bytes p) \<le> MAX_PACKET"

lemma messages_encode_ok:
  "list_all wf_message ms \<Longrightarrow> length (b @ concat (map message_bytes ms)) + 2 \<le> MAX_PACKET \<Longrightarrow>
     messages_encode b ms = Inr (b @ concat (map message_bytes ms))"
  by (induction ms arbitrary: b) (auto simp: message_encode_ok)

lemma packet_encode_ok: "wf_packet cal p \<Longrightarrow> packet_encode p = Inr (packet_bytes p)"
proof -
  assume p: "wf_packet cal p"
  then have "messages_encode (header_encode (header p)) (messages p) =
      Inr (header_encode (header p) @ concat (map message_bytes (messages p)))"
    by (intro messages_encode_ok) (simp_all add: wf_packet_def packet_bytes_def)
  with p show ?thesis
    by (auto simp: packet_encode_def packet_bytes_def wf_packet_def wf_header_def wf_datetime_def)
qed

lemma packet_decode_bytes: "wf_packet cal p \<Longrightarrow> packet_decode cal (packet_bytes p) ctx = Inr p"
proof -
  assume p: "wf_packet cal p"
  then have h: "wf_header cal (header p)" by (simp add: wf_packet_def)
  let ?rest = "concat (map message_bytes (messages p)) @ [0, 0]"
  have b: "packet_bytes p = header_encode (header p) @ ?rest" by (simp add: packet_bytes_def)
  have len: "length (header_encode (header p)) = 58" by (rule length_header_encode [OF h])
  have w: "word_at (packet_bytes p) 18 = Inr 2" "word_at (packet_bytes p) 16 = Inr (baud (header p))"
    unfolding b using len by (simp_all add: header_words [OF h] base_lookup)
  have "messages_decode 0 (drop 58 (packet_bytes p)) = Inr (messages p)"
    using p messages_decode_bytes [of "messages p" 0] len by (simp add: b wf_packet_def)
  moreover have "header_decode cal (packet_bytes p) ctx = Inr (header p)"
    unfolding b by (rule header_round_trip [OF h])
  moreover have "\<not> length (packet_bytes p) < 60" using len by (simp add: b)
  ultimately show ?thesis
    using p h by (simp add: packet_decode_def w wf_packet_def wf_header_def)
qed

interpretation pkt: total_codec packet_encode "\<lambda>b. packet_decode cal b ctx" "wf_packet cal" for cal ctx
  by unfold_locales (auto simp: packet_encode_ok packet_decode_bytes)

lemma header_decode_extend:
  "60 \<le> length b \<Longrightarrow> header_decode cal (b @ e) ctx = header_decode cal b ctx"
proof -
  assume len: "60 \<le> length b"
  then have "is_plus (b @ e) = is_plus b"
    "header_zones (b @ e) pl ctx = header_zones b pl ctx"
    "header_addresses (b @ e) pl zs = header_addresses b pl zs"
    "header_created cal (b @ e) = header_created cal b" for pl zs
    by (simp_all add: is_plus_def header_zones_def header_addresses_def header_created_def cong: if_cong)
  with len show ?thesis by (simp add: header_decode_def nth_append)
qed

lemma header_decode_wf: "header_decode cal b ctx = Inr h \<Longrightarrow>
    wf_address (origin h) \<and> wf_address (destination h) \<and> cal (created h)"
  by (auto simp: header_decode_def header_addresses_def header_created_def result_simps Let_def
      dest: address_new_wf split: if_splits)

section \<open>An example\<close>

text \<open>A Type-2+ header from a point; its retained bytes are the ones the encoder writes.\<close>

definition sample_fields :: packet_header where
  "sample_fields =
     \<lparr>profile = Type2Plus, origin = Address 1 234 5 6, destination = Address 1 100 1 0,
      created = \<lparr>year = 2026, month = 2, day = 28, hour = 23, minute = 59, second = 58\<rparr>,
      password = [83, 69, 67, 82, 69, 84, 0, 0], product = [254, 1, 0, 2], product_data = [1, 2, 3, 4],
      baud = 0, spare = []\<rparr>"

definition sample_header :: packet_header where
  "sample_header = sample_fields\<lparr>spare := take 20 (drop 38 (header_encode sample_fields))\<rparr>"

definition sample_message :: packed_message where
  "sample_message =
     \<lparr>m_origin = (234, 5), m_destination = (100, 1), attributes = 1, cost = 0,
      date = [50, 56, 32, 70, 101, 98, 32, 50, 54, 32, 32, 50, 51, 58, 53, 57, 58, 53, 56, 0],
      m_to = [83, 121, 115, 111, 112], m_from = [74, 111, 101], subject = [72, 105],
      m_text = [72, 101, 108, 108, 111, 13]\<rparr>"

definition sample_packet :: packet where
  "sample_packet = \<lparr>header = sample_header, messages = [sample_message]\<rparr>"

lemma header_encode_spare: "profile h = Type2Plus \<Longrightarrow> header_encode (h\<lparr>spare := s\<rparr>) = header_encode h"
  by (simp add: header_encode_plus plus_words_def) (simp add: header_base_def)

lemma wf_sample: "wf_packet (\<lambda>t. day t \<le> 31) sample_packet"
proof -
  have plus: "profile sample_fields = Type2Plus" by (simp add: sample_fields_def)
  have l: "length (password sample_fields) = 8" "length (product_data sample_fields) = 4"
    by (simp_all add: sample_fields_def)
  then have "length (header_encode sample_fields) = 58"
    using word_offsets_plus [of sample_fields]
    by (simp add: header_encode_plus [OF plus] length_header_base)
  then have h: "wf_header (\<lambda>t. day t \<le> 31) sample_header"
    by (simp add: wf_header_def sample_header_def header_encode_spare [OF plus])
      (simp add: sample_fields_def wf_address_def wf_datetime_def)
  moreover have "wf_message sample_message"
    by (simp add: wf_message_def wf_cstring_def sample_message_def MAX_TEXT_def)
  moreover have "length (packet_bytes sample_packet) \<le> MAX_PACKET"
    using length_header_encode [OF h]
    by (simp add: packet_bytes_def sample_packet_def message_bytes_def sample_message_def MAX_PACKET_def)
  ultimately show ?thesis by (simp add: wf_packet_def sample_packet_def MAX_MESSAGES_def)
qed

section \<open>Properties\<close>

text \<open>
  C25.  Packets round-trip for both profiles: a well-formed packet is encoded, and decoding the
  bytes gives back its header (point addresses, password, product and retained spare bytes
  included) and every message in order, whatever zone context the caller supplies.
\<close>

theorem packet_round_trip:
  assumes "wf_packet cal p"
  shows "\<exists>b. packet_encode p = Inr b \<and> length b \<le> MAX_PACKET \<and> packet_decode cal b ctx = Inr p"
  using pkt.round_trip [OF assms, of ctx] assms
  by (auto simp: packet_encode_ok wf_packet_def)

theorem packet_round_trip_witness:
  "\<exists>b. packet_encode sample_packet = Inr b \<and> length b \<le> MAX_PACKET \<and>
     packet_decode (\<lambda>t. day t \<le> 31) b (0, 0) = Inr sample_packet"
  by (rule packet_round_trip [OF wf_sample])

text \<open>
  C26.  What the decoder accepts is bounded and complete: the addresses have a zone and a net, the
  calendar accepts the date, there are at most a thousand messages, each with NUL-free text
  fields within their sizes and non-zero nets, and any bytes after the terminator make the
  packet malformed, so an accepted packet is never a proper prefix of another.
\<close>

theorem packet_decode_strict:
  assumes "packet_decode cal b ctx = Inr p"
  shows "wf_address (origin (header p)) \<and> wf_address (destination (header p)) \<and> cal (created (header p)) \<and>
    length (messages p) \<le> 1000 \<and> list_all wf_message (messages p) \<and>
    (e = [] \<or> (\<exists>err. packet_decode cal (b @ e) ctx = Inl err))"
proof -
  from assms have len: "60 \<le> length b" and h: "header_decode cal b ctx = Inr (header p)"
    and ms: "messages_decode 0 (drop 58 b) = Inr (messages p)"
    by (auto simp: packet_decode_def result_simps split: if_splits)
  have "\<exists>err. packet_decode cal (b @ e) ctx = Inl err" if "e \<noteq> []"
  proof -
    have "messages_decode 0 (drop 58 b @ e) = Inl ErrPacket"
      by (rule messages_decode_extend [OF ms that])
    then have "drop 58 (b @ e) = drop 58 b @ e" "messages_decode 0 (drop 58 (b @ e)) = Inl ErrPacket"
      using len by simp_all
    with len h show ?thesis
      by (cases "MAX_PACKET < length (b @ e)")
        (auto simp: packet_decode_def header_decode_extend word_at_nth nth_append simp del: drop_append length_append)
  qed
  with messages_decode_ok [OF ms] header_decode_wf [OF h] show ?thesis
    by (auto simp: MAX_MESSAGES_def)
qed

theorem packet_decode_strict_witness:
  "\<exists>err. packet_decode (\<lambda>t. day t \<le> 31) (packet_bytes sample_packet @ [0]) (0, 0) = Inl err"
  using packet_decode_strict [OF packet_decode_bytes [OF wf_sample], of "[0]"] by simp

end
