(* ===== verification/Ftn_Directory.thy ===== *)
theory Ftn_Directory
  imports Ftn_Charset Sorted_Map Crc
begin

text \<open>
  \<open>crates/sf-net/src/ftn/directory.rs\<close>: nodelists, boss pointlists and combined pointlists.  The
  date of a profile comes from chrono; it is any type with a function for the day of the year.
  The closure that reads one record changes the zone, net and boss in force also when it fails,
  so \<open>directory_record\<close> returns them beside its result.
\<close>

section \<open>Data\<close>

datatype directory_format = Nodelist | Boss_Format | Combined

record 'd directory_profile =
  list_format :: directory_format
  list_charset :: charset
  list_date :: 'd
  list_zone :: u16
  list_crc :: bool

record internet_service =
  protocol :: string
  host :: "string option"
  port :: "u16 option"

record directory_entry =
  entry_address :: address
  keyword :: string
  system_name :: string
  location :: string
  sysop_name :: string
  phone :: string
  speed :: nat
  entry_flags :: "string list"
  services :: "internet_service list"
  entry_line :: nat
  entry_raw :: bytes

record directory_issue =
  issue_line :: nat
  issue_reason :: string

record directory_candidate =
  entries :: "directory_entry list"
  issues :: "directory_issue list"
  list_checksum :: "u16 option"

section \<open>Internet services\<close>

definition default_port :: "string \<Rightarrow> u16 option" where
  "default_port p =
     (if p = ''IBN'' then Some 24554 else if p = ''IFC'' then Some 60179 else if p = ''ITN'' then Some 23
      else if p = ''IFT'' then Some 21 else if p = ''IVM'' then Some 3141 else None)"

text \<open>A service flag's value: a bracketed host with a port, a host with a port, a port, or a host.\<close>

definition split_service :: "string \<Rightarrow> string \<Rightarrow> ftn_error + string \<times> string option" where
  "split_service v p =
     (if starts_with ''['' v then
        attempt (ok_or (position (\<lambda>c. c = CHR '']'') v) ErrDirectory) (\<lambda>e.
          (let rest = drop (e + 1) v in
           attempt (if rest = [] then Inr None
                    else attempt (ok_or (strip_prefix '':'' rest) ErrDirectory) (\<lambda>r. Inr (Some r)))
             (\<lambda>r. Inr (take (e + 1) v, r))))
      else
        (case rsplit_once CHR '':'' v of
           Some (h, r) \<Rightarrow> Inr (h, Some r)
         | None \<Rightarrow> Inr (if all_digits v \<and> p \<noteq> ''INA'' then ([], Some v) else (v, None))))"

definition host_char :: "char \<Rightarrow> bool" where
  "host_char c \<longleftrightarrow> \<not> (ord c \<le> 32 \<or> 127 \<le> ord c \<or> c \<in> {CHR ''/'', CHR 0x5C, CHR ''@''})"

definition service :: "string \<Rightarrow> string \<Rightarrow> ftn_error + internet_service" where
  "service v p =
     (if v = [] then Inr \<lparr>protocol = p, host = None, port = default_port p\<rparr>
      else
        attempt (split_service v p) (\<lambda>(h, r).
          if 255 < length h \<or> \<not> list_all host_char h then Inl ErrDirectory
          else
            attempt (case r of None \<Rightarrow> Inr None | Some r \<Rightarrow> attempt (number r) (\<lambda>n. Inr (Some n))) (\<lambda>r.
              (let r = (if r = None then default_port p else r) in
               if r = Some 0 then Inl ErrDirectory
               else Inr \<lparr>protocol = p, host = (if h = [] then None else Some h), port = r\<rparr>))))"

definition service_names :: "string list" where
  "service_names = [''INA'', ''IBN'', ''IFC'', ''ITN'', ''IFT'', ''IVM'']"

definition flag_service :: "string \<Rightarrow> (ftn_error + internet_service) option" where
  "flag_service f =
     (let (name, v) = unwrap_or (split_once CHR '':'' f) (f, []) in
      if name \<in> set service_names then Some (service v name) else None)"

definition flag_services :: "string list \<Rightarrow> ftn_error + internet_service list" where
  "flag_services fs = traverse (\<lambda>r. r) (List.map_filter flag_service fs)"

section \<open>Records\<close>

text \<open>The zone, the net and the boss that the records before put in force.\<close>

record walk =
  in_zone :: u16
  in_net :: "u16 option"
  in_boss :: "address option"

definition boss_header :: "'d directory_profile \<Rightarrow> string list \<Rightarrow> walk \<Rightarrow> (ftn_error + directory_entry) \<times> walk" where
  "boss_header p f w =
     (if list_format p \<noteq> Boss_Format \<or> length f < 2 then (Inl ErrDirectory, w)
      else
        chain (parse_address (f ! 1), w) (\<lambda>a w.
          if point a \<noteq> 0 then (Inl ErrDirectory, w)
          else (Inl ErrProfile, w\<lparr>in_boss := Some a\<rparr>)))"

definition record_address :: "'d directory_profile \<Rightarrow> string \<Rightarrow> u16 \<Rightarrow> walk \<Rightarrow> (ftn_error + address) \<times> walk" where
  "record_address p key n w =
     (if list_format p = Boss_Format then
        (if key \<noteq> [] then (Inl ErrDirectory, w)
         else (attempt (ok_or (in_boss w) ErrDirectory) (\<lambda>b. Inr (with_point b n)), w))
      else if key = ''Zone'' then
        (address_new n n 0 0, w\<lparr>in_zone := n, in_net := Some n, in_boss := None\<rparr>)
      else if key = ''Region'' \<or> key = ''Host'' then
        (address_new (in_zone w) n 0 0, w\<lparr>in_net := Some n, in_boss := None\<rparr>)
      else if key = ''Point'' \<and> list_format p = Combined then
        (attempt (ok_or (in_boss w) ErrDirectory) (\<lambda>b. Inr (with_point b n)), w)
      else if key \<in> {[], ''Hub'', ''Pvt'', ''Hold'', ''Down''} then
        chain (attempt (ok_or (in_net w) ErrDirectory) (\<lambda>m. address_new (in_zone w) m n 0), w)
          (\<lambda>a w. (Inr a, w\<lparr>in_boss := Some a\<rparr>))
      else (Inl ErrDirectory, w))"

definition underscores :: "string \<Rightarrow> string" where
  "underscores s = map (\<lambda>c. if c = CHR ''_'' then CHR '' '' else c) s"

definition directory_record ::
  "'d directory_profile \<Rightarrow> nat \<Rightarrow> bytes \<Rightarrow> string list \<Rightarrow> walk \<Rightarrow> (ftn_error + directory_entry) \<times> walk" where
  "directory_record p i r f w =
     (if hd f = ''Boss'' then boss_header p f w
      else if length f < 7 \<or> list_ex (\<lambda>s. 255 < length s \<or> CHR '' '' \<in> set s) f then (Inl ErrDirectory, w)
      else
        chain (number (f ! 1), w) (\<lambda>n w.
          if n = 0 then (Inl ErrAddress, w)
          else
            chain (record_address p (hd f) n w) (\<lambda>a w.
            chain (ok_or (parse_uint 4294967295 (f ! 6)) ErrDirectory, w) (\<lambda>sp w.
              (let fl = filter (\<lambda>s. s \<noteq> []) (drop 7 f) in
               chain (flag_services fl, w) (\<lambda>sv w.
                 (Inr \<lparr>entry_address = a, keyword = hd f, system_name = underscores (f ! 2),
                    location = underscores (f ! 3), sysop_name = underscores (f ! 4), phone = f ! 5,
                    speed = sp, entry_flags = fl, services = sv, entry_line = i + 1, entry_raw = r\<rparr>, w)))))))"

section \<open>The list\<close>

record loading =
  candidate :: directory_candidate
  known :: "(address, bytes) btree"
  walking :: walk

definition add_issue :: "nat \<Rightarrow> string \<Rightarrow> directory_candidate \<Rightarrow> directory_candidate" where
  "add_issue n s c = c\<lparr>issues := issues c @ [\<lparr>issue_line = n, issue_reason = s\<rparr>]\<rparr>"

definition take_result ::
  "'d directory_profile \<Rightarrow> nat \<Rightarrow> (ftn_error + directory_entry) \<times> walk \<Rightarrow> loading \<Rightarrow> loading" where
  "take_result p i r st =
     (case r of
        (Inr e, w) \<Rightarrow>
          st\<lparr>known := tree_insert (entry_address e) (entry_raw e) (known st), walking := w,
             candidate := (case tree_lookup (known st) (entry_address e) of
                Some old \<Rightarrow> add_issue (entry_line e)
                  (if old = entry_raw e then ''duplicate-address'' else ''conflicting-address'') (candidate st)
              | None \<Rightarrow> (candidate st)\<lparr>entries := entries (candidate st) @ [e]\<rparr>)\<rparr>
      | (Inl err, w) \<Rightarrow>
          if err = ErrProfile then st\<lparr>walking := w\<rparr>
          else st\<lparr>candidate := add_issue (i + 1) ''malformed-record'' (candidate st),
                 walking := w\<lparr>in_boss := None,
                   in_net := (if list_format p = Boss_Format then in_net w else None)\<rparr>\<rparr>)"

definition directory_line :: "'d directory_profile \<Rightarrow> loading \<Rightarrow> nat \<times> bytes \<Rightarrow> ftn_error + loading" where
  "directory_line p st ir =
     (case ir of (i, r) \<Rightarrow>
        if r = [] \<or> starts_with [59] r then Inr st
        else
          attempt (charset_decode (list_charset p) r) (\<lambda>l.
            Inr (take_result p i (directory_record p i r (split_on CHR '','' l) (walking st)) st)))"

definition directory_lines :: "bytes \<Rightarrow> ftn_error + bytes list" where
  "directory_lines bs =
     (let bs = unwrap_or (strip_suffix [26] bs) bs in
      if 26 \<in> set bs then Inl ErrDirectory
      else
        (let ls = take 100002 (split_on 10 bs);
             ls = (if last ls = [] then butlast ls else ls) in
         if ls = [] \<or> 100000 < length ls then Inl ErrLimit
         else
           (let ls = map (\<lambda>l. unwrap_or (strip_suffix [13] l) l) ls in
            if list_ex (\<lambda>l. 2048 < length l \<or> list_ex (\<lambda>b. b < 32 \<or> b = 127) l) ls then Inl ErrDirectory
            else Inr ls)))"

definition crc16 :: "bytes \<Rightarrow> u16" where
  "crc16 bs = foldl crc_byte 0 bs"

definition records_checksum :: "bytes list \<Rightarrow> u16" where
  "records_checksum ls = crc16 (concat (map (\<lambda>l. l @ [13, 10]) ls))"

definition list_header :: "('d \<Rightarrow> nat) \<Rightarrow> 'd directory_profile \<Rightarrow> bytes list \<Rightarrow> ftn_error + u16 option" where
  "list_header ordinal p ls =
     attempt (charset_decode (list_charset p) (hd ls)) (\<lambda>first.
       if \<not> starts_with '';'' first then Inl ErrDirectory
       else
         (case rsplit_once CHR '':'' first of
            None \<Rightarrow> if list_crc p then Inl ErrChecksum else Inr None
          | Some (head, crc) \<Rightarrow>
              (let days = filter (\<lambda>s. s \<noteq> []) (split_by (\<lambda>c. \<not> ascii_digit (ord c)) head) in
               if days = [] then Inl ErrDirectory
               else
                 attempt (number (last days)) (\<lambda>d.
                   if unat d \<noteq> ordinal (list_date p) then Inl ErrDirectory
                   else
                     attempt (number (trim crc)) (\<lambda>expected.
                       if records_checksum (tl ls) \<noteq> expected then Inl ErrChecksum
                       else Inr (Some expected))))))"

definition directory_parse :: "('d \<Rightarrow> nat) \<Rightarrow> bytes \<Rightarrow> 'd directory_profile \<Rightarrow> ftn_error + directory_candidate" where
  "directory_parse ordinal bs p =
     (if 16 * 1024 * 1024 < length bs \<or> list_zone p = 0 then Inl ErrLimit
      else
        attempt (directory_lines bs) (\<lambda>ls.
        attempt (list_header ordinal p ls) (\<lambda>sum.
        attempt
          (run_steps (directory_line p)
            \<lparr>candidate = \<lparr>entries = [], issues = [], list_checksum = sum\<rparr>, known = [],
             walking = \<lparr>in_zone = list_zone p, in_net = None, in_boss = None\<rparr>\<rparr>
            (enumerate 1 (tl ls)))
          (\<lambda>st. if entries (candidate st) = [] then Inl ErrDirectory else Inr (candidate st)))))"

text \<open>The loop is the one of the transfer protocols.\<close>

lemma crc16_xmodem: "crc16 = crc16_xmodem"
  by (simp add: fun_eq_iff crc16_def crc16_xmodem_def)

end
