(* ===== verification/Ftn_Policy.thy ===== *)
theory Ftn_Policy
  imports Ftn_Packet Ftn_Directory "HOL-Library.Multiset"
begin

text \<open>
  \<open>crates/sf-core/src/ftn/policy.rs\<close>: the static FTN configuration, its validation and the
  choice of a link for a destination.  The uniqueness key of a route is the text of its domain
  and its target; a domain has no colon, so two keys are equal exactly when domain and target
  are, and the model keeps the pair.
\<close>

datatype posting_identity = HandleAllowed | RealNameRequired

record aka =
  aka_id :: string
  aka_endpoint :: endpoint
  aka_enabled :: bool
  primary :: bool

record link =
  posting_identity :: posting_identity
  link_id :: string
  remote :: endpoint
  link_aka :: string
  link_enabled :: bool
  inbound :: bool
  outbound :: bool
  transit :: bool
  link_profile :: packet_profile
  link_charset :: charset

datatype route_match =
    Exact address
  | Boss address
  | Net u16 u16
  | Zone u16
  | DefaultRoute

record route =
  route_domain :: domain
  route_target :: route_match
  route_link :: string

record directory_source =
  source_id :: string
  source_domain :: domain
  source_enabled :: bool
  source_format :: directory_format
  source_charset :: charset
  default_zone :: u16
  priority :: u16
  cadence_days :: u16
  require_crc :: bool

record policy =
  policy_enabled :: bool
  akas :: "aka list"
  links :: "link list"
  routes :: "route list"
  sources :: "directory_source list"

record route_decision =
  final_destination :: endpoint
  next_hop :: endpoint
  via_link :: string
  via_aka :: string
  reason :: string

datatype policy_error = PolicyInvalid | CapacityReached | RoutingFailed

definition token :: "string \<Rightarrow> bool" where
  "token s \<longleftrightarrow> s \<noteq> [] \<and> length s \<le> 32 \<and>
     list_all (\<lambda>c. ascii_lower (ord c) \<or> ascii_digit (ord c) \<or> c \<in> set ''-_'') s"

definition find_aka :: "policy \<Rightarrow> string \<Rightarrow> policy_error + aka" where
  "find_aka p i = ok_or (find (\<lambda>a. aka_id a = i) (akas p)) PolicyInvalid"

definition find_link :: "policy \<Rightarrow> string \<Rightarrow> policy_error + link" where
  "find_link p i = ok_or (find (\<lambda>l. link_id l = i) (links p)) PolicyInvalid"

definition local :: "policy \<Rightarrow> endpoint \<Rightarrow> aka option" where
  "local p e = find (\<lambda>a. aka_enabled a \<and> aka_endpoint a = e) (akas p)"

section \<open>Validation\<close>

text \<open>
  The loops over the parts, with the sets of what they have seen; the first returns the domains
  that have an enabled primary.
\<close>

fun check_akas ::
    "string list \<Rightarrow> endpoint list \<Rightarrow> domain list \<Rightarrow> aka list \<Rightarrow> policy_error + domain list" where
  "check_akas ids ends prims [] = Inr prims"
| "check_akas ids ends prims (a # as) =
     (if \<not> token (aka_id a) \<or> aka_id a \<in> set ids \<or> aka_endpoint a \<in> set ends \<or>
         (aka_enabled a \<and> primary a \<and> domain_of (aka_endpoint a) \<in> set prims)
      then Inl PolicyInvalid
      else check_akas (aka_id a # ids) (aka_endpoint a # ends)
             (if aka_enabled a \<and> primary a then domain_of (aka_endpoint a) # prims else prims) as)"

fun check_links :: "policy \<Rightarrow> string list \<Rightarrow> endpoint list \<Rightarrow> link list \<Rightarrow> policy_error + unit" where
  "check_links p ids ends [] = Inr ()"
| "check_links p ids ends (l # ls) =
     attempt (find_aka p (link_aka l)) (\<lambda>a.
       if \<not> token (link_id l) \<or> link_id l \<in> set ids \<or> remote l \<in> set ends \<or>
          domain_of (aka_endpoint a) \<noteq> domain_of (remote l) \<or>
          list_ex (\<lambda>a. aka_endpoint a = remote l) (akas p) \<or>
          (link_profile l = Type2 \<and>
           (point (address_of (aka_endpoint a)) \<noteq> 0 \<or> point (address_of (remote l)) \<noteq> 0))
       then Inl PolicyInvalid
       else check_links p (link_id l # ids) (remote l # ends) ls)"

definition target_ok :: "route_match \<Rightarrow> bool" where
  "target_ok t =
     (case t of
        Boss a \<Rightarrow> point a = 0
      | Net z n \<Rightarrow> \<not> (z = 0 \<or> n = 0)
      | Zone z \<Rightarrow> z \<noteq> 0
      | _ \<Rightarrow> True)"

fun check_routes :: "policy \<Rightarrow> (domain \<times> route_match) list \<Rightarrow> route list \<Rightarrow> policy_error + unit" where
  "check_routes p keys [] = Inr ()"
| "check_routes p keys (r # rs) =
     attempt (find_link p (route_link r)) (\<lambda>l.
       if route_domain r \<noteq> domain_of (remote l) \<or> (route_domain r, route_target r) \<in> set keys
       then Inl PolicyInvalid
       else if \<not> target_ok (route_target r) then Inl PolicyInvalid
       else check_routes p ((route_domain r, route_target r) # keys) rs)"

fun check_sources :: "string list \<Rightarrow> directory_source list \<Rightarrow> policy_error + unit" where
  "check_sources ids [] = Inr ()"
| "check_sources ids (s # ss) =
     (if \<not> token (source_id s) \<or> source_id s \<in> set ids \<or> default_zone s = 0 \<or>
         cadence_days s = 0 \<or> 366 < cadence_days s
      then Inl PolicyInvalid
      else check_sources (source_id s # ids) ss)"

definition validate :: "policy \<Rightarrow> policy_error + unit" where
  "validate p =
     (if 32 < length (akas p) \<or> 32 < length (links p) \<or> 256 < length (routes p) \<or> 16 < length (sources p)
      then Inl CapacityReached
      else
        attempt (check_akas [] [] [] (akas p)) (\<lambda>prims.
          if list_ex (\<lambda>a. aka_enabled a \<and> domain_of (aka_endpoint a) \<notin> set prims) (akas p)
          then Inl PolicyInvalid
          else
            attempt (check_links p [] [] (links p)) (\<lambda>_.
            attempt (check_routes p [] (routes p)) (\<lambda>_.
              check_sources [] (sources p)))))"

section \<open>Routing\<close>

definition route_score :: "address \<Rightarrow> route_match \<Rightarrow> (nat \<times> string) option" where
  "route_score a t =
     (case t of
        Exact b \<Rightarrow> if b = a then Some (0, ''exact'') else None
      | Boss b \<Rightarrow> if point a \<noteq> 0 \<and> b = boss a then Some (2, ''boss'') else None
      | Net z n \<Rightarrow> if z = zone a \<and> n = net a then Some (3, ''net'') else None
      | Zone z \<Rightarrow> if z = zone a then Some (4, ''zone'') else None
      | DefaultRoute \<Rightarrow> Some (5, ''default''))"

definition route_choices :: "policy \<Rightarrow> endpoint \<Rightarrow> (nat \<times> string \<times> string) list" where
  "route_choices p e =
     List.map_filter (\<lambda>r. map_option (\<lambda>(n, s). (n, route_link r, s)) (route_score (address_of e) (route_target r)))
       (filter (\<lambda>r. route_domain r = domain_of e) (routes p)) @
     map (\<lambda>l. (1, link_id l, ''direct'')) (filter (\<lambda>l. remote l = e) (links p))"

definition route_to :: "policy \<Rightarrow> endpoint \<Rightarrow> policy_error + route_decision" where
  "route_to p e =
     (if \<not> policy_enabled p \<or> local p e \<noteq> None then Inl RoutingFailed
      else case sort_key fst (route_choices p e) of
        [] \<Rightarrow> Inl RoutingFailed
      | (_, i, why) # _ \<Rightarrow>
          attempt (find_link p i) (\<lambda>l.
          attempt (find_aka p (link_aka l)) (\<lambda>a.
            if \<not> link_enabled l \<or> \<not> outbound l \<or> \<not> aka_enabled a then Inl RoutingFailed
            else Inr \<lparr>final_destination = e, next_hop = remote l, via_link = link_id l,
                      via_aka = aka_id a, reason = why\<rparr>)))"

section \<open>What validation accepts\<close>

text \<open>
  The declarative reading of the checks: the parts of a well-formed policy, without the order of
  the loops and the sets they carry.
\<close>

definition primary_domains :: "aka list \<Rightarrow> domain list" where
  "primary_domains as = map (\<lambda>a. domain_of (aka_endpoint a)) (filter (\<lambda>a. aka_enabled a \<and> primary a) as)"

definition wf_akas :: "aka list \<Rightarrow> bool" where
  "wf_akas as \<longleftrightarrow>
     (\<forall>a\<in>set as. token (aka_id a)) \<and> distinct (map aka_id as) \<and> distinct (map aka_endpoint as) \<and>
     distinct (primary_domains as) \<and>
     (\<forall>a\<in>set as. aka_enabled a \<longrightarrow> domain_of (aka_endpoint a) \<in> set (primary_domains as))"

definition link_fits :: "aka list \<Rightarrow> link \<Rightarrow> bool" where
  "link_fits as l \<longleftrightarrow>
     token (link_id l) \<and> remote l \<notin> aka_endpoint ` set as \<and>
     (\<exists>a\<in>set as. aka_id a = link_aka l \<and> domain_of (aka_endpoint a) = domain_of (remote l) \<and>
        (link_profile l = Type2 \<longrightarrow>
         point (address_of (aka_endpoint a)) = 0 \<and> point (address_of (remote l)) = 0))"

definition wf_links :: "aka list \<Rightarrow> link list \<Rightarrow> bool" where
  "wf_links as ls \<longleftrightarrow>
     (\<forall>l\<in>set ls. link_fits as l) \<and> distinct (map link_id ls) \<and> distinct (map remote ls)"

definition route_fits :: "link list \<Rightarrow> route \<Rightarrow> bool" where
  "route_fits ls r \<longleftrightarrow>
     (\<exists>l\<in>set ls. link_id l = route_link r \<and> route_domain r = domain_of (remote l)) \<and>
     target_ok (route_target r)"

definition route_key :: "route \<Rightarrow> domain \<times> route_match" where
  "route_key r = (route_domain r, route_target r)"

definition wf_source :: "directory_source \<Rightarrow> bool" where
  "wf_source s \<longleftrightarrow> token (source_id s) \<and> default_zone s \<noteq> 0 \<and> 0 < cadence_days s \<and> cadence_days s \<le> 366"

definition wf_policy :: "policy \<Rightarrow> bool" where
  "wf_policy p \<longleftrightarrow>
     length (akas p) \<le> 32 \<and> length (links p) \<le> 32 \<and> length (routes p) \<le> 256 \<and> length (sources p) \<le> 16 \<and>
     wf_akas (akas p) \<and> wf_links (akas p) (links p) \<and>
     (\<forall>r\<in>set (routes p). route_fits (links p) r) \<and> distinct (map route_key (routes p)) \<and>
     (\<forall>s\<in>set (sources p). wf_source s) \<and> distinct (map source_id (sources p))"

lemma find_by_key:
  assumes "distinct (map f xs)" "x \<in> set xs"
  shows "find (\<lambda>y. f y = f x) xs = Some x"
  using assms by (induction xs) (auto simp: rev_image_eqI)

lemma find_aka_Inr: "find_aka p i = Inr a \<Longrightarrow> a \<in> set (akas p) \<and> aka_id a = i"
  by (auto simp: find_aka_def ok_or_def find_Some_iff in_set_conv_nth split: option.splits)

lemma find_link_Inr: "find_link p i = Inr l \<Longrightarrow> l \<in> set (links p) \<and> link_id l = i"
  by (auto simp: find_link_def ok_or_def find_Some_iff in_set_conv_nth split: option.splits)

lemma find_aka_present:
  "distinct (map aka_id (akas p)) \<Longrightarrow> a \<in> set (akas p) \<Longrightarrow> find_aka p (aka_id a) = Inr a"
  by (simp add: find_aka_def ok_or_def find_by_key)

lemma find_link_present:
  "distinct (map link_id (links p)) \<Longrightarrow> l \<in> set (links p) \<Longrightarrow> find_link p (link_id l) = Inr l"
  by (simp add: find_link_def ok_or_def find_by_key)

lemma check_akas_Inr:
  "check_akas ids ends prims as = Inr qs \<longleftrightarrow>
     (\<forall>a\<in>set as. token (aka_id a)) \<and>
     distinct (map aka_id as) \<and> set (map aka_id as) \<inter> set ids = {} \<and>
     distinct (map aka_endpoint as) \<and> set (map aka_endpoint as) \<inter> set ends = {} \<and>
     distinct (primary_domains as) \<and> set (primary_domains as) \<inter> set prims = {} \<and>
     qs = rev (primary_domains as) @ prims"
proof (induction ids ends prims as arbitrary: qs rule: check_akas.induct)
  case (2 ids ends prims a as)
  show ?case
    by (subst check_akas.simps) (auto simp: 2 primary_domains_def)
qed (auto simp: primary_domains_def)

lemma check_links_Inr:
  assumes "distinct (map aka_id (akas p))"
  shows "check_links p ids ends ls = Inr () \<longleftrightarrow>
     (\<forall>l\<in>set ls. link_fits (akas p) l) \<and>
     distinct (map link_id ls) \<and> set (map link_id ls) \<inter> set ids = {} \<and>
     distinct (map remote ls) \<and> set (map remote ls) \<inter> set ends = {}"
proof (induction ls arbitrary: ids ends)
  case (Cons l ls)
  show ?case
  proof (cases "find_aka p (link_aka l)")
    case (Inl e)
    have "\<not> link_fits (akas p) l"
      using find_aka_present [OF assms] Inl unfolding link_fits_def by (metis Inl_Inr_False)
    then show ?thesis using Inl by (simp add: attempt_def)
  next
    case (Inr a)
    have "b = a" if "b \<in> set (akas p)" "aka_id b = link_aka l" for b
      using find_aka_present [OF assms that(1)] that(2) Inr by simp
    then have "link_fits (akas p) l \<longleftrightarrow>
        token (link_id l) \<and> remote l \<notin> aka_endpoint ` set (akas p) \<and>
        domain_of (aka_endpoint a) = domain_of (remote l) \<and>
        (link_profile l = Type2 \<longrightarrow>
          point (address_of (aka_endpoint a)) = 0 \<and> point (address_of (remote l)) = 0)"
      using find_aka_Inr [OF Inr] by (auto simp: link_fits_def)
    moreover have "list_ex (\<lambda>a. aka_endpoint a = remote l) (akas p) \<longleftrightarrow> remote l \<in> aka_endpoint ` set (akas p)"
      by (simp add: list_ex_iff image_iff eq_commute)
    ultimately show ?thesis
      using Inr by (auto simp: attempt_def Cons.IH)
  qed
qed simp

lemma check_routes_Inr:
  assumes "distinct (map link_id (links p))"
  shows "check_routes p keys rs = Inr () \<longleftrightarrow>
     (\<forall>r\<in>set rs. route_fits (links p) r) \<and>
     distinct (map route_key rs) \<and> set (map route_key rs) \<inter> set keys = {}"
proof (induction rs arbitrary: keys)
  case (Cons r rs)
  show ?case
  proof (cases "find_link p (route_link r)")
    case (Inl e)
    have "\<not> route_fits (links p) r"
      using find_link_present [OF assms] Inl unfolding route_fits_def by (metis Inl_Inr_False)
    then show ?thesis using Inl by (simp add: attempt_def)
  next
    case (Inr l)
    have "k = l" if "k \<in> set (links p)" "link_id k = route_link r" for k
      using find_link_present [OF assms that(1)] that(2) Inr by simp
    then have "route_fits (links p) r \<longleftrightarrow> route_domain r = domain_of (remote l) \<and> target_ok (route_target r)"
      using find_link_Inr [OF Inr] by (auto simp: route_fits_def)
    then show ?thesis
      using Inr by (auto simp: attempt_def Cons.IH route_key_def)
  qed
qed simp

lemma check_sources_Inr:
  "check_sources ids ss = Inr () \<longleftrightarrow>
     (\<forall>s\<in>set ss. wf_source s) \<and> distinct (map source_id ss) \<and> set (map source_id ss) \<inter> set ids = {}"
  by (induction ids ss rule: check_sources.induct) (auto simp: wf_source_def word_neq_0_conv not_less)

text \<open>
  C9.  Validation is exact: a policy is accepted exactly when it is well-formed, that is within
  the capacities, with unique tokens and endpoints, one enabled primary AKA for every domain in
  use, links that leave from an AKA of their own domain to a system that is not this one, routes
  over existing links of their domain, and directory sources with a cadence of 1 to 366 days.
\<close>

theorem policy_validation_exact: "validate p = Inr () \<longleftrightarrow> wf_policy p"
proof (cases "wf_akas (akas p) \<and> distinct (map link_id (links p))")
  case True
  then have d: "distinct (map aka_id (akas p))" "distinct (map link_id (links p))"
    by (auto simp: wf_akas_def)
  have a: "check_akas [] [] [] (akas p) = Inr (rev (primary_domains (akas p)))"
    using True by (simp add: check_akas_Inr wf_akas_def)
  have "\<not> list_ex (\<lambda>a. aka_enabled a \<and> domain_of (aka_endpoint a) \<notin> set (rev (primary_domains (akas p)))) (akas p)"
    using True by (auto simp: wf_akas_def list_ex_iff)
  then show ?thesis
    using True
    by (auto simp: validate_def a attempt_eq_Inr check_links_Inr [OF d(1)] check_routes_Inr [OF d(2)]
          check_sources_Inr wf_policy_def wf_links_def)
next
  case False
  have "distinct (map link_id (links p))" if "wf_akas (akas p)" "check_links p [] [] (links p) = Inr ()"
    using that by (auto simp: wf_akas_def check_links_Inr)
  then show ?thesis
    using False
    by (auto simp: validate_def attempt_eq_Inr check_akas_Inr wf_policy_def wf_links_def wf_akas_def list_ex_iff)
qed

section \<open>Choosing a route\<close>

lemma sort_key_first:
  "sort_key f xs = y # ys \<Longrightarrow>
     \<exists>before after. xs = before @ y # after \<and> (\<forall>x\<in>set before. f y < f x) \<and> (\<forall>x\<in>set after. f y \<le> f x)"
proof (induction xs arbitrary: y ys)
  case (Cons x xs)
  show ?case
  proof (cases "sort_key f xs")
    case Nil
    then have "xs = []" by (metis length_sort length_0_conv)
    then show ?thesis using Cons.prems by (intro exI [of _ "[]"]) simp
  next
    case (Cons z zs)
    obtain before after where 1: "xs = before @ z # after"
        "\<forall>x\<in>set before. f z < f x" "\<forall>x\<in>set after. f z \<le> f x"
      using Cons.IH [OF Cons] by blast
    show ?thesis
    proof (cases "f x \<le> f z")
      case True
      then have "y = x" using Cons.prems Cons by simp
      then show ?thesis using 1 True by (intro exI [of _ "[]"] exI [of _ xs]) fastforce
    next
      case False
      then have "y = z" using Cons.prems Cons by simp
      then show ?thesis using 1 False by (intro exI [of _ "x # before"] exI [of _ after]) auto
    qed
  qed
qed simp

lemma route_to_Inr:
  assumes "route_to p e = Inr d"
  obtains s rest l a where "sort_key fst (route_choices p e) = (s, via_link d, reason d) # rest"
    "find_link p (via_link d) = Inr l" "find_aka p (link_aka l) = Inr a"
    "link_enabled l" "outbound l" "aka_enabled a" "policy_enabled p" "local p e = None"
    "d = \<lparr>final_destination = e, next_hop = remote l, via_link = link_id l, via_aka = aka_id a,
          reason = reason d\<rparr>"
proof -
  obtain s i why rest l a where 1: "sort_key fst (route_choices p e) = (s, i, why) # rest"
      "find_link p i = Inr l" "find_aka p (link_aka l) = Inr a"
      "link_enabled l" "outbound l" "aka_enabled a" "policy_enabled p" "local p e = None"
      "d = \<lparr>final_destination = e, next_hop = remote l, via_link = link_id l, via_aka = aka_id a,
            reason = why\<rparr>"
    using assms by (auto simp: route_to_def attempt_eq_Inr split: if_splits list.splits)
  from find_link_Inr [OF 1(2)] have "link_id l = i" by simp
  then show thesis using 1 by (intro that [of s rest l a]) auto
qed

text \<open>
  The classes of a route from the most specific to the least, which links a policy offers for a
  destination in a class, and which of its routes are in the class.
\<close>

definition route_classes :: "string list" where
  "route_classes = [''exact'', ''direct'', ''boss'', ''net'', ''zone'', ''default'']"

definition class_target :: "address \<Rightarrow> string \<Rightarrow> route_match \<Rightarrow> bool" where
  "class_target a c t \<longleftrightarrow>
     c = ''exact'' \<and> t = Exact a \<or>
     c = ''boss'' \<and> point a \<noteq> 0 \<and> t = Boss (Address (zone a) (net a) (node a) 0) \<or>
     c = ''net'' \<and> t = Net (zone a) (net a) \<or>
     c = ''zone'' \<and> t = Zone (zone a) \<or>
     c = ''default'' \<and> t = DefaultRoute"

definition offered :: "policy \<Rightarrow> endpoint \<Rightarrow> string \<Rightarrow> string list" where
  "offered p e c =
     (if c = ''direct'' then map link_id (filter (\<lambda>l. remote l = e) (links p))
      else map route_link (filter (\<lambda>r. route_domain r = domain_of e \<and>
        class_target (address_of e) c (route_target r)) (routes p)))"

lemma below_six: "(n :: nat) < 6 \<longleftrightarrow> n = 0 \<or> n = 1 \<or> n = 2 \<or> n = 3 \<or> n = 4 \<or> n = 5"
  by auto

lemma route_score_class:
  assumes "n < 6"
  shows "route_score a t = Some (n, w) \<longleftrightarrow> n \<noteq> 1 \<and> class_target a (route_classes ! n) t \<and> w = route_classes ! n"
  using assms unfolding below_six
  by (elim disjE; cases t) (auto simp: route_score_def class_target_def route_classes_def boss_def)

lemma route_score_bound: "route_score a t = Some (n, w) \<Longrightarrow> n < 6"
  by (cases t) (auto simp: route_score_def split: if_splits)

lemma filter_map_filter:
  assumes "\<And>x. (\<exists>y. f x = Some y \<and> P y) \<longleftrightarrow> Q x" and "\<And>x y. f x = Some y \<Longrightarrow> P y \<Longrightarrow> y = g x"
  shows "filter P (List.map_filter f xs) = map g (filter Q xs)"
proof (induction xs)
  case (Cons x xs)
  then show ?case
    using assms(1) [of x] assms(2) [of x] by (cases "f x") (auto simp: List.map_filter_def)
qed (simp add: List.map_filter_def)

lemma route_choices_class:
  assumes "n < 6"
  shows "filter (\<lambda>c. fst c = n) (route_choices p e) =
    map (\<lambda>i. (n, i, route_classes ! n)) (offered p e (route_classes ! n))"
proof -
  let ?choice = "\<lambda>r. map_option (\<lambda>(n, s). (n, route_link r, s)) (route_score (address_of e) (route_target r))"
  have direct: "route_classes ! n = ''direct'' \<longleftrightarrow> n = 1"
    using assms unfolding below_six by (elim disjE) (simp_all add: route_classes_def)
  have routes: "filter (\<lambda>c. fst c = n) (List.map_filter ?choice rs) =
      map (\<lambda>r. (n, route_link r, route_classes ! n))
        (filter (\<lambda>r. n \<noteq> 1 \<and> class_target (address_of e) (route_classes ! n) (route_target r)) rs)" for rs :: "route list"
  proof (rule filter_map_filter)
    fix r :: route
    have "(\<exists>y. ?choice r = Some y \<and> fst y = n) \<longleftrightarrow>
        (\<exists>w. route_score (address_of e) (route_target r) = Some (n, w))"
      by (cases "route_score (address_of e) (route_target r)") auto
    then show "(\<exists>y. ?choice r = Some y \<and> fst y = n) \<longleftrightarrow>
        n \<noteq> 1 \<and> class_target (address_of e) (route_classes ! n) (route_target r)"
      using route_score_class [OF assms] by blast
  next
    fix r y
    assume "?choice r = Some y" "fst y = n"
    then show "y = (n, route_link r, route_classes ! n)" using route_score_class [OF assms] by auto
  qed
  show ?thesis
  proof (cases "n = 1")
    case True
    then show ?thesis
      unfolding route_choices_def filter_append routes offered_def
      by (simp add: direct comp_def route_classes_def)
  next
    case False
    have none: "filter (\<lambda>c. fst c = n) (map (\<lambda>l. (1, link_id l, ''direct'')) ls) = []" for ls
      using False by (auto simp: filter_empty_conv)
    show ?thesis
      unfolding route_choices_def filter_append routes offered_def none
      using False by (simp add: direct comp_def)
  qed
qed

lemma route_choices_bound: "c \<in> set (route_choices p e) \<Longrightarrow> fst c < 6"
  by (auto simp: route_choices_def List.map_filter_def dest: route_score_bound)

text \<open>
  C38.  The most specific route wins.  The classes in their order are: a route for exactly the
  destination, a direct link to it, a route for the boss of a destination that is a point, one for
  its net, one for its zone, the default.  The link that is chosen is the first the configuration
  offers in its class, which is the reason given, and no class before it offers any link.
\<close>

theorem route_most_specific:
  assumes "route_to p e = Inr d"
  shows "\<exists>n < 6. reason d = [''exact'', ''direct'', ''boss'', ''net'', ''zone'', ''default''] ! n \<and>
    (\<exists>others. offered p e (reason d) = via_link d # others) \<and>
    (\<forall>m < n. offered p e ([''exact'', ''direct'', ''boss'', ''net'', ''zone'', ''default''] ! m) = [])"
proof -
  obtain n rest where "sort_key fst (route_choices p e) = (n, via_link d, reason d) # rest"
    using assms by (rule route_to_Inr)
  from sort_key_first [OF this] obtain before after where
    c: "route_choices p e = before @ (n, via_link d, reason d) # after"
    "\<forall>x\<in>set before. n < fst x" "\<forall>x\<in>set after. n \<le> fst x" by auto
  then have n: "n < 6" using route_choices_bound [of "(n, via_link d, reason d)" p e] by simp
  have "filter (\<lambda>x. fst x = n) before = []" using c(2) by (auto simp: filter_empty_conv)
  then have "filter (\<lambda>x. fst x = n) (route_choices p e) = (n, via_link d, reason d) # filter (\<lambda>x. fst x = n) after"
    by (simp add: c(1))
  then have "map (\<lambda>i. (n, i, route_classes ! n)) (offered p e (route_classes ! n)) =
      (n, via_link d, reason d) # filter (\<lambda>x. fst x = n) after"
    by (simp only: route_choices_class [OF n])
  then have r: "reason d = route_classes ! n" "\<exists>others. offered p e (reason d) = via_link d # others" by auto
  have "offered p e (route_classes ! m) = []" if "m < n" for m
  proof -
    have "filter (\<lambda>x. fst x = m) (route_choices p e) = []"
      using c that by (fastforce simp: filter_empty_conv)
    then show ?thesis using route_choices_class [of m p e] that n by simp
  qed
  with n r show ?thesis unfolding route_classes_def by blast
qed

lemma route_choice_cases:
  "c \<in> set (route_choices p e) \<longleftrightarrow>
     (\<exists>r\<in>set (routes p). route_domain r = domain_of e \<and>
        route_score (address_of e) (route_target r) = Some (fst c, snd (snd c)) \<and> fst (snd c) = route_link r) \<or>
     (\<exists>l\<in>set (links p). remote l = e \<and> c = (1, link_id l, ''direct''))"
  by (cases c) (auto simp: route_choices_def List.map_filter_def image_iff; force)

text \<open>
  C10.  Routing over a validated policy is sound: it never stumbles over a reference the
  configuration lacks, and mail is only ever handed to an enabled outbound link of the
  destination's own domain, from the enabled AKA that link names, and never to an address of
  this system.
\<close>

theorem validated_route_sound:
  assumes "validate p = Inr ()"
  shows "route_to p e \<noteq> Inl PolicyInvalid \<and>
    (\<forall>d. route_to p e = Inr d \<longrightarrow>
      final_destination d = e \<and> next_hop d \<notin> aka_endpoint ` set (akas p) \<and>
      domain_of (next_hop d) = domain_of e \<and>
      (\<exists>l\<in>set (links p). \<exists>a\<in>set (akas p).
         link_id l = via_link d \<and> remote l = next_hop d \<and> link_enabled l \<and> outbound l \<and>
         aka_id a = via_aka d \<and> link_aka l = aka_id a \<and> aka_enabled a \<and>
         domain_of (aka_endpoint a) = domain_of e))"
proof -
  have wf: "wf_policy p" using assms by (simp add: policy_validation_exact)
  then have da: "distinct (map aka_id (akas p))" and dl: "distinct (map link_id (links p))"
    by (auto simp: wf_policy_def wf_akas_def wf_links_def)
  have choice: "\<exists>l. find_link p (fst (snd c)) = Inr l \<and> l \<in> set (links p) \<and> domain_of (remote l) = domain_of e"
    if "c \<in> set (route_choices p e)" for c
    using that wf find_link_present [OF dl]
    by (fastforce simp: route_choice_cases wf_policy_def route_fits_def)
  have aka: "\<exists>a. find_aka p (link_aka l) = Inr a \<and> a \<in> set (akas p) \<and> aka_id a = link_aka l \<and>
      domain_of (aka_endpoint a) = domain_of (remote l) \<and> remote l \<notin> aka_endpoint ` set (akas p)"
    if "l \<in> set (links p)" for l
    using that wf find_aka_present [OF da]
    by (fastforce simp: wf_policy_def wf_links_def link_fits_def)
  show ?thesis
  proof (cases "sort_key fst (route_choices p e)")
    case Nil
    then show ?thesis by (simp add: route_to_def)
  next
    case (Cons c cs)
    then have "c \<in> set (route_choices p e)" by (metis list.set_intros(1) set_sort)
    from choice [OF this] obtain l where l: "find_link p (fst (snd c)) = Inr l" "l \<in> set (links p)"
        "domain_of (remote l) = domain_of e" by blast
    from aka [OF l(2)] obtain a where a: "find_aka p (link_aka l) = Inr a" "a \<in> set (akas p)"
        "aka_id a = link_aka l" "domain_of (aka_endpoint a) = domain_of (remote l)"
        "remote l \<notin> aka_endpoint ` set (akas p)" by blast
    have "link_id l = fst (snd c)" using find_link_Inr [OF l(1)] by simp
    then show ?thesis
      using Cons l a by (cases c) (auto simp: route_to_def attempt_def)
  qed
qed

lemma route_score_inj:
  "route_score a t = Some (n, s) \<Longrightarrow> route_score a t' = Some (n, s') \<Longrightarrow> t = t'"
  by (cases t; cases t') (auto simp: route_score_def split: if_splits)

lemma route_score_not_direct: "route_score a t \<noteq> Some (Suc 0, s)"
  by (cases t) (auto simp: route_score_def)

lemma score_key_unique:
  assumes d: "distinct (map route_key rs)" and same: "\<forall>r\<in>set rs. route_domain r = dm"
  shows "distinct (map fst (List.map_filter
           (\<lambda>r. map_option (\<lambda>(n, s). (n, route_link r, s)) (route_score a (route_target r))) rs))"
  using assms
proof (induction rs)
  case (Cons r rs)
  have "route_target x \<noteq> route_target r" if "x \<in> set rs" for x
    using Cons.prems that by (auto simp: route_key_def image_iff)
  then show ?case
    using Cons
    by (auto simp: List.map_filter_def split: option.splits) (metis route_score_inj)
qed (simp add: List.map_filter_def)

lemma choices_distinct:
  assumes "distinct (map route_key (routes p))" "distinct (map remote (links p))"
  shows "distinct (map fst (route_choices p e))"
proof -
  have 1: "distinct (map route_key (filter (\<lambda>r. route_domain r = domain_of e) (routes p)))"
    using assms(1) by (simp add: distinct_map_filter)
  have "distinct (map fst (map (\<lambda>l. (1::nat, link_id l, ''direct'')) (filter (\<lambda>l. remote l = e) ls)))"
    if "distinct (map remote ls)" for ls
    using that by (induction ls) (auto simp: filter_empty_conv, metis image_eqI)
  then show ?thesis
    using score_key_unique [OF 1, of "domain_of e" "address_of e"] assms(2)
    by (auto simp: route_choices_def List.map_filter_def route_score_not_direct)
qed

lemma sort_key_mset:
  assumes "mset xs = mset ys" "distinct (map f ys)"
  shows "sort_key f xs = sort_key f ys"
proof (rule properties_for_sort_key)
  show "mset (sort_key f ys) = mset xs" using assms by simp
  have "distinct (map f xs)" using assms by (metis mset_eq_imp_distinct_iff mset_map)
  then have "filter (\<lambda>x. f k = f x) zs = [k]" if "k \<in> set zs" "distinct (map f zs)" for k zs
    using that by (induction zs) (auto simp: filter_empty_conv rev_image_eqI)
  then show "filter (\<lambda>x. f k = f x) (sort_key f ys) = filter (\<lambda>x. f k = f x) xs"
    if "k \<in> set (sort_key f ys)" for k
    using that assms \<open>distinct (map f xs)\<close>
    by (metis distinct_map distinct_sort mset_eq_setD set_sort)
qed simp

text \<open>
  C39.  In a validated policy the order of the routes does not matter: any rearrangement of them
  gives the same decision for every destination, because no two choices for it have the same
  class.
\<close>

theorem route_order_irrelevant:
  assumes "validate p = Inr ()" and "mset rs = mset (routes p)"
  shows "route_to (p\<lparr>routes := rs\<rparr>) e = route_to p e"
proof -
  have "distinct (map route_key (routes p))" "distinct (map remote (links p))"
    using assms(1) by (auto simp: policy_validation_exact wf_policy_def wf_links_def)
  then have d: "distinct (map fst (route_choices p e))" by (rule choices_distinct)
  have "mset (route_choices (p\<lparr>routes := rs\<rparr>) e) = mset (route_choices p e)"
    using assms(2) by (simp add: route_choices_def List.map_filter_def)
  from sort_key_mset [OF this d]
  have "sort_key fst (route_choices (p\<lparr>routes := rs\<rparr>) e) = sort_key fst (route_choices p e)" .
  moreover have "find_link (p\<lparr>routes := rs\<rparr>) = find_link p" "find_aka (p\<lparr>routes := rs\<rparr>) = find_aka p"
    "local (p\<lparr>routes := rs\<rparr>) e = local p e"
    by (simp_all add: find_link_def find_aka_def local_def fun_eq_iff)
  ultimately show ?thesis by (simp add: route_to_def cong: list.case_cong)
qed

section \<open>A policy\<close>

text \<open>Two AKAs, two links, a net route and a default route; the destination is in the net.\<close>

definition sample_endpoint :: "u16 \<Rightarrow> endpoint" where
  "sample_endpoint n = \<lparr>domain_of = ''fido'', address_of = Address 2 n 1 0\<rparr>"

definition sample_link :: "string \<Rightarrow> u16 \<Rightarrow> link" where
  "sample_link i n = \<lparr>posting_identity = HandleAllowed, link_id = i, remote = sample_endpoint n,
     link_aka = ''main'', link_enabled = True, inbound = True, outbound = True, transit = False,
     link_profile = Type2, link_charset = Cp437\<rparr>"

definition sample_policy :: policy where
  "sample_policy = \<lparr>policy_enabled = True,
     akas = [\<lparr>aka_id = ''main'', aka_endpoint = sample_endpoint 1, aka_enabled = True, primary = True\<rparr>],
     links = [sample_link ''hub'' 2, sample_link ''near'' 3],
     routes = [\<lparr>route_domain = ''fido'', route_target = DefaultRoute, route_link = ''hub''\<rparr>,
               \<lparr>route_domain = ''fido'', route_target = Net 2 9, route_link = ''near''\<rparr>],
     sources = []\<rparr>"

lemmas sample_simps = sample_policy_def sample_link_def sample_endpoint_def find_aka_def find_link_def
  local_def route_choices_def route_score_def List.map_filter_def ok_or_def

lemma sample_valid: "validate sample_policy = Inr ()"
  by (simp add: validate_def sample_simps token_def ord_def ascii_lower_def ascii_digit_def
        target_ok_def attempt_def)

lemma sample_route:
  "route_to sample_policy (sample_endpoint 9) =
     Inr \<lparr>final_destination = sample_endpoint 9, next_hop = sample_endpoint 3, via_link = ''near'',
          via_aka = ''main'', reason = ''net''\<rparr>"
  by (simp add: route_to_def sample_simps attempt_def)

theorem route_most_specific_witness:
  "(\<exists>others. offered sample_policy (sample_endpoint 9) ''net'' = ''near'' # others) \<and>
   offered sample_policy (sample_endpoint 9) ''exact'' = [] \<and>
   offered sample_policy (sample_endpoint 9) ''direct'' = [] \<and> offered sample_policy (sample_endpoint 9) ''boss'' = []"
proof -
  from route_most_specific [OF sample_route] obtain n where
    n: "n < 6" "''net'' = [''exact'', ''direct'', ''boss'', ''net'', ''zone'', ''default''] ! n"
    and o': "\<exists>others. offered sample_policy (sample_endpoint 9) ''net'' = ''near'' # others"
    and less: "\<And>m. m < n \<Longrightarrow>
      offered sample_policy (sample_endpoint 9) ([''exact'', ''direct'', ''boss'', ''net'', ''zone'', ''default''] ! m) = []"
    unfolding route_decision.simps by blast
  from n have "n = 3" unfolding below_six by (elim disjE) simp_all
  with o' less [of 0] less [of 1] less [of 2] show ?thesis by simp
qed

theorem validated_route_sound_witness:
  "route_to sample_policy (sample_endpoint 9) \<noteq> Inl PolicyInvalid \<and>
   sample_endpoint 3 \<notin> aka_endpoint ` set (akas sample_policy)"
  using validated_route_sound [OF sample_valid, of "sample_endpoint 9"] by (simp add: sample_route)

theorem route_order_irrelevant_witness:
  "route_to (sample_policy\<lparr>routes := rev (routes sample_policy)\<rparr>) (sample_endpoint 9) =
   route_to sample_policy (sample_endpoint 9)"
  using route_order_irrelevant [OF sample_valid, where rs = "rev (routes sample_policy)" and e = "sample_endpoint 9"] by simp

end
