(* ===== verification/Directory_Safety.thy ===== *)
theory Directory_Safety
  imports Ftn_Directory
begin

text \<open>
  What holds of every directory the parser of \<open>Ftn_Directory\<close> accepts: its entries are well
  typed and a list with a checksum is intact.
\<close>

section \<open>What a record leaves behind\<close>

definition walk_ok :: "'d directory_profile \<Rightarrow> address set \<Rightarrow> walk \<Rightarrow> bool" where
  "walk_ok p listed w \<longleftrightarrow>
     in_zone w \<noteq> 0 \<and> in_net w \<noteq> Some 0 \<and>
     (case in_boss w of None \<Rightarrow> True
      | Some b \<Rightarrow> wf_address b \<and> point b = 0 \<and> (list_format p \<noteq> Boss_Format \<longrightarrow> b \<in> listed))"

definition service_ok :: "internet_service \<Rightarrow> bool" where
  "service_ok s \<longleftrightarrow> protocol s \<in> set service_names \<and> port s \<noteq> Some 0 \<and>
     (case host s of None \<Rightarrow> True | Some h \<Rightarrow> h \<noteq> [] \<and> length h \<le> 255 \<and> list_all host_char h)"

definition address_ok :: "'d directory_profile \<Rightarrow> address set \<Rightarrow> address \<Rightarrow> bool" where
  "address_ok p listed a \<longleftrightarrow>
     wf_address a \<and>
     (case list_format p of
        Nodelist \<Rightarrow> point a = 0
      | Boss_Format \<Rightarrow> point a \<noteq> 0
      | Combined \<Rightarrow> boss a \<in> listed)"

definition entry_ok :: "'d directory_profile \<Rightarrow> address set \<Rightarrow> directory_entry \<Rightarrow> bool" where
  "entry_ok p listed e \<longleftrightarrow>
     address_ok p listed (entry_address e) \<and> list_all service_ok (services e) \<and> [] \<notin> set (entry_flags e)"

lemma service_typed: "service v p = Inr s \<Longrightarrow> p \<in> set service_names \<Longrightarrow> service_ok s"
  by (auto simp: service_def service_ok_def default_port_def result_simps split: if_splits)

lemma flag_services_typed: "flag_services fs = Inr ss \<Longrightarrow> list_all service_ok ss"
  unfolding flag_services_def
proof (induction fs arbitrary: ss)
  case (Cons f fs)
  then show ?case
    by (auto simp: flag_service_def Let_def case_prod_beta result_simps service_typed
        split: if_splits)
qed simp

lemma service_errors: "service v p = Inl e \<Longrightarrow> e \<noteq> ErrProfile"
  by (auto simp: service_def split_service_def Let_def result_simps dest: number_errors
      split: if_splits option.splits prod.splits)

lemma flag_services_errors: "flag_services fs = Inl e \<Longrightarrow> e \<noteq> ErrProfile"
  unfolding flag_services_def
proof (induction fs)
  case (Cons f fs)
  then show ?case
    by (auto simp: flag_service_def Let_def case_prod_beta result_simps dest: service_errors
        split: if_splits)
qed simp

lemma parse_address_errors: "parse_address s = Inl e \<Longrightarrow> e = ErrAddress"
  by (auto simp: parse_address_def address_new_def Let_def case_prod_beta result_simps dest: number_errors
      split: if_splits)

lemma address_ok_point:
  assumes "wf_address b" and "point b = 0" and "n \<noteq> 0" and "list_format p \<noteq> Nodelist"
    and "list_format p = Combined \<Longrightarrow> b \<in> listed"
  shows "address_ok p listed (with_point b n)"
proof -
  have "boss (with_point b n) = b" using assms(2) by (cases b) (simp add: boss_def with_point_def)
  moreover have "point (with_point b n) = n" by (simp add: with_point_def)
  ultimately show ?thesis using assms by (simp add: address_ok_def split: directory_format.split)
qed

lemma address_ok_node:
  "z \<noteq> 0 \<Longrightarrow> m \<noteq> 0 \<Longrightarrow> list_format p \<noteq> Boss_Format \<Longrightarrow> Address z m d 0 \<in> listed \<Longrightarrow> address_ok p listed (Address z m d 0)"
  by (simp add: address_ok_def wf_address_def boss_def split: directory_format.split)

lemma record_address_typed:
  assumes r: "record_address p key n w = (r, v)" and n: "n \<noteq> 0" and w: "walk_ok p listed w"
  shows "in_zone v \<noteq> 0 \<and> in_net v \<noteq> Some 0 \<and>
    (case r of
       Inl e \<Rightarrow> e \<noteq> ErrProfile \<and> (list_format p = Boss_Format \<longrightarrow> v = w)
     | Inr a \<Rightarrow> address_ok p (insert a listed) a \<and> walk_ok p (insert a listed) v)"
proof (cases "list_format p = Boss_Format")
  case True
  with r w n show ?thesis
    by (cases "in_boss w"; cases "key = []") (auto simp: record_address_def walk_ok_def intro!: address_ok_point)
next
  case False
  consider (zone) "key = ''Zone''" | (host) "key = ''Region'' \<or> key = ''Host''" "key \<noteq> ''Zone''"
    | (point) "key = ''Point''" "list_format p = Combined"
    | (node) "key \<in> {[], ''Hub'', ''Pvt'', ''Hold'', ''Down''}"
    | (other) "key \<noteq> ''Zone''" "key \<noteq> ''Region''" "key \<noteq> ''Host''" "\<not> (key = ''Point'' \<and> list_format p = Combined)"
        "key \<notin> {[], ''Hub'', ''Pvt'', ''Hold'', ''Down''}"
    by argo
  then show ?thesis
  proof cases
    case zone
    with r w n False show ?thesis
      by (auto simp: record_address_def walk_ok_def address_new_def intro!: address_ok_node)
  next
    case host
    with r w n False show ?thesis
      by (auto simp: record_address_def walk_ok_def address_new_def intro!: address_ok_node)
  next
    case point
    with r w n show ?thesis
      by (cases "in_boss w") (auto simp: record_address_def walk_ok_def intro!: address_ok_point)
  next
    case node
    have k: "key \<noteq> ''Zone''" "\<not> (key = ''Region'' \<or> key = ''Host'')" "\<not> (key = ''Point'' \<and> list_format p = Combined)"
      using node by auto
    show ?thesis
      using r w n False node unfolding record_address_def if_not_P [OF k(1)] if_not_P [OF k(2)] if_not_P [OF k(3)] if_P [OF node]
      by (cases "in_net w") (auto simp: walk_ok_def address_new_def wf_address_def intro!: address_ok_node)
  next
    case other
    with r w False show ?thesis by (auto simp: record_address_def walk_ok_def)
  qed
qed

lemma record_address_boss:
  "record_address p key n w = (r, v) \<Longrightarrow> list_format p = Boss_Format \<Longrightarrow> v = w"
  by (simp add: record_address_def split: if_splits)

lemma directory_record_typed:
  assumes r: "directory_record p i raw f w = (r, v)" and w: "walk_ok p listed w"
  shows "in_zone v \<noteq> 0 \<and> in_net v \<noteq> Some 0 \<and>
    (case r of
       Inl e \<Rightarrow> if e = ErrProfile then list_format p = Boss_Format \<and> walk_ok p listed v
                else list_format p = Boss_Format \<longrightarrow> v = w
     | Inr e \<Rightarrow> entry_ok p (insert (entry_address e) listed) e \<and> walk_ok p (insert (entry_address e) listed) v)"
proof (cases "hd f = ''Boss''")
  case True
  with r w show ?thesis
    by (auto simp: directory_record_def boss_header_def walk_ok_def split: if_splits elim!: chainE
        dest: parse_address_errors) (erule parse_address_wf)
next
  case False
  note r = r [unfolded directory_record_def if_not_P [OF False]]
  have same: ?thesis if "r = Inl e" "v = w" "e \<noteq> ErrProfile" for e
    using that w by (simp add: walk_ok_def)
  show ?thesis
  proof (cases "length f < 7 \<or> list_ex (\<lambda>s. 255 < length s \<or> CHR '' '' \<in> set s) f")
    case True
    then show ?thesis using r same by (simp only: if_True) auto
  next
    case False
    note r = r [unfolded if_not_P [OF False]]
    show ?thesis
    proof (cases "number (f ! 1)")
      case (Inl e)
      then show ?thesis using r same [of e] number_errors [OF Inl] by simp
    next
      case (Inr n)
      note r = r [unfolded Inr chain_simps]
      show ?thesis
      proof (cases "n = 0")
        case True
        then show ?thesis using r same by auto
      next
        case False
        obtain x u where x: "record_address p (hd f) n w = (x, u)" by force
        note typed = record_address_typed [OF x False w]
        show ?thesis
        proof (cases x)
          case (Inl e)
          then show ?thesis using r x typed False by auto
        next
          case (Inr a)
          note r = r [unfolded if_not_P [OF False] x Inr chain_simps]
          define fl where "fl = filter (\<lambda>s. s \<noteq> []) (drop 7 f)"
          note r = r [unfolded Let_def, folded fl_def]
          have fl: "[] \<notin> set fl" by (simp add: fl_def)
          show ?thesis
            using r typed fl Inr record_address_boss [OF x]
            by (auto elim!: chainE simp: result_simps entry_ok_def dest: flag_services_typed flag_services_errors)
        qed
      qed
    qed
  qed
qed

section \<open>The invariant of the loop\<close>

definition listed :: "directory_candidate \<Rightarrow> address set" where
  "listed c = entry_address ` set (entries c)"

definition loading_ok :: "'d directory_profile \<Rightarrow> loading \<Rightarrow> bool" where
  "loading_ok p st \<longleftrightarrow>
     tree_ok (known st) \<and> dom (tree_lookup (known st)) = listed (candidate st) \<and>
     distinct (map entry_address (entries (candidate st))) \<and>
     (\<forall>e \<in> set (entries (candidate st)). entry_ok p (listed (candidate st)) e) \<and>
     walk_ok p (listed (candidate st)) (walking st)"

lemma entry_ok_mono: "entry_ok p l e \<Longrightarrow> l \<subseteq> m \<Longrightarrow> entry_ok p m e"
  by (auto simp: entry_ok_def address_ok_def split: directory_format.splits)

lemma add_issue_entries [simp]: "entries (add_issue n s c) = entries c" "listed (add_issue n s c) = listed c"
  by (simp_all add: add_issue_def listed_def)

lemma walk_ok_reset:
  "in_zone w \<noteq> 0 \<Longrightarrow> in_net w \<noteq> Some 0 \<Longrightarrow>
   walk_ok p l (w\<lparr>in_boss := None, in_net := (if b then in_net w else None)\<rparr>)"
  by (simp add: walk_ok_def)

lemma take_result_ok:
  assumes ok: "loading_ok p st" and rec: "directory_record p i raw f (walking st) = (r, w)"
  shows "loading_ok p (take_result p i (r, w) st)"
proof -
  note typed = directory_record_typed [OF rec, of "listed (candidate st)"]
  have walk: "walk_ok p (listed (candidate st)) (walking st)" using ok by (simp add: loading_ok_def)
  show ?thesis
  proof (cases r)
    case (Inl e)
    then show ?thesis
      using typed [OF walk] ok by (auto simp: take_result_def loading_ok_def walk_ok_reset split: if_splits)
  next
    case (Inr e)
    note t = typed [OF walk, unfolded Inr sum.case]
    show ?thesis
    proof (cases "tree_lookup (known st) (entry_address e)")
      case None
      then have "entry_address e \<notin> dom (tree_lookup (known st))" by (simp add: domIff)
      then have new: "entry_address e \<notin> listed (candidate st)" using ok by (simp add: loading_ok_def)
      have l: "listed (candidate st\<lparr>entries := entries (candidate st) @ [e]\<rparr>) = insert (entry_address e) (listed (candidate st))"
        by (simp add: listed_def)
      from ok new t show ?thesis
        by (auto simp: take_result_def Inr None loading_ok_def l tree_insert_ok lookup_insert
            intro: entry_ok_mono) (auto simp: listed_def)
    next
      case (Some old)
      then have "entry_address e \<in> dom (tree_lookup (known st))" by (simp add: domIff)
      then have "entry_address e \<in> listed (candidate st)" using ok by (simp add: loading_ok_def)
      then have "insert (entry_address e) (listed (candidate st)) = listed (candidate st)" by blast
      with ok t show ?thesis
        by (auto simp: take_result_def Inr Some loading_ok_def tree_insert_ok lookup_insert)
    qed
  qed
qed

interpretation directory: machine "directory_line p" "loading_ok p" for p
proof unfold_locales
  fix st ir t
  assume ok: "loading_ok p st" and l: "directory_line p st ir = Inr t"
  obtain i r where ir: "ir = (i, r)" by force
  show "loading_ok p t"
  proof (cases "r = [] \<or> starts_with [59] r")
    case True
    then show ?thesis using ok l by (auto simp: directory_line_def ir)
  next
    case False
    then obtain s where "t = take_result p i (directory_record p i r (split_on CHR '','' s) (walking st)) st"
      using l unfolding directory_line_def ir by (auto simp: result_simps)
    then show ?thesis
      using take_result_ok [OF ok, of i r "split_on CHR '','' s"]
      by (cases "directory_record p i r (split_on CHR '','' s) (walking st)") auto
  qed
qed

section \<open>Properties\<close>

text \<open>
  C13.  What an accepted directory publishes is well typed: there is an entry, no two entries have
  the same address, every address is a node of a nodelist, a point of a boss list, or in a combined
  list a node or a point whose boss is listed; services are known, never on port zero, their hosts
  bounded and free of separators.
\<close>

theorem directory_entries_well_formed:
  assumes "directory_parse ordinal bs p = Inr c"
  shows "entries c \<noteq> [] \<and> distinct (map entry_address (entries c)) \<and>
    (\<forall>e \<in> set (entries c). entry_ok p (listed c) e)"
proof -
  obtain ls sum st where z: "list_zone p \<noteq> 0" and ne: "entries (candidate st) \<noteq> []" and c: "c = candidate st"
    and run: "run_steps (directory_line p)
            \<lparr>candidate = \<lparr>entries = [], issues = [], list_checksum = sum\<rparr>, known = [],
             walking = \<lparr>in_zone = list_zone p, in_net = None, in_boss = None\<rparr>\<rparr>
            (enumerate 1 (tl ls)) = Inr st"
    using assms unfolding directory_parse_def by (auto simp: result_simps split: if_splits)
  have "loading_ok p st"
    by (rule directory.run_inv [OF _ run]) (simp add: loading_ok_def listed_def walk_ok_def tree_ok_def tree_lookup_def z)
  with ne c show ?thesis by (auto simp: loading_ok_def)
qed

section \<open>A changed byte\<close>

lemma split_by_change:
  "\<exists>as a b zs. \<forall>x. \<not> P x \<longrightarrow> split_by P (pre @ x # post) = as @ (a @ x # b) # zs"
proof (induction pre)
  case Nil
  obtain q qs where q: "split_by P post = q # qs" by (cases "split_by P post") auto
  have "\<forall>x. \<not> P x \<longrightarrow> split_by P ([] @ x # post) = [] @ ([] @ x # q) # qs" by (simp add: q)
  then show ?case by blast
next
  case (Cons c pre)
  then obtain as a b zs where e: "\<forall>x. \<not> P x \<longrightarrow> split_by P (pre @ x # post) = as @ (a @ x # b) # zs" by blast
  show ?case
  proof (cases "P c")
    case True
    then have "\<forall>x. \<not> P x \<longrightarrow> split_by P ((c # pre) @ x # post) = ([] # as) @ (a @ x # b) # zs" using e by simp
    then show ?thesis by blast
  next
    case False
    show ?thesis
    proof (cases as)
      case Nil
      then have "\<forall>x. \<not> P x \<longrightarrow> split_by P ((c # pre) @ x # post) = [] @ ((c # a) @ x # b) # zs" using e False by simp
      then show ?thesis by blast
    next
      case (Cons q as')
      then have "\<forall>x. \<not> P x \<longrightarrow> split_by P ((c # pre) @ x # post) = ((c # q) # as') @ (a @ x # b) # zs" using e False by simp
      then show ?thesis by blast
    qed
  qed
qed

lemma split_by_change_later:
  assumes "\<exists>c \<in> set pre. P c"
  obtains h as a b zs where "\<And>x. \<not> P x \<Longrightarrow> split_by P (pre @ x # post) = (h # as) @ (a @ x # b) # zs"
proof -
  obtain ys c ps where p: "pre = ys @ c # ps" and c: "P c" and ys: "\<forall>y \<in> set ys. \<not> P y"
    using assms split_list_first_prop by metis
  obtain as a b zs where e: "\<forall>x. \<not> P x \<longrightarrow> split_by P (ps @ x # post) = as @ (a @ x # b) # zs"
    using split_by_change by metis
  have "split_by P (pre @ x # post) = (ys # as) @ (a @ x # b) # zs" if "\<not> P x" for x
    using e that split_by_append [OF ys c, of "ps @ x # post"] by (simp add: p)
  then show ?thesis by (rule that)
qed

definition unreturned :: "bytes \<Rightarrow> bytes" where
  "unreturned l = unwrap_or (strip_suffix [13] l) l"

lemma unreturned_change: "x \<noteq> 13 \<Longrightarrow> \<exists>c. unreturned (a @ x # b) = a @ x # c \<and> (\<forall>y. y \<noteq> 13 \<longrightarrow> unreturned (a @ y # b) = a @ y # c)"
  by (cases b rule: rev_cases) (auto simp: unreturned_def strip_suffix_def unwrap_or_def)

lemma checksum_change:
  "x \<noteq> y \<Longrightarrow> records_checksum (as @ (a @ x # c) # zs) \<noteq> records_checksum (as @ (a @ y # c) # zs)"
  using crc_one_byte [of x y "concat (map (\<lambda>l. l @ [13, 10]) as) @ a"] by (simp add: records_checksum_def crc16_xmodem)

definition cut_lines :: "bytes \<Rightarrow> bytes list" where
  "cut_lines bs = (let ls = take 100002 (split_on 10 bs) in if last ls = [] then butlast ls else ls)"

lemma directory_lines_cut:
  "directory_lines bs =
     (let bs = unwrap_or (strip_suffix [26] bs) bs; ls = cut_lines bs in
      if 26 \<in> set bs then Inl ErrDirectory
      else if ls = [] \<or> 100000 < length ls then Inl ErrLimit
      else if list_ex (\<lambda>l. 2048 < length l \<or> list_ex (\<lambda>b. b < 32 \<or> b = 127) l) (map unreturned ls) then Inl ErrDirectory
      else Inr (map unreturned ls))"
  unfolding directory_lines_def cut_lines_def unreturned_def [abs_def] Let_def by (rule refl)

lemma cut_lines_change:
  assumes "\<And>z. z \<noteq> 10 \<Longrightarrow> split_on 10 (pre @ z # q) = (h # as) @ (a @ z # b) # zs"
    and x: "x \<noteq> 10" "length (cut_lines (pre @ x # q)) \<le> 100000"
  obtains us where "\<And>z. z \<noteq> 10 \<Longrightarrow> cut_lines (pre @ z # q) = (h # as) @ (a @ z # b) # us"
proof -
  note s = assms(1)
  have n: "length ((h # as) @ (a @ x # b) # zs) \<le> 100002"
  proof (rule ccontr)
    assume "\<not> ?thesis"
    then have "length (take 100002 (split_on 10 (pre @ x # q))) = 100002" using s [OF x(1)] by simp
    then have "100001 \<le> length (cut_lines (pre @ x # q))" by (simp add: cut_lines_def Let_def)
    with x(2) show False by simp
  qed
  show ?thesis
  proof (rule that)
    fix z :: u8 assume z: "z \<noteq> 10"
    have "take 100002 (split_on 10 (pre @ z # q)) = (h # as) @ (a @ z # b) # zs"
      using n by (subst s [OF z]) (rule take_all, simp)
    then show "cut_lines (pre @ z # q) =
        (h # as) @ (a @ z # b) # (if zs \<noteq> [] \<and> last zs = [] then butlast zs else zs)"
      by (auto simp: cut_lines_def butlast_append)
  qed
qed

lemma directory_lines_change:
  assumes ls: "directory_lines (pre @ x # post) = Inr ls" and "10 \<in> set pre"
    and x: "x \<notin> {10, 13, 26}" and y: "y \<notin> {10, 13, 26}" and "x \<noteq> y"
  shows "(\<exists>e. directory_lines (pre @ y # post) = Inl e) \<or>
    (\<exists>ks. directory_lines (pre @ y # post) = Inr ks \<and> hd ks = hd ls \<and> records_checksum (tl ks) \<noteq> records_checksum (tl ls))"
proof -
  have "\<exists>q. \<forall>z. z \<noteq> 26 \<longrightarrow> unwrap_or (strip_suffix [26] (pre @ z # post)) (pre @ z # post) = pre @ z # q"
    by (cases post rule: rev_cases) (auto simp: strip_suffix_def unwrap_or_def)
  then obtain q where q: "z \<noteq> 26 \<Longrightarrow> unwrap_or (strip_suffix [26] (pre @ z # post)) (pre @ z # post) = pre @ z # q" for z
    by blast
  have "\<exists>v \<in> set pre. v = 10" using assms(2) by blast
  then obtain h as a b zs where s: "\<And>z. z \<noteq> 10 \<Longrightarrow> split_on 10 (pre @ z # q) = (h # as) @ (a @ z # b) # zs"
    by (rule split_by_change_later [where P = "\<lambda>v. v = 10" and post = q]) blast
  obtain c where c: "z \<noteq> 13 \<Longrightarrow> unreturned (a @ z # b) = a @ z # c" for z
    using unreturned_change [of 0 a b] by auto
  have lx: "length (cut_lines (pre @ x # q)) \<le> 100000" "ls = map unreturned (cut_lines (pre @ x # q))"
    using ls x by (auto simp: directory_lines_cut q Let_def split: if_splits)
  from x obtain us where u: "\<And>z. z \<noteq> 10 \<Longrightarrow> cut_lines (pre @ z # q) = (h # as) @ (a @ z # b) # us"
    using cut_lines_change [OF s _ lx(1)] by blast
  have l: "ls = (unreturned h # map unreturned as) @ (a @ x # c) # map unreturned us"
    using x by (simp add: lx(2) u c)
  let ?ks = "(unreturned h # map unreturned as) @ (a @ y # c) # map unreturned us"
  have k: "map unreturned (cut_lines (pre @ y # q)) = ?ks" using y by (simp add: u c)
  have "directory_lines (pre @ y # post) = Inr ?ks" if "directory_lines (pre @ y # post) = Inr ks" for ks
    using that y k by (simp add: directory_lines_cut q Let_def split: if_splits)
  moreover have "records_checksum (tl ?ks) \<noteq> records_checksum (tl ls)"
    using checksum_change [of y x "map unreturned as"] assms(5) by (simp add: l)
  moreover have "hd ?ks = hd ls" by (simp add: l)
  ultimately show ?thesis by (cases "directory_lines (pre @ y # post)") metis+
qed

lemma header_changed:
  assumes "list_header ordinal p ls = Inr (Some v)" and "hd ks = hd ls"
    and "records_checksum (tl ks) \<noteq> records_checksum (tl ls)"
  shows "\<exists>e. list_header ordinal p ks = Inl e"
proof (cases "list_header ordinal p ks")
  case (Inr r)
  with assms show ?thesis
    unfolding list_header_def by (auto simp: result_simps Let_def split: if_splits option.splits)
qed simp

lemma take_result_checksum [simp]: "list_checksum (candidate (take_result p i r st)) = list_checksum (candidate st)"
  by (cases r; cases "fst r") (auto simp: take_result_def add_issue_def split: option.splits)

lemma checksum_kept:
  "run_steps (directory_line p) st irs = Inr t \<Longrightarrow> list_checksum (candidate t) = list_checksum (candidate st)"
proof (induction irs arbitrary: st)
  case (Cons ir irs)
  then obtain u where u: "directory_line p st ir = Inr u" and t: "run_steps (directory_line p) u irs = Inr t"
    by (auto simp: result_simps)
  have "list_checksum (candidate u) = list_checksum (candidate st)"
    using u by (cases ir) (auto simp: directory_line_def result_simps split: if_splits)
  with Cons.IH [OF t] show ?case by simp
qed simp

text \<open>
  C14.  A directory whose checksum was verified is intact: with any one byte of a record changed to
  another one it is refused.
\<close>

theorem directory_damage_refused:
  assumes "directory_parse ordinal (pre @ x # post) p = Inr c" and "list_checksum c \<noteq> None"
    and "10 \<in> set pre" and "x \<notin> {10, 13, 26}" and "y \<notin> {10, 13, 26}" and "x \<noteq> y"
  shows "\<exists>e. directory_parse ordinal (pre @ y # post) p = Inl e"
proof -
  let ?run = "\<lambda>ls sum. run_steps (directory_line p)
            \<lparr>candidate = \<lparr>entries = [], issues = [], list_checksum = sum\<rparr>, known = [],
             walking = \<lparr>in_zone = list_zone p, in_net = None, in_boss = None\<rparr>\<rparr> (enumerate 1 (tl ls))"
  obtain ls sum st where ls: "directory_lines (pre @ x # post) = Inr ls" and h: "list_header ordinal p ls = Inr sum"
    and run: "?run ls sum = Inr st" and c: "c = candidate st"
    using assms(1) unfolding directory_parse_def by (auto simp: result_simps split: if_splits)
  from checksum_kept [OF run] assms(2) c obtain v where sum: "sum = Some v" by auto
  from directory_lines_change [OF ls assms(3-6)] show ?thesis
  proof
    assume "\<exists>e. directory_lines (pre @ y # post) = Inl e"
    then show ?thesis by (auto simp: directory_parse_def)
  next
    assume "\<exists>ks. directory_lines (pre @ y # post) = Inr ks \<and> hd ks = hd ls \<and> records_checksum (tl ks) \<noteq> records_checksum (tl ls)"
    then obtain ks where ks: "directory_lines (pre @ y # post) = Inr ks" "hd ks = hd ls"
      "records_checksum (tl ks) \<noteq> records_checksum (tl ls)" by blast
    have "\<exists>e. list_header ordinal p ks = Inl e" by (rule header_changed [OF h [unfolded sum] ks(2,3)])
    then show ?thesis using ks(1) by (auto simp: directory_parse_def)
  qed
qed

section \<open>Two lists\<close>

definition file_of :: "string list \<Rightarrow> bytes" where
  "file_of ls = concat (map (\<lambda>l. as_bytes l @ [10]) ls)"

definition plain_line :: "string \<Rightarrow> bool" where
  "plain_line l \<longleftrightarrow> length l \<le> 2048 \<and> list_all (\<lambda>c. 32 \<le> ord c \<and> ord c < 127) l"

lemma plain_line_bytes:
  assumes "plain_line l" and "b \<in> set (as_bytes l)"
  shows "\<not> b < 32" "b \<noteq> 127" "b \<noteq> 10" "b \<noteq> 13" "b \<noteq> 26" "unat b < 128"
proof -
  have u: "32 \<le> unat b" "unat b < 127" using assms by (auto simp: plain_line_def set_as_bytes list_all_iff)
  then show "\<not> b < 32" by (simp add: word_less_nat_alt)
  show "b \<noteq> 127" "b \<noteq> 10" "b \<noteq> 13" "b \<noteq> 26" "unat b < 128" using u by auto
qed

lemma split_file_of: "list_all plain_line ls \<Longrightarrow> split_on 10 (file_of ls) = map as_bytes ls @ [[]]"
proof (induction ls)
  case (Cons l ls)
  then have "split_on 10 (as_bytes l @ 10 # file_of ls) = as_bytes l # split_on 10 (file_of ls)"
    by (intro split_by_append) (auto dest: plain_line_bytes)
  with Cons show ?case by (simp add: file_of_def)
qed (simp add: file_of_def)

lemma directory_lines_file:
  assumes "list_all plain_line ls" and "ls \<noteq> []" and "length ls \<le> 100000"
  shows "directory_lines (file_of ls) = Inr (map as_bytes ls)"
proof -
  obtain ms m where m: "ls = ms @ [m]" using assms(2) by (cases ls rule: rev_cases) auto
  have "strip_suffix [26] (file_of ls) = None" by (simp add: m file_of_def strip_suffix_def)
  moreover have "26 \<notin> set (file_of ls)"
    using assms(1) by (auto simp: file_of_def list_all_iff dest: plain_line_bytes)
  moreover have "cut_lines (file_of ls) = map as_bytes ls"
    using assms by (simp add: cut_lines_def split_file_of)
  moreover have "map unreturned (map as_bytes ls) = map as_bytes ls"
  proof -
    have "unreturned (as_bytes l) = as_bytes l" if "plain_line l" for l
    proof (cases "as_bytes l" rule: rev_cases)
      case (snoc ys y)
      then have "y \<noteq> 13" using plain_line_bytes(4) [OF that, of y] by simp
      with snoc show ?thesis by (simp add: unreturned_def strip_suffix_def unwrap_or_def)
    qed (simp add: unreturned_def strip_suffix_def unwrap_or_def)
    then show ?thesis using assms(1) by (simp add: list_all_iff)
  qed
  moreover have "\<not> list_ex (\<lambda>l. 2048 < length l \<or> list_ex (\<lambda>b. b < 32 \<or> b = 127) l) (map as_bytes ls)"
  proof -
    have "\<not> (2048 < length (as_bytes l) \<or> list_ex (\<lambda>b. b < 32 \<or> b = 127) (as_bytes l))" if "plain_line l" for l
      using that plain_line_bytes(1,2) [OF that] by (auto simp: list_ex_iff) (auto simp: plain_line_def)
    then show ?thesis using assms(1) by (auto simp: list_all_iff list_ex_iff)
  qed
  ultimately show ?thesis using assms unfolding directory_lines_cut Let_def by (simp del: list.map_comp map_map)
qed

lemma decode_plain: "plain_line l \<Longrightarrow> charset_decode Ascii (as_bytes l) = Inr l"
  using ascii_decode [of Ascii "as_bytes l"] by (auto dest: plain_line_bytes)

lemma directory_line_plain:
  "list_charset p = Ascii \<Longrightarrow> plain_line l \<Longrightarrow> l \<noteq> [] \<Longrightarrow> hd l \<noteq> CHR '';'' \<Longrightarrow>
   directory_line p st (i, as_bytes l) =
     Inr (take_result p i (directory_record p i (as_bytes l) (split_on CHR '','' l) (walking st)) st)"
proof -
  assume l: "list_charset p = Ascii" "plain_line l" "l \<noteq> []" "hd l \<noteq> CHR '';''"
  obtain c cs where c: "l = c # cs" using l(3) by (cases l) auto
  have "byte_of c \<noteq> byte_of CHR '';''" using l(4) by (metis c list.sel(1) char_at_byte_of)
  then have "\<not> starts_with [59] (as_bytes l)" by (simp add: c as_bytes_def starts_with_def byte_of_def)
  with l show ?thesis by (simp add: directory_line_def decode_plain) (simp add: as_bytes_def)
qed

definition plain_profile :: "'d \<Rightarrow> bool \<Rightarrow> 'd directory_profile" where
  "plain_profile d crc =
     \<lparr>list_format = Nodelist, list_charset = Ascii, list_date = d, list_zone = 1, list_crc = crc\<rparr>"

definition checked_list :: "string list" where
  "checked_list = ['';A 003 :44018'', ''Zone,1,N,L,S,-,0'']"

lemma small_words: "number ''0'' = Inr 0" "number ''1'' = Inr 1"
    "number ''003'' = Inr 3" "number ''44018'' = Inr 44018"
  by (simp_all add: number_def all_digits_def parse_uint_def dec_value_def)

lemma speed_zero: "parse_uint 4294967295 ''0'' = Some 0"
  by (simp add: parse_uint_def all_digits_def dec_value_def)

lemmas record_eval = directory_record_def small_words speed_zero record_address_def address_new_def
  flag_services_def underscores_def plain_profile_def

lemma zone_record: "directory_record (plain_profile d crc) i r (split_on CHR '','' ''Zone,1,N,L,S,-,0'') w =
    (Inr \<lparr>entry_address = Address 1 1 0 0, keyword = ''Zone'', system_name = ''N'', location = ''L'', sysop_name = ''S'',
       phone = ''-'', speed = 0, entry_flags = [], services = [], entry_line = i + 1, entry_raw = r\<rparr>,
     w\<lparr>in_zone := 1, in_net := Some 1, in_boss := None\<rparr>)"
  by (simp add: record_eval)

lemma plain_sample: "list_all plain_line checked_list"
  by (simp add: plain_line_def checked_list_def)

lemma zone_crc: "records_checksum [as_bytes ''Zone,1,N,L,S,-,0''] = 44018"
proof -
  have "unat (crc16_xmodem [90, 111, 110, 101, 44, 49, 44, 78, 44, 76, 44, 83, 44, 45, 44, 48, 13, 10]) = unat (44018 :: u16)"
    by (simp add: crc_eval)
  then have "crc16_xmodem [90, 111, 110, 101, 44, 49, 44, 78, 44, 76, 44, 83, 44, 45, 44, 48, 13, 10] = 44018"
    by (rule unsigned_word_eqI [where ?'a = nat])
  then show ?thesis by (simp add: records_checksum_def crc16_xmodem as_bytes_def byte_of_def)
qed

lemma trim_digits: "trim ''44018'' = ''44018''"
  by (simp add: trim_def white_space_def from_chars_def char_utf8_def)

lemma checked_header:
  assumes "ordinal d = 3"
  shows "list_header ordinal (plain_profile d True) (map as_bytes checked_list) = Inr (Some 44018)"
proof -
  have "charset_decode Ascii (as_bytes '';A 003 :44018'') = Inr '';A 003 :44018''"
    by (rule decode_plain) (simp add: plain_line_def)
  moreover have "rsplit_once CHR '':'' '';A 003 :44018'' = Some ('';A 003 '', ''44018'')"
    by (simp add: rsplit_once_def)
  moreover have "filter (\<lambda>s. s \<noteq> []) (split_by (\<lambda>c. \<not> ascii_digit (ord c)) '';A 003 '') = [''003'']"
    by simp
  ultimately show ?thesis
    using assms unfolding list_header_def
    by (simp add: checked_list_def plain_profile_def starts_with_def trim_digits small_words zone_crc)
qed

lemma plain_start: "\<not> starts_with '';'' ''Zone''" by (simp add: starts_with_def)

lemma checked_accepted:
  assumes "ordinal d = 3"
  shows "\<exists>c. directory_parse ordinal (file_of checked_list) (plain_profile d True) = Inr c \<and>
    list_checksum c = Some 44018 \<and> map entry_address (entries c) = [Address 1 1 0 0]"
proof -
  have n: "length (file_of checked_list) \<le> 16 * 1024 * 1024" by (simp add: file_of_def checked_list_def)
  have l: "directory_lines (file_of checked_list) = Inr (map as_bytes checked_list)"
    by (rule directory_lines_file [OF plain_sample]) (simp_all add: checked_list_def)
  have line: "directory_line (plain_profile d True) st (i, as_bytes ''Zone,1,N,L,S,-,0'') =
      Inr (take_result (plain_profile d True) i (directory_record (plain_profile d True) i (as_bytes ''Zone,1,N,L,S,-,0'')
        (split_on CHR '','' ''Zone,1,N,L,S,-,0'') (walking st)) st)" for st i
    by (rule directory_line_plain) (simp_all add: plain_profile_def plain_line_def)
  have h: "list_header ordinal (plain_profile d True) (map as_bytes checked_list) = Inr (Some 44018)"
    by (rule checked_header) (rule assms)
  have z: "list_zone (plain_profile d True) = 1" by (simp add: plain_profile_def)
  show ?thesis
    using n unfolding directory_parse_def l attempt_Inr h z
    by (simp add: checked_list_def line zone_record take_result_def tree_lookup_def del: split_by.simps)
qed

section \<open>Witnesses\<close>

theorem directory_entries_well_formed_witness:
  "\<exists>c. directory_parse (\<lambda>_. 3) (file_of checked_list) (plain_profile () True) = Inr c \<and>
    list_ex (\<lambda>e. entry_ok (plain_profile () True) (listed c) e \<and> entry_address e = Address 1 1 0 0) (entries c)"
proof -
  obtain c where c: "directory_parse (\<lambda>_. 3) (file_of checked_list) (plain_profile () True) = Inr c"
    and a: "map entry_address (entries c) = [Address 1 1 0 0]"
    using checked_accepted [of "\<lambda>_. 3" "()"] by auto
  from a obtain e where "entries c = [e]" "entry_address e = Address 1 1 0 0" by auto
  with directory_entries_well_formed [OF c] c show ?thesis by auto
qed

theorem directory_damage_refused_witness:
  "\<exists>e. directory_parse (\<lambda>_. 3)
     ((as_bytes '';A 003 :44018'' @ 10 # as_bytes ''Zone,1,N,L,S,-,'') @ 49 # [10]) (plain_profile () True) = Inl e"
proof -
  have f: "file_of checked_list = (as_bytes '';A 003 :44018'' @ 10 # as_bytes ''Zone,1,N,L,S,-,'') @ 48 # [10]"
    by (simp add: file_of_def checked_list_def as_bytes_def byte_of_def)
  obtain c where c: "directory_parse (\<lambda>_. 3) (file_of checked_list) (plain_profile () True) = Inr c"
    and k: "list_checksum c = Some 44018"
    using checked_accepted [of "\<lambda>_. 3" "()"] by auto
  show ?thesis by (rule directory_damage_refused [OF c [unfolded f]]) (simp_all add: k)
qed

end
