(* ===== verification/Ftn_Text.thy ===== *)
theory Ftn_Text
  imports Ftn_Charset Ftn_Packet Sorted_Map "HOL-Library.List_Lexorder" "HOL-Library.Product_Lexorder"
begin

text \<open>
  \<open>crates/sf-net/src/ftn/text.rs\<close>: the text of an FTN message with its control paragraphs.  A
  Rust string is the list of its UTF-8 bytes, a paragraph a list of bytes; the \<open>BTreeSet\<close> of
  seen-by nodes is a sorted map without values.
\<close>

definition MAX_CONTROLS :: nat where "MAX_CONTROLS = 128"
definition MAX_CONTROL_BYTES :: nat where "MAX_CONTROL_BYTES = 16 * 1024"
definition MAX_CONTROL_LINE :: nat where "MAX_CONTROL_LINE = 1024"
definition MAX_HOPS :: nat where "MAX_HOPS = 128"

datatype rescan_source = Qualified endpoint | Domainless address

definition parse_rescan_source :: "string \<Rightarrow> ftn_error + rescan_source" where
  "parse_rescan_source v =
     (if CHR ''@'' \<in> set v then attempt (parse_endpoint v) (\<lambda>e. Inr (Qualified e))
      else attempt (parse_address v) (\<lambda>a. Inr (Domainless a)))"

record control =
  in_paragraph :: nat
  raw :: bytes

record ftn_text =
  t_body :: string
  t_charset :: charset
  controls :: "control list"
  area :: "string option"
  msgid :: "string option"
  reply :: "string option"
  intl :: "(address \<times> address) option"
  fmpt :: u16
  topt :: u16
  offset_minutes :: "int option"
  seen_by :: "(u16 \<times> u16, unit) btree"
  t_path :: "(u16 \<times> u16) list"
  t_via :: "string list"
  t_origin :: "string option"
  tear :: "string option"
  t_flags :: "string list"

section \<open>Values of controls\<close>

definition single :: "string option \<Rightarrow> string \<Rightarrow> ftn_error + string option" where
  "single slot v = (if slot \<noteq> None \<or> v = [] then Inl ErrControl else Inr (Some v))"

definition identity :: "string \<Rightarrow> ftn_error + unit" where
  "identity s =
     attempt (ok_or (rsplit_once CHR '' '' s) ErrControl) (\<lambda>(org, serial).
       if org = [] \<or> 240 < length org \<or> length serial \<noteq> 8 \<or>
          \<not> list_all (\<lambda>c. ascii_hexdigit (ord c)) serial \<or> list_ex is_control (chars s)
       then Inl ErrControl
       else if hd org = CHR 0x22 then
         (if last org \<noteq> CHR 0x22 \<or> length org < 3 then Inl ErrControl else Inr ())
       else if CHR '' '' \<in> set org then Inl ErrControl
       else Inr ())"

text \<open>A two-dimensional address; the net may be left out when it is the one before.\<close>

definition parse_2d :: "string \<Rightarrow> u16 option \<Rightarrow> ftn_error + (u16 \<times> u16) \<times> u16 option" where
  "parse_2d s prior =
     attempt
       (case split_once CHR ''/'' s of
          Some (n, d) \<Rightarrow> attempt (number n) (\<lambda>n. attempt (number d) (\<lambda>d. Inr (d, Some n)))
        | None \<Rightarrow> attempt (number s) (\<lambda>d. Inr (d, prior)))
       (\<lambda>(d, now).
         attempt (ok_or now ErrControl) (\<lambda>n.
           if n = 0 then Inl ErrControl else Inr ((n, d), now)))"

fun parse_2ds :: "string list \<Rightarrow> u16 option \<Rightarrow> ftn_error + (u16 \<times> u16) list \<times> u16 option" where
  "parse_2ds [] prior = Inr ([], prior)"
| "parse_2ds (s # ss) prior =
     attempt (parse_2d s prior) (\<lambda>(p, now).
     attempt (parse_2ds ss now) (\<lambda>(ps, end_net). Inr (p # ps, end_net)))"

definition valid_area :: "string \<Rightarrow> bool" where
  "valid_area s \<longleftrightarrow> s \<noteq> [] \<and> length s \<le> 35 \<and>
     list_all (\<lambda>c. ascii_upper (ord c) \<or> ascii_digit (ord c) \<or> c \<in> set ''._-'') s"

definition utc_offset :: "string \<Rightarrow> ftn_error + int" where
  "utc_offset s =
     (let (sign, s) = (case strip_prefix ''-'' s of
            Some s \<Rightarrow> (-1, s) | None \<Rightarrow> (1, unwrap_or (strip_prefix ''+'' s) s)) in
      if length s \<noteq> 4 \<or> \<not> all_digits s then Inl ErrTimestamp
      else
        attempt (number (take 2 s)) (\<lambda>h. attempt (number (drop 2 s)) (\<lambda>m.
          if 23 < h \<or> 59 < m then Inl ErrTimestamp
          else Inr (sign * (uint h * 60 + uint m)))))"

section \<open>Parsing\<close>

definition known_tags :: "string list" where
  "known_tags =
     [''MSGID'', ''REPLY'', ''INTL'', ''FMPT'', ''TOPT'', ''CHRS'', ''CHARSET'', ''TZUTC'', ''TZUTCINFO'',
      ''PATH'', ''Via'', ''FLAGS'', ''PID'', ''TID'', ''RESCANNED'']"

definition spaced_tags :: "string list" where
  "spaced_tags = [''INTL'', ''FMPT'', ''TOPT'', ''Via'', ''FLAGS'', ''RESCANNED'']"

text \<open>What the value of a known control sets; \<open>d\<close> is the character set declared so far.\<close>

definition apply_control :: "string \<Rightarrow> string \<Rightarrow> ftn_text \<Rightarrow> charset option \<Rightarrow> ftn_error + ftn_text \<times> charset option" where
  "apply_control tag v t d =
     (if tag = ''MSGID'' then
        attempt (identity v) (\<lambda>_. attempt (single (msgid t) v) (\<lambda>i. Inr (t\<lparr>msgid := i\<rparr>, d)))
      else if tag = ''REPLY'' then
        attempt (identity v) (\<lambda>_. attempt (single (reply t) v) (\<lambda>i. Inr (t\<lparr>reply := i\<rparr>, d)))
      else if tag = ''INTL'' then
        attempt (ok_or (split_once CHR '' '' v) ErrControl) (\<lambda>(dst, org).
        attempt (parse_address dst) (\<lambda>dst. attempt (parse_address org) (\<lambda>org.
          if point dst \<noteq> 0 \<or> point org \<noteq> 0 then Inl ErrControl
          else Inr (t\<lparr>intl := Some (dst, org)\<rparr>, d))))
      else if tag = ''FMPT'' then
        attempt (number v) (\<lambda>n. if n = 0 then Inl ErrControl else Inr (t\<lparr>fmpt := n\<rparr>, d))
      else if tag = ''TOPT'' then
        attempt (number v) (\<lambda>n. if n = 0 then Inl ErrControl else Inr (t\<lparr>topt := n\<rparr>, d))
      else if tag = ''CHRS'' \<or> tag = ''CHARSET'' then
        attempt (case split_ascii_whitespace v of [] \<Rightarrow> Inl ErrEncoding | x # _ \<Rightarrow> Inr x) (\<lambda>name.
        attempt (charset_parse name) (\<lambda>c.
          if d \<noteq> None \<and> d \<noteq> Some c then Inl ErrEncoding
          else Inr (t\<lparr>t_charset := c\<rparr>, Some c)))
      else if tag = ''TZUTC'' \<or> tag = ''TZUTCINFO'' then
        attempt (utc_offset v) (\<lambda>n.
          if offset_minutes t \<noteq> None \<and> offset_minutes t \<noteq> Some n then Inl ErrTimestamp
          else Inr (t\<lparr>offset_minutes := Some n\<rparr>, d))
      else if tag = ''PATH'' then
        attempt (parse_2ds (split_ascii_whitespace v) None) (\<lambda>(ps, _).
          if MAX_HOPS < length (t_path t @ ps) then Inl ErrLimit
          else Inr (t\<lparr>t_path := t_path t @ ps\<rparr>, d))
      else if tag = ''RESCANNED'' then attempt (parse_rescan_source v) (\<lambda>_. Inr (t, d))
      else if tag = ''Via'' then
        (if MAX_HOPS \<le> length (t_via t) then Inl ErrLimit else Inr (t\<lparr>t_via := t_via t @ [v]\<rparr>, d))
      else if tag = ''FLAGS'' then Inr (t\<lparr>t_flags := split_ascii_whitespace v\<rparr>, d)
      else Inr (t, d))"

text \<open>The state of the loop over the lines.\<close>

record parsing =
  out :: ftn_text
  paragraphs :: "bytes list"
  singletons :: "string list"
  control_bytes :: nat
  declared :: "charset option"

definition control_tag :: "bytes \<Rightarrow> ftn_error + string \<times> bytes" where
  "control_tag line =
     (let logical = filter (\<lambda>b. b \<noteq> 10 \<and> b \<noteq> 141) line;
          n = unwrap_or (position (\<lambda>b. b = 58 \<or> b = 32) logical) (length logical) in
      if n = 0 \<or> 32 < n \<or> \<not> list_all (\<lambda>b. ascii_alphanumeric (unat b) \<or> b = 45) (take n logical)
      then Inl ErrControl
      else attempt (ok_or (from_utf8 (take n logical)) ErrControl) (\<lambda>tag. Inr (tag, drop n logical)))"

definition control_value :: "bytes \<Rightarrow> bytes" where
  "control_value rest =
     (let v = unwrap_or (strip_prefix [58] rest) rest in unwrap_or (strip_prefix [32] v) v)"

text \<open>What a control paragraph says, and then where it is kept.\<close>

definition text_control :: "bytes \<Rightarrow> parsing \<Rightarrow> ftn_error + parsing" where
  "text_control after st =
     attempt (control_tag after) (\<lambda>(tag, rest).
       if tag \<in> set known_tags then
         if take 1 rest \<noteq> [if tag \<in> set spaced_tags then 32 else 58] then Inl ErrControl
         else
           attempt (ok_or (from_utf8 (control_value rest)) ErrControl) (\<lambda>v.
             if tag \<noteq> ''PATH'' \<and> tag \<noteq> ''Via'' \<and> tag \<in> set (singletons st) then Inl ErrControl
             else
               attempt (apply_control tag v (out st) (declared st)) (\<lambda>(t, d).
                 Inr (st\<lparr>out := t, declared := d,
                       singletons := (if tag \<noteq> ''PATH'' \<and> tag \<noteq> ''Via'' then [tag] else []) @ singletons st\<rparr>)))
       else if \<not> starts_with [58] rest then Inl ErrControl
       else Inr st)"

definition keep_control :: "bytes \<Rightarrow> parsing \<Rightarrow> parsing" where
  "keep_control line st =
     st\<lparr>control_bytes := control_bytes st + length line,
        out := (out st)\<lparr>controls := controls (out st) @
          [\<lparr>in_paragraph = length (paragraphs st), raw = line\<rparr>]\<rparr>\<rparr>"

definition parse_control :: "bytes \<Rightarrow> bytes \<Rightarrow> parsing \<Rightarrow> ftn_error + parsing" where
  "parse_control line after st =
     (if MAX_CONTROL_LINE < length line \<or> MAX_CONTROL_BYTES < control_bytes st + length line \<or>
         MAX_CONTROLS \<le> length (controls (out st))
      then Inl ErrLimit
      else attempt (text_control after st) (\<lambda>st. Inr (keep_control line st)))"

definition parse_line :: "nat \<Rightarrow> bytes \<Rightarrow> parsing \<Rightarrow> ftn_error + parsing" where
  "parse_line i line st =
     (let line = unwrap_or (strip_prefix [10] line) line in
      if i = 0 \<and> starts_with (as_bytes ''AREA:'') line then
        attempt (ok_or (from_utf8 (drop 5 line)) ErrControl) (\<lambda>a.
          if \<not> valid_area a then Inl ErrControl
          else Inr (st\<lparr>out := (out st)\<lparr>area := Some a\<rparr>\<rparr>))
      else
        case strip_prefix [1] line of
          Some rest \<Rightarrow> parse_control line rest st
        | None \<Rightarrow> Inr (st\<lparr>paragraphs := paragraphs st @ [line]\<rparr>))"

fun parse_lines :: "nat \<Rightarrow> bytes list \<Rightarrow> parsing \<Rightarrow> ftn_error + parsing" where
  "parse_lines i [] st = Inr st"
| "parse_lines i (l # ls) st = attempt (parse_line i l st) (\<lambda>st. parse_lines (i + 1) ls st)"

text \<open>The trailing block of an echo message: seen-by lines, origin and tear line.\<close>

definition pop_while :: "('a \<Rightarrow> bool) \<Rightarrow> 'a list \<Rightarrow> 'a list \<times> 'a list" where
  "pop_while p xs = (rev (dropWhile p (rev xs)), rev (takeWhile p (rev xs)))"

definition seen_by_line :: "bytes \<Rightarrow> bool" where
  "seen_by_line p \<longleftrightarrow> starts_with (as_bytes ''SEEN-BY:'') p"

definition origin_line :: "bytes \<Rightarrow> bool" where
  "origin_line p \<longleftrightarrow> starts_with (as_bytes '' * Origin: '') p"

definition tear_line :: "bytes \<Rightarrow> bool" where
  "tear_line p \<longleftrightarrow> p = as_bytes ''---'' \<or> starts_with (as_bytes ''--- '') p"

fun footer_seen_by ::
    "bytes list \<Rightarrow> u16 option \<Rightarrow> (u16 \<times> u16, unit) btree \<Rightarrow> ftn_error + (u16 \<times> u16, unit) btree" where
  "footer_seen_by [] prior seen = Inr seen"
| "footer_seen_by (l # ls) prior seen =
     attempt (ok_or (from_utf8 (drop 8 l)) ErrControl) (\<lambda>s.
     attempt (parse_2ds (split_ascii_whitespace s) prior) (\<lambda>(ps, now).
       (let seen = foldl (\<lambda>m p. tree_insert p () m) seen ps in
        if 1024 < length seen then Inl ErrLimit else footer_seen_by ls now seen)))"

definition pop_decoded :: "(bytes \<Rightarrow> bool) \<Rightarrow> charset \<Rightarrow> bytes list \<Rightarrow> ftn_error + string option \<times> bytes list" where
  "pop_decoded p c ps =
     (if ps \<noteq> [] \<and> p (last ps)
      then attempt (charset_decode c (last ps)) (\<lambda>s. Inr (Some s, butlast ps))
      else Inr (None, ps))"

definition parse_footer :: "ftn_text \<Rightarrow> bytes list \<Rightarrow> ftn_error + ftn_text \<times> bytes list" where
  "parse_footer t ps =
     (if area t = None then Inr (t, ps)
      else
        (let (ps, footer) = pop_while seen_by_line ps in
         attempt (footer_seen_by footer None (seen_by t)) (\<lambda>seen.
         attempt (pop_decoded origin_line (t_charset t) ps) (\<lambda>(org, ps).
         attempt (pop_decoded tear_line (t_charset t) ps) (\<lambda>(tr, ps).
           Inr (t\<lparr>seen_by := seen, t_origin := org, tear := tr\<rparr>, ps))))))"

definition newline :: char where "newline = CHR 0x0A"

definition printable_body :: "string \<Rightarrow> bool" where
  "printable_body s \<longleftrightarrow> \<not> list_ex (\<lambda>u. is_control u \<and> u \<noteq> 10 \<and> u \<noteq> 9) (chars s)"

definition empty_text :: "charset \<Rightarrow> ftn_text" where
  "empty_text c =
     \<lparr>t_body = [], t_charset = c, controls = [], area = None, msgid = None, reply = None, intl = None,
      fmpt = 0, topt = 0, offset_minutes = None, seen_by = [], t_path = [], t_via = [], t_origin = None,
      tear = None, t_flags = []\<rparr>"

definition start_parsing :: "charset \<Rightarrow> parsing" where
  "start_parsing c =
     \<lparr>out = empty_text c, paragraphs = [], singletons = [], control_bytes = 0, declared = None\<rparr>"

definition finish_parsing :: "parsing \<Rightarrow> ftn_error + ftn_text" where
  "finish_parsing st =
     attempt (parse_footer (out st) (fst (pop_while (\<lambda>p. p = []) (paragraphs st)))) (\<lambda>(t, ps).
     attempt (traverse (charset_decode (t_charset t)) ps) (\<lambda>ss.
       (let s = join_by newline ss in
        if \<not> printable_body s then Inl ErrEncoding else Inr (t\<lparr>t_body := s\<rparr>))))"

definition text_parse :: "bytes \<Rightarrow> charset \<Rightarrow> ftn_error + ftn_text" where
  "text_parse bs fallback =
     (if MAX_TEXT < length bs \<or> 0 \<in> set bs then Inl ErrLimit
      else attempt (parse_lines 0 (split_on 13 bs) (start_parsing fallback)) finish_parsing)"

definition text_plain :: "string \<Rightarrow> charset \<Rightarrow> ftn_error + ftn_text" where
  "text_plain s c =
     (if s = [] \<or> 65536 < length s \<or> \<not> printable_body s then Inl ErrEncoding
      else
        attempt (charset_encode c s) (\<lambda>_.
        attempt (text_parse [] c) (\<lambda>t. Inr (t\<lparr>t_body := s\<rparr>))))"

definition text_addresses :: "ftn_text \<Rightarrow> packed_message \<Rightarrow> packet_header \<Rightarrow> ftn_error + address \<times> address" where
  "text_addresses t m h =
     (if area t \<noteq> None then
        attempt (ok_or
            (Option.bind (t_origin t) (\<lambda>s. Option.bind (rsplit_once CHR ''('' s) (\<lambda>(_, a).
               map_option (\<lambda>a. hd (split_on CHR ''@'' a)) (strip_suffix '')'' a)))) ErrAddress) (\<lambda>a.
        attempt (parse_address a) (\<lambda>org.
        attempt (address_new (zone (destination h)) (fst (m_destination m)) (snd (m_destination m)) 0) (\<lambda>dst.
          Inr (org, dst))))
      else
        attempt (address_new (zone (destination h)) (fst (m_destination m)) (snd (m_destination m)) 0) (\<lambda>hd_dst.
        attempt (address_new (zone (origin h)) (fst (m_origin m)) (snd (m_origin m)) 0) (\<lambda>hd_org.
          (let (dst, org) = unwrap_or (intl t) (hd_dst, hd_org) in
           if two_d dst \<noteq> m_destination m \<or> two_d org \<noteq> m_origin m then Inl ErrAddress
           else Inr (with_point org (fmpt t), with_point dst (topt t))))))"

section \<open>Writing\<close>

fun chunks_of :: "nat \<Rightarrow> 'a list \<Rightarrow> 'a list list" where
  "chunks_of n xs = (if xs = [] \<or> n = 0 then [] else take n xs # chunks_of n (drop n xs))"

declare chunks_of.simps [simp del]

definition format_2d :: "(u16 \<times> u16) list \<Rightarrow> string" where
  "format_2d ps = join_by CHR '' '' (map (\<lambda>(n, d). show_u16 n @ ''/'' @ show_u16 d) ps)"

definition left_out :: "bool \<Rightarrow> bytes \<Rightarrow> bool" where
  "left_out echo r \<longleftrightarrow>
     (let tag = drop 1 r in
      starts_with (as_bytes ''PATH:'') tag \<or>
      (echo \<and> list_ex (\<lambda>p. starts_with (as_bytes p) tag) [''INTL '', ''FMPT '', ''TOPT '']))"

definition control_line :: "control \<Rightarrow> ftn_error + bytes" where
  "control_line c =
     (if MAX_CONTROL_LINE < length (raw c) \<or> take 1 (raw c) \<noteq> [1] \<or> 13 \<in> set (raw c) \<or> 0 \<in> set (raw c)
      then Inl ErrControl else Inr (raw c))"

definition body_line :: "charset \<Rightarrow> string \<Rightarrow> ftn_error + bytes" where
  "body_line c s =
     (if starts_with [CHR 0x01] s \<or> CHR 0x0D \<in> set s \<or> CHR 0x00 \<in> set s then Inl ErrControl
      else charset_encode c s)"

definition paragraph_lines :: "ftn_text \<Rightarrow> string list \<Rightarrow> nat \<Rightarrow> ftn_error + bytes list" where
  "paragraph_lines t body i =
     attempt (traverse control_line
        (filter (\<lambda>c. min (in_paragraph c) (length body) = i \<and> \<not> left_out (area t \<noteq> None) (raw c)) (controls t))) (\<lambda>cs.
     if i < length body then attempt (body_line (t_charset t) (body ! i)) (\<lambda>b. Inr (cs @ [b]))
     else Inr cs)"

definition optional_line :: "charset \<Rightarrow> string option \<Rightarrow> ftn_error + bytes list" where
  "optional_line c x = (case x of None \<Rightarrow> Inr [] | Some s \<Rightarrow> attempt (charset_encode c s) (\<lambda>b. Inr [b]))"

definition tail_lines :: "ftn_text \<Rightarrow> ftn_error + bytes list" where
  "tail_lines t =
     (if area t = None then Inr []
      else
        attempt (optional_line (t_charset t) (tear t)) (\<lambda>tr.
        attempt (optional_line (t_charset t) (t_origin t)) (\<lambda>org.
          if seen_by t = [] then Inl ErrControl
          else Inr (tr @ org @
            map (\<lambda>ps. as_bytes (''SEEN-BY: '' @ format_2d ps)) (chunks_of 6 (map fst (seen_by t))) @
            map (\<lambda>ps. as_bytes (CHR 0x01 # ''PATH: '' @ format_2d ps)) (chunks_of 6 (t_path t))))))"

definition area_lines :: "ftn_text \<Rightarrow> ftn_error + bytes list" where
  "area_lines t =
     (case area t of
        None \<Rightarrow> Inr []
      | Some a \<Rightarrow> if \<not> valid_area a then Inl ErrControl else Inr [as_bytes (''AREA:'' @ a)])"

definition text_encode :: "ftn_text \<Rightarrow> ftn_error + bytes" where
  "text_encode t =
     attempt (area_lines t) (\<lambda>first.
     (let body = split_on newline (t_body t) in
      attempt (traverse (paragraph_lines t body) [0..<length body + 1]) (\<lambda>middle.
      attempt (tail_lines t) (\<lambda>tail.
        (let lines = first @ concat middle @ tail;
             cs = filter (\<lambda>l. take 1 l = [1]) lines;
             bs = concat (map (\<lambda>l. l @ [13]) lines) in
         if MAX_CONTROLS < length cs \<or> MAX_CONTROL_BYTES < sum_list (map length cs) \<or>
            list_ex (\<lambda>l. MAX_CONTROL_LINE < length l) cs \<or>
            1024 < length (seen_by t) \<or> 1024 < length (t_path t)
         then Inl ErrLimit
         else if MAX_TEXT < length bs then Inl ErrLimit
         else Inr bs)))))"

definition add_control :: "ftn_text \<Rightarrow> string \<Rightarrow> ftn_text" where
  "add_control t s = t\<lparr>controls := controls t @ [\<lparr>in_paragraph = 0, raw = as_bytes (CHR 0x01 # s)\<rparr>]\<rparr>"

section \<open>Dates\<close>

definition month_names :: "string list" where
  "month_names =
     [''Jan'', ''Feb'', ''Mar'', ''Apr'', ''May'', ''Jun'', ''Jul'', ''Aug'', ''Sep'', ''Oct'', ''Nov'', ''Dec'']"

text \<open>\<open>number(x).ok()\<close> in the inner closure, \<open>?\<close> in the outer function.\<close>

definition parse_date :: "(datetime \<Rightarrow> bool) \<Rightarrow> bytes \<Rightarrow> ftn_error + datetime" where
  "parse_date cal b =
     (if b ! 19 \<noteq> 0 then Inl ErrTimestamp
      else
        attempt (ok_or (from_utf8 (take 19 b)) ErrTimestamp) (\<lambda>s.
          (let parts = split_ascii_whitespace s in
           if length parts \<noteq> 4 \<or> length (parts ! 2) \<noteq> 2 then Inl ErrTimestamp
           else
             attempt (number (parts ! 2)) (\<lambda>y.
             attempt (ok_or (position (\<lambda>m. m = parts ! 1) month_names) ErrTimestamp) (\<lambda>mi.
               (let t = split_on CHR '':'' (parts ! 3) in
                if length t \<noteq> 3 then Inl ErrTimestamp
                else
                  attempt (number (parts ! 0)) (\<lambda>d.
                  attempt (with_error (number (t ! 0)) ErrTimestamp) (\<lambda>h.
                  attempt (with_error (number (t ! 1)) ErrTimestamp) (\<lambda>mn.
                  attempt (with_error (number (t ! 2)) ErrTimestamp) (\<lambda>sc.
                    (let r = \<lparr>year = (if 80 \<le> y then 1900 else 2000) + unat y, month = mi + 1, day = unat d,
                              hour = unat h, minute = unat mn, second = unat sc\<rparr> in
                     if cal r then Inr r else Inl ErrTimestamp)))))))))))"

definition two_digits :: "nat \<Rightarrow> string" where
  "two_digits n = (if n < 10 then ''0'' @ show_nat n else show_nat n)"

definition format_date :: "datetime \<Rightarrow> ftn_error + bytes" where
  "format_date t =
     (if \<not> (1980 \<le> year t \<and> year t \<le> 2079) then Inl ErrTimestamp
      else
        Inr (as_bytes (two_digits (day t) @ '' '' @ month_names ! (month t - 1) @ '' '' @
            two_digits (year t mod 100) @ ''  '' @ two_digits (hour t) @ '':'' @ two_digits (minute t) @ '':'' @
            two_digits (second t)) @ [0]))"

end
