(* ===== verification/Ftn_Forward.thy ===== *)
theory Ftn_Forward
  imports Ftn_Text
begin

text \<open>
  Forwarding an FTN message text: what is parsed, written again and parsed once more stays the
  same.  The second reading follows the first one, control by control, except for the routing
  controls that are left out; the paragraphs are the same, and so is the footer.
\<close>

section \<open>Controls that are kept and controls that are left out\<close>

lemmas apply_control_simps =
  apply_control_def [of "''MSGID''", simplified] apply_control_def [of "''REPLY''", simplified]
  apply_control_def [of "''INTL''", simplified] apply_control_def [of "''FMPT''", simplified]
  apply_control_def [of "''TOPT''", simplified] apply_control_def [of "''CHRS''", simplified]
  apply_control_def [of "''CHARSET''", simplified] apply_control_def [of "''TZUTC''", simplified]
  apply_control_def [of "''TZUTCINFO''", simplified] apply_control_def [of "''PATH''", simplified]
  apply_control_def [of "''RESCANNED''", simplified] apply_control_def [of "''Via''", simplified]
  apply_control_def [of "''FLAGS''", simplified]

lemma tag_cases:
  obtains "tag = ''MSGID''" | "tag = ''REPLY''" | "tag = ''INTL''" | "tag = ''FMPT''" | "tag = ''TOPT''"
  | "tag = ''CHRS''" | "tag = ''CHARSET''" | "tag = ''TZUTC''" | "tag = ''TZUTCINFO''" | "tag = ''PATH''"
  | "tag = ''RESCANNED''" | "tag = ''Via''" | "tag = ''FLAGS''"
  | "\<And>v t d. apply_control tag v t d = Inr (t, d)" "tag \<noteq> ''PATH''" "tag \<notin> {''INTL'', ''FMPT'', ''TOPT''}"
proof (cases "tag \<in> {''MSGID'', ''REPLY'', ''INTL'', ''FMPT'', ''TOPT'', ''CHRS'', ''CHARSET'', ''TZUTC'', ''TZUTCINFO'',
    ''PATH'', ''RESCANNED'', ''Via'', ''FLAGS''}")
  case True
  then show ?thesis by (elim insertE emptyE) (erule that(1-13))+
next
  case False
  then have "apply_control tag v t d = Inr (t, d)" for v t d by (simp add: apply_control_def)
  with False show ?thesis by (intro that(14)) auto
qed

definition routing_tag :: "bool \<Rightarrow> string \<Rightarrow> bool" where
  "routing_tag echo tag \<longleftrightarrow> tag = ''PATH'' \<or> (echo \<and> tag \<in> {''INTL'', ''FMPT'', ''TOPT''})"

definition similar :: "bool \<Rightarrow> charset option \<Rightarrow> ftn_text \<Rightarrow> ftn_text \<Rightarrow> bool" where
  "similar echo d t u \<longleftrightarrow>
     msgid u = msgid t \<and> reply u = reply t \<and> offset_minutes u = offset_minutes t \<and> t_via u = t_via t \<and>
     t_flags u = t_flags t \<and> (d \<noteq> None \<longrightarrow> t_charset u = t_charset t) \<and>
     (\<not> echo \<longrightarrow> intl u = intl t \<and> fmpt u = fmpt t \<and> topt u = topt t)"

definition apart :: "ftn_text \<Rightarrow> ftn_text \<Rightarrow> bool" where
  "apart t u \<longleftrightarrow> controls u = controls t \<and> area u = area t \<and> seen_by u = seen_by t \<and>
     t_origin u = t_origin t \<and> tear u = tear t \<and> t_body u = t_body t"

lemma apply_control_apart:
  "apply_control tag v t d = Inr (u, e) \<Longrightarrow>
     apart t u \<and> (tag \<noteq> ''PATH'' \<longrightarrow> t_path u = t_path t) \<and> (d \<noteq> None \<longrightarrow> e = d) \<and>
     (e = None \<longrightarrow> t_charset u = t_charset t)"
  by (cases tag rule: tag_cases) (auto simp: apply_control_simps result_simps apart_def split: if_splits)

lemma apply_control_similar:
  assumes "apply_control tag v t d = Inr (t', e)" and "\<not> routing_tag echo tag" and "similar echo d t u"
  shows "\<exists>u'. apply_control tag v u d = Inr (u', e) \<and> similar echo e t' u'"
  using assms
  by (cases tag rule: tag_cases)
    (auto simp: apply_control_simps result_simps single_def routing_tag_def similar_def split: if_splits)

lemma apply_control_routing:
  assumes "apply_control tag v t d = Inr (t', e)" and "routing_tag echo tag" and "similar echo d t u"
  shows "similar echo e t' u \<and> e = d"
  using assms
  by (cases tag rule: tag_cases)
    (auto simp: apply_control_simps result_simps routing_tag_def similar_def split: if_splits)


definition follows :: "bool \<Rightarrow> parsing \<Rightarrow> parsing \<Rightarrow> bool" where
  "follows echo st u \<longleftrightarrow>
     similar echo (declared st) (out st) (out u) \<and> declared u = declared st \<and>
     set (singletons u) \<subseteq> set (singletons st)"

text \<open>A control without line feeds and soft returns: its tag is what it starts with.\<close>

definition clean :: "bytes \<Rightarrow> bool" where
  "clean a \<longleftrightarrow> 10 \<notin> set a \<and> 141 \<notin> set a"

definition tag_end :: "u8 \<Rightarrow> bool" where
  "tag_end b \<longleftrightarrow> b = 58 \<or> b = 32"

definition tag_text :: "string \<Rightarrow> bool" where
  "tag_text tag \<longleftrightarrow> tag \<noteq> [] \<and> length tag \<le> 32 \<and>
     list_all (\<lambda>c. ascii_alphanumeric (ord c) \<or> c = CHR ''-'') tag"

lemma filter_clean: "clean a \<Longrightarrow> filter (\<lambda>b. b \<noteq> 10 \<and> b \<noteq> 141) a = a"
  by (auto simp: clean_def intro: filter_True)

lemma position_append: "\<forall>x \<in> set xs. \<not> p x \<Longrightarrow> p y \<Longrightarrow> position p (xs @ y # ys) = Some (length xs)"
  by (induction xs) auto

lemma tag_text_bytes:
  assumes "tag_text tag"
  shows "\<forall>b \<in> set (as_bytes tag). \<not> tag_end b" "from_utf8 (as_bytes tag) = Some tag"
    "list_all (\<lambda>b. ascii_alphanumeric (unat b) \<or> b = 45) (as_bytes tag)"
proof -
  have c: "(ascii_alphanumeric (ord c) \<or> c = CHR ''-'') \<Longrightarrow>
      ord c < 128 \<and> byte_of c \<noteq> 58 \<and> byte_of c \<noteq> 32 \<and> (ascii_alphanumeric (unat (byte_of c)) \<or> byte_of c = 45)" for c
    by (auto simp: ascii_defs word_unat_eq_iff)
  then show "\<forall>b \<in> set (as_bytes tag). \<not> tag_end b"
    "list_all (\<lambda>b. ascii_alphanumeric (unat b) \<or> b = 45) (as_bytes tag)"
    using assms by (auto simp: tag_text_def list_all_iff set_as_bytes tag_end_def)
  have "ascii tag" using c assms by (auto simp: tag_text_def list_all_iff ascii_def)
  then show "from_utf8 (as_bytes tag) = Some tag" by simp
qed

lemma position_while:
  "take (unwrap_or (position p a) (length a)) a = takeWhile (\<lambda>x. \<not> p x) a"
  "drop (unwrap_or (position p a) (length a)) a = dropWhile (\<lambda>x. \<not> p x) a"
  "unwrap_or (position p a) (length a) = length (takeWhile (\<lambda>x. \<not> p x) a)"
proof (induction a)
  case (Cons x a)
  show "take (unwrap_or (position p (x # a)) (length (x # a))) (x # a) = takeWhile (\<lambda>x. \<not> p x) (x # a)"
    "drop (unwrap_or (position p (x # a)) (length (x # a))) (x # a) = dropWhile (\<lambda>x. \<not> p x) (x # a)"
    "unwrap_or (position p (x # a)) (length (x # a)) = length (takeWhile (\<lambda>x. \<not> p x) (x # a))"
    using Cons by (cases "position p a"; simp)+
qed simp_all

lemma control_tag_clean:
  assumes "clean a"
  shows "control_tag a = Inr (tag, rest) \<longleftrightarrow>
    tag_text tag \<and> a = as_bytes tag @ rest \<and> (rest = [] \<or> tag_end (hd rest))"
proof -
  define w where "w = takeWhile (\<lambda>x. \<not> tag_end x) a"
  define r where "r = dropWhile (\<lambda>x. \<not> tag_end x) a"
  have a: "a = w @ r" by (simp add: w_def r_def)
  have r: "r = [] \<or> tag_end (hd r)" unfolding r_def using hd_dropWhile [of "\<lambda>x. \<not> tag_end x" a] by auto
  have w: "\<forall>b \<in> set w. \<not> tag_end b" unfolding w_def by (auto dest: set_takeWhileD)
  have "control_tag a = (if w = [] \<or> 32 < length w \<or> \<not> list_all (\<lambda>b. ascii_alphanumeric (unat b) \<or> b = 45) w
      then Inl ErrControl else attempt (ok_or (from_utf8 w) ErrControl) (\<lambda>tag. Inr (tag, r)))"
  proof -
    define n where "n = unwrap_or (position tag_end a) (length a)"
    have n: "n = length w" "take n a = w" "drop n a = r"
      unfolding n_def w_def r_def by (rule position_while)+
    have p: "(\<lambda>b. b = 58 \<or> b = 32) = tag_end" by (auto simp: tag_end_def)
    show ?thesis
      unfolding control_tag_def filter_clean [OF assms] Let_def p n_def [symmetric] n(2,3)
      unfolding n(1) by (simp only: length_0_conv)
  qed
  also have "\<dots> = Inr (tag, rest) \<longleftrightarrow> tag_text tag \<and> w = as_bytes tag \<and> r = rest"
  proof
    assume l: "(if w = [] \<or> 32 < length w \<or> \<not> list_all (\<lambda>b. ascii_alphanumeric (unat b) \<or> b = 45) w
      then Inl ErrControl else attempt (ok_or (from_utf8 w) ErrControl) (\<lambda>tag. Inr (tag, r))) = Inr (tag, rest)"
    then have "tag = from_bytes w" "r = rest" "w \<noteq> []" "length w \<le> 32"
      "list_all (\<lambda>b. ascii_alphanumeric (unat b) \<or> b = 45) w"
      by (auto simp: result_simps dest: from_utf8_SomeD split: if_splits)
    moreover have "char_at b = CHR ''-''" if "b = 45" for b
      using that by (simp add: char_at_def)
    ultimately have "tag_text tag" by (auto simp: tag_text_def from_bytes_def list_all_iff)
    with \<open>tag = from_bytes w\<close> \<open>r = rest\<close> show "tag_text tag \<and> w = as_bytes tag \<and> r = rest" by simp
  next
    assume "tag_text tag \<and> w = as_bytes tag \<and> r = rest"
    then show "(if w = [] \<or> 32 < length w \<or> \<not> list_all (\<lambda>b. ascii_alphanumeric (unat b) \<or> b = 45) w
      then Inl ErrControl else attempt (ok_or (from_utf8 w) ErrControl) (\<lambda>tag. Inr (tag, r))) = Inr (tag, rest)"
      using tag_text_bytes [of tag] by (auto simp: tag_text_def as_bytes_def)
  qed
  also have "\<dots> \<longleftrightarrow> tag_text tag \<and> a = as_bytes tag @ rest \<and> (rest = [] \<or> tag_end (hd rest))"
  proof
    assume "tag_text tag \<and> w = as_bytes tag \<and> r = rest"
    then show "tag_text tag \<and> a = as_bytes tag @ rest \<and> (rest = [] \<or> tag_end (hd rest))"
      using a r by auto
  next
    assume t: "tag_text tag \<and> a = as_bytes tag @ rest \<and> (rest = [] \<or> tag_end (hd rest))"
    with tag_text_bytes(1) [of tag] have "w = as_bytes tag"
      unfolding w_def by (cases rest) (auto simp: takeWhile_append)
    with a t show "tag_text tag \<and> w = as_bytes tag \<and> r = rest" by auto
  qed
  finally show ?thesis .
qed


lemma starts_with_iff: "starts_with p xs \<longleftrightarrow> (\<exists>r. xs = p @ r)"
  by (auto simp: starts_with_def dest: strip_prefix_SomeD)

lemma tag_text_known:
  "tag_text ''PATH''" "tag_text ''INTL''" "tag_text ''FMPT''" "tag_text ''TOPT''"
  by (simp_all add: tag_text_def)

lemma starts_with_tag:
  assumes "control_tag a = Inr (tag, rest)" and "clean a" and "tag_text k" and "tag_end d"
  shows "starts_with (as_bytes k @ [d]) a \<longleftrightarrow> tag = k \<and> take 1 rest = [d]"
proof
  assume "starts_with (as_bytes k @ [d]) a"
  then obtain r where "a = as_bytes k @ d # r" by (auto simp: starts_with_iff)
  with assms(2-4) have "control_tag a = Inr (k, d # r)" by (simp add: control_tag_clean)
  with assms(1) show "tag = k \<and> take 1 rest = [d]" by auto
next
  assume "tag = k \<and> take 1 rest = [d]"
  then show "starts_with (as_bytes k @ [d]) a"
    using assms(1,2) by (cases rest) (auto simp: control_tag_clean starts_with_iff)
qed

lemma text_controlE:
  assumes "text_control a st = Inr st'"
  obtains (unknown) tag rest where "control_tag a = Inr (tag, rest)" "tag \<notin> set known_tags" "starts_with [58] rest" "st' = st"
  | (known) tag rest v tx e where "control_tag a = Inr (tag, rest)" "tag \<in> set known_tags"
      "take 1 rest = [if tag \<in> set spaced_tags then 32 else 58]" "from_utf8 (control_value rest) = Some v"
      "\<not> (tag \<noteq> ''PATH'' \<and> tag \<noteq> ''Via'' \<and> tag \<in> set (singletons st))"
      "apply_control tag v (out st) (declared st) = Inr (tx, e)"
      "st' = st\<lparr>out := tx, declared := e,
         singletons := (if tag \<noteq> ''PATH'' \<and> tag \<noteq> ''Via'' then [tag] else []) @ singletons st\<rparr>"
proof -
  from assms obtain tag rest where t: "control_tag a = Inr (tag, rest)"
    by (auto simp: text_control_def result_simps)
  show ?thesis
  proof (cases "tag \<in> set known_tags")
    case False
    with assms t show ?thesis
      by (intro unknown [OF t False]) (simp_all add: text_control_def split: if_split_asm)
  next
    case True
    define delimiter :: u8 where "delimiter = (if tag \<in> set spaced_tags then 32 else 58)"
    from assms t True have r: "(if take 1 rest \<noteq> [delimiter] then Inl ErrControl
        else attempt (ok_or (from_utf8 (control_value rest)) ErrControl) (\<lambda>v.
          if tag \<noteq> ''PATH'' \<and> tag \<noteq> ''Via'' \<and> tag \<in> set (singletons st) then Inl ErrControl
          else attempt (apply_control tag v (out st) (declared st)) (\<lambda>(t, d).
            Inr (st\<lparr>out := t, declared := d,
              singletons := (if tag \<noteq> ''PATH'' \<and> tag \<noteq> ''Via'' then [tag] else []) @ singletons st\<rparr>)))) = Inr st'"
      by (simp only: text_control_def attempt_Inr prod.case if_True delimiter_def)
    then obtain v where v: "take 1 rest = [delimiter]" "from_utf8 (control_value rest) = Some v"
      "\<not> (tag \<noteq> ''PATH'' \<and> tag \<noteq> ''Via'' \<and> tag \<in> set (singletons st))"
      "attempt (apply_control tag v (out st) (declared st)) (\<lambda>(t, d).
            Inr (st\<lparr>out := t, declared := d,
              singletons := (if tag \<noteq> ''PATH'' \<and> tag \<noteq> ''Via'' then [tag] else []) @ singletons st\<rparr>)) = Inr st'"
      unfolding if_Inl_eq_Inr attempt_eq_Inr ok_or_eq_Inr by metis
    then obtain tx e where "apply_control tag v (out st) (declared st) = Inr (tx, e)"
      "st' = st\<lparr>out := tx, declared := e,
         singletons := (if tag \<noteq> ''PATH'' \<and> tag \<noteq> ''Via'' then [tag] else []) @ singletons st\<rparr>"
      by (cases "apply_control tag v (out st) (declared st)") (simp, fastforce)
    with v(1-3) show ?thesis unfolding delimiter_def by (intro known [OF t True])
  qed
qed

lemma text_control_tag:
  assumes "text_control a st = Inr st'" and "clean a"
  obtains tag rest where "control_tag a = Inr (tag, rest)" "left_out echo (1 # a) = routing_tag echo tag"
    "tag \<in> set known_tags \<Longrightarrow> take 1 rest = [if tag \<in> set spaced_tags then 32 else 58]"
proof -
  from assms(1) obtain tag rest where t: "control_tag a = Inr (tag, rest)"
      and d: "tag \<in> set known_tags \<Longrightarrow> take 1 rest = [if tag \<in> set spaced_tags then 32 else 58]"
    by (rule text_controlE) blast+
  have eq: "as_bytes ''PATH:'' = as_bytes ''PATH'' @ [58]" "as_bytes ''INTL '' = as_bytes ''INTL'' @ [32]"
    "as_bytes ''FMPT '' = as_bytes ''FMPT'' @ [32]" "as_bytes ''TOPT '' = as_bytes ''TOPT'' @ [32]"
    by (simp_all add: as_bytes_def byte_of_def)
  have *: "starts_with (as_bytes ''PATH:'') a \<longleftrightarrow> tag = ''PATH'' \<and> take 1 rest = [58]"
    "starts_with (as_bytes ''INTL '') a \<longleftrightarrow> tag = ''INTL'' \<and> take 1 rest = [32]"
    "starts_with (as_bytes ''FMPT '') a \<longleftrightarrow> tag = ''FMPT'' \<and> take 1 rest = [32]"
    "starts_with (as_bytes ''TOPT '') a \<longleftrightarrow> tag = ''TOPT'' \<and> take 1 rest = [32]"
    unfolding eq by (rule starts_with_tag [OF t assms(2)]; simp add: tag_text_known tag_end_def)+
  have "tag \<in> {''PATH'', ''INTL'', ''FMPT'', ''TOPT''} \<Longrightarrow> take 1 rest = [if tag = ''PATH'' then 58 else 32]"
    using d by (elim insertE emptyE; simp add: known_tags_def spaced_tags_def)
  then have "left_out echo (1 # a) = routing_tag echo tag"
    unfolding left_out_def routing_tag_def Let_def
    by (simp add: *, cases "tag = ''PATH''"; cases "tag = ''INTL''"; cases "tag = ''FMPT''"; cases "tag = ''TOPT''"; simp)
  with t d that show ?thesis by blast
qed

text \<open>Reading a control from two states that follow each other.\<close>

lemma text_control_frame:
  "text_control a st = Inr st' \<Longrightarrow>
     paragraphs st' = paragraphs st \<and> control_bytes st' = control_bytes st \<and> apart (out st) (out st')"
  by (erule text_controlE) (auto simp: apart_def dest: apply_control_apart)

lemma text_control_kept:
  assumes "text_control a st = Inr st'" and "follows echo st u" and "clean a" and "\<not> left_out echo (1 # a)"
  obtains u' where "text_control a u = Inr u'" "follows echo st' u'" "t_path (out u') = t_path (out u)"
proof -
  from text_control_tag [OF assms(1,3), where echo = echo] assms(4) obtain tag0 rest0 where
    t0: "control_tag a = Inr (tag0, rest0)" "\<not> routing_tag echo tag0" by metis
  from assms(1) show ?thesis
  proof (cases rule: text_controlE)
    case (unknown tag rest)
    then show ?thesis using assms(2) by (intro that [of u]) (auto simp: text_control_def)
  next
    case (known tag rest v tx e)
    with t0 have r: "\<not> routing_tag echo tag" by simp
    from assms(2) have f: "similar echo (declared st) (out st) (out u)" "declared u = declared st"
      "set (singletons u) \<subseteq> set (singletons st)" by (auto simp: follows_def)
    from apply_control_similar [OF known(6) r f(1)] obtain tu where
      tu: "apply_control tag v (out u) (declared u) = Inr (tu, e)" "similar echo e tx tu" by (auto simp: f(2))
    define u' where "u' = u\<lparr>out := tu, declared := e,
         singletons := (if tag \<noteq> ''PATH'' \<and> tag \<noteq> ''Via'' then [tag] else []) @ singletons u\<rparr>"
    have "\<not> (tag \<noteq> ''PATH'' \<and> tag \<noteq> ''Via'' \<and> tag \<in> set (singletons u))" using known(5) f(3) by auto
    then have "text_control a u = Inr u'"
      using known(1-4) tu(1) unfolding text_control_def u'_def by simp
    moreover have "follows echo st' u'"
      using tu(2) f(3) by (auto simp: follows_def known(7) u'_def)
    moreover have "t_path (out u') = t_path (out u)"
      using apply_control_apart [OF tu(1)] r by (auto simp: u'_def routing_tag_def)
    ultimately show ?thesis by (rule that)
  qed
qed

lemma text_control_left_out:
  assumes "text_control a st = Inr st'" and "follows echo st u" and "clean a" and "left_out echo (1 # a)"
  shows "follows echo st' u"
proof -
  from text_control_tag [OF assms(1,3), where echo = echo] assms(4) obtain tag0 rest0 where
    t0: "control_tag a = Inr (tag0, rest0)" "routing_tag echo tag0" by metis
  then have k: "tag0 \<in> set known_tags" by (auto simp: routing_tag_def known_tags_def)
  from assms(1) show ?thesis
  proof (cases rule: text_controlE)
    case (unknown tag rest)
    with t0 k show ?thesis by simp
  next
    case (known tag rest v tx e)
    with t0 have r: "routing_tag echo tag" by simp
    from assms(2) have f: "similar echo (declared st) (out st) (out u)" "declared u = declared st"
      "set (singletons u) \<subseteq> set (singletons st)" by (auto simp: follows_def)
    from apply_control_routing [OF known(6) r f(1)] f(2,3) show ?thesis
      by (auto simp: follows_def known(7))
  qed
qed


section \<open>Lines, controls and paragraphs\<close>

text \<open>Reading does not look at the place where controls are kept.\<close>

definition dress :: "bytes list \<Rightarrow> nat \<Rightarrow> control list \<Rightarrow> string option \<Rightarrow> parsing \<Rightarrow> parsing" where
  "dress ps n cs ar st =
     st\<lparr>paragraphs := ps, control_bytes := n, out := (out st)\<lparr>controls := cs, area := ar\<rparr>\<rparr>"

lemma dress_simps [simp]:
  "paragraphs (dress ps n cs ar st) = ps" "control_bytes (dress ps n cs ar st) = n"
  "controls (out (dress ps n cs ar st)) = cs" "area (out (dress ps n cs ar st)) = ar"
  "singletons (dress ps n cs ar st) = singletons st" "declared (dress ps n cs ar st) = declared st"
  "dress ps n cs ar (dress qs m ds br st) = dress ps n cs ar st"
  by (simp_all add: dress_def)

lemma dress_self: "dress (paragraphs st) (control_bytes st) (controls (out st)) (area (out st)) st = st"
  by (simp add: dress_def)

lemma apply_control_dress:
  "apply_control tag v (t\<lparr>controls := cs, area := ar\<rparr>) d =
     attempt (apply_control tag v t d) (\<lambda>(u, e). Inr (u\<lparr>controls := cs, area := ar\<rparr>, e))"
  by (cases tag rule: tag_cases)
    (simp_all add: apply_control_simps attempt_def single_def split: sum.splits prod.splits option.splits list.splits)

lemma text_control_dress:
  "text_control a (dress ps n cs ar st) = attempt (text_control a st) (\<lambda>v. Inr (dress ps n cs ar v))"
proof (cases "control_tag a")
  case (Inr p)
  obtain tag rest where p: "p = (tag, rest)" by (cases p)
  show ?thesis
  proof (cases "from_utf8 (control_value rest)")
    case None
    then show ?thesis by (simp add: text_control_def Inr p)
  next
    case (Some v)
    have "apply_control tag v (out (dress ps n cs ar st)) (declared st) =
        attempt (apply_control tag v (out st) (declared st)) (\<lambda>(u, e). Inr (u\<lparr>controls := cs, area := ar\<rparr>, e))"
      by (simp add: dress_def apply_control_dress)
    with Some show ?thesis
      by (cases "apply_control tag v (out st) (declared st)") (auto simp: text_control_def Inr p dress_def)
  qed
qed (simp add: text_control_def)

fun read_all :: "bytes list \<Rightarrow> parsing \<Rightarrow> ftn_error + parsing" where
  "read_all [] st = Inr st"
| "read_all (l # ls) st = attempt (text_control (tl l) st) (read_all ls)"

lemma read_all_dress:
  "read_all ls (dress ps n cs ar st) = attempt (read_all ls st) (\<lambda>v. Inr (dress ps n cs ar v))"
proof (induction ls arbitrary: st)
  case (Cons l ls)
  then show ?case by (cases "text_control (tl l) st") (simp_all add: text_control_dress)
qed simp

definition is_control_line :: "bytes \<Rightarrow> bool" where
  "is_control_line l \<longleftrightarrow> take 1 l = [1]"

fun place :: "nat \<Rightarrow> bytes list \<Rightarrow> control list" where
  "place n [] = []"
| "place n (l # ls) =
     (if is_control_line l then \<lparr>in_paragraph = n, raw = l\<rparr> # place n ls else place (n + 1) ls)"

definition ctls :: "bytes list \<Rightarrow> bytes list" where "ctls ls = filter is_control_line ls"
definition paras :: "bytes list \<Rightarrow> bytes list" where "paras ls = filter (\<lambda>l. \<not> is_control_line l) ls"

definition within :: "nat \<Rightarrow> nat \<Rightarrow> bytes list \<Rightarrow> bool" where
  "within b n cs \<longleftrightarrow>
     (\<forall>c \<in> set cs. length c \<le> MAX_CONTROL_LINE) \<and> b + sum_list (map length cs) \<le> MAX_CONTROL_BYTES \<and>
     n + length cs \<le> MAX_CONTROLS"

lemma ctls_Cons [simp]: "ctls (l # ls) = (if is_control_line l then l # ctls ls else ctls ls)"
  by (simp add: ctls_def)

lemma paras_Cons [simp]: "paras (l # ls) = (if is_control_line l then paras ls else l # paras ls)"
  by (simp add: paras_def)

lemma lines_Nil [simp]: "ctls [] = []" "paras [] = []"
  by (simp_all add: ctls_def paras_def)

lemma parse_line_later:
  assumes "10 \<notin> set l" and "0 < i \<or> \<not> starts_with (as_bytes ''AREA:'') l"
  shows "parse_line i l st =
     (if is_control_line l then parse_control l (tl l) st else Inr (st\<lparr>paragraphs := paragraphs st @ [l]\<rparr>))"
  using assms by (cases l) (auto simp: parse_line_def is_control_line_def Let_def unwrap_or_def)

lemma parse_control_dress:
  "parse_control l a st =
     (if within (control_bytes st) (length (controls (out st))) [l]
      then attempt (text_control a st) (\<lambda>v. Inr (dress (paragraphs st) (control_bytes st + length l)
        (controls (out st) @ [\<lparr>in_paragraph = length (paragraphs st), raw = l\<rparr>]) (area (out st)) v))
      else Inl ErrLimit)"
proof -
  have "keep_control l v = dress (paragraphs st) (control_bytes st + length l)
      (controls (out st) @ [\<lparr>in_paragraph = length (paragraphs st), raw = l\<rparr>]) (area (out st)) v"
    if "text_control a st = Inr v" for v
    using text_control_frame [OF that] by (simp add: keep_control_def dress_def apart_def)
  then show ?thesis
    by (cases "text_control a st") (auto simp: parse_control_def within_def)
qed

lemma parse_lines_shape:
  assumes "0 < i" and "\<forall>l \<in> set ls. 10 \<notin> set l" and "within (control_bytes st) (length (controls (out st))) []"
  shows "parse_lines i ls st = Inr v \<longleftrightarrow>
    within (control_bytes st) (length (controls (out st))) (ctls ls) \<and>
    (\<exists>w. read_all (ctls ls) st = Inr w \<and>
       v = dress (paragraphs st @ paras ls) (control_bytes st + sum_list (map length (ctls ls)))
             (controls (out st) @ place (length (paragraphs st)) ls) (area (out st)) w)"
  using assms
proof (induction ls arbitrary: i st)
  case Nil
  then show ?case by (auto simp: dress_self)
next
  case (Cons l ls)
  have l: "parse_line i l st = (if is_control_line l then parse_control l (tl l) st else Inr (st\<lparr>paragraphs := paragraphs st @ [l]\<rparr>))"
    using Cons.prems by (intro parse_line_later) auto
  show ?case
  proof (cases "is_control_line l")
    case False
    let ?st = "st\<lparr>paragraphs := paragraphs st @ [l]\<rparr>"
    have d: "?st = dress (paragraphs st @ [l]) (control_bytes st) (controls (out st)) (area (out st)) st"
      by (simp add: dress_def)
    have "read_all (ctls ls) ?st = attempt (read_all (ctls ls) st)
        (\<lambda>v. Inr (dress (paragraphs st @ [l]) (control_bytes st) (controls (out st)) (area (out st)) v))"
      unfolding d by (rule read_all_dress)
    then show ?thesis
      using Cons.IH [of "Suc i" ?st] Cons.prems False l by (auto simp: result_simps)
  next
    case True
    let ?f = "dress (paragraphs st) (control_bytes st + length l)
        (controls (out st) @ [\<lparr>in_paragraph = length (paragraphs st), raw = l\<rparr>]) (area (out st))"
    have w: "within (control_bytes st) (length (controls (out st))) (l # ctls ls) \<longleftrightarrow>
        within (control_bytes st) (length (controls (out st))) [l] \<and>
        within (control_bytes st + length l) (Suc (length (controls (out st)))) (ctls ls)"
      by (auto simp: within_def)
    show ?thesis
    proof (cases "text_control (tl l) st")
      case (Inl e)
      with True l show ?thesis by (auto simp: parse_control_dress)
    next
      case (Inr v1)
      have "parse_lines (i + 1) ls (?f v1) = Inr v \<longleftrightarrow>
          within (control_bytes st + length l) (Suc (length (controls (out st)))) (ctls ls) \<and>
          (\<exists>w. read_all (ctls ls) (?f v1) = Inr w \<and>
             v = dress (paragraphs st @ paras ls) (control_bytes st + length l + sum_list (map length (ctls ls)))
             (controls (out st) @ \<lparr>in_paragraph = length (paragraphs st), raw = l\<rparr> # place (length (paragraphs st)) ls) (area (out st)) w)"
        if "within (control_bytes st) (length (controls (out st))) [l]"
        using Cons.IH [of "i + 1" "?f v1"] Cons.prems(2) that by (auto simp: within_def)
      then show ?thesis
        using True l Inr w by (auto simp: parse_control_dress read_all_dress result_simps add.assoc)
    qed
  qed
qed


section \<open>The shape of a parse\<close>

definition area_line :: "string \<Rightarrow> bytes" where
  "area_line a = as_bytes ''AREA:'' @ as_bytes a"

text \<open>The lines after the area line, if there is one.\<close>

definition headed :: "string option \<Rightarrow> bytes list \<Rightarrow> bytes list \<Rightarrow> bool" where
  "headed ar ls all_lines \<longleftrightarrow>
     (case ar of
        None \<Rightarrow> all_lines = ls \<and> \<not> starts_with (as_bytes ''AREA:'') (hd ls)
      | Some a \<Rightarrow> valid_area a \<and> all_lines = area_line a # ls)"

lemma valid_area_bytes:
  assumes "valid_area a"
  shows "from_utf8 (as_bytes a) = Some a" "13 \<notin> set (as_bytes a)" "0 \<notin> set (as_bytes a)" "10 \<notin> set (as_bytes a)"
proof -
  have c: "ord c < 128 \<and> byte_of c \<noteq> 13 \<and> byte_of c \<noteq> 0 \<and> byte_of c \<noteq> 10"
    if "ascii_upper (ord c) \<or> ascii_digit (ord c) \<or> c \<in> set ''._-''" for c
  proof -
    have o: "45 \<le> ord c" "ord c < 128"
      using that by (auto simp: ascii_upper_def ascii_digit_def)
    have "byte_of c \<noteq> b" if "unat b < 45" for b using that o(1) by auto
    with o(2) show ?thesis by simp
  qed
  then have "ascii a" using assms by (auto simp: valid_area_def ascii_def list_all_iff)
  then show "from_utf8 (as_bytes a) = Some a" by simp
  have u: "\<forall>x \<in> set a. ascii_upper (ord x) \<or> ascii_digit (ord x) \<or> x \<in> set ''._-''"
    using assms unfolding valid_area_def list_all_iff by (elim conjE)
  have "\<forall>b \<in> set (as_bytes a). b \<noteq> 13 \<and> b \<noteq> 0 \<and> b \<noteq> 10"
  proof
    fix b assume "b \<in> set (as_bytes a)"
    then obtain x where "x \<in> set a" "b = byte_of x" by (auto simp: set_as_bytes)
    with c [OF bspec [OF u]] show "b \<noteq> 13 \<and> b \<noteq> 0 \<and> b \<noteq> 10" by simp
  qed
  then show "13 \<notin> set (as_bytes a)" "0 \<notin> set (as_bytes a)" "10 \<notin> set (as_bytes a)" by auto
qed

lemma parse_lines_index:
  "0 < i \<Longrightarrow> 0 < j \<Longrightarrow> \<forall>l \<in> set ls. 10 \<notin> set l \<Longrightarrow> parse_lines i ls = parse_lines j ls"
proof (induction ls arbitrary: i j)
  case (Cons l ls)
  then have "parse_line i l st = parse_line j l st" for st by (simp add: parse_line_later)
  moreover have "parse_lines (i + 1) ls = parse_lines (j + 1) ls" by (rule Cons.IH) (use Cons.prems in auto)
  ultimately show ?case by (auto simp del: One_nat_def)
qed auto

definition gathered :: "string option \<Rightarrow> bytes list \<Rightarrow> parsing \<Rightarrow> parsing" where
  "gathered ar ls w = dress (paras ls) (sum_list (map length (ctls ls))) (place 0 ls) ar w"

lemma parse_lines_start:
  assumes "\<forall>l \<in> set all_lines. 10 \<notin> set l" and "all_lines \<noteq> []"
  shows "parse_lines 0 all_lines (start_parsing fb) = Inr v \<longleftrightarrow>
    (\<exists>ar ls w. headed ar ls all_lines \<and> within 0 0 (ctls ls) \<and> read_all (ctls ls) (start_parsing fb) = Inr w \<and>
       v = gathered ar ls w)"
proof -
  obtain l ls where all: "all_lines = l # ls" using assms(2) by (cases all_lines) auto
  have st: "paragraphs (start_parsing fb) = []" "control_bytes (start_parsing fb) = 0"
    "controls (out (start_parsing fb)) = []" "area (out (start_parsing fb)) = None"
    by (simp_all add: start_parsing_def empty_text_def)
  have w0: "within 0 0 []" by (simp add: within_def)
  show ?thesis
  proof (cases "starts_with (as_bytes ''AREA:'') l")
    case False
    then have "parse_line 0 l st = parse_line 1 l st" for st
      using assms(1) all parse_line_later [of l 0 st] parse_line_later [of l 1 st] by auto
    then have p: "parse_lines 0 all_lines st = parse_lines 1 (l # ls) st" for st
      using parse_lines_index [of 1 "Suc 1" ls] assms(1) all by simp
    have "headed ar ks all_lines \<longleftrightarrow> ar = None \<and> ks = l # ls" for ar ks
      using False all by (auto simp: headed_def area_line_def starts_with_def split: option.splits)
    then show ?thesis
      unfolding p using parse_lines_shape [of 1 "l # ls" "start_parsing fb" v] assms(1) all w0
      by (auto simp: st gathered_def)
  next
    case True
    then obtain b where l: "l = as_bytes ''AREA:'' @ b" by (auto simp: starts_with_iff)
    have five: "drop 5 l = b" by (simp add: l as_bytes_def)
    have "10 \<notin> set l" using assms(1) all by simp
    then have nolf: "unwrap_or (strip_prefix [10] l) l = l" by (cases l) (auto simp: unwrap_or_def)
    let ?area = "\<lambda>a. dress [] 0 [] (Some a) (start_parsing fb)"
    have first: "parse_line 0 l (start_parsing fb) = Inr st1 \<longleftrightarrow> (\<exists>a. valid_area a \<and> b = as_bytes a \<and> st1 = ?area a)" for st1
    proof -
      have "(start_parsing fb)\<lparr>out := (out (start_parsing fb))\<lparr>area := Some a\<rparr>\<rparr> = ?area a" for a
        by (simp add: dress_def start_parsing_def empty_text_def)
      then have "parse_line 0 l (start_parsing fb) = Inr st1 \<longleftrightarrow>
          (\<exists>a. from_utf8 b = Some a \<and> valid_area a \<and> st1 = ?area a)"
        using True by (auto simp: parse_line_def nolf five Let_def result_simps)
      moreover have "from_utf8 b = Some a \<and> valid_area a \<longleftrightarrow> valid_area a \<and> b = as_bytes a" for a
        using valid_area_bytes(1) by (auto dest: from_utf8_SomeD)
      ultimately show ?thesis by blast
    qed
    have head: "headed ar ks all_lines \<longleftrightarrow> (\<exists>a. ar = Some a \<and> valid_area a \<and> b = as_bytes a \<and> ks = ls)" for ar ks
      using True all by (auto simp: headed_def area_line_def l split: option.splits)
    have rest: "parse_lines 1 ls (?area a) = Inr v \<longleftrightarrow>
        within 0 0 (ctls ls) \<and> (\<exists>w. read_all (ctls ls) (start_parsing fb) = Inr w \<and> v = gathered (Some a) ls w)" for a
      using parse_lines_shape [of 1 ls "?area a" v] assms(1) all w0
      by (auto simp: read_all_dress result_simps gathered_def)
    have "parse_lines 0 all_lines (start_parsing fb) = Inr v \<longleftrightarrow>
        (\<exists>a. valid_area a \<and> b = as_bytes a \<and> parse_lines 1 ls (?area a) = Inr v)"
      unfolding all parse_lines.simps attempt_eq_Inr first by auto
    then show ?thesis unfolding rest head by auto
  qed
qed

lemma text_parse_shape:
  assumes "10 \<notin> set bs"
  shows "text_parse bs fb = Inr t \<longleftrightarrow>
    length bs \<le> MAX_TEXT \<and> 0 \<notin> set bs \<and>
    (\<exists>ar ls w. headed ar ls (split_on 13 bs) \<and> within 0 0 (ctls ls) \<and>
       read_all (ctls ls) (start_parsing fb) = Inr w \<and> finish_parsing (gathered ar ls w) = Inr t)"
proof -
  have "\<forall>l \<in> set (split_on 13 bs). 10 \<notin> set l" using assms by (auto dest!: split_by_subset)
  then show ?thesis
    using parse_lines_start [of "split_on 13 bs" fb]
    by (auto simp: text_parse_def result_simps)
qed


section \<open>Reading the controls again\<close>

lemma read_all_follows:
  assumes "read_all cs st = Inr w" and "follows echo st u" and "\<forall>l \<in> set cs. is_control_line l \<and> clean (tl l)"
  shows "\<exists>v. read_all (filter (\<lambda>l. \<not> left_out echo l) cs) u = Inr v \<and> follows echo w v \<and>
    t_path (out v) = t_path (out u)"
  using assms
proof (induction cs arbitrary: st u)
  case (Cons l cs)
  obtain a where l: "l = 1 # a" "clean a"
    using Cons.prems(3) by (cases l) (auto simp: is_control_line_def)
  from Cons.prems(1) obtain st1 where st1: "text_control a st = Inr st1" "read_all cs st1 = Inr w"
    by (auto simp: result_simps l)
  show ?case
  proof (cases "left_out echo l")
    case True
    with text_control_left_out [OF st1(1) Cons.prems(2) l(2)] l(1)
      Cons.IH [OF st1(2)] Cons.prems(3) show ?thesis by simp
  next
    case False
    with text_control_kept [OF st1(1) Cons.prems(2) l(2)] l(1) obtain u1 where
      "text_control a u = Inr u1" "follows echo st1 u1" "t_path (out u1) = t_path (out u)" by blast
    with Cons.IH [OF st1(2), of u1] Cons.prems(3) False l(1) show ?thesis by auto
  qed
qed auto

lemma text_control_charset:
  assumes "text_control a st = Inr w"
  shows "(declared st \<noteq> None \<longrightarrow> declared w \<noteq> None) \<and> (declared w = None \<longrightarrow> t_charset (out w) = t_charset (out st))"
  using assms by (cases rule: text_controlE) (auto dest: apply_control_apart)

lemma read_all_charset:
  "read_all cs st = Inr w \<Longrightarrow> declared w = None \<Longrightarrow> declared st = None \<and> t_charset (out w) = t_charset (out st)"
proof (induction cs arbitrary: st)
  case (Cons l cs)
  then obtain st1 where st1: "text_control (tl l) st = Inr st1" "read_all cs st1 = Inr w"
    by (auto simp: result_simps)
  with Cons.IH [OF st1(2) Cons.prems(2)] text_control_charset [OF st1(1)] show ?case by auto
qed simp

text \<open>The parts of the text that controls do not touch.\<close>

lemma read_all_apart: "read_all cs st = Inr w \<Longrightarrow> apart (out st) (out w)"
proof (induction cs arbitrary: st)
  case (Cons l cs)
  then obtain st1 where st1: "text_control (tl l) st = Inr st1" "read_all cs st1 = Inr w"
    by (auto simp: result_simps)
  with Cons.IH [OF st1(2)] text_control_frame [OF st1(1)] show ?case by (simp add: apart_def)
qed (simp add: apart_def)

definition route_ok :: "(u16 \<times> u16) list \<Rightarrow> bool" where
  "route_ok ps \<longleftrightarrow> length ps \<le> MAX_HOPS \<and> list_all (\<lambda>p. fst p \<noteq> 0) ps"

lemma parse_2d_net: "parse_2d s prior = Inr (p, now) \<Longrightarrow> fst p \<noteq> 0"
  by (auto simp: parse_2d_def result_simps split: if_splits)

lemma parse_2ds_nets: "parse_2ds ss prior = Inr (ps, now) \<Longrightarrow> list_all (\<lambda>p. fst p \<noteq> 0) ps"
  by (induction ss arbitrary: prior ps) (force simp: result_simps dest: parse_2d_net)+

lemma apply_control_route:
  "apply_control tag v t d = Inr (u, e) \<Longrightarrow> route_ok (t_path t) \<Longrightarrow> route_ok (t_path u)"
proof (cases "tag = ''PATH''")
  case True
  assume "apply_control tag v t d = Inr (u, e)" "route_ok (t_path t)"
  then show ?thesis
    by (auto simp: True apply_control_simps result_simps route_ok_def split: if_splits dest: parse_2ds_nets)
qed (auto dest: apply_control_apart)

lemma read_all_route: "read_all cs st = Inr w \<Longrightarrow> route_ok (t_path (out st)) \<Longrightarrow> route_ok (t_path (out w))"
proof (induction cs arbitrary: st)
  case (Cons l cs)
  then obtain st1 where st1: "text_control (tl l) st = Inr st1" "read_all cs st1 = Inr w"
    by (auto simp: result_simps)
  from st1(1) have "route_ok (t_path (out st1))"
    using Cons.prems(2) by (cases rule: text_controlE) (auto intro: apply_control_route)
  with Cons.IH [OF st1(2)] show ?case by blast
qed simp

section \<open>Writing two-dimensional addresses and reading them\<close>

definition show_2d :: "u16 \<times> u16 \<Rightarrow> string" where
  "show_2d p = show_u16 (fst p) @ ''/'' @ show_u16 (snd p)"

lemma format_2d_join: "format_2d ps = join_by CHR '' '' (map show_2d ps)"
proof -
  have "(\<lambda>(n, d). show_u16 n @ ''/'' @ show_u16 d) = show_2d" by (auto simp: show_2d_def)
  then show ?thesis unfolding format_2d_def by simp
qed

lemma no_space_show_2d [simp]: "no_space (show_2d p)" "show_2d p \<noteq> []"
  by (simp_all add: show_2d_def show_u16_def)

lemma split_join:
  "\<forall>w \<in> set ws. no_space w \<and> w \<noteq> [] \<Longrightarrow> split_ascii_whitespace (join_by CHR '' '' ws) = ws"
proof (induction "CHR '' ''" ws rule: join_by.induct)
  case 1
  show ?case by (simp add: split_ascii_whitespace_def)
qed simp_all

lemma split_whitespace_space [simp]: "split_ascii_whitespace (CHR '' '' # s) = split_ascii_whitespace s"
  by (simp add: split_ascii_whitespace_def ascii_whitespace_def)

lemma parse_show_2d: "fst p \<noteq> 0 \<Longrightarrow> parse_2d (show_2d p) prior = Inr (p, Some (fst p))"
  by (simp add: parse_2d_def show_2d_def)

lemma parse_2ds_show:
  "list_all (\<lambda>p. fst p \<noteq> 0) ps \<Longrightarrow> \<exists>now. parse_2ds (map show_2d ps) prior = Inr (ps, now)"
  by (induction ps arbitrary: prior) (auto simp: parse_show_2d, metis attempt_Inr case_prod_conv)

lemma parse_format_2d:
  "list_all (\<lambda>p. fst p \<noteq> 0) ps \<Longrightarrow>
     \<exists>now. parse_2ds (split_ascii_whitespace (CHR '' '' # format_2d ps)) prior = Inr (ps, now)"
  using parse_2ds_show by (simp add: format_2d_join split_join)

lemma concat_chunks: "0 < n \<Longrightarrow> concat (chunks_of n xs) = xs"
proof (induction n xs rule: chunks_of.induct)
  case (1 n xs)
  then show ?case by (subst chunks_of.simps) simp
qed

lemma chunks_subset: "c \<in> set (chunks_of n xs) \<Longrightarrow> set c \<subseteq> set xs"
proof (induction n xs rule: chunks_of.induct)
  case (1 n xs)
  from "1.prems" have "\<not> (xs = [] \<or> n = 0)" "c = take n xs \<or> c \<in> set (chunks_of n (drop n xs))"
    by (subst (asm) chunks_of.simps; auto split: if_splits)+
  with "1.IH" show ?case by (meson dual_order.trans set_drop_subset set_take_subset)
qed

lemma tree_insert_last: "\<forall>l \<in> set (map fst m). l < k \<Longrightarrow> tree_insert k v m = m @ [(k, v)]"
  by (induction k v m rule: tree_insert.induct) (auto dest: less_imp_not_less)

lemma insert_sorted_all:
  "sorted_wrt (<) (map fst m @ ks) \<Longrightarrow> foldl (\<lambda>m k. tree_insert k () m) m ks = m @ map (\<lambda>k. (k, ())) ks"
proof (induction ks arbitrary: m)
  case (Cons k ks)
  then have "tree_insert k () m = m @ [(k, ())]" by (intro tree_insert_last) (auto simp: sorted_wrt_append)
  with Cons show ?case by simp
qed simp

lemma insert_all_length: "length (foldl (\<lambda>m k. tree_insert k () m) m ks) \<le> length m + length ks"
proof (induction ks arbitrary: m)
  case (Cons k ks)
  from Cons.IH [of "tree_insert k () m"] length_tree_insert [of k "()" m] show ?case by simp
qed simp


section \<open>The generated lines\<close>

definition seen_line :: "(u16 \<times> u16) list \<Rightarrow> bytes" where
  "seen_line ps = as_bytes (''SEEN-BY: '' @ format_2d ps)"

definition path_line :: "(u16 \<times> u16) list \<Rightarrow> bytes" where
  "path_line ps = as_bytes (CHR 0x01 # ''PATH: '' @ format_2d ps)"

definition plain_char :: "char \<Rightarrow> bool" where
  "plain_char c \<longleftrightarrow> 32 \<le> ord c \<and> ord c < 128"

lemma plain_format_2d: "list_all plain_char (format_2d ps)"
proof -
  have d: "all_digits s \<Longrightarrow> list_all plain_char s" for s
    by (auto simp: all_digits_def list_all_iff plain_char_def ascii_digit_def)
  have p: "list_all plain_char (show_2d p)" for p
    using d [OF all_digits_show_nat] by (simp add: show_2d_def show_u16_def plain_char_def)
  have "\<forall>w \<in> set ws. list_all plain_char w \<Longrightarrow> list_all plain_char (join_by CHR '' '' ws)" for ws
    by (induction "CHR '' ''" ws rule: join_by.induct) (auto simp: plain_char_def)
  then show ?thesis using p by (simp add: format_2d_join)
qed

lemma plain_bytes:
  assumes "list_all plain_char s" and "b \<in> set (as_bytes s)"
  shows "32 \<le> unat b \<and> unat b < 128"
  using assms by (auto simp: set_as_bytes list_all_iff plain_char_def)

lemma plain_absent: "list_all plain_char s \<Longrightarrow> unat b < 32 \<or> 128 \<le> unat b \<Longrightarrow> b \<notin> set (as_bytes s)"
  using plain_bytes by fastforce

lemma plain_ascii: "list_all plain_char s \<Longrightarrow> ascii s"
  by (auto simp: plain_char_def ascii_def list_all_iff)

lemma bytes_Cons [simp]: "as_bytes (c # s) = byte_of c # as_bytes s"
  by (simp add: as_bytes_def)

lemma bytes_append [simp]: "as_bytes (s @ t) = as_bytes s @ as_bytes t"
  by (simp add: as_bytes_def)

lemma bytes_Nil [simp]: "as_bytes [] = []"
  by (simp add: as_bytes_def)

lemma path_line_bytes: "path_line ps = 1 # as_bytes ''PATH'' @ 58 # 32 # as_bytes (format_2d ps)"
  by (simp add: path_line_def byte_of_def ord_def)

lemma read_path_line:
  assumes "route_ok (t_path (out u) @ ps)"
  shows "text_control (tl (path_line ps)) u = Inr (u\<lparr>out := (out u)\<lparr>t_path := t_path (out u) @ ps\<rparr>\<rparr>)"
proof -
  define a where "a = as_bytes ''PATH'' @ 58 # 32 # as_bytes (format_2d ps)"
  have "10 \<notin> set (as_bytes (format_2d ps))" "141 \<notin> set (as_bytes (format_2d ps))"
    by (rule plain_absent [OF plain_format_2d], simp)+
  then have "clean a" by (simp add: a_def clean_def byte_of_def ord_def)
  then have tag: "control_tag a = Inr (''PATH'', 58 # 32 # as_bytes (format_2d ps))"
    by (simp add: control_tag_clean tag_text_known tag_end_def a_def)
  have v: "from_utf8 (control_value (58 # 32 # as_bytes (format_2d ps))) = Some (format_2d ps)"
    using plain_ascii [OF plain_format_2d] by (simp add: control_value_def)
  from assms have "list_all (\<lambda>p. fst p \<noteq> 0) ps" by (auto simp: route_ok_def)
  from parse_format_2d [OF this] obtain now where
    "parse_2ds (split_ascii_whitespace (format_2d ps)) None = Inr (ps, now)" by auto
  then have "apply_control ''PATH'' (format_2d ps) (out u) (declared u) =
      Inr ((out u)\<lparr>t_path := t_path (out u) @ ps\<rparr>, declared u)"
    using assms by (simp add: apply_control_simps route_ok_def)
  with v have "text_control a u = Inr (u\<lparr>out := (out u)\<lparr>t_path := t_path (out u) @ ps\<rparr>\<rparr>)"
    by (simp add: text_control_def tag known_tags_def spaced_tags_def)
  moreover have "tl (path_line ps) = a" by (simp only: path_line_bytes a_def list.sel)
  ultimately show ?thesis by simp
qed

lemma read_path_lines:
  "route_ok (t_path (out u) @ concat cs) \<Longrightarrow>
     read_all (map path_line cs) u = Inr (u\<lparr>out := (out u)\<lparr>t_path := t_path (out u) @ concat cs\<rparr>\<rparr>)"
proof (induction cs arbitrary: u)
  case (Cons c cs)
  then have "route_ok (t_path (out u) @ c)" by (auto simp: route_ok_def)
  from read_path_line [OF this] Cons.IH [of "u\<lparr>out := (out u)\<lparr>t_path := t_path (out u) @ c\<rparr>\<rparr>"] Cons.prems
  show ?case by simp
qed simp

lemma seen_line_start: "seen_by_line (seen_line ps)" "drop 8 (seen_line ps) = as_bytes (CHR '' '' # format_2d ps)"
proof -
  have "seen_line ps = as_bytes ''SEEN-BY:'' @ as_bytes (CHR '' '' # format_2d ps)"
    by (simp add: seen_line_def)
  then show "seen_by_line (seen_line ps)" "drop 8 (seen_line ps) = as_bytes (CHR '' '' # format_2d ps)"
    unfolding seen_by_line_def starts_with_iff by (blast, simp add: as_bytes_def)
qed

lemma footer_lines:
  "list_all (\<lambda>p. fst p \<noteq> 0) (concat cs) \<Longrightarrow> length seen + length (concat cs) \<le> 1024 \<Longrightarrow>
     footer_seen_by (map seen_line cs) prior seen = Inr (foldl (\<lambda>m k. tree_insert k () m) seen (concat cs))"
proof (induction cs arbitrary: prior seen)
  case (Cons c cs)
  from Cons.prems(1) have "list_all (\<lambda>p. fst p \<noteq> 0) c" by simp
  from parse_format_2d [OF this, of prior] obtain now where
    now: "parse_2ds (split_ascii_whitespace (CHR '' '' # format_2d c)) prior = Inr (c, now)" by auto
  let ?seen = "foldl (\<lambda>m k. tree_insert k () m) seen c"
  have l: "length ?seen \<le> length seen + length c" by (rule insert_all_length)
  have u: "from_utf8 (drop 8 (seen_line c)) = Some (CHR '' '' # format_2d c)"
    unfolding seen_line_start(2) using plain_ascii [OF plain_format_2d] by (intro from_utf8_as_bytes) simp
  have "footer_seen_by (map seen_line cs) now ?seen = Inr (foldl (\<lambda>m k. tree_insert k () m) ?seen (concat cs))"
    by (rule Cons.IH) (use Cons.prems l in auto)
  then show ?case using l Cons.prems(2) by (simp add: u now del: split_whitespace_space)
qed simp

text \<open>What the seen-by lines of a footer leave behind can be written.\<close>

lemma insert_all_facts:
  "tree_ok m \<Longrightarrow> list_all (\<lambda>p. fst p \<noteq> 0) (map fst m @ ks) \<Longrightarrow>
     tree_ok (foldl (\<lambda>m k. tree_insert k () m) m ks) \<and>
     list_all (\<lambda>p. fst p \<noteq> 0) (map fst (foldl (\<lambda>m k. tree_insert k () m) m ks))"
  for m :: "(u16 \<times> u16, unit) btree"
proof (induction ks arbitrary: m)
  case (Cons k ks)
  have "list_all (\<lambda>p. fst p \<noteq> 0) (map fst (tree_insert k () m))"
    using Cons.prems(2) tree_insert_keys [of k "()" m] by (auto simp: list_all_iff)
  with Cons.IH [of "tree_insert k () m"] Cons.prems show ?case by (simp add: tree_insert_ok)
qed simp

lemma footer_seen_facts:
  "footer_seen_by ls prior m = Inr seen \<Longrightarrow> tree_ok m \<Longrightarrow> list_all (\<lambda>p. fst p \<noteq> 0) (map fst m) \<Longrightarrow>
     tree_ok seen \<and> list_all (\<lambda>p. fst p \<noteq> 0) (map fst seen)"
proof (induction ls arbitrary: prior m)
  case (Cons l ls)
  then obtain s ps now where
    "parse_2ds (split_ascii_whitespace s) prior = Inr (ps, now)"
    "footer_seen_by ls now (foldl (\<lambda>m k. tree_insert k () m) m ps) = Inr seen"
    by (auto simp: result_simps Let_def split: if_splits)
  with insert_all_facts [of m ps] parse_2ds_nets Cons show ?case by fastforce
qed simp

lemma footer_lines_same:
  fixes seen :: "(u16 \<times> u16, unit) btree"
  assumes "tree_ok seen" and "list_all (\<lambda>p. fst p \<noteq> 0) (map fst seen)" and "length seen \<le> 1024"
  shows "footer_seen_by (map seen_line (chunks_of 6 (map fst seen))) None [] = Inr seen"
proof -
  have c: "concat (chunks_of 6 (map fst seen)) = map fst seen" by (rule concat_chunks) simp
  have "map (\<lambda>k. (k, ())) (map fst seen) = seen" by (simp add: comp_def) (auto intro: map_idI)
  then have "foldl (\<lambda>m k. tree_insert k () m) [] (map fst seen) = seen"
    using insert_sorted_all [of "[]" "map fst seen"] assms(1) by (simp add: tree_ok_def)
  with footer_lines [of "chunks_of 6 (map fst seen)" "[]" None] assms(2,3) show ?thesis
    unfolding c by simp
qed


section \<open>Controls woven into paragraphs\<close>

lemma lines_append [simp]: "ctls (xs @ ys) = ctls xs @ ctls ys" "paras (xs @ ys) = paras xs @ paras ys"
  by (simp_all add: ctls_def paras_def)

lemma place_append: "place n (xs @ ys) = place n xs @ place (n + length (paras xs)) ys"
  by (induction xs arbitrary: n) auto

lemma all_controls:
  "\<forall>l \<in> set ls. is_control_line l \<Longrightarrow>
     ctls ls = ls \<and> paras ls = [] \<and> place n ls = map (\<lambda>r. \<lparr>in_paragraph = n, raw = r\<rparr>) ls"
  by (induction ls) auto

lemma all_paragraphs:
  "\<forall>l \<in> set ls. \<not> is_control_line l \<Longrightarrow> ctls ls = [] \<and> paras ls = ls \<and> place n ls = []"
  by (induction ls arbitrary: n) auto

lemma place_facts:
  "sorted (map in_paragraph (place n ls)) \<and>
   (\<forall>c \<in> set (place n ls). n \<le> in_paragraph c \<and> in_paragraph c \<le> n + length (paras ls)) \<and>
   map raw (place n ls) = ctls ls"
proof (induction ls arbitrary: n)
  case (Cons l ls)
  show ?case using Cons [of n] Cons [of "n + 1"] by (auto simp: Suc_le_eq)
qed simp

definition block :: "(nat \<Rightarrow> bytes list) \<Rightarrow> bytes list \<Rightarrow> nat \<Rightarrow> bytes list" where
  "block ks ps i = ks i @ (if i < length ps then [ps ! i] else [])"

lemma weave:
  assumes "\<And>i. \<forall>l \<in> set (ks i). is_control_line l" and "\<forall>l \<in> set ps. \<not> is_control_line l" and "k \<le> length ps"
  shows "ctls (concat (map (block ks ps) [0..<k])) = concat (map ks [0..<k]) \<and>
    paras (concat (map (block ks ps) [0..<k])) = take k ps \<and>
    place 0 (concat (map (block ks ps) [0..<k])) =
      concat (map (\<lambda>i. map (\<lambda>r. \<lparr>in_paragraph = i, raw = r\<rparr>) (ks i)) [0..<k])"
  using assms(3)
proof (induction k)
  case (Suc k)
  have "\<not> is_control_line (ps ! k)" using assms(2) Suc.prems by simp
  then have "ctls (block ks ps k) = ks k \<and> paras (block ks ps k) = [ps ! k] \<and>
      place k (block ks ps k) = map (\<lambda>r. \<lparr>in_paragraph = k, raw = r\<rparr>) (ks k)"
    using all_controls [OF assms(1)] Suc.prems by (simp add: block_def place_append)
  moreover have "length (take k ps) = k" using Suc.prems by simp
  ultimately show ?case
    using Suc by (simp add: place_append take_Suc_conv_app_nth)
qed simp

lemma weave_all:
  assumes "\<And>i. \<forall>l \<in> set (ks i). is_control_line l" and "\<forall>l \<in> set ps. \<not> is_control_line l"
  shows "ctls (concat (map (block ks ps) [0..<length ps + 1])) = concat (map ks [0..<length ps + 1])"
    and "paras (concat (map (block ks ps) [0..<length ps + 1])) = ps"
    and "place 0 (concat (map (block ks ps) [0..<length ps + 1])) =
      concat (map (\<lambda>i. map (\<lambda>r. \<lparr>in_paragraph = i, raw = r\<rparr>) (ks i)) [0..<length ps + 1])"
  using weave [of ks ps "length ps", OF assms] all_controls [OF assms(1)]
  by (simp_all add: place_append block_def)

lemma regroup:
  "sorted (map f xs) \<Longrightarrow> concat (map (\<lambda>i. filter (\<lambda>x. f x = i) xs) [0..<k]) = filter (\<lambda>x. f x < k) xs"
  for f :: "'a \<Rightarrow> nat"
proof (induction k)
  case (Suc k)
  have "filter (\<lambda>x. f x < Suc k) xs = filter (\<lambda>x. f x < k) xs @ filter (\<lambda>x. f x = k) xs"
    using Suc.prems
  proof (induction xs)
    case (Cons x xs)
    show ?case
    proof (cases "f x < k")
      case False
      with Cons.prems have "filter (\<lambda>y. f y < k) xs = []" by (auto simp: filter_empty_conv)
      with False Cons show ?thesis by auto
    qed (use Cons in auto)
  qed simp
  with Suc show ?case by simp
qed simp

lemma traverse_control_line:
  "traverse control_line cs = Inr ls \<Longrightarrow>
     ls = map raw cs \<and> (\<forall>c \<in> set cs. is_control_line (raw c) \<and> 13 \<notin> set (raw c) \<and> 0 \<notin> set (raw c))"
  by (induction cs arbitrary: ls) (auto simp: result_simps control_line_def is_control_line_def split: if_splits)

text \<open>The controls that are written, each at its paragraph or after the last one.\<close>

definition kept_controls :: "ftn_text \<Rightarrow> control list" where
  "kept_controls t = filter (\<lambda>c. \<not> left_out (area t \<noteq> None) (raw c)) (controls t)"

lemma encoded_middle:
  assumes mid: "traverse (paragraph_lines t body) [0..<length body + 1] = Inr mid"
    and ps: "length ps = length body" "\<And>i b. i < length body \<Longrightarrow> body_line (t_charset t) (body ! i) = Inr b \<Longrightarrow> b = ps ! i"
      "\<forall>l \<in> set ps. \<not> is_control_line l"
    and srt: "sorted (map in_paragraph (controls t))"
  shows "ctls (concat mid) = map raw (kept_controls t)" "paras (concat mid) = ps"
    "place 0 (concat mid) = map (\<lambda>c. c\<lparr>in_paragraph := min (in_paragraph c) (length ps)\<rparr>) (kept_controls t)"
    "\<forall>c \<in> set (kept_controls t). is_control_line (raw c) \<and> 13 \<notin> set (raw c) \<and> 0 \<notin> set (raw c)"
    "\<forall>i < length body. \<exists>b. body_line (t_charset t) (body ! i) = Inr b"
proof -
  define n where "n = length body"
  define sel where "sel i = filter (\<lambda>c. min (in_paragraph c) n = i) (kept_controls t)" for i
  define ks where "ks i = map raw (sel i)" for i
  have sel: "filter (\<lambda>c. min (in_paragraph c) (length body) = i \<and> \<not> left_out (area t \<noteq> None) (raw c)) (controls t) = sel i" for i
    by (simp add: sel_def kept_controls_def n_def conj_commute)
  have each: "i \<le> n \<Longrightarrow> mid ! i = block ks ps i \<and>
      (\<forall>c \<in> set (sel i). is_control_line (raw c) \<and> 13 \<notin> set (raw c) \<and> 0 \<notin> set (raw c)) \<and>
      (i < n \<longrightarrow> (\<exists>b. body_line (t_charset t) (body ! i) = Inr b))" for i
  proof -
    assume i: "i \<le> n"
    then have "paragraph_lines t body ([0..<length body + 1] ! i) = Inr (mid ! i)"
      using traverse_InrD [OF mid] by (simp add: n_def)
    then have "paragraph_lines t body i = Inr (mid ! i)" using i by (simp add: n_def del: upt_Suc)
    from this [unfolded paragraph_lines_def sel attempt_eq_Inr] obtain ls where ls: "traverse control_line (sel i) = Inr ls"
      "(if i < length body then attempt (body_line (t_charset t) (body ! i)) (\<lambda>b. Inr (ls @ [b])) else Inr ls) = Inr (mid ! i)"
      by blast
    from traverse_control_line [OF ls(1)] ls(2) ps(1) ps(2) [of i] show ?thesis
      by (auto simp: block_def ks_def n_def result_simps split: if_splits)
  qed
  have "length mid = n + 1" using traverse_InrD [OF mid] by (simp add: n_def)
  then have m: "mid = map (block ks ps) [0..<length ps + 1]"
    using each by (intro nth_equalityI) (auto simp: n_def ps(1) simp del: upt_Suc)
  have empty: "sel i = []" if "n < i" for i using that by (auto simp: sel_def filter_empty_conv)
  have ks: "\<forall>l \<in> set (ks i). is_control_line l" for i
    using each [of i] empty [of i] by (cases "i \<le> n") (auto simp: ks_def)
  have srt: "sorted (map (\<lambda>c. min (in_paragraph c) n) (kept_controls t))"
  proof -
    have "sorted (map in_paragraph (kept_controls t))"
      using srt by (simp add: kept_controls_def sorted_filter)
    then show ?thesis by (auto simp: sorted_map sorted_wrt_map intro: sorted_wrt_mono_rel [rotated])
  qed
  have g: "concat (map sel [0..<n + 1]) = kept_controls t"
    using regroup [OF srt, of "n + 1"] by (simp add: sel_def [abs_def] less_Suc_eq_le del: upt_Suc)
  have k: "concat (map ks [0..<n + 1]) = map raw (kept_controls t)"
    by (simp only: g [symmetric] map_concat map_map ks_def [abs_def] comp_def)
  show "ctls (concat mid) = map raw (kept_controls t)"
    unfolding m weave_all(1) [OF ks ps(3)] k [symmetric] by (simp add: n_def ps(1))
  show "paras (concat mid) = ps" unfolding m by (rule weave_all(2) [OF ks ps(3)])
  have "map (\<lambda>r. \<lparr>in_paragraph = i, raw = r\<rparr>) (ks i) =
      map (\<lambda>c. c\<lparr>in_paragraph := min (in_paragraph c) (length ps)\<rparr>) (sel i)" for i
    by (auto simp: ks_def sel_def ps(1) n_def)
  then have "concat (map (\<lambda>i. map (\<lambda>r. \<lparr>in_paragraph = i, raw = r\<rparr>) (ks i)) [0..<n + 1]) =
      map (\<lambda>c. c\<lparr>in_paragraph := min (in_paragraph c) (length ps)\<rparr>) (kept_controls t)"
    by (simp only: g [symmetric] map_concat map_map comp_def)
  then show "place 0 (concat mid) = map (\<lambda>c. c\<lparr>in_paragraph := min (in_paragraph c) (length ps)\<rparr>) (kept_controls t)"
    unfolding m weave_all(3) [OF ks ps(3)] by (simp add: n_def ps(1) del: upt_Suc)
  show "\<forall>c \<in> set (kept_controls t). is_control_line (raw c) \<and> 13 \<notin> set (raw c) \<and> 0 \<notin> set (raw c)"
  proof
    fix c assume "c \<in> set (kept_controls t)"
    then have "c \<in> set (sel (min (in_paragraph c) n))" by (simp add: sel_def)
    with each [of "min (in_paragraph c) n"]
    show "is_control_line (raw c) \<and> 13 \<notin> set (raw c) \<and> 0 \<notin> set (raw c)" by simp
  qed
  show "\<forall>i < length body. \<exists>b. body_line (t_charset t) (body ! i) = Inr b"
    using each by (auto simp: n_def)
qed

end
