(* ===== verification/Ftn_Reparse.thy ===== *)
theory Ftn_Reparse
  imports Ftn_Forward
begin

text \<open>
  The text of a message parsed, written and parsed again: the pieces of \<open>Ftn_Forward\<close> put
  together, the properties of \<open>text.rs\<close>, and what forwarding may do to hostile input.
\<close>

section \<open>The body\<close>

lemma char_utf8_newline: "10 \<in> set (char_utf8 u) \<Longrightarrow> u = 10"
  by (auto simp: char_utf8_def split: if_splits)

lemma traverse_mem: "traverse f xs = Inr ys \<Longrightarrow> x \<in> set xs \<Longrightarrow> \<exists>y \<in> set ys. f x = Inr y"
  by (induction xs arbitrary: ys) (auto simp: result_simps)

lemma decode_no_newline:
  assumes "charset_decode c p = Inr s" and "10 \<notin> set p"
  shows "newline \<notin> set s"
proof
  assume n: "newline \<in> set s"
  have o: "ord newline = 10" by (simp add: newline_def)
  show False
  proof (cases "c = Utf_8")
    case True
    with assms(1) have "p = as_bytes s" by (simp add: charset_decode_def result_simps from_utf8_valid)
    moreover have "byte_of newline = 10" by (simp add: byte_of_def o)
    ultimately show False using n assms(2) by (metis imageI set_as_bytes)
  next
    case False
    with assms(1) obtain us where us: "traverse (char_of_byte c) p = Inr us" "s = from_chars us"
      by (auto simp: charset_decode_def result_simps)
    have "10 \<in> set (map ord s)" using n o by force
    then have "10 \<in> set (concat (map char_utf8 us))"
      by (simp add: us(2) map_ord_from_chars [OF decoded_scalars [OF us(1)]])
    then have "10 \<in> set us" using char_utf8_newline by auto
    moreover have "traverse (byte_of_char c) us = Inr p"
      using us(1) by (rule traverse_inverse) (simp add: char_of_byte_of)
    ultimately have "10 \<in> set p" using traverse_mem by (fastforce simp: byte_of_char_def)
    with assms(2) show False by blast
  qed
qed

lemma split_join_by:
  "ss \<noteq> [] \<Longrightarrow> \<forall>s \<in> set ss. x \<notin> set s \<Longrightarrow> split_on x (join_by x ss) = ss"
proof (induction x ss rule: join_by.induct)
  case (2 c s)
  then show ?case by (auto intro!: split_by_none)
next
  case (3 c s r ss)
  then have "split_on c (s @ c # join_by c (r # ss)) = s # split_on c (join_by c (r # ss))"
    by (intro split_by_append) auto
  with 3 show ?case by simp
qed simp

lemma decode_Nil [simp]: "charset_decode c [] = Inr []"
  by (simp add: charset_decode_def from_utf8_def from_bytes_def from_chars_def)

lemma encode_Nil [simp]: "charset_encode c [] = Inr []"
  using charset_decode_encode [OF decode_Nil] by simp

text \<open>The paragraphs of the body, of which there is always one.\<close>

definition at_least_one :: "bytes list \<Rightarrow> bytes list" where
  "at_least_one ps = (if ps = [] then [[]] else ps)"

lemma body_of_paragraphs:
  assumes "traverse (charset_decode c) ps = Inr ss" and "\<forall>p \<in> set ps. 10 \<notin> set p"
  defines "body \<equiv> split_on newline (join_by newline ss)"
  shows "length (at_least_one ps) = length body"
    and "i < length body \<Longrightarrow> body_line c (body ! i) = Inr b \<Longrightarrow> b = at_least_one ps ! i"
    and "traverse (charset_decode c) (at_least_one ps) = Inr body" and "join_by newline body = join_by newline ss"
proof -
  have len: "length ss = length ps" and each: "\<forall>i < length ps. charset_decode c (ps ! i) = Inr (ss ! i)"
    using traverse_InrD [OF assms(1)] by auto
  have nl: "\<forall>s \<in> set ss. newline \<notin> set s"
    using each assms(2) len decode_no_newline by (metis in_set_conv_nth)
  have b: "body = (if ss = [] then [[]] else ss)"
    using split_join_by [OF _ nl] by (simp add: body_def)
  show "length (at_least_one ps) = length body" using len by (auto simp: b at_least_one_def)
  show "traverse (charset_decode c) (at_least_one ps) = Inr body"
    using assms(1) len by (auto simp: b at_least_one_def)
  show "join_by newline body = join_by newline ss" by (simp add: b)
  assume i: "i < length body" "body_line c (body ! i) = Inr b"
  then have e: "charset_encode c (body ! i) = Inr b" by (simp add: body_line_def split: if_splits)
  show "b = at_least_one ps ! i"
  proof (cases "ss = []")
    case True
    with i(1) e len show ?thesis by (simp add: b at_least_one_def)
  next
    case False
    with i(1) each len have "charset_decode c (ps ! i) = Inr (body ! i)" by (simp add: b)
    from charset_decode_encode [OF this] e False len show ?thesis by (auto simp: at_least_one_def)
  qed
qed

section \<open>The footer\<close>

lemma pop_while_append:
  "\<forall>y \<in> set ys. p y \<Longrightarrow> xs = [] \<or> \<not> p (last xs) \<Longrightarrow> pop_while p (xs @ ys) = (xs, ys)"
proof -
  assume y: "\<forall>y \<in> set ys. p y" and x: "xs = [] \<or> \<not> p (last xs)"
  have "takeWhile p (rev ys @ rev xs) = rev ys" "dropWhile p (rev ys @ rev xs) = rev xs"
    using y x by (simp_all add: takeWhile_append dropWhile_append takeWhile_eq_all_conv dropWhile_eq_Nil_conv)
      (cases xs rule: rev_cases; simp)+
  then show ?thesis by (simp add: pop_while_def)
qed

lemma pop_while_parts:
  assumes "pop_while p zs = (xs, ys)"
  shows "zs = xs @ ys" "\<forall>y \<in> set ys. p y" "xs = [] \<or> \<not> p (last xs)"
proof -
  have xs: "xs = rev (dropWhile p (rev zs))" and ys: "ys = rev (takeWhile p (rev zs))"
    using assms by (auto simp: pop_while_def)
  show "zs = xs @ ys" by (simp add: xs ys flip: rev_append)
  show "\<forall>y \<in> set ys. p y" by (auto simp: ys dest: set_takeWhileD)
  show "xs = [] \<or> \<not> p (last xs)"
    using hd_dropWhile [of p "rev zs"] by (auto simp: xs last_rev)
qed

lemma pop_decoded_back:
  assumes "pop_decoded p c ps = Inr (x, qs)"
  obtains b where "optional_line c x = Inr b" "ps = qs @ b" "\<forall>l \<in> set b. p l"
proof (cases "ps \<noteq> [] \<and> p (last ps)")
  case True
  with assms obtain s where "charset_decode c (last ps) = Inr s" "x = Some s" "qs = butlast ps"
    by (auto simp: pop_decoded_def result_simps)
  with True charset_decode_encode show ?thesis
    by (intro that [of "[last ps]"]) (auto simp: optional_line_def)
next
  case False
  with assms have "x = None" "qs = ps" by (auto simp: pop_decoded_def split: if_splits)
  then show ?thesis by (intro that [of "[]"]) (simp_all add: optional_line_def)
qed

lemma pop_decoded_front:
  "pop_decoded p c ps = Inr (x, qs) \<Longrightarrow> \<not> p [] \<Longrightarrow> pop_decoded p c ([] # ps) = Inr (x, [] # qs)"
  by (cases ps rule: rev_cases) (auto simp: pop_decoded_def result_simps split: if_splits)


definition trimmed :: "bytes list \<Rightarrow> bytes list" where
  "trimmed ps = fst (pop_while (\<lambda>p. p = []) ps)"

lemma trimmed_append: "\<forall>y \<in> set ys. y = [] \<Longrightarrow> xs = [] \<or> last xs \<noteq> [] \<Longrightarrow> trimmed (xs @ ys) = xs"
  unfolding trimmed_def by (subst pop_while_append) auto

lemma trimmed_prefix: "\<exists>ys. ps = trimmed ps @ ys" "trimmed ps = [] \<or> last (trimmed ps) \<noteq> []"
proof -
  obtain xs ys where w: "pop_while (\<lambda>p. p = []) ps = (xs, ys)" by (cases "pop_while (\<lambda>p. p = []) ps")
  then have "trimmed ps = xs" by (simp add: trimmed_def)
  with pop_while_parts [OF w] show "\<exists>ys. ps = trimmed ps @ ys" "trimmed ps = [] \<or> last (trimmed ps) \<noteq> []" by auto
qed

lemma not_footer_Nil: "\<not> seen_by_line []" "\<not> origin_line []" "\<not> tear_line []"
  by (auto simp: seen_by_line_def origin_line_def tear_line_def starts_with_iff as_bytes_def)

lemma seen_line_plain: "seen_line c \<noteq> []" "\<not> is_control_line (seen_line c)"
  by (simp_all add: seen_line_def is_control_line_def byte_of_def)

lemma chunks_nonempty: "xs \<noteq> [] \<Longrightarrow> 0 < n \<Longrightarrow> chunks_of n xs \<noteq> []"
  by (subst chunks_of.simps) simp

lemma optional_line_Inr: "optional_line c x = Inr b \<Longrightarrow> optional_line c x = Inr b' \<Longrightarrow> b = b'"
  by simp

lemma echo_footer_again:
  assumes pop: "pop_while seen_by_line (trimmed ps) = (as, foot)"
    and seen: "footer_seen_by foot None [] = Inr seen"
    and org: "pop_decoded origin_line c as = Inr (org, bs)"
    and tr: "pop_decoded tear_line c bs = Inr (tr, qs)"
    and some: "seen \<noteq> []" "length seen \<le> 1024"
    and ar: "area u = Some a" "t_charset u = c" "seen_by u = []"
  obtains tb ob qs' where "optional_line c tr = Inr tb" "optional_line c org = Inr ob" "as = qs @ tb @ ob"
    "parse_footer u (trimmed (at_least_one qs @ (tb @ ob @ map seen_line (chunks_of 6 (map fst seen))) @ [[]])) =
       Inr (u\<lparr>seen_by := seen, t_origin := org, tear := tr\<rparr>, qs')"
    "qs' = qs \<or> qs = [] \<and> qs' = [[]]"
proof -
  from pop_decoded_back [OF org] obtain ob where ob: "optional_line c org = Inr ob" "as = bs @ ob" by metis
  from pop_decoded_back [OF tr] obtain tb where tb: "optional_line c tr = Inr tb" "bs = qs @ tb" by metis
  define S where "S = map seen_line (chunks_of 6 (map fst seen))"
  define A where "A = at_least_one qs @ tb @ ob"
  have S: "S \<noteq> []" "\<forall>l \<in> set S. seen_by_line l" "\<forall>l \<in> set S. l \<noteq> []"
    using some(1) chunks_nonempty [of "map fst seen" 6] seen_line_start(1) seen_line_plain(1)
    by (auto simp: S_def)
  have A: "A = as \<or> qs = [] \<and> A = [] # as"
    by (auto simp: A_def at_least_one_def ob tb)
  have "as = [] \<or> \<not> seen_by_line (last as)" using pop_while_parts(3) [OF pop] .
  then have last: "\<not> seen_by_line (last A)" "A \<noteq> []"
    using A not_footer_Nil(1) by (auto simp: A_def at_least_one_def)
  have t: "trimmed (at_least_one qs @ (tb @ ob @ S) @ [[]]) = A @ S"
    using S trimmed_append [of "[[]]" "A @ S"] by (simp add: A_def last_append)
  have p: "pop_while seen_by_line (A @ S) = (A, S)"
    using S(2) last by (intro pop_while_append) auto
  have f: "footer_seen_by S None [] = Inr seen"
    unfolding S_def using footer_seen_facts [OF seen] some(2)
    by (intro footer_lines_same) (auto simp: tree_ok_def)
  have "\<exists>bs' qs'. pop_decoded origin_line c A = Inr (org, bs') \<and> pop_decoded tear_line c bs' = Inr (tr, qs') \<and>
      (qs' = qs \<or> qs = [] \<and> qs' = [[]])"
    using A
  proof
    assume "A = as"
    with org tr show ?thesis by blast
  next
    assume "qs = [] \<and> A = [] # as"
    with pop_decoded_front [OF org not_footer_Nil(2)] pop_decoded_front [OF tr not_footer_Nil(3)]
    show ?thesis by auto
  qed
  then obtain bs' qs' where q: "pop_decoded origin_line c A = Inr (org, bs')" "pop_decoded tear_line c bs' = Inr (tr, qs')"
      "qs' = qs \<or> qs = [] \<and> qs' = [[]]" by blast
  have "parse_footer u (A @ S) = Inr (u\<lparr>seen_by := seen, t_origin := org, tear := tr\<rparr>, qs')"
    using q by (simp add: parse_footer_def ar p f)
  with that ob tb q(3) t show ?thesis unfolding S_def by simp
qed

lemma netmail_body_again:
  assumes "area u = None"
  shows "parse_footer u (trimmed (at_least_one (trimmed ps) @ [] @ [[]])) = Inr (u, trimmed ps)"
proof -
  have "trimmed (at_least_one (trimmed ps) @ [[]]) = trimmed ps"
    using trimmed_prefix(2) [of ps] trimmed_append [of "[[]]" "trimmed ps"] trimmed_append [of "[[], []]" "[]"]
    by (cases "trimmed ps = []") (simp_all add: at_least_one_def)
  then show ?thesis by (simp add: parse_footer_def assms)
qed



lemma footer_again:
  assumes pf: "parse_footer t0 (trimmed ps) = Inr (t1, qs)"
    and t0: "seen_by t0 = []" "t_origin t0 = None" "tear t0 = None"
    and tl: "tail_lines (t1\<lparr>t_body := s\<rparr>) = Inr ts" and len: "length (seen_by t1) \<le> 1024"
    and u: "area u = area t0" "t_charset u = t_charset t0" "seen_by u = []" "t_origin u = None" "tear u = None"
  obtains F qs' where "ts = F @ (if area t0 = None then [] else map path_line (chunks_of 6 (t_path t0)))"
    "\<forall>l \<in> set F. l \<in> set ps \<or> (\<exists>c. l = seen_line c)" "set qs \<subseteq> set ps"
    "parse_footer u (trimmed (at_least_one qs @ F @ [[]])) =
       Inr (u\<lparr>seen_by := seen_by t1, t_origin := t_origin t1, tear := tear t1\<rparr>, qs')"
    "qs' = qs \<or> qs = [] \<and> qs' = [[]]"
    "t1 = t0\<lparr>seen_by := seen_by t1, t_origin := t_origin t1, tear := tear t1\<rparr>"
proof (cases "area t0")
  case None
  with pf have e: "t1 = t0" "qs = trimmed ps" by (simp_all add: parse_footer_def)
  have "ts = []" using tl None e by (simp add: tail_lines_def)
  moreover have "u\<lparr>seen_by := seen_by t1, t_origin := t_origin t1, tear := tear t1\<rparr> = u"
    using u t0 e by simp
  moreover have "set qs \<subseteq> set ps" using trimmed_prefix(1) [of ps] e by (metis set_append sup_ge1)
  ultimately show ?thesis
    using that [of "[]" qs] netmail_body_again [of u ps] u(1) None e by simp
next
  case (Some a)
  obtain as foot where pop: "pop_while seen_by_line (trimmed ps) = (as, foot)" by (cases "pop_while seen_by_line (trimmed ps)")
  from pf [unfolded parse_footer_def] Some pop t0(1) obtain seen org bs tr where
    f: "footer_seen_by foot None [] = Inr seen" "pop_decoded origin_line (t_charset t0) as = Inr (org, bs)"
      "pop_decoded tear_line (t_charset t0) bs = Inr (tr, qs)"
    and t1: "t1 = t0\<lparr>seen_by := seen, t_origin := org, tear := tr\<rparr>"
    by (auto simp: result_simps)
  have some: "seen \<noteq> []" "length seen \<le> 1024"
    using tl len Some by (auto simp: t1 tail_lines_def result_simps split: if_splits)
  from echo_footer_again [OF pop f some _ u(2,3)] u(1) Some obtain tb ob qs' where
    b: "optional_line (t_charset t0) tr = Inr tb" "optional_line (t_charset t0) org = Inr ob" "as = qs @ tb @ ob"
    and again: "parse_footer u (trimmed (at_least_one qs @ (tb @ ob @ map seen_line (chunks_of 6 (map fst seen))) @ [[]])) =
       Inr (u\<lparr>seen_by := seen, t_origin := org, tear := tr\<rparr>, qs')" "qs' = qs \<or> qs = [] \<and> qs' = [[]]" by metis
  have "ts = (tb @ ob @ map seen_line (chunks_of 6 (map fst seen))) @ map path_line (chunks_of 6 (t_path t0))"
    using tl Some b(1,2) some(1)
    by (simp add: t1 tail_lines_def seen_line_def [abs_def] path_line_def [abs_def] del: bytes_append bytes_Cons)
  moreover have "set as \<subseteq> set ps"
    using pop_while_parts(1) [OF pop] trimmed_prefix(1) [of ps] by (metis Un_iff set_append subsetI)
  then have "\<forall>l \<in> set (tb @ ob @ map seen_line (chunks_of 6 (map fst seen))). l \<in> set ps \<or> (\<exists>c. l = seen_line c)"
    "set qs \<subseteq> set ps" using b(3) by auto
  ultimately show ?thesis using again Some by (intro that) (auto simp: t1)
qed

lemma finish_parsing_shape:
  "finish_parsing st = Inr t \<longleftrightarrow>
     (\<exists>t1 qs ss. parse_footer (out st) (trimmed (paragraphs st)) = Inr (t1, qs) \<and>
        traverse (charset_decode (t_charset t1)) qs = Inr ss \<and> printable_body (join_by newline ss) \<and>
        t = t1\<lparr>t_body := join_by newline ss\<rparr>)"
  by (auto simp: finish_parsing_def trimmed_def result_simps Let_def)

lemma read_all_append: "read_all (xs @ ys) st = attempt (read_all xs st) (read_all ys)"
proof (induction xs arbitrary: st)
  case (Cons x xs)
  then show ?case by (cases "text_control (tl x) st") simp_all
qed simp

lemma split_lines: "\<forall>l \<in> set ls. 13 \<notin> set l \<Longrightarrow> split_on 13 (concat (map (\<lambda>l. l @ [13]) ls)) = ls @ [[]]"
  for ls :: "bytes list"
proof (induction ls)
  case (Cons l ls)
  then have "split_on 13 (l @ 13 # concat (map (\<lambda>l. l @ [13]) ls)) = l # split_on 13 (concat (map (\<lambda>l. l @ [13]) ls))"
    by (intro split_by_append) auto
  with Cons show ?case by simp
qed simp

lemma first_line_not_area:
  assumes "ls \<noteq> []" and "\<not> starts_with (as_bytes ''AREA:'') (hd ls)" and "ms \<noteq> []"
    and c: "map raw (place 0 ms) = map raw (place 0 ls)"
      "map in_paragraph (place 0 ms) = map (\<lambda>c. min (in_paragraph c) n) (place 0 ls)"
    and p: "paras ms \<noteq> []" "hd (paras ms) = [] \<or> (paras ls \<noteq> [] \<and> hd (paras ms) = hd (paras ls))"
  shows "\<not> starts_with (as_bytes ''AREA:'') (hd ms)"
proof -
  have ctl: "\<not> starts_with (as_bytes ''AREA:'') l" if "is_control_line l" for l
    using that by (auto simp: starts_with_iff is_control_line_def byte_of_def)
  obtain l ls' where ls: "ls = l # ls'" using assms(1) by (cases ls) auto
  obtain m ms' where ms: "ms = m # ms'" using assms(3) by (cases ms) auto
  show ?thesis
  proof (cases "is_control_line m")
    case False
    then have m: "hd (paras ms) = m" by (simp add: ms)
    show ?thesis
    proof (cases "is_control_line l")
      case True
      have "map in_paragraph (place 0 ms) \<noteq> []" "hd (map in_paragraph (place 0 ms)) = 0"
        using c(2) True by (simp_all add: ls)
      moreover have "\<forall>k \<in> set (map in_paragraph (place 0 ms)). 1 \<le> k"
        using False place_facts [of 1 ms'] by (auto simp: ms)
      ultimately show ?thesis by (metis hd_in_set not_one_le_zero)
    next
      case l: False
      then show ?thesis
        using p(2) m assms(2) by (auto simp: ms ls starts_with_iff as_bytes_def)
    qed
  next
    case True
    then show ?thesis unfolding ms list.sel by (rule ctl)
  qed
qed



section \<open>Forwarding\<close>

text \<open>What forwarding keeps of a text.\<close>

definition generated_controls :: "ftn_text \<Rightarrow> bytes list" where
  "generated_controls t = (if area t = None then [] else map path_line (chunks_of 6 (t_path t)))"

definition forwarded :: "ftn_text \<Rightarrow> ftn_text \<Rightarrow> bool" where
  "forwarded t u \<longleftrightarrow>
     t_body u = t_body t \<and> t_charset u = t_charset t \<and> area u = area t \<and> msgid u = msgid t \<and> reply u = reply t \<and>
     offset_minutes u = offset_minutes t \<and> t_via u = t_via t \<and> t_flags u = t_flags t \<and>
     t_origin u = t_origin t \<and> tear u = tear t \<and> seen_by u = seen_by t \<and>
     (if area t = None then intl u = intl t \<and> fmpt u = fmpt t \<and> topt u = topt t else t_path u = t_path t) \<and>
     (\<exists>k. controls u =
        map (\<lambda>c. c\<lparr>in_paragraph := min (in_paragraph c) (length (split_on newline (t_body t)))\<rparr>) (kept_controls t) @
        map (\<lambda>l. \<lparr>in_paragraph = k, raw = l\<rparr>) (generated_controls t))"

lemma text_encode_lines:
  assumes "text_encode t = Inr c"
  obtains first mid ts where "area_lines t = Inr first"
    "traverse (paragraph_lines t (split_on newline (t_body t))) [0..<length (split_on newline (t_body t)) + 1] = Inr mid"
    "tail_lines t = Inr ts" "within 0 0 (ctls (first @ concat mid @ ts))" "length (seen_by t) \<le> 1024"
    "c = concat (map (\<lambda>l. l @ [13]) (first @ concat mid @ ts))" "length c \<le> MAX_TEXT"
proof -
  from assms [unfolded text_encode_def Let_def attempt_eq_Inr if_Inl_eq_Inr] obtain first mid ts where
    *: "area_lines t = Inr first"
    "traverse (paragraph_lines t (split_on newline (t_body t))) [0..<length (split_on newline (t_body t)) + 1] = Inr mid"
    "tail_lines t = Inr ts"
    and l: "\<not> (MAX_CONTROLS < length (filter (\<lambda>l. take 1 l = [1]) (first @ concat mid @ ts)) \<or>
      MAX_CONTROL_BYTES < sum_list (map length (filter (\<lambda>l. take 1 l = [1]) (first @ concat mid @ ts))) \<or>
      list_ex (\<lambda>l. MAX_CONTROL_LINE < length l) (filter (\<lambda>l. take 1 l = [1]) (first @ concat mid @ ts)) \<or>
      1024 < length (seen_by t) \<or> 1024 < length (t_path t))"
    "\<not> MAX_TEXT < length (concat (map (\<lambda>l. l @ [13]) (first @ concat mid @ ts)))"
    "c = concat (map (\<lambda>l. l @ [13]) (first @ concat mid @ ts))" by (elim exE conjE) blast
  have f: "filter (\<lambda>l. take 1 l = [1]) xs = ctls xs" for xs
    by (simp add: ctls_def is_control_line_def [abs_def])
  from l [unfolded f] show ?thesis
    by (intro that [OF *]) (auto simp: within_def list_ex_iff not_less simp del: map_append concat_append)
qed

lemma parsed_once:
  assumes "headed ar ls all_lines" and "read_all (ctls ls) (start_parsing fb) = Inr w"
    and "finish_parsing (gathered ar ls w) = Inr t"
  obtains t0 t1 qs ss where "t0 = (out w)\<lparr>controls := place 0 ls, area := ar\<rparr>"
    "parse_footer t0 (trimmed (paras ls)) = Inr (t1, qs)" "seen_by t0 = []" "t_origin t0 = None" "tear t0 = None"
    "traverse (charset_decode (t_charset t1)) qs = Inr ss" "printable_body (join_by newline ss)"
    "t = t1\<lparr>t_body := join_by newline ss\<rparr>" "route_ok (t_path t0)"
proof -
  let ?t0 = "(out w)\<lparr>controls := place 0 ls, area := ar\<rparr>"
  have a: "apart (out (start_parsing fb)) (out w)" by (rule read_all_apart [OF assms(2)])
  have "route_ok (t_path (out w))"
    by (rule read_all_route [OF assms(2)]) (simp add: start_parsing_def empty_text_def route_ok_def)
  moreover have "out (gathered ar ls w) = ?t0" "paragraphs (gathered ar ls w) = paras ls"
    by (simp_all add: gathered_def dress_def)
  moreover from assms(3) obtain t1 qs ss where
    "parse_footer (out (gathered ar ls w)) (trimmed (paragraphs (gathered ar ls w))) = Inr (t1, qs)"
    "traverse (charset_decode (t_charset t1)) qs = Inr ss" "printable_body (join_by newline ss)"
    "t = t1\<lparr>t_body := join_by newline ss\<rparr>"
    unfolding finish_parsing_shape by blast
  moreover have "seen_by ?t0 = []" "t_origin ?t0 = None" "tear ?t0 = None"
    using a by (simp_all add: apart_def start_parsing_def empty_text_def)
  ultimately show ?thesis using that [of ?t0 t1 qs ss] by simp
qed

lemma follows_start: "follows echo (start_parsing fb) (start_parsing c)"
  by (simp add: follows_def similar_def start_parsing_def empty_text_def)

text \<open>The controls of the second reading.\<close>

lemma controls_again:
  assumes r: "read_all (ctls ls) (start_parsing fb) = Inr w" and c: "\<forall>l \<in> set (ctls ls). clean (tl l)"
  obtains v where "read_all (filter (\<lambda>l. \<not> left_out echo l) (ctls ls)) (start_parsing (t_charset (out w))) = Inr v"
    "follows echo w v" "t_path (out v) = []" "t_charset (out v) = t_charset (out w)" "apart (empty_text (t_charset (out w))) (out v)"
proof -
  have "\<forall>l \<in> set (ctls ls). is_control_line l \<and> clean (tl l)" using c by (auto simp: ctls_def)
  from read_all_follows [OF r follows_start [of echo fb "t_charset (out w)"] this] obtain v where
    v: "read_all (filter (\<lambda>l. \<not> left_out echo l) (ctls ls)) (start_parsing (t_charset (out w))) = Inr v"
      "follows echo w v" "t_path (out v) = t_path (out (start_parsing (t_charset (out w))))" by blast
  have "t_charset (out v) = t_charset (out w)"
  proof (cases "declared w")
    case None
    with v(2) have "declared v = None" by (simp add: follows_def)
    from read_all_charset [OF v(1) this] show ?thesis by (simp add: start_parsing_def empty_text_def)
  next
    case (Some x)
    with v(2) show ?thesis by (simp add: follows_def similar_def)
  qed
  moreover have "apart (empty_text (t_charset (out w))) (out v)"
    using read_all_apart [OF v(1)] by (simp add: start_parsing_def)
  ultimately show ?thesis using v by (intro that) (auto simp: start_parsing_def empty_text_def)
qed



definition safe_line :: "bytes \<Rightarrow> bool" where
  "safe_line l \<longleftrightarrow> 13 \<notin> set l \<and> 10 \<notin> set l \<and> 0 \<notin> set l"

lemma safe_pieces: "10 \<notin> set bs \<Longrightarrow> 0 \<notin> set bs \<Longrightarrow> l \<in> set (split_on 13 bs) \<Longrightarrow> safe_line l"
  using split_by_pieces [of l "\<lambda>x. x = 13" bs] split_by_subset [of l "\<lambda>x. x = 13" bs]
  by (auto simp: safe_line_def)

lemma safe_generated: "safe_line (seen_line ps)" "safe_line (path_line ps)"
proof -
  have "b \<notin> set (as_bytes (format_2d ps))" if "unat b < 32" for b
    using plain_absent [OF plain_format_2d] that by blast
  then show "safe_line (seen_line ps)" "safe_line (path_line ps)"
    by (simp_all add: safe_line_def seen_line_def path_line_def byte_of_def)
qed

lemma safe_area: "valid_area a \<Longrightarrow> safe_line (area_line a)"
  using valid_area_bytes [of a] by (simp add: safe_line_def area_line_def byte_of_def)

lemma lines_split: "set ls = set (ctls ls) \<union> set (paras ls)"
  by (auto simp: ctls_def paras_def)

lemma headed_subset: "headed ar ls all_lines \<Longrightarrow> set ls \<subseteq> set all_lines"
  by (auto simp: headed_def split: option.splits)

lemma not_control_area: "\<not> is_control_line (area_line a)"
  by (simp add: is_control_line_def area_line_def byte_of_def)

lemma ctls_paths: "\<forall>l \<in> set (generated_controls t). is_control_line l"
  by (auto simp: generated_controls_def is_control_line_def path_line_def byte_of_def)

lemma parse_footer_frame:
  "parse_footer t ps = Inr (u, qs) \<Longrightarrow> u = t\<lparr>seen_by := seen_by u, t_origin := t_origin u, tear := tear u\<rparr>"
  by (auto simp: parse_footer_def result_simps split: if_splits prod.splits)

lemma read_generated:
  assumes "route_ok (t_path t)" and "t_path (out v) = []"
  shows "read_all (generated_controls t) v =
    Inr (v\<lparr>out := (out v)\<lparr>t_path := (if area t = None then [] else t_path t)\<rparr>\<rparr>)"
proof (cases "area t")
  case None
  then show ?thesis using assms(2) by (simp add: generated_controls_def)
next
  case (Some a)
  have "concat (chunks_of 6 (t_path t)) = t_path t" by (rule concat_chunks) simp
  then show ?thesis
    using read_path_lines [of v "chunks_of 6 (t_path t)"] assms Some by (simp add: generated_controls_def)
qed

lemma text_forwarded:
  assumes once: "text_parse bs fb = Inr t" and lf: "10 \<notin> set bs"
    and soft: "\<forall>c \<in> set (controls t). 141 \<notin> set (raw c)"
    and net: "area t = None \<longrightarrow> kept_controls t = controls t"
    and enc: "text_encode t = Inr c"
  shows "\<exists>u. text_parse c (t_charset t) = Inr u \<and> forwarded t u"
proof -
  define echo where "echo = (area t \<noteq> None)"
  from once [unfolded text_parse_shape [OF lf]] obtain ar ls w where
    z: "0 \<notin> set bs" and head: "headed ar ls (split_on 13 bs)" and rd: "read_all (ctls ls) (start_parsing fb) = Inr w"
    and fin: "finish_parsing (gathered ar ls w) = Inr t" by blast
  from parsed_once [OF head rd fin] obtain t0 t1 qs ss where
    t0: "t0 = (out w)\<lparr>controls := place 0 ls, area := ar\<rparr>" and pf: "parse_footer t0 (trimmed (paras ls)) = Inr (t1, qs)"
    and t0n: "seen_by t0 = []" "t_origin t0 = None" "tear t0 = None"
    and body: "traverse (charset_decode (t_charset t1)) qs = Inr ss" "printable_body (join_by newline ss)"
    and t: "t = t1\<lparr>t_body := join_by newline ss\<rparr>" and route: "route_ok (t_path t0)" by metis
  have safe: "\<forall>l \<in> set ls. safe_line l"
    using headed_subset [OF head] safe_pieces [OF lf z] by blast
  from text_encode_lines [OF enc] obtain first mid ts where
    e: "area_lines t = Inr first"
    "traverse (paragraph_lines t (split_on newline (t_body t))) [0..<length (split_on newline (t_body t)) + 1] = Inr mid"
    "tail_lines t = Inr ts" "within 0 0 (ctls (first @ concat mid @ ts))" "length (seen_by t) \<le> 1024"
    "c = concat (map (\<lambda>l. l @ [13]) (first @ concat mid @ ts))" "length c \<le> MAX_TEXT" by metis
  from parse_footer_frame [OF pf] have f: "controls t = place 0 ls" "area t = ar" "t_charset t = t_charset (out w)"
    "t_path t = t_path (out w)" "t_charset t1 = t_charset (out w)" "msgid t = msgid (out w)" "reply t = reply (out w)"
    "offset_minutes t = offset_minutes (out w)" "t_via t = t_via (out w)" "t_flags t = t_flags (out w)"
    "intl t = intl (out w)" "fmpt t = fmpt (out w)" "topt t = topt (out w)"
    by (cases t1; cases "out w"; simp add: t t0)+
  have raws: "map raw (controls t) = ctls ls" using place_facts [of 0 ls] by (simp add: f(1))
  have kept: "map raw (kept_controls t) = filter (\<lambda>l. \<not> left_out echo l) (ctls ls)"
    by (simp add: kept_controls_def echo_def filter_map comp_def flip: raws)
  have "\<forall>l \<in> set (ctls ls). clean (tl l)"
  proof
    fix l assume l: "l \<in> set (ctls ls)"
    then have "10 \<notin> set l" using safe lines_split [of ls] by (auto simp: safe_line_def)
    moreover have "141 \<notin> set l" using l soft by (auto simp flip: raws)
    ultimately show "clean (tl l)" by (cases l) (auto simp: clean_def)
  qed
  from controls_again [OF rd this, of echo] obtain v where
    v: "read_all (map raw (kept_controls t)) (start_parsing (t_charset t)) = Inr v"
    "follows echo w v" "t_path (out v) = []" "t_charset (out v) = t_charset t" "apart (empty_text (t_charset t)) (out v)"
    unfolding kept f(3) by metis
  define w2 where "w2 = v\<lparr>out := (out v)\<lparr>t_path := (if area t = None then [] else t_path t)\<rparr>\<rparr>"
  define ms where "ms = concat mid @ ts @ [[]]"
  define u0 where "u0 = (out w2)\<lparr>controls := place 0 ms, area := ar\<rparr>"
  have u0: "area u0 = area t0" "t_charset u0 = t_charset t0" "seen_by u0 = []" "t_origin u0 = None" "tear u0 = None"
    using v(4,5) f(3) by (simp_all add: u0_def w2_def t0 apart_def empty_text_def)
  have len1: "length (seen_by t1) \<le> 1024" using e(5) by (simp add: t)
  from footer_again [OF pf t0n e(3) [unfolded t] len1 u0] obtain F qs' where
    F: "ts = F @ (if area t0 = None then [] else map path_line (chunks_of 6 (t_path t0)))"
    "\<forall>l \<in> set F. l \<in> set (paras ls) \<or> (\<exists>c. l = seen_line c)" "set qs \<subseteq> set (paras ls)"
    "parse_footer u0 (trimmed (at_least_one qs @ F @ [[]])) =
       Inr (u0\<lparr>seen_by := seen_by t1, t_origin := t_origin t1, tear := tear t1\<rparr>, qs')"
    "qs' = qs \<or> qs = [] \<and> qs' = [[]]" by metis
  have ts: "ts = F @ generated_controls t"
    using F(1) by (simp add: generated_controls_def f(2,4) t0)
  have nlf: "\<forall>p \<in> set qs. 10 \<notin> set p"
    using F(3) safe lines_split [of ls] by (auto simp: safe_line_def)
  have tb: "t_body t = join_by newline ss" by (simp add: t)
  have c1: "t_charset t1 = t_charset t" by (simp add: f)
  note bp = body_of_paragraphs [OF body(1) [unfolded c1] nlf, folded tb]
  have plain: "\<forall>l \<in> set (at_least_one qs). \<not> is_control_line l"
    using F(3) by (auto simp: at_least_one_def paras_def is_control_line_def)
  have srt: "sorted (map in_paragraph (controls t))" using place_facts [of 0 ls] by (simp add: f(1))
  note mid = encoded_middle [OF e(2) bp(1) bp(2) plain srt]
  have Fp: "\<forall>l \<in> set F. \<not> is_control_line l"
    using F(2) seen_line_plain(2) by (auto simp: paras_def)
  have Fl: "ctls F = []" "paras F = F" "place n F = []" for n using all_paragraphs [OF Fp] by simp_all
  have Gl: "ctls (generated_controls t) = generated_controls t" "paras (generated_controls t) = []"
    "place n (generated_controls t) = map (\<lambda>l. \<lparr>in_paragraph = n, raw = l\<rparr>) (generated_controls t)" for n
    using all_controls [OF ctls_paths [of t]] by simp_all
  have Nl: "ctls [[]] = []" "paras [[]] = [[]]" "place n [[]] = []" for n
    by (simp_all add: is_control_line_def)
  have ctl: "ctls ms = map raw (kept_controls t) @ generated_controls t" "paras ms = at_least_one qs @ F @ [[]]"
    by (simp_all only: ms_def ts lines_append mid(1,2) Fl Gl Nl append_Nil append_Nil2 append_assoc)
  have plc: "\<exists>k. place 0 ms = map (\<lambda>c. c\<lparr>in_paragraph := min (in_paragraph c) (length (split_on newline (t_body t)))\<rparr>) (kept_controls t) @
      map (\<lambda>l. \<lparr>in_paragraph = k, raw = l\<rparr>) (generated_controls t)"
    unfolding ms_def ts place_append Fl Gl Nl by (auto simp: mid(3) bp(1))
  have safe_q: "\<forall>l \<in> set (at_least_one qs @ F @ [[]]). safe_line l"
    using F(2,3) safe safe_generated lines_split [of ls] by (auto simp: at_least_one_def) (auto simp: safe_line_def)
  have safe_k: "\<forall>l \<in> set (map raw (kept_controls t)). safe_line l"
    using kept safe lines_split [of ls] by (auto simp flip: set_map) 
  have safe_g: "\<forall>l \<in> set (generated_controls t). safe_line l"
    using safe_generated by (auto simp: generated_controls_def)
  have safe_ms: "\<forall>l \<in> set ms. safe_line l"
    unfolding lines_split [of ms] ctl using safe_q safe_k safe_g by auto
  have first: "(case ar of None \<Rightarrow> first = [] | Some a \<Rightarrow> valid_area a \<and> first = [area_line a])"
    using e(1) f(2) by (auto simp: area_lines_def area_line_def split: option.splits if_splits)
  then have safe_f: "\<forall>l \<in> set first. safe_line l" "ctls first = []"
    using safe_area not_control_area by (auto split: option.splits)
  have c: "c = concat (map (\<lambda>l. l @ [13]) (first @ concat mid @ ts))" by (rule e(6))
  have safe_all: "\<forall>l \<in> set (first @ concat mid @ ts). safe_line l"
    using safe_f(1) safe_ms by (auto simp: ms_def)
  then have split_c: "split_on 13 c = first @ ms"
    unfolding c using split_lines [of "first @ concat mid @ ts"] by (simp add: ms_def safe_line_def)
  have no_c: "10 \<notin> set c" "0 \<notin> set c" using safe_all by (auto simp: c safe_line_def)
  have wi: "within 0 0 (ctls ms)" using e(4) safe_f(2) Nl(1) by (simp add: ms_def)
  have rd2: "read_all (ctls ms) (start_parsing (t_charset t)) = Inr w2"
    using v(1) read_generated [OF route [unfolded t0, simplified, folded f(4)] v(3)]
    by (simp add: ctl(1) read_all_append w2_def)
  define u where "u = u0\<lparr>seen_by := seen_by t, t_origin := t_origin t, tear := tear t, t_body := t_body t\<rparr>"
  have g: "out (gathered ar ms w2) = u0" "paragraphs (gathered ar ms w2) = paras ms"
    by (simp_all add: gathered_def dress_def u0_def)
  have u0c: "t_charset u0 = t_charset t" using u0(2) f(3) t0 by simp
  obtain ss' where ss': "traverse (charset_decode (t_charset t)) qs' = Inr ss'" "join_by newline ss' = t_body t"
    using F(5) body(1) c1 tb bp(3,4) by (cases "qs' = qs") (auto simp: at_least_one_def)
  have fin2: "finish_parsing (gathered ar ms w2) = Inr u"
    unfolding finish_parsing_shape g ctl(2) F(4)
  proof (intro exI conjI)
    have "seen_by t1 = seen_by t" "t_origin t1 = t_origin t" "tear t1 = tear t" by (simp_all add: t)
    then show "u = u0\<lparr>seen_by := seen_by t1, t_origin := t_origin t1, tear := tear t1\<rparr>\<lparr>t_body := join_by newline ss'\<rparr>"
      by (simp add: u_def ss'(2))
    show "printable_body (join_by newline ss')" using body(2) by (simp add: ss'(2) tb)
  qed (use ss'(1) u0c in simp_all)
  have "\<not> starts_with (as_bytes ''AREA:'') (hd ms)" if a: "ar = None"
  proof (rule first_line_not_area [of ls ms "length (split_on newline (t_body t))"])
    have all: "split_on 13 bs = ls" "\<not> starts_with (as_bytes ''AREA:'') (hd ls)"
      using head a by (simp_all add: headed_def)
    show "ls \<noteq> []" using all(1) by auto
    show "\<not> starts_with (as_bytes ''AREA:'') (hd ls)" by (rule all(2))
    show "ms \<noteq> []" by (simp add: ms_def)
    show "paras ms \<noteq> []" unfolding ctl(2) by simp
    have k: "kept_controls t = controls t" "generated_controls t = []"
      using net a f(2) by (simp_all add: generated_controls_def)
    show "map raw (place 0 ms) = map raw (place 0 ls)"
      "map in_paragraph (place 0 ms) = map (\<lambda>c. min (in_paragraph c) (length (split_on newline (t_body t)))) (place 0 ls)"
      using plc by (auto simp: k f(1))
    have "qs = trimmed (paras ls)" using pf a by (simp add: parse_footer_def t0)
    then obtain ys where ys: "paras ls = qs @ ys" using trimmed_prefix(1) [of "paras ls"] by blast
    show "hd (paras ms) = [] \<or> (paras ls \<noteq> [] \<and> hd (paras ms) = hd (paras ls))"
      unfolding ys by (cases qs) (simp_all add: ctl(2) at_least_one_def)
  qed
  then have "headed ar ms (first @ ms)" using first by (auto simp: headed_def split: option.splits)
  with no_c(2) wi rd2 fin2 e(7) have "text_parse c (t_charset t) = Inr u"
    unfolding text_parse_shape [OF no_c(1)] split_c by blast
  moreover have "forwarded t u"
    using v(2,3) plc f u0c
    by (simp add: forwarded_def u_def u0_def w2_def follows_def similar_def echo_def)
  ultimately show ?thesis by blast
qed


end
