(* ===== verification/Ftn_Transit.thy ===== *)
theory Ftn_Transit
  imports Ftn_Reparse
begin

text \<open>
  Message texts in transit (sf-net/src/ftn/text.rs): what a system that parses a text and writes it
  again passes on, and the one message it changes.
\<close>

section \<open>Two messages\<close>

text \<open>A netmail whose first line is a PATH control, and the echo message that is left without it.\<close>

definition path_control :: bytes where
  "path_control = [1, 80, 65, 84, 72, 58, 32, 49, 47, 50]"

definition small_echo :: bytes where
  "small_echo = [65, 82, 69, 65, 58, 65, 13, 72, 105, 13, 83, 69, 69, 78, 45, 66, 89, 58, 32, 49, 47, 50, 13]"

definition disguised_netmail :: bytes where
  "disguised_netmail = path_control @ 13 # small_echo"

definition echo_text :: ftn_text where
  "echo_text = (empty_text Ascii)\<lparr>area := Some ''A'', t_body := ''Hi'', seen_by := [((1, 2), ())]\<rparr>"

definition netmail_text :: ftn_text where
  "netmail_text = (empty_text Ascii)\<lparr>t_path := [(1, 2)], controls := [\<lparr>in_paragraph = 0, raw = path_control\<rparr>],
     t_body := ''AREA:A'' @ newline # ''Hi'' @ newline # ''SEEN-BY: 1/2''\<rparr>"

lemma small_numbers: "number ''1'' = Inr 1" "number ''2'' = Inr 2"
  by (simp_all add: number_def all_digits_def parse_uint_def dec_value_def)

lemma one_two: "parse_2d ''1/2'' prior = Inr ((1, 2), Some 1)"
  by (simp add: parse_2d_def small_numbers)

lemma echo_pieces: "split_on 13 small_echo =
    [[65, 82, 69, 65, 58, 65], [72, 105], [83, 69, 69, 78, 45, 66, 89, 58, 32, 49, 47, 50], []]"
  by (simp add: small_echo_def)

lemma footer_one_two: "footer_seen_by [[83, 69, 69, 78, 45, 66, 89, 58, 32, 49, 47, 50]] None [] = Inr [((1, 2), ())]"
proof -
  have "from_utf8 (drop 8 [83, 69, 69, 78, 45, 66, 89, 58, 32, 49, 47, 50]) = Some '' 1/2''"
    by (simp add: from_utf8_def from_bytes_def char_at_def)
  then show ?thesis by (simp add: one_two split_ascii_whitespace_def ascii_whitespace_def)
qed

lemma parse_small_echo: "text_parse small_echo Ascii = Inr echo_text"
proof -
  have a: "starts_with (as_bytes ''AREA:'') [65, 82, 69, 65, 58, 65]" "from_utf8 [65] = Some ''A''" "valid_area ''A''"
    by (simp_all add: starts_with_def byte_of_def from_utf8_def from_bytes_def char_at_def valid_area_def)
  have l: "parse_lines 0 (split_on 13 small_echo) (start_parsing Ascii) =
      Inr ((start_parsing Ascii)\<lparr>out := (empty_text Ascii)\<lparr>area := Some ''A''\<rparr>,
        paragraphs := [[72, 105], [83, 69, 69, 78, 45, 66, 89, 58, 32, 49, 47, 50], []]\<rparr>)"
    using a by (simp add: echo_pieces parse_line_def unwrap_or_def start_parsing_def empty_text_def)
  have p: "pop_while (\<lambda>p. p = []) [[72, 105], [83, 69, 69, 78, 45, 66, 89, 58, 32, 49, 47, 50], []] =
      ([[72, 105], [83, 69, 69, 78, 45, 66, 89, 58, 32, 49, 47, 50 :: u8]], [[]])"
    by (simp add: pop_while_def)
  have q: "pop_while seen_by_line [[72, 105], [83, 69, 69, 78, 45, 66, 89, 58, 32, 49, 47, 50]] =
      ([[72, 105]], [[83, 69, 69, 78, 45, 66, 89, 58, 32, 49, 47, 50]])"
    by (simp add: pop_while_def seen_by_line_def starts_with_def byte_of_def)
  have d: "charset_decode Ascii [72, 105] = Inr ''Hi''"
    by (simp add: ascii_decode from_bytes_def char_at_def)
  have f: "pop_decoded origin_line Ascii [[72, 105]] = Inr (None, [[72, 105]])"
    "pop_decoded tear_line Ascii [[72, 105]] = Inr (None, [[72, 105]])"
    by (simp_all add: pop_decoded_def origin_line_def tear_line_def starts_with_def byte_of_def)
  show ?thesis
    unfolding text_parse_def l
    by (simp add: finish_parsing_def parse_footer_def start_parsing_def empty_text_def p q footer_one_two f d
        printable_body_def is_control_def echo_text_def MAX_TEXT_def small_echo_def del: footer_seen_by.simps)
qed


lemma encode_echo_text: "text_encode echo_text = Inr small_echo"
proof -
  have m: "traverse (paragraph_lines echo_text [''Hi'']) [0..<length [''Hi''] + 1] = Inr [[as_bytes ''Hi''], []]"
    by (simp add: paragraph_lines_def echo_text_def empty_text_def body_line_def starts_with_def ascii_encode)
  have c: "chunks_of 6 [(1 :: u16, 2 :: u16)] = [[(1, 2)]]" "chunks_of 6 ([] :: (u16 \<times> u16) list) = []"
    by (simp_all add: chunks_of.simps)
  have f: "format_2d [(1, 2)] = ''1/2''"
    by (simp add: format_2d_def show_u16_def show_nat.simps digit_def)
  have t: "tail_lines echo_text = Inr [as_bytes ''SEEN-BY: 1/2'']"
    by (simp add: tail_lines_def echo_text_def empty_text_def optional_line_def c f)
  have a: "area_lines echo_text = Inr [as_bytes ''AREA:A'']"
    by (simp add: area_lines_def echo_text_def valid_area_def)
  have b: "split_on newline (t_body echo_text) = [''Hi'']" "seen_by echo_text = [((1, 2), ())]" "t_path echo_text = []"
    by (simp_all add: echo_text_def empty_text_def newline_def)
  show ?thesis
    unfolding text_encode_def Let_def a b m t attempt_Inr
    by (simp add: byte_of_def MAX_TEXT_def small_echo_def)
qed

lemma parse_disguised: "text_parse disguised_netmail Ascii = Inr netmail_text"
proof -
  have "split_on 13 disguised_netmail = path_control # split_on 13 small_echo"
    unfolding disguised_netmail_def by (rule split_by_append) (simp_all add: path_control_def)
  then have pieces: "split_on 13 disguised_netmail = [path_control, [65, 82, 69, 65, 58, 65], [72, 105],
      [83, 69, 69, 78, 45, 66, 89, 58, 32, 49, 47, 50], []]" by (simp add: echo_pieces)
  have tag: "control_tag (tl path_control) = Inr (''PATH'', [58, 32, 49, 47, 50])"
    by (simp add: path_control_def control_tag_def from_utf8_def from_bytes_def char_at_def)
  have v: "from_utf8 (control_value [58, 32, 49, 47, 50]) = Some ''1/2''"
    by (simp add: control_value_def from_utf8_def from_bytes_def char_at_def)
  have "parse_2ds (split_ascii_whitespace ''1/2'') None = Inr ([(1, 2)], Some 1)"
    by (simp add: split_ascii_whitespace_def ascii_whitespace_def one_two)
  then have ap: "apply_control ''PATH'' ''1/2'' (empty_text Ascii) None = Inr ((empty_text Ascii)\<lparr>t_path := [(1, 2)]\<rparr>, None)"
    unfolding apply_control_simps by (simp add: empty_text_def MAX_HOPS_def del: split_whitespace_single)
  have r: "text_control (tl path_control) (start_parsing Ascii) =
      Inr ((start_parsing Ascii)\<lparr>out := (empty_text Ascii)\<lparr>t_path := [(1, 2)]\<rparr>\<rparr>)"
    unfolding text_control_def tag by (simp add: known_tags_def spaced_tags_def v ap start_parsing_def)
  have p0: "parse_line 0 path_control (start_parsing Ascii) = Inr ((start_parsing Ascii)\<lparr>control_bytes := 10,
      out := (empty_text Ascii)\<lparr>t_path := [(1, 2)], controls := [\<lparr>in_paragraph = 0, raw = path_control\<rparr>]\<rparr>\<rparr>)"
  proof -
    have "10 \<notin> set path_control" "\<not> starts_with (as_bytes ''AREA:'') path_control" "is_control_line path_control"
      "length path_control = 10"
      by (simp_all add: path_control_def starts_with_def byte_of_def is_control_line_def)
    moreover have "parse_control path_control (tl path_control) (start_parsing Ascii) =
        attempt (text_control (tl path_control) (start_parsing Ascii)) (\<lambda>st. Inr (keep_control path_control st))"
      by (simp add: parse_control_def start_parsing_def empty_text_def path_control_def
          MAX_CONTROL_LINE_def MAX_CONTROL_BYTES_def MAX_CONTROLS_def)
    ultimately show ?thesis
      by (simp add: parse_line_later r) (simp add: keep_control_def start_parsing_def empty_text_def)
  qed
  have l: "parse_lines 0 (split_on 13 disguised_netmail) (start_parsing Ascii) =
      Inr ((start_parsing Ascii)\<lparr>control_bytes := 10,
      out := (empty_text Ascii)\<lparr>t_path := [(1, 2)], controls := [\<lparr>in_paragraph = 0, raw = path_control\<rparr>]\<rparr>,
      paragraphs := [[65, 82, 69, 65, 58, 65], [72, 105], [83, 69, 69, 78, 45, 66, 89, 58, 32, 49, 47, 50], []]\<rparr>)"
    unfolding pieces parse_lines.simps p0 attempt_Inr
    by (simp add: parse_line_def unwrap_or_def start_parsing_def)
  have d: "charset_decode Ascii [72, 105] = Inr ''Hi''" "charset_decode Ascii [65, 82, 69, 65, 58, 65] = Inr ''AREA:A''"
    "charset_decode Ascii [83, 69, 69, 78, 45, 66, 89, 58, 32, 49, 47, 50] = Inr ''SEEN-BY: 1/2''"
    by (simp_all add: ascii_decode from_bytes_def char_at_def)
  show ?thesis
    unfolding text_parse_def l
    by (simp add: finish_parsing_def parse_footer_def start_parsing_def empty_text_def pop_while_def d
        printable_body_def is_control_def netmail_text_def MAX_TEXT_def disguised_netmail_def path_control_def
        small_echo_def newline_def)
qed

lemma encode_netmail_text: "text_encode netmail_text = Inr small_echo"
proof -
  have b: "split_on newline (t_body netmail_text) = [''AREA:A'', ''Hi'', ''SEEN-BY: 1/2'']" "seen_by netmail_text = []"
    "t_path netmail_text = [(1, 2)]"
    by (simp_all add: netmail_text_def empty_text_def newline_def)
  have k: "left_out False path_control"
    by (simp add: left_out_def path_control_def starts_with_def byte_of_def)
  have m: "traverse (paragraph_lines netmail_text [''AREA:A'', ''Hi'', ''SEEN-BY: 1/2''])
      [0..<length [''AREA:A'', ''Hi'', ''SEEN-BY: 1/2''] + 1] = Inr [[as_bytes ''AREA:A''], [as_bytes ''Hi''], [as_bytes ''SEEN-BY: 1/2''], []]"
    by (simp add: paragraph_lines_def netmail_text_def empty_text_def body_line_def starts_with_def ascii_encode k
        upt_conv_Cons)
  have t: "tail_lines netmail_text = Inr []" "area_lines netmail_text = Inr []"
    by (simp_all add: tail_lines_def area_lines_def netmail_text_def empty_text_def)
  show ?thesis
    unfolding text_encode_def Let_def b m t attempt_Inr
    by (simp add: byte_of_def MAX_TEXT_def small_echo_def)
qed

section \<open>Line feeds after the ends of lines\<close>

text \<open>
  A parser takes one line feed at the start of a line as part of the end of the line before, so
  bytes in which every line feed stands there read like the bytes without them.
\<close>

definition bare :: "bytes \<Rightarrow> bytes" where
  "bare l = (if take 1 l = [10] then tl l else l)"

definition bare_text :: "bytes \<Rightarrow> bytes" where
  "bare_text bs = join_by 13 (map bare (split_on 13 bs))"

lemma bare_simps: "bare [] = []" "bare (b # l) = (if b = 10 then l else b # l)"
  by (simp_all add: bare_def)

lemma bare_strip: "unwrap_or (strip_prefix [10] l) l = bare l"
  by (cases l) (simp_all add: bare_simps unwrap_or_def)

lemma bare_clean: "10 \<notin> set (tl l) \<Longrightarrow> 10 \<notin> set (bare l)"
  by (cases l) (auto simp: bare_simps)

lemma bare_again: "10 \<notin> set (tl l) \<Longrightarrow> bare (bare l) = bare l"
  using bare_clean [of l] by (cases "bare l") (auto simp: bare_simps)

lemma parse_line_bare: "10 \<notin> set (tl l) \<Longrightarrow> parse_line i (bare l) st = parse_line i l st"
  unfolding parse_line_def bare_strip by (simp add: bare_again)

lemma parse_lines_bare:
  "\<forall>l \<in> set ls. 10 \<notin> set (tl l) \<Longrightarrow> parse_lines i (map bare ls) st = parse_lines i ls st"
proof (induction ls arbitrary: i st)
  case (Cons l ls)
  then show ?case by (cases "parse_line i l st") (simp_all add: parse_line_bare)
qed simp

lemma split_by_not_Nil: "split_by p xs \<noteq> []"
  by (cases xs) (auto split: list.splits)

lemma join_split: "join_by c (split_on c s) = s"
proof (induction s)
  case (Cons x s)
  obtain q qs where "split_on c s = q # qs" using split_by_not_Nil [of "\<lambda>x. x = c" s] by (cases "split_on c s") auto
  with Cons show ?case by (cases qs) auto
qed simp

lemma join_bare:
  "length (join_by c (map bare ls)) \<le> length (join_by c ls)" "set (join_by c (map bare ls)) \<subseteq> set (join_by c ls)"
proof -
  have b: "length (bare l) \<le> length l" "set (bare l) \<subseteq> set l" for l
    by (cases l; auto simp: bare_simps)+
  have "length (join_by c (map bare ls)) \<le> length (join_by c ls) \<and> set (join_by c (map bare ls)) \<subseteq> set (join_by c ls)"
  proof (induction c ls rule: join_by.induct)
    case (3 c x y ys)
    then show ?case using b [of x] by (auto intro!: add_mono)
  qed (use b in auto)
  then show "length (join_by c (map bare ls)) \<le> length (join_by c ls)"
    "set (join_by c (map bare ls)) \<subseteq> set (join_by c ls)" by simp_all
qed

lemma text_parse_bare:
  assumes lf: "\<forall>l \<in> set (split_on 13 bs). 10 \<notin> set (tl l)" and t: "text_parse bs fb = Inr t"
  shows "text_parse (bare_text bs) fb = Inr t" and "10 \<notin> set (bare_text bs)"
proof -
  have pieces: "\<forall>l \<in> set (map bare (split_on 13 bs)). 13 \<notin> set l \<and> 10 \<notin> set l"
  proof
    fix l assume "l \<in> set (map bare (split_on 13 bs))"
    then obtain k where k: "k \<in> set (split_on 13 bs)" "l = bare k" by auto
    have "13 \<notin> set k" using split_by_pieces [OF _, of k "\<lambda>x. x = 13" bs] k(1) by fastforce
    moreover have "set l \<subseteq> set k" by (cases k) (auto simp: k(2) bare_simps)
    ultimately show "13 \<notin> set l \<and> 10 \<notin> set l" using bare_clean lf k by auto
  qed
  have split: "split_on 13 (bare_text bs) = map bare (split_on 13 bs)"
    unfolding bare_text_def using pieces by (intro split_join_by) (auto simp: split_by_not_Nil)
  have small: "length (bare_text bs) \<le> length bs" "set (bare_text bs) \<subseteq> set bs"
    using join_bare [of 13 "split_on 13 bs"] by (simp_all add: bare_text_def join_split)
  show "text_parse (bare_text bs) fb = Inr t"
    using t small unfolding text_parse_def split parse_lines_bare [OF lf] by (auto split: if_splits)
  have "10 \<notin> set (join_by 13 ls)" if "\<forall>l \<in> set ls. 10 \<notin> set l" for ls :: "bytes list"
    using that by (induction "13 :: u8" ls rule: join_by.induct) auto
  then show "10 \<notin> set (bare_text bs)" unfolding bare_text_def using pieces by blast
qed

section \<open>A first line that names an area\<close>

lemma parse_line_area: "parse_line i l st = Inr v \<Longrightarrow> 0 < i \<Longrightarrow> area (out v) = area (out st)"
  by (auto simp: parse_line_def parse_control_def keep_control_def Let_def result_simps apart_def
      split: if_splits option.splits dest!: text_control_frame)

lemma parse_lines_area: "parse_lines i ls st = Inr v \<Longrightarrow> 0 < i \<Longrightarrow> area (out v) = area (out st)"
  by (induction ls arbitrary: i st) (auto simp: result_simps dest!: parse_line_area)

lemma finish_area: "finish_parsing st = Inr t \<Longrightarrow> area t = area (out st)"
  by (auto simp: finish_parsing_def parse_footer_def Let_def result_simps split: if_splits prod.splits)

lemma parse_first_line:
  "starts_with (as_bytes ''AREA:'') (bare l) \<Longrightarrow> parse_line 0 l st =
     attempt (ok_or (from_utf8 (drop 5 (bare l))) ErrControl) (\<lambda>a.
       if \<not> valid_area a then Inl ErrControl else Inr (st\<lparr>out := (out st)\<lparr>area := Some a\<rparr>\<rparr>))"
  unfolding parse_line_def bare_strip by simp

lemma area_line_decides:
  assumes "valid_area a" and "text_parse (as_bytes (''AREA:'' @ a) @ 13 # rest) fb = Inr u"
  shows "area u = Some a"
proof -
  note a = valid_area_bytes [OF assms(1)]
  let ?l = "as_bytes ''AREA:'' @ as_bytes a"
  have l: "as_bytes (''AREA:'' @ a) = ?l" by (simp only: as_bytes_def map_append)
  have "13 \<notin> set ?l" using a(2) by (simp add: as_bytes_def byte_of_def)
  then have "split_on 13 (?l @ 13 # rest) = ?l # split_on 13 rest" by (intro split_by_append) auto
  with assms(2) obtain v w where v: "parse_line 0 ?l (start_parsing fb) = Inr v"
    and w: "parse_lines 1 (split_on 13 rest) v = Inr w" and u: "finish_parsing w = Inr u"
    unfolding l by (auto simp: text_parse_def result_simps split: if_splits)
  have b: "bare ?l = ?l" "starts_with (as_bytes ''AREA:'') ?l" "drop 5 ?l = as_bytes a"
    by (simp_all add: bare_def as_bytes_def byte_of_def starts_with_def)
  have "area (out v) = Some a"
    using v parse_first_line [of ?l "start_parsing fb", unfolded b(1), OF b(2)] a(1) assms(1)
    unfolding b(3) by auto
  with parse_lines_area [OF w] finish_area [OF u] show ?thesis by simp
qed

section \<open>Properties\<close>

text \<open>
  C12.  Forwarding keeps a message text.  Bytes that parse to a text are written again to bytes
  that parse to the same body, character set, area, identifiers, time zone, Via lines, flags, tear
  line, origin and seen-by set; netmail keeps its addressing controls, echo mail its path; every
  control that is written keeps its bytes, its order and its paragraph.  This holds under three
  conditions: a line feed occurs only at the start of a line, where it belongs to the end of the
  line before; no control holds a soft return (0x8D); and netmail has no PATH control.
\<close>

theorem forwarding_keeps_text:
  assumes "text_parse bs fb = Inr t" and "\<forall>l \<in> set (split_on 13 bs). 10 \<notin> set (tl l)"
    and "\<forall>c \<in> set (controls t). 141 \<notin> set (raw c)"
    and "area t = None \<longrightarrow> kept_controls t = controls t" and "text_encode t = Inr c"
  shows "\<exists>u. text_parse c (t_charset t) = Inr u \<and> forwarded t u"
  by (rule text_forwarded [OF text_parse_bare [OF assms(2,1)] assms(3-5)])

text \<open>The small echo message with a line feed after each carriage return.\<close>

definition crlf_echo :: bytes where
  "crlf_echo = [65, 82, 69, 65, 58, 65, 13, 10, 72, 105, 13, 10, 83, 69, 69, 78, 45, 66, 89, 58, 32, 49, 47, 50, 13, 10]"

lemma parse_crlf_echo: "text_parse crlf_echo Ascii = Inr echo_text"
proof -
  have "split_on 13 crlf_echo = [[65, 82, 69, 65, 58, 65], [10, 72, 105],
      [10, 83, 69, 69, 78, 45, 66, 89, 58, 32, 49, 47, 50], [10]]"
    by (simp add: crlf_echo_def)
  then have "map bare (split_on 13 crlf_echo) = split_on 13 small_echo" "\<forall>l \<in> set (split_on 13 crlf_echo). 10 \<notin> set (tl l)"
    by (simp_all add: bare_simps echo_pieces)
  then have "parse_lines 0 (split_on 13 crlf_echo) (start_parsing Ascii) =
      parse_lines 0 (split_on 13 small_echo) (start_parsing Ascii)"
    using parse_lines_bare [of "split_on 13 crlf_echo" 0 "start_parsing Ascii"] by simp
  then show ?thesis
    using parse_small_echo by (simp add: text_parse_def crlf_echo_def small_echo_def MAX_TEXT_def)
qed

theorem forwarding_keeps_text_witness:
  "text_parse crlf_echo Ascii = Inr echo_text \<and> text_encode echo_text = Inr small_echo \<and>
   (\<exists>u. text_parse small_echo Ascii = Inr u \<and> forwarded echo_text u)"
proof -
  have "\<forall>l \<in> set (split_on 13 crlf_echo). 10 \<notin> set (tl l)" "controls echo_text = []" "area echo_text \<noteq> None"
    "t_charset echo_text = Ascii"
    by (simp_all add: crlf_echo_def echo_text_def empty_text_def)
  with forwarding_keeps_text [OF parse_crlf_echo _ _ _ encode_echo_text] parse_crlf_echo encode_echo_text
  show ?thesis by simp
qed

text \<open>
  C32.  A netmail that loses its PATH controls may come back as echo mail: when the controls before
  its first body line are PATH controls, which are not written, and that line reads \<open>AREA:\<close> and a
  valid tag, then the bytes it is written to begin with that line, and whatever they parse to is
  an echo message of that area.
\<close>

theorem netmail_written_as_echo:
  assumes "area t = None" and "text_encode t = Inr c"
    and "\<forall>k \<in> set (controls t). in_paragraph k = 0 \<longrightarrow> starts_with (as_bytes ''PATH:'') (drop 1 (raw k))"
    and "hd (split_on newline (t_body t)) = ''AREA:'' @ a" and "valid_area a"
  shows "take (length a + 6) c = as_bytes (''AREA:'' @ a) @ [13] \<and>
    (\<forall>cs u. text_parse c cs = Inr u \<longrightarrow> area u = Some a)"
proof -
  define body where "body = split_on newline (t_body t)"
  have body: "body \<noteq> []" "body ! 0 = ''AREA:'' @ a"
    using assms(4) split_by_not_Nil [of "\<lambda>x. x = newline" "t_body t"] by (simp_all add: body_def hd_conv_nth)
  from assms(1,2) obtain middle tail where m: "traverse (paragraph_lines t body) [0..<length body + 1] = Inr middle"
    and c: "c = concat (map (\<lambda>l. l @ [13]) (concat middle @ tail))"
    unfolding text_encode_def by (auto simp: area_lines_def body_def Let_def result_simps split: if_splits)
  have "[0..<length body + 1] = 0 # [1..<length body + 1]" by (simp add: upt_conv_Cons del: upt_Suc)
  with m obtain first others where f: "paragraph_lines t body 0 = Inr first" "middle = first # others"
    by (auto simp: result_simps)
  have none: "filter (\<lambda>k. min (in_paragraph k) (length body) = 0 \<and> \<not> left_out (area t \<noteq> None) (raw k)) (controls t) = []"
    using assms(3) body(1) by (auto simp: filter_empty_conv left_out_def Let_def min_def split: if_splits)
  have "ascii (''AREA:'' @ a)" using assms(5) by (auto simp: valid_area_def ascii_def list_all_iff ascii_upper_def ascii_digit_def)
  from ascii_encode [OF this] have "first = [as_bytes (''AREA:'' @ a)]"
    using f(1) body unfolding paragraph_lines_def none by (auto simp: body_line_def result_simps split: if_splits)
  then have c: "c = as_bytes (''AREA:'' @ a) @ 13 # concat (map (\<lambda>l. l @ [13]) (concat others @ tail))"
    by (simp add: c f(2))
  have "length a + 6 = length (as_bytes (''AREA:'' @ a)) + 1" by (simp add: as_bytes_def)
  moreover have "take (length l + 1) (l @ 13 # r) = l @ [13]" for l r :: bytes by simp
  ultimately have "take (length a + 6) c = as_bytes (''AREA:'' @ a) @ [13]" by (simp only: c)
  moreover have "area u = Some a" if "text_parse c cs = Inr u" for cs u
    using area_line_decides [OF assms(5)] that unfolding c by blast
  ultimately show ?thesis by blast
qed

theorem netmail_written_as_echo_witness:
  "text_parse disguised_netmail Ascii = Inr netmail_text \<and> area netmail_text = None \<and>
   text_encode netmail_text = Inr small_echo \<and> text_parse small_echo Ascii = Inr echo_text \<and>
   area echo_text = Some ''A''"
proof -
  have "area netmail_text = None" "hd (split_on newline (t_body netmail_text)) = ''AREA:'' @ ''A''" "valid_area ''A''"
    "\<forall>k \<in> set (controls netmail_text). in_paragraph k = 0 \<longrightarrow> starts_with (as_bytes ''PATH:'') (drop 1 (raw k))"
    by (simp_all add: netmail_text_def empty_text_def newline_def valid_area_def path_control_def starts_with_def byte_of_def)
  with netmail_written_as_echo [OF _ encode_netmail_text] parse_disguised encode_netmail_text parse_small_echo
  show ?thesis by blast
qed

end
