(* ===== verification/Line_Input.thy ===== *)
theory Line_Input
  imports Interfaces
begin

text \<open>
  \<open>crates/sf-bbs/src/transports/mod.rs\<close>: the line reader shared by the raw TCP and RLogin
  terminals, and the reader of RLogin's NUL-terminated fields.  What the operating system
  answers to the coming \<open>read\<close> calls is a list of events: data, or an error of some kind; after
  the list the peer has closed.  \<open>line_items\<close> is the reference the three copies of the line
  reader in the program are compared with: it works on the bytes and errors delivered, whatever
  the transport did to produce them (locale \<open>byte_source\<close>).
\<close>

datatype io_kind = KInterrupted | KTimedOut | KWouldBlock | KInvalidData | KUnexpectedEof | KOther nat

datatype 'a read_event = Got 'a | Raised io_kind

datatype terminal_error =
    TInputPollingUnsupported
  | TOperatorCancelled
  | TIo io_kind
  | TInputTooLong nat nat
  | TInvalidInput
  | TMalformedProtocol string
  | TBinaryUnsupported
  | TTimedOut
  | TDeadlineExceeded
  | TDisconnected

type_synonym stream = "u8 read_event list"

abbreviation CR :: u8 where "CR \<equiv> 13"
abbreviation LF :: u8 where "LF \<equiv> 10"

abbreviation usize_max :: nat where "usize_max \<equiv> 2 ^ 64 - 1"

definition saturating_add :: "nat \<Rightarrow> nat \<Rightarrow> nat" where
  "saturating_add a b = min (a + b) usize_max"

definition MAX_PROTOCOL_FIELD :: nat where "MAX_PROTOCOL_FIELD = 256"

definition map_input_error :: "io_kind \<Rightarrow> terminal_error" where
  "map_input_error k = (if k = KTimedOut \<or> k = KWouldBlock then TTimedOut else TIo k)"

text \<open>\<open>reader.read(&mut byte)\<close> of one byte, retried while it is interrupted.\<close>

fun next_byte :: "stream \<Rightarrow> (terminal_error + u8 option) \<times> stream" where
  "next_byte [] = (Inr None, [])"
| "next_byte (Got b # s) = (Inr (Some b), s)"
| "next_byte (Raised k # s) =
     (if k = KInterrupted then next_byte s else (Inl (map_input_error k), s))"

lemma next_byte_shorter: "next_byte s = (r, t) \<Longrightarrow> r \<noteq> Inr None \<Longrightarrow> length t < length s"
proof (induction s rule: next_byte.induct)
  case (3 k s)
  then show ?case by (cases "k = KInterrupted") force+
qed auto

section \<open>The line reader\<close>

function drain_overlong_line :: "stream \<Rightarrow> nat \<Rightarrow> bool \<Rightarrow> (terminal_error + nat) \<times> bool \<times> stream" where
  "drain_overlong_line s actual skip_lf =
     (case next_byte s of
        (Inl e, s) \<Rightarrow> (Inl e, skip_lf, s)
      | (Inr None, s) \<Rightarrow> (Inr actual, skip_lf, s)
      | (Inr (Some b), s) \<Rightarrow>
          if b = CR then (Inr actual, True, s)
          else if b = LF then (Inr actual, skip_lf, s)
          else drain_overlong_line s (saturating_add actual 1) skip_lf)"
  by pat_completeness auto
termination
  by (relation "measure (\<lambda>(s, actual, skip_lf). length s)") (auto dest: next_byte_shorter [OF sym])

function read_bounded_loop ::
    "nat \<Rightarrow> bytes \<Rightarrow> bool \<Rightarrow> stream \<Rightarrow> (terminal_error + bytes option) \<times> bool \<times> stream" where
  "read_bounded_loop maximum line skip_lf s =
     (case next_byte s of
        (Inl e, s) \<Rightarrow> (Inl e, skip_lf, s)
      | (Inr None, s) \<Rightarrow> (Inr (if line \<noteq> [] then Some line else None), skip_lf, s)
      | (Inr (Some b), s) \<Rightarrow>
          if skip_lf \<and> b = LF then read_bounded_loop maximum line False s
          else if b = CR then (Inr (Some line), True, s)
          else if b = LF then (Inr (Some line), False, s)
          else if b = 8 \<or> b = 127 then read_bounded_loop maximum (butlast line) False s
          else if length line = maximum then
            (case drain_overlong_line s (saturating_add maximum 1) False of
               (Inl e, skip_lf, s) \<Rightarrow> (Inl e, skip_lf, s)
             | (Inr actual, skip_lf, s) \<Rightarrow> (Inl (TInputTooLong actual maximum), skip_lf, s))
          else read_bounded_loop maximum (line @ [b]) False s)"
  by pat_completeness auto
termination
  by (relation "measure (\<lambda>(maximum, line, skip_lf, s). length s)") (auto dest: next_byte_shorter [OF sym])

declare drain_overlong_line.simps [simp del] read_bounded_loop.simps [simp del]

definition read_bounded_line ::
    "nat \<Rightarrow> bool \<Rightarrow> stream \<Rightarrow> (terminal_error + bytes option) \<times> bool \<times> stream" where
  "read_bounded_line maximum skip_lf s = read_bounded_loop maximum [] skip_lf s"

text \<open>\<open>read_exact\<close> of one byte, and a field of the RLogin handshake.\<close>

fun read_exact_byte :: "stream \<Rightarrow> (io_kind + u8) \<times> stream" where
  "read_exact_byte [] = (Inl KUnexpectedEof, [])"
| "read_exact_byte (Got b # s) = (Inr b, s)"
| "read_exact_byte (Raised k # s) = (if k = KInterrupted then read_exact_byte s else (Inl k, s))"

lemma read_exact_byte_shorter: "read_exact_byte s = (Inr b, t) \<Longrightarrow> length t < length s"
proof (induction s rule: read_exact_byte.induct)
  case (3 k s)
  then show ?case by (cases "k = KInterrupted") force+
qed auto

function read_nul_loop :: "bytes \<Rightarrow> stream \<Rightarrow> (io_kind + bytes) \<times> stream" where
  "read_nul_loop fld s =
     (case read_exact_byte s of
        (Inl e, s) \<Rightarrow> (Inl e, s)
      | (Inr b, s) \<Rightarrow>
          if b = 0 then (Inr fld, s)
          else if length fld = MAX_PROTOCOL_FIELD then (Inl KInvalidData, s)
          else read_nul_loop (fld @ [b]) s)"
  by pat_completeness auto
termination
  by (relation "measure (\<lambda>(fld, s). length s)") (auto dest: read_exact_byte_shorter [OF sym])

declare read_nul_loop.simps [simp del]

definition read_nul_field :: "stream \<Rightarrow> (io_kind + bytes) \<times> stream" where
  "read_nul_field s = read_nul_loop [] s"

section \<open>The reference line reader\<close>

type_synonym items = "(terminal_error + u8) list"

fun drain_items :: "nat \<Rightarrow> bool \<Rightarrow> items \<Rightarrow> (terminal_error + nat) \<times> bool \<times> items" where
  "drain_items actual skip_lf [] = (Inr actual, skip_lf, [])"
| "drain_items actual skip_lf (Inl e # xs) = (Inl e, skip_lf, xs)"
| "drain_items actual skip_lf (Inr b # xs) =
     (if b = CR then (Inr actual, True, xs)
      else if b = LF then (Inr actual, skip_lf, xs)
      else drain_items (saturating_add actual 1) skip_lf xs)"

fun line_items :: "nat \<Rightarrow> bytes \<Rightarrow> bool \<Rightarrow> items \<Rightarrow> (terminal_error + bytes option) \<times> bool \<times> items" where
  "line_items maximum line skip_lf [] = (Inr (if line \<noteq> [] then Some line else None), skip_lf, [])"
| "line_items maximum line skip_lf (Inl e # xs) = (Inl e, skip_lf, xs)"
| "line_items maximum line skip_lf (Inr b # xs) =
     (if skip_lf \<and> b = LF then line_items maximum line False xs
      else if b = CR then (Inr (Some line), True, xs)
      else if b = LF then (Inr (Some line), False, xs)
      else if b = 8 \<or> b = 127 then line_items maximum (butlast line) False xs
      else if length line = maximum then
        (case drain_items (saturating_add maximum 1) False xs of
           (Inl e, skip_lf, xs) \<Rightarrow> (Inl e, skip_lf, xs)
         | (Inr actual, skip_lf, xs) \<Rightarrow> (Inl (TInputTooLong actual maximum), skip_lf, xs))
      else line_items maximum (line @ [b]) False xs)"

text \<open>
  A source of bytes: \<open>items\<close> says what the coming calls of \<open>fetch\<close> will deliver.  At the end
  of the input the source stays at the end.
\<close>

locale byte_source =
  fixes fetch :: "'s \<Rightarrow> (terminal_error + u8 option) \<times> 's"
    and items :: "'s \<Rightarrow> items"
  assumes fetch_byte: "fetch s = (Inr (Some b), t) \<Longrightarrow> items s = Inr b # items t"
    and fetch_error: "fetch s = (Inl e, t) \<Longrightarrow> items s = Inl e # items t"
    and fetch_end: "fetch s = (Inr None, t) \<Longrightarrow> items s = [] \<and> items t = []"
begin

lemma fetch_result:
  "fst (fetch s) = (case items s of [] \<Rightarrow> Inr None | Inl e # _ \<Rightarrow> Inl e | Inr b # _ \<Rightarrow> Inr (Some b))"
proof (cases "fetch s")
  case (Pair r t)
  then show ?thesis
  proof (cases r)
    case (Inl e)
    then show ?thesis using Pair fetch_error by simp
  next
    case (Inr x)
    then show ?thesis using Pair fetch_byte fetch_end by (cases x) simp_all
  qed
qed

lemma fetch_rest: "items (snd (fetch s)) = tl (items s)"
proof (cases "fetch s")
  case (Pair r t)
  then show ?thesis
  proof (cases r)
    case (Inl e)
    then show ?thesis using Pair fetch_error by simp
  next
    case (Inr x)
    then show ?thesis using Pair fetch_byte fetch_end by (cases x) simp_all
  qed
qed

text \<open>Two sources that will deliver the same answer alike, whatever their transports.\<close>

lemma fetch_same_items:
  "items s = items s' \<Longrightarrow> fst (fetch s) = fst (fetch s') \<and> items (snd (fetch s)) = items (snd (fetch s'))"
  by (simp add: fetch_result fetch_rest)

end

section \<open>The shared reader implements the reference\<close>

text \<open>The items a stream of events delivers.\<close>

fun stream_items :: "stream \<Rightarrow> items" where
  "stream_items [] = []"
| "stream_items (Got b # s) = Inr b # stream_items s"
| "stream_items (Raised k # s) =
     (if k = KInterrupted then stream_items s else Inl (map_input_error k) # stream_items s)"

lemma next_byte_items:
  "case next_byte s of
     (Inr (Some b), t) \<Rightarrow> stream_items s = Inr b # stream_items t
   | (Inl e, t) \<Rightarrow> stream_items s = Inl e # stream_items t
   | (Inr None, t) \<Rightarrow> stream_items s = [] \<and> stream_items t = []"
  by (induction s rule: next_byte.induct) (auto split: sum.splits option.splits)

interpretation plain: byte_source next_byte stream_items
proof unfold_locales
  fix s :: stream and t b e
  show "next_byte s = (Inr (Some b), t) \<Longrightarrow> stream_items s = Inr b # stream_items t"
    "next_byte s = (Inl e, t) \<Longrightarrow> stream_items s = Inl e # stream_items t"
    "next_byte s = (Inr None, t) \<Longrightarrow> stream_items s = [] \<and> stream_items t = []"
    using next_byte_items [of s] by simp_all
qed

text \<open>A result of the program's reader, with the stream it leaves seen as items.\<close>

abbreviation delivered :: "('s \<Rightarrow> items) \<Rightarrow> 'r \<times> bool \<times> 's \<Rightarrow> 'r \<times> bool \<times> items" where
  "delivered f \<equiv> apsnd (apsnd f)"

lemma drain_overlong_line_items:
  "drain_items actual skip_lf (stream_items s) = delivered stream_items (drain_overlong_line s actual skip_lf)"
proof (induction s actual skip_lf rule: drain_overlong_line.induct)
  case (1 s actual skip_lf)
  obtain x u where n: "next_byte s = (x, u)" by force
  show ?case
  proof (cases x)
    case (Inl e)
    then show ?thesis using n plain.fetch_error [of s e u] by (subst drain_overlong_line.simps) simp
  next
    case (Inr o')
    then show ?thesis
      using "1.IH" [OF n [symmetric] Inr] n plain.fetch_byte [of s _ u] plain.fetch_end [of s u]
      by (cases o') (subst drain_overlong_line.simps; simp)+
  qed
qed

lemma read_bounded_loop_items:
  "line_items maximum line skip_lf (stream_items s) =
     delivered stream_items (read_bounded_loop maximum line skip_lf s)"
proof (induction maximum line skip_lf s rule: read_bounded_loop.induct)
  case (1 maximum line skip_lf s)
  obtain x u where n: "next_byte s = (x, u)" by force
  show ?case
  proof (cases x)
    case (Inl e)
    then show ?thesis using n plain.fetch_error [of s e u] by (subst read_bounded_loop.simps) simp
  next
    case (Inr o')
    show ?thesis
    proof (cases o')
      case None
      with Inr n plain.fetch_end [of s u] show ?thesis by (subst read_bounded_loop.simps) simp
    next
      case (Some b)
      have i: "stream_items s = Inr b # stream_items u" using n Inr Some plain.fetch_byte by simp
      show ?thesis
        using n Inr Some "1.IH" [OF n [symmetric] Inr Some]
        by (subst read_bounded_loop.simps)
          (auto simp: i drain_overlong_line_items split: sum.splits prod.splits)
    qed
  qed
qed

section \<open>What a caller's line is\<close>

definition plain_byte :: "u8 \<Rightarrow> bool" where
  "plain_byte b \<longleftrightarrow> b \<noteq> CR \<and> b \<noteq> LF \<and> b \<noteq> 8 \<and> b \<noteq> 127"

lemma drain_items_plain:
  "list_all plain_byte cs \<Longrightarrow> actual + length cs \<le> usize_max \<Longrightarrow>
     drain_items actual skip_lf (map Inr cs @ xs) = drain_items (actual + length cs) skip_lf xs"
  by (induction cs arbitrary: actual) (auto simp: plain_byte_def saturating_add_def)

lemma line_items_plain:
  "list_all plain_byte cs \<Longrightarrow> length line + length cs \<le> maximum \<Longrightarrow>
     line_items maximum line skip_lf (map Inr cs @ xs) =
       line_items maximum (line @ cs) (skip_lf \<and> cs = []) xs"
  by (induction cs arbitrary: line skip_lf) (auto simp: plain_byte_def)

lemma line_items_overlong:
  assumes cs: "list_all plain_byte cs" "maximum < length cs" "length cs \<le> usize_max"
    and e: "e = CR \<or> e = LF"
  shows "line_items maximum [] skip_lf (map Inr cs @ Inr e # xs) =
    (Inl (TInputTooLong (length cs) maximum), e = CR, xs)"
proof -
  obtain b where cs': "cs = take maximum cs @ b # drop (Suc maximum) cs"
    using cs(2) id_take_nth_drop by blast
  let ?as = "take maximum cs" and ?ds = "drop (Suc maximum) cs"
  have p: "list_all plain_byte ?as" "plain_byte b" "list_all plain_byte ?ds"
    using cs(1) by (subst (asm) cs', simp)+
  have "map Inr cs @ Inr e # xs = map Inr ?as @ Inr b # map Inr ?ds @ Inr e # xs"
    by (subst cs') simp
  moreover have "line_items maximum [] skip_lf (map Inr ?as @ Inr b # map Inr ?ds @ Inr e # xs) =
      line_items maximum ?as (skip_lf \<and> ?as = []) (Inr b # map Inr ?ds @ Inr e # xs)"
    using p cs(2) by (simp add: line_items_plain)
  moreover have "drain_items (saturating_add maximum 1) False (map Inr ?ds @ Inr e # xs) = (Inr (length cs), e = CR, xs)"
    using p cs(2,3) e by (auto simp: drain_items_plain saturating_add_def)
  ultimately show ?thesis using p(2) cs(2) by (simp add: plain_byte_def)
qed

lemma line_items_terminated:
  "list_all plain_byte cs \<Longrightarrow> length cs \<le> usize_max \<Longrightarrow> e = CR \<or> e = LF \<Longrightarrow>
     \<not> (skip_lf \<and> cs = [] \<and> e = LF) \<Longrightarrow>
     line_items maximum [] skip_lf (map Inr cs @ Inr e # xs) =
       (if length cs \<le> maximum then Inr (Some cs) else Inl (TInputTooLong (length cs) maximum), e = CR, xs)"
  by (auto simp: line_items_plain line_items_overlong)

lemma line_items_bounds:
  "line_items maximum line skip_lf xs = (Inr (Some l), k, ys) \<Longrightarrow> length line \<le> maximum \<Longrightarrow>
     CR \<notin> set line \<Longrightarrow> LF \<notin> set line \<Longrightarrow> length l \<le> maximum \<and> CR \<notin> set l \<and> LF \<notin> set l"
proof (induction maximum line skip_lf xs rule: line_items.induct)
  case (3 maximum line skip_lf b xs)
  have "CR \<notin> set (butlast line)" "LF \<notin> set (butlast line)" using 3 by (auto dest: in_set_butlastD)
  with 3 show ?case by (auto split: if_splits sum.splits prod.splits)
qed (auto split: if_splits)

section \<open>Lines of a text\<close>

datatype line_end = EndCR | EndLF | EndCRLF

fun end_bytes :: "line_end \<Rightarrow> bytes" where
  "end_bytes EndCR = [CR]"
| "end_bytes EndLF = [LF]"
| "end_bytes EndCRLF = [CR, LF]"

definition text_bytes :: "(bytes \<times> line_end) list \<Rightarrow> bytes" where
  "text_bytes ls = concat (map (\<lambda>(l, e). l @ end_bytes e) ls)"

text \<open>A CR that is followed by an empty line ended by LF would be read as one CRLF.\<close>

fun separable :: "bool \<Rightarrow> (bytes \<times> line_end) list \<Rightarrow> bool" where
  "separable cr [] = True"
| "separable cr ((l, e) # ls) = (\<not> (cr \<and> l = [] \<and> e = EndLF) \<and> separable (e = EndCR) ls)"

fun read_lines :: "nat \<Rightarrow> nat \<Rightarrow> bool \<Rightarrow> stream \<Rightarrow> (terminal_error + bytes option) list" where
  "read_lines 0 maximum skip_lf s = []"
| "read_lines (Suc n) maximum skip_lf s =
     (case read_bounded_line maximum skip_lf s of
        (r, skip_lf, s) \<Rightarrow> r # read_lines n maximum skip_lf s)"

lemma read_bounded_line_items:
  "read_bounded_line maximum skip_lf s = (r, k, t) \<Longrightarrow>
     line_items maximum [] skip_lf (stream_items s) = (r, k, stream_items t)"
  using read_bounded_loop_items [of maximum "[]" skip_lf s] by (simp add: read_bounded_line_def)

lemma line_items_skip:
  "line_items maximum [] True (Inr LF # xs) = line_items maximum [] False xs"
  by simp

lemma read_lines_step:
  assumes "list_all plain_byte l" "length l \<le> usize_max"
    "stream_items s = map Inr (p @ l @ end_bytes e) @ xs" "p = (if crlf then [LF] else [])" "crlf \<longrightarrow> skip_lf"
    "skip_lf \<longrightarrow> crlf \<or> \<not> (l = [] \<and> e = EndLF)"
  shows "\<exists>t q. read_bounded_line maximum skip_lf s =
      (if length l \<le> maximum then Inr (Some l) else Inl (TInputTooLong (length l) maximum), e \<noteq> EndLF, t) \<and>
    stream_items t = map Inr q @ xs \<and> q = (if e = EndCRLF then [LF] else [])"
proof -
  define c where "c = (if e = EndLF then LF else CR)"
  define q where "q = (if e = EndCRLF then [LF] else [])"
  have e: "end_bytes e = c # q" "c = CR \<or> c = LF" "c = CR \<longleftrightarrow> e \<noteq> EndLF"
    by (cases e; simp add: c_def q_def)+
  obtain r k t where r: "read_bounded_line maximum skip_lf s = (r, k, t)" by (metis prod.exhaust)
  have "(r, k, stream_items t) = line_items maximum [] skip_lf (stream_items s)"
    using read_bounded_line_items [OF r] by simp
  also have "\<dots> = line_items maximum [] (skip_lf \<and> \<not> crlf) (map Inr l @ Inr c # map Inr q @ xs)"
    using assms(3,4,5) by (simp add: e(1))
  also have "\<dots> = (if length l \<le> maximum then Inr (Some l) else Inl (TInputTooLong (length l) maximum), c = CR, map Inr q @ xs)"
    using assms(1,2,6) e(2,3) by (intro line_items_terminated) auto
  finally show ?thesis using r e(3) q_def by auto
qed

text \<open>
  A caller's text is read back line by line, whatever mixture of CR, LF and CRLF ends the
  lines and however the reads are interrupted: a line within the limit is returned as it was
  typed, a longer one is refused with its exact length, and the line after it is read from its
  first byte.
\<close>

theorem text_read_line_by_line:
  assumes "stream_items s = map Inr (text_bytes ls) @ xs" and "separable skip_lf ls"
    and "\<forall>(l, e) \<in> set ls. list_all plain_byte l \<and> length l < 2 ^ 64"
  shows "read_lines (length ls) maximum skip_lf s =
    map (\<lambda>(l, e). if length l \<le> maximum then Inr (Some l) else Inl (TInputTooLong (length l) maximum)) ls"
proof -
  have "read_lines (length ls) maximum skip_lf s =
      map (\<lambda>(l, e). if length l \<le> maximum then Inr (Some l) else Inl (TInputTooLong (length l) maximum)) ls"
    if "stream_items s = map Inr ((if crlf then [LF] else []) @ text_bytes ls) @ xs"
      "separable (skip_lf \<and> \<not> crlf) ls" "crlf \<longrightarrow> skip_lf"
      "\<forall>(l, e) \<in> set ls. list_all plain_byte l \<and> length l < 2 ^ 64" for crlf s skip_lf
    using that
  proof (induction ls arbitrary: s skip_lf crlf)
    case (Cons x ls)
    obtain l e where x: "x = (l, e)" by force
    let ?p = "if crlf then [LF] else []"
    have s: "stream_items s = map Inr (?p @ l @ end_bytes e) @ map Inr (text_bytes ls) @ xs"
      using Cons.prems(1) by (simp add: x text_bytes_def)
    have l: "list_all plain_byte l" "length l \<le> usize_max" using Cons.prems(4) by (auto simp: x)
    have "skip_lf \<longrightarrow> crlf \<or> \<not> (l = [] \<and> e = EndLF)" using Cons.prems(2) by (auto simp: x)
    from read_lines_step [OF l s refl Cons.prems(3) this, of maximum] obtain t where
      r: "read_bounded_line maximum skip_lf s =
        (if length l \<le> maximum then Inr (Some l) else Inl (TInputTooLong (length l) maximum), e \<noteq> EndLF, t)"
      and t: "stream_items t = map Inr ((if e = EndCRLF then [LF] else []) @ text_bytes ls) @ xs"
      by auto
    have "separable (e \<noteq> EndLF \<and> e \<noteq> EndCRLF) ls" using Cons.prems(2) by (cases e) (auto simp: x)
    with Cons.IH [OF t, of "e \<noteq> EndLF"] Cons.prems(4) r show ?case by (simp add: x)
  qed simp
  from this [of s False skip_lf] assms show ?thesis by simp
qed

theorem text_read_line_by_line_witness:
  "read_lines 3 3 False (map Got [71, CR, LF, 49, 50, 51, 52, 53, LF] @ [Raised KInterrupted] @ map Got [72, CR]) =
     [Inr (Some [71]), Inl (TInputTooLong 5 3), Inr (Some [72])]"
proof -
  let ?s = "map Got [71, CR, LF, 49, 50, 51, 52, 53, LF] @ [Raised KInterrupted] @ map Got [72, CR]"
  let ?ls = "[([71], EndCRLF), ([49, 50, 51, 52, 53], EndLF), ([72], EndCR)] :: (bytes \<times> line_end) list"
  have len: "length ?ls = 3" "length [71 :: u8] = 1" "length [49, 50, 51, 52, 53 :: u8] = 5" "length [72 :: u8] = 1"
    by simp_all
  have "read_lines (length ?ls) 3 False ?s =
      map (\<lambda>(l, e). if length l \<le> 3 then Inr (Some l) else Inl (TInputTooLong (length l) 3)) ?ls"
    by (rule text_read_line_by_line [where xs = "[]"]) (simp_all add: text_bytes_def plain_byte_def)
  also have "\<dots> = [Inr (Some [71]), Inl (TInputTooLong 5 3), Inr (Some [72])]"
    by (simp add: len del: list.size)
  finally show ?thesis unfolding len(1) .
qed

text \<open>
  Whatever the stream delivers, backspaces, errors and time-outs included, a line that is
  returned has at most the requested number of bytes and no line terminator in it.
\<close>

theorem line_within_limit:
  assumes "read_bounded_line maximum skip_lf s = (Inr (Some l), k, t)"
  shows "length l \<le> maximum \<and> CR \<notin> set l \<and> LF \<notin> set l"
  using line_items_bounds [OF read_bounded_line_items [OF assms]] by simp

theorem line_within_limit_witness: "length [65 :: u8] \<le> 2 \<and> CR \<notin> set [65] \<and> LF \<notin> set [65]"
proof -
  have "read_bounded_line 2 False [Got 65, Got 66, Got 8, Got 13] = (Inr (Some [65]), True, [])"
    by (simp add: read_bounded_line_def read_bounded_loop.simps)
  from line_within_limit [OF this] show ?thesis .
qed

end
