(* ===== verification/Telnet.thy ===== *)
theory Telnet
  imports Line_Input
begin

text \<open>
  \<open>crates/sf-bbs/src/transports/telnet.rs\<close>: the Telnet terminal.  \<open>telnet_protocol\<close> is the
  parser of the peer's bytes, one \<open>feed_byte\<close> per byte; \<open>telnet_terminal\<close> adds the socket: what
  its coming reads answer, what was written to it, and whether writes fail (the socket's write
  side is up or down for the whole of a call).  A refused operation returns its error together
  with the state it leaves.
\<close>

abbreviation IAC :: u8 where "IAC \<equiv> 255"
abbreviation DONT :: u8 where "DONT \<equiv> 254"
abbreviation DO :: u8 where "DO \<equiv> 253"
abbreviation WONT :: u8 where "WONT \<equiv> 252"
abbreviation WILL :: u8 where "WILL \<equiv> 251"
abbreviation SB :: u8 where "SB \<equiv> 250"
abbreviation SE :: u8 where "SE \<equiv> 240"
abbreviation OPT_BINARY :: u8 where "OPT_BINARY \<equiv> 0"
abbreviation OPT_ECHO :: u8 where "OPT_ECHO \<equiv> 1"
abbreviation OPT_SUPPRESS_GO_AHEAD :: u8 where "OPT_SUPPRESS_GO_AHEAD \<equiv> 3"
abbreviation OPT_TERMINAL_TYPE :: u8 where "OPT_TERMINAL_TYPE \<equiv> 24"
abbreviation OPT_NAWS :: u8 where "OPT_NAWS \<equiv> 31"
abbreviation TERMINAL_TYPE_IS :: u8 where "TERMINAL_TYPE_IS \<equiv> 0"
abbreviation TERMINAL_TYPE_SEND :: u8 where "TERMINAL_TYPE_SEND \<equiv> 1"

definition MAX_SUBNEGOTIATION_BYTES :: nat where "MAX_SUBNEGOTIATION_BYTES = 1024"

definition INITIAL_NEGOTIATION :: bytes where
  "INITIAL_NEGOTIATION =
     [IAC, WILL, OPT_ECHO, IAC, WILL, OPT_SUPPRESS_GO_AHEAD, IAC, WILL, OPT_BINARY,
      IAC, DO, OPT_BINARY, IAC, DO, OPT_TERMINAL_TYPE, IAC, DO, OPT_NAWS]"

section \<open>The protocol parser\<close>

datatype parse_state =
    Data
  | Iac
  | Negotiation u8
  | Subnegotiation "u8 option" bytes bool

record terminal_size =
  width :: u16
  height :: u16

record telnet_protocol =
  pstate :: parse_state
  application :: bytes
  outbound :: bytes
  terminal_type :: "string option"
  window :: "terminal_size option"
  local_binary :: bool
  remote_binary :: bool

definition new_protocol :: telnet_protocol where
  "new_protocol =
     \<lparr>pstate = Data, application = [], outbound = [], terminal_type = None, window = None,
      local_binary = False, remote_binary = False\<rparr>"

definition handle_negotiation :: "telnet_protocol \<Rightarrow> u8 \<Rightarrow> u8 \<Rightarrow> telnet_protocol" where
  "handle_negotiation p command opt =
     (let supported_remote = opt \<in> {OPT_BINARY, OPT_TERMINAL_TYPE, OPT_NAWS};
          supported_local = opt \<in> {OPT_BINARY, OPT_ECHO, OPT_SUPPRESS_GO_AHEAD};
          p = (if command = WILL \<and> opt = OPT_BINARY then p\<lparr>remote_binary := True\<rparr>
               else if command = WONT \<and> opt = OPT_BINARY then p\<lparr>remote_binary := False\<rparr>
               else if command = DO \<and> opt = OPT_BINARY then p\<lparr>local_binary := True\<rparr>
               else if command = DONT \<and> opt = OPT_BINARY then p\<lparr>local_binary := False\<rparr>
               else p)
      in if command = WILL \<and> supported_remote \<and> opt = OPT_TERMINAL_TYPE then
           p\<lparr>outbound := outbound p @ [IAC, SB, OPT_TERMINAL_TYPE, TERMINAL_TYPE_SEND, IAC, SE]\<rparr>
         else if command = WILL \<and> \<not> supported_remote then
           p\<lparr>outbound := outbound p @ [IAC, DONT, opt]\<rparr>
         else if command = DO \<and> \<not> supported_local then
           p\<lparr>outbound := outbound p @ [IAC, WONT, opt]\<rparr>
         else p)"

definition finish_subnegotiation ::
    "telnet_protocol \<Rightarrow> u8 \<Rightarrow> bytes \<Rightarrow> (terminal_error + unit) \<times> telnet_protocol" where
  "finish_subnegotiation p opt payload =
     (if opt = OPT_TERMINAL_TYPE \<and> payload \<noteq> [] \<and> hd payload = TERMINAL_TYPE_IS then
        (let terminal = tl payload in
         if terminal = [] \<or> 64 < length terminal \<or> \<not> list_all (\<lambda>b. ascii_graphic (unat b)) terminal
         then (Inl (TMalformedProtocol ''invalid Telnet terminal type''), p)
         else (Inr (), p\<lparr>terminal_type := Some (from_bytes terminal)\<rparr>))
      else if opt = OPT_NAWS \<and> length payload = 4 then
        (let w = u16_of (payload ! 0) (payload ! 1); h = u16_of (payload ! 2) (payload ! 3) in
         (Inr (), if 0 < w \<and> 0 < h then p\<lparr>window := Some \<lparr>width = w, height = h\<rparr>\<rparr> else p))
      else if opt = OPT_NAWS then
        (Inl (TMalformedProtocol ''Telnet NAWS payload must contain four bytes''), p)
      else (Inr (), p))"

text \<open>
  One byte.  The parser's state is taken out (and left as \<open>Data\<close>) while the byte is handled, so
  an error leaves \<open>Data\<close> behind.
\<close>

definition feed_byte :: "telnet_protocol \<Rightarrow> u8 \<Rightarrow> (terminal_error + unit) \<times> telnet_protocol" where
  "feed_byte p b =
     (let q = p\<lparr>pstate := Data\<rparr> in
      case pstate p of
        Data \<Rightarrow>
          if b = IAC then (Inr (), q\<lparr>pstate := Iac\<rparr>)
          else (Inr (), q\<lparr>application := application q @ [b]\<rparr>)
      | Iac \<Rightarrow>
          if b = IAC then (Inr (), q\<lparr>application := application q @ [IAC]\<rparr>)
          else if b = DO \<or> b = DONT \<or> b = WILL \<or> b = WONT then (Inr (), q\<lparr>pstate := Negotiation b\<rparr>)
          else if b = SB then (Inr (), q\<lparr>pstate := Subnegotiation None [] False\<rparr>)
          else (Inr (), q)
      | Negotiation command \<Rightarrow> (Inr (), handle_negotiation q command b)
      | Subnegotiation None payload after_iac \<Rightarrow>
          (Inr (), q\<lparr>pstate := Subnegotiation (Some b) payload after_iac\<rparr>)
      | Subnegotiation (Some opt) payload after_iac \<Rightarrow>
          if after_iac then
            if b = SE then finish_subnegotiation q opt payload
            else if b = IAC then (Inr (), q\<lparr>pstate := Subnegotiation (Some opt) (payload @ [IAC]) False\<rparr>)
            else (Inl (TMalformedProtocol ''invalid Telnet subnegotiation escape''), q)
          else if b = IAC then (Inr (), q\<lparr>pstate := Subnegotiation (Some opt) payload True\<rparr>)
          else if length payload = MAX_SUBNEGOTIATION_BYTES then
            (Inl (TMalformedProtocol ''Telnet subnegotiation exceeds 1024 bytes''), q)
          else (Inr (), q\<lparr>pstate := Subnegotiation (Some opt) (payload @ [b]) False\<rparr>))"

fun feed :: "telnet_protocol \<Rightarrow> bytes \<Rightarrow> (terminal_error + unit) \<times> telnet_protocol" where
  "feed p [] = (Inr (), p)"
| "feed p (b # bs) =
     (case feed_byte p b of
        (Inl e, p) \<Rightarrow> (Inl e, p)
      | (Inr u, p) \<Rightarrow> feed p bs)"

section \<open>Reading\<close>

lemma handle_negotiation_frame [simp]:
  "application (handle_negotiation p c opt) = application p" "pstate (handle_negotiation p c opt) = pstate p"
  "terminal_type (handle_negotiation p c opt) = terminal_type p" "window (handle_negotiation p c opt) = window p"
  by (simp_all add: handle_negotiation_def Let_def)

lemma finish_subnegotiation_frame:
  "finish_subnegotiation p opt d = (r, q) \<Longrightarrow> application q = application p \<and> pstate q = pstate p \<and>
     outbound q = outbound p \<and> local_binary q = local_binary p \<and> remote_binary q = remote_binary p"
  by (auto simp: finish_subnegotiation_def Let_def split: if_splits)

lemma feed_byte_application: "feed_byte p b = (r, q) \<Longrightarrow> length (application q) \<le> Suc (length (application p))"
proof (cases "pstate p")
  case (Subnegotiation opt payload after_iac)
  then show "feed_byte p b = (r, q) \<Longrightarrow> ?thesis"
    by (cases opt) (auto simp: feed_byte_def Let_def split: if_splits dest!: finish_subnegotiation_frame)
qed (auto simp: feed_byte_def Let_def split: if_splits)

lemma feed_application: "feed p bs = (r, q) \<Longrightarrow> length (application q) \<le> length (application p) + length bs"
proof (induction p bs rule: feed.induct)
  case (2 p b bs)
  obtain r' p' where f: "feed_byte p b = (r', p')" by force
  with "2.prems" "2.IH" [OF f [symmetric]] feed_byte_application [OF f] show ?case
    by (auto split: sum.splits)
qed simp

record capabilities =
  cap_type :: "string option"
  cap_ansi :: bool
  cap_size :: "terminal_size option"

record telnet_terminal =
  input :: "bytes read_event list"
  sent :: bytes
  send_error :: "io_kind option"
  protocol :: telnet_protocol
  caps :: capabilities
  line :: bytes
  skip_lf :: bool

definition stream_write :: "telnet_terminal \<Rightarrow> bytes \<Rightarrow> (terminal_error + unit) \<times> telnet_terminal" where
  "stream_write s bs =
     (case send_error s of
        Some k \<Rightarrow> (Inl (TIo k), s)
      | None \<Rightarrow> (Inr (), s\<lparr>sent := sent s @ bs\<rparr>))"

definition telnet_accept ::
    "bytes read_event list \<Rightarrow> io_kind option \<Rightarrow> capabilities \<Rightarrow> terminal_error + telnet_terminal" where
  "telnet_accept events err defaults =
     (case err of
        Some k \<Rightarrow> Inl (TIo k)
      | None \<Rightarrow> Inr \<lparr>input = events, sent = INITIAL_NEGOTIATION, send_error = err, protocol = new_protocol,
           caps = defaults, line = [], skip_lf = False\<rparr>)"

definition apply_negotiated_capabilities :: "telnet_terminal \<Rightarrow> telnet_terminal" where
  "apply_negotiated_capabilities s =
     (let s = (case terminal_type (protocol s) of
                 None \<Rightarrow> s
               | Some t \<Rightarrow>
                   (let lowercase = map lower_char t in
                    s\<lparr>caps := (caps s)\<lparr>cap_ansi := cap_ansi (caps s) \<or> contains ''ansi'' lowercase \<or>
                          contains ''xterm'' lowercase \<or> contains ''vt100'' lowercase,
                        cap_type := Some t\<rparr>\<rparr>))
      in case window (protocol s) of
           None \<Rightarrow> s
         | Some w \<Rightarrow> s\<lparr>caps := (caps s)\<lparr>cap_size := Some w\<rparr>\<rparr>)"

text \<open>Sending what the parser wants to reply; the replies stay queued when the write fails.\<close>

definition flush_outbound :: "telnet_terminal \<Rightarrow> (terminal_error + unit) \<times> telnet_terminal" where
  "flush_outbound s =
     (if outbound (protocol s) = [] then (Inr (), s)
      else case stream_write s (outbound (protocol s)) of
        (Inl e, s) \<Rightarrow> (Inl e, s)
      | (Inr u, s) \<Rightarrow> (Inr (), s\<lparr>protocol := (protocol s)\<lparr>outbound := []\<rparr>\<rparr>))"

function read_application_byte ::
    "telnet_terminal \<Rightarrow> (terminal_error + u8 option) \<times> telnet_terminal" where
  "read_application_byte s =
     (case application (protocol s) of
        b # bs \<Rightarrow> (Inr (Some b), s\<lparr>protocol := (protocol s)\<lparr>application := bs\<rparr>\<rparr>)
      | [] \<Rightarrow>
          (case input s of
             [] \<Rightarrow> (Inr None, s)
           | Raised k # events \<Rightarrow>
               (let s = s\<lparr>input := events\<rparr> in
                if k = KInterrupted then read_application_byte s
                else (Inl (map_input_error k), s))
           | Got chunk # events \<Rightarrow>
               if chunk = [] then (Inr None, s)
               else case feed (protocol s) chunk of
                 (Inl e, p) \<Rightarrow> (Inl e, s\<lparr>input := events, protocol := p\<rparr>)
               | (Inr u, p) \<Rightarrow>
                   (case flush_outbound (s\<lparr>input := events, protocol := p\<rparr>) of
                      (Inl e, s) \<Rightarrow> (Inl e, s)
                    | (Inr u, s) \<Rightarrow> read_application_byte (apply_negotiated_capabilities s))))"
  by pat_completeness auto

lemma stream_write_frame:
  "stream_write s bs = (r, t) \<Longrightarrow> input t = input s \<and> protocol t = protocol s \<and> line t = line s \<and>
     skip_lf t = skip_lf s \<and> send_error t = send_error s \<and> caps t = caps s"
  by (auto simp: stream_write_def split: option.splits)

lemma flush_outbound_frame:
  "flush_outbound s = (r, t) \<Longrightarrow> input t = input s \<and> line t = line s \<and> skip_lf t = skip_lf s \<and>
     send_error t = send_error s \<and> application (protocol t) = application (protocol s)"
  by (auto simp: flush_outbound_def stream_write_def split: if_splits option.splits)

lemma apply_negotiated_frame [simp]:
  "input (apply_negotiated_capabilities s) = input s" "protocol (apply_negotiated_capabilities s) = protocol s"
  "line (apply_negotiated_capabilities s) = line s" "skip_lf (apply_negotiated_capabilities s) = skip_lf s"
  "send_error (apply_negotiated_capabilities s) = send_error s"
  "sent (apply_negotiated_capabilities s) = sent s"
  by (simp_all add: apply_negotiated_capabilities_def Let_def split: option.split)

termination read_application_byte
  by (relation "measure (\<lambda>s. length (input s))")
    (auto dest!: flush_outbound_frame [OF sym])

declare read_application_byte.simps [simp del]

section \<open>What a terminal delivers\<close>

fun event_size :: "bytes read_event \<Rightarrow> nat" where
  "event_size (Got c) = Suc (length c)"
| "event_size (Raised k) = 1"

definition backlog :: "telnet_terminal \<Rightarrow> nat" where
  "backlog s = length (application (protocol s)) + sum_list (map event_size (input s))"

lemma read_application_byte_backlog:
  "read_application_byte s = (Inr (Some b), t) \<Longrightarrow> backlog t < backlog s"
proof (induction s rule: read_application_byte.induct)
  case (1 s)
  show ?case
  proof (cases "application (protocol s)")
    case (Cons x xs)
    then show ?thesis using "1.prems" by (auto simp: read_application_byte.simps [of s] backlog_def)
  next
    case Nil
    show ?thesis
    proof (cases "input s")
      case i: (Cons ev events)
      show ?thesis
      proof (cases ev)
        case (Raised k)
        then show ?thesis
          using "1.prems" "1.IH"(2) [OF Nil i Raised refl] Nil i
          by (auto simp: read_application_byte.simps [of s] backlog_def Let_def split: if_splits)
      next
        case (Got c)
        obtain r p where f: "feed (protocol s) c = (r, p)" by force
        obtain r' u where o': "flush_outbound (s\<lparr>input := events, protocol := p\<rparr>) = (r', u)" by force
        let ?u = "apply_negotiated_capabilities u"
        from "1.prems" Nil i Got f o' obtain x y where ok: "c \<noteq> []" "r = Inr x" "r' = Inr y"
          and n: "read_application_byte ?u = (Inr (Some b), t)"
          by (auto simp: read_application_byte.simps [of s] split: if_splits sum.splits)
        have "backlog t < backlog ?u"
          using "1.IH"(1) [OF Nil i Got ok(1) f [symmetric] ok(2) o' [symmetric] ok(3) n] .
        also have "backlog ?u \<le> backlog s"
          using feed_application [OF f] flush_outbound_frame [OF o'] Nil i Got by (simp add: backlog_def)
        finally show ?thesis .
      qed
    qed (use "1.prems" Nil in \<open>simp add: read_application_byte.simps [of s]\<close>)
  qed
qed

lemma backlog_update [simp]:
  "backlog (s\<lparr>line := l\<rparr>) = backlog s" "backlog (s\<lparr>skip_lf := k\<rparr>) = backlog s"
  by (simp_all add: backlog_def)

lemma stream_write_backlog: "stream_write s bs = (r, t) \<Longrightarrow> backlog t = backlog s"
  by (simp add: backlog_def stream_write_frame)

section \<open>Lines and keys\<close>

function drain_terminal_line ::
    "nat \<Rightarrow> bool \<Rightarrow> telnet_terminal \<Rightarrow> (terminal_error + nat) \<times> telnet_terminal" where
  "drain_terminal_line actual echo s =
     chain (read_application_byte s) (\<lambda>next s.
       case next of
         None \<Rightarrow> (Inr actual, s)
       | Some b \<Rightarrow>
           if b = CR then
             (let s = s\<lparr>skip_lf := True\<rparr> in
              if echo then chain (stream_write s [CR, LF]) (\<lambda>_ s. (Inr actual, s)) else (Inr actual, s))
           else if b = LF then
             (if echo then chain (stream_write s [CR, LF]) (\<lambda>_ s. (Inr actual, s)) else (Inr actual, s))
           else drain_terminal_line (saturating_add actual 1) echo s)"
  by pat_completeness auto
termination
  by (relation "measure (\<lambda>(actual, echo, s). backlog s)") (auto dest: read_application_byte_backlog)

function read_terminal_line ::
    "nat \<Rightarrow> bool \<Rightarrow> telnet_terminal \<Rightarrow> (terminal_error + bytes option) \<times> telnet_terminal" where
  "read_terminal_line maximum echo s =
     chain (read_application_byte s) (\<lambda>next s.
       case next of
         None \<Rightarrow> (Inr (if line s \<noteq> [] then Some (line s) else None), s\<lparr>line := []\<rparr>)
       | Some b \<Rightarrow>
           if skip_lf s \<and> b = LF then read_terminal_line maximum echo (s\<lparr>skip_lf := False\<rparr>)
           else
             (let s = s\<lparr>skip_lf := False\<rparr> in
              if b = CR then
                chain (stream_write (s\<lparr>skip_lf := True\<rparr>) [CR, LF]) (\<lambda>_ s.
                  (Inr (Some (line s)), s\<lparr>line := []\<rparr>))
              else if b = LF then
                chain (stream_write s [CR, LF]) (\<lambda>_ s. (Inr (Some (line s)), s\<lparr>line := []\<rparr>))
              else if b = 8 \<or> b = 127 then
                (if line s \<noteq> [] \<and> echo
                 then chain (stream_write (s\<lparr>line := butlast (line s)\<rparr>) [8, 32, 8]) (\<lambda>_ s.
                        read_terminal_line maximum echo s)
                 else read_terminal_line maximum echo (s\<lparr>line := butlast (line s)\<rparr>))
              else if length (line s) = maximum then
                chain (drain_terminal_line (saturating_add maximum 1) echo (s\<lparr>line := []\<rparr>)) (\<lambda>actual s.
                  (Inl (TInputTooLong actual maximum), s))
              else
                (let s = s\<lparr>line := line s @ [b]\<rparr> in
                 if echo then chain (stream_write s [b]) (\<lambda>_ s. read_terminal_line maximum echo s)
                 else read_terminal_line maximum echo s)))"
  by pat_completeness auto
termination
  by (relation "measure (\<lambda>(maximum, echo, s). backlog s)")
    (auto dest!: read_application_byte_backlog stream_write_backlog)

declare drain_terminal_line.simps [simp del] read_terminal_line.simps [simp del]

function telnet_read_key :: "telnet_terminal \<Rightarrow> (terminal_error + u8 option) \<times> telnet_terminal" where
  "telnet_read_key s =
     chain (read_application_byte s) (\<lambda>next s.
       case next of
         None \<Rightarrow> (Inr None, s)
       | Some b \<Rightarrow> if b = CR \<or> b = LF then telnet_read_key s else (Inr (Some b), s))"
  by pat_completeness auto
termination
  by (relation "measure backlog") (auto dest: read_application_byte_backlog)

declare telnet_read_key.simps [simp del]

text \<open>\<open>split_inclusive\<close>: pieces that end with an IAC, and the last one without.\<close>

fun split_inclusive :: "('a \<Rightarrow> bool) \<Rightarrow> 'a list \<Rightarrow> 'a list list" where
  "split_inclusive p [] = []"
| "split_inclusive p (x # xs) =
     (if p x then [x] # split_inclusive p xs
      else case split_inclusive p xs of [] \<Rightarrow> [[x]] | ys # yss \<Rightarrow> (x # ys) # yss)"

fun write_segments :: "telnet_terminal \<Rightarrow> bytes list \<Rightarrow> (terminal_error + unit) \<times> telnet_terminal" where
  "write_segments s [] = (Inr (), s)"
| "write_segments s (seg # segs) =
     chain (stream_write s seg) (\<lambda>_ s.
       if seg \<noteq> [] \<and> last seg = IAC
       then chain (stream_write s [IAC]) (\<lambda>_ s. write_segments s segs)
       else write_segments s segs)"

definition telnet_write_all :: "telnet_terminal \<Rightarrow> bytes \<Rightarrow> (terminal_error + unit) \<times> telnet_terminal" where
  "telnet_write_all s bs = write_segments s (split_inclusive (\<lambda>b. b = IAC) bs)"

definition telnet_begin_binary_mode :: "telnet_terminal \<Rightarrow> (terminal_error + unit) \<times> telnet_terminal" where
  "telnet_begin_binary_mode s =
     (let s = s\<lparr>skip_lf := False\<rparr> in
      if \<not> local_binary (protocol s) \<or> \<not> remote_binary (protocol s) then (Inl TBinaryUnsupported, s)
      else (Inr (), s))"

text \<open>\<open>read_binary\<close> into a buffer of \<open>n\<close> bytes, with what it has read so far.\<close>

fun telnet_read_binary :: "nat \<Rightarrow> bytes \<Rightarrow> telnet_terminal \<Rightarrow> (terminal_error + bytes) \<times> telnet_terminal" where
  "telnet_read_binary 0 got s = (Inr got, s)"
| "telnet_read_binary (Suc n) got s =
     (case read_application_byte s of
        (Inr (Some b), s) \<Rightarrow>
          if application (protocol s) = [] then (Inr (got @ [b]), s)
          else telnet_read_binary n (got @ [b]) s
      | (Inr None, s) \<Rightarrow> (Inr got, s)
      | (Inl e, s) \<Rightarrow>
          if e = TTimedOut \<or> e = TIo KTimedOut \<or> e = TIo KWouldBlock then
            (if got = [] then (Inl TTimedOut, s) else (Inr got, s))
          else (Inl e, s))"

section \<open>The telnet reader implements the reference\<close>

fun wire_items :: "io_kind option \<Rightarrow> telnet_protocol \<Rightarrow> bytes read_event list \<Rightarrow> items" where
  "wire_items err p [] = map Inr (application p)"
| "wire_items err p (ev # events) =
     map Inr (application p) @
     (let p = p\<lparr>application := []\<rparr> in
      case ev of
        Raised k \<Rightarrow>
          if k = KInterrupted then wire_items err p events
          else Inl (map_input_error k) # wire_items err p events
      | Got chunk \<Rightarrow>
          if chunk = [] then []
          else case feed p chunk of
            (Inl e, p) \<Rightarrow> Inl e # wire_items err p events
          | (Inr u, p) \<Rightarrow>
              if outbound p = [] then wire_items err p events
              else (case err of
                      Some k \<Rightarrow> Inl (TIo k) # wire_items err p events
                    | None \<Rightarrow> wire_items err (p\<lparr>outbound := []\<rparr>) events))"

definition terminal_items :: "telnet_terminal \<Rightarrow> items" where
  "terminal_items s = wire_items (send_error s) (protocol s) (input s)"

lemma application_update_same [simp]: "application p = [] \<Longrightarrow> p\<lparr>application := []\<rparr> = p"
  by (cases p) simp

lemma wire_items_application:
  "application p = b # bs \<Longrightarrow> wire_items err p events = Inr b # wire_items err (p\<lparr>application := bs\<rparr>) events"
  by (cases events) (simp_all add: Let_def)

lemma flush_outbound_cases:
  "flush_outbound s =
     (if outbound (protocol s) = [] then (Inr (), s)
      else case send_error s of
        Some k \<Rightarrow> (Inl (TIo k), s)
      | None \<Rightarrow> (Inr (), s\<lparr>sent := sent s @ outbound (protocol s), protocol := (protocol s)\<lparr>outbound := []\<rparr>\<rparr>))"
  by (simp add: flush_outbound_def stream_write_def split: option.split)

lemma terminal_items_application:
  "application (protocol s) = b # bs \<Longrightarrow>
     terminal_items s = Inr b # terminal_items (s\<lparr>protocol := (protocol s)\<lparr>application := bs\<rparr>\<rparr>)"
  by (simp add: terminal_items_def wire_items_application)

lemma terminal_items_next:
  "case read_application_byte s of
     (Inr (Some b), t) \<Rightarrow> terminal_items s = Inr b # terminal_items t
   | (Inl e, t) \<Rightarrow> terminal_items s = Inl e # terminal_items t
   | (Inr None, t) \<Rightarrow> terminal_items s = [] \<and> terminal_items t = []"
proof (induction s rule: read_application_byte.induct)
  case (1 s)
  show ?case
  proof (cases "application (protocol s)")
    case (Cons x xs)
    then show ?thesis by (simp add: read_application_byte.simps [of s] terminal_items_application)
  next
    case Nil
    note rd = read_application_byte.simps [of s]
    show ?thesis
    proof (cases "input s")
      case i: (Cons ev events)
      show ?thesis
      proof (cases ev)
        case (Raised k)
        then show ?thesis
          using "1.IH"(2) [OF Nil i Raised refl] Nil i
          by (auto simp: rd terminal_items_def Let_def split: sum.splits option.splits prod.splits)
      next
        case (Got c)
        obtain r p where f: "feed (protocol s) c = (r, p)" by force
        show ?thesis
        proof (cases "c = [] \<or> (\<exists>e. r = Inl e) \<or> (outbound p \<noteq> [] \<and> send_error s \<noteq> None)")
          case True
          then show ?thesis
            using Nil i Got f by (auto simp: rd terminal_items_def flush_outbound_cases split: sum.splits)
        next
          case False
          define u where "u = snd (flush_outbound (s\<lparr>input := events, protocol := p\<rparr>))"
          have r: "r = Inr ()" and ne: "c \<noteq> []" using False by (cases r; simp)+
          have o': "flush_outbound (s\<lparr>input := events, protocol := p\<rparr>) = (Inr (), u)"
            using False by (auto simp: u_def flush_outbound_cases)
          have eq: "terminal_items s = terminal_items (apply_negotiated_capabilities u)"
            using Nil i Got f r ne False
            by (auto simp: terminal_items_def u_def flush_outbound_cases)
          show ?thesis
            using "1.IH"(1) [OF Nil i Got ne f [symmetric] r o' [symmetric] refl, folded eq] Nil i Got f r ne o'
            by (simp add: rd)
        qed
      qed
    qed (use Nil in \<open>simp add: rd terminal_items_def\<close>)
  qed
qed

interpretation telnet: byte_source read_application_byte terminal_items
proof unfold_locales
  fix s t b e
  show "read_application_byte s = (Inr (Some b), t) \<Longrightarrow> terminal_items s = Inr b # terminal_items t"
    "read_application_byte s = (Inl e, t) \<Longrightarrow> terminal_items s = Inl e # terminal_items t"
    "read_application_byte s = (Inr None, t) \<Longrightarrow> terminal_items s = [] \<and> terminal_items t = []"
    using terminal_items_next [of s] by simp_all
qed

lemma terminal_items_update [simp]:
  "terminal_items (s\<lparr>line := l\<rparr>) = terminal_items s" "terminal_items (s\<lparr>skip_lf := k\<rparr>) = terminal_items s"
  "terminal_items (s\<lparr>sent := x\<rparr>) = terminal_items s"
  by (simp_all add: terminal_items_def)

lemma read_application_byte_frame:
  "read_application_byte s = (r, t) \<Longrightarrow> line t = line s \<and> skip_lf t = skip_lf s \<and> send_error t = send_error s"
proof (induction s rule: read_application_byte.induct)
  case (1 s)
  show ?case
  proof (cases "application (protocol s)")
    case (Cons x xs)
    then show ?thesis using "1.prems" by (auto simp: read_application_byte.simps [of s])
  next
    case Nil
    note rd = read_application_byte.simps [of s]
    show ?thesis
    proof (cases "input s")
      case i: (Cons ev events)
      show ?thesis
      proof (cases ev)
        case (Raised k)
        then show ?thesis
          using "1.prems" "1.IH"(2) [OF Nil i Raised refl] Nil i by (auto simp: rd Let_def split: if_splits)
      next
        case (Got c)
        obtain r' p where f: "feed (protocol s) c = (r', p)" by force
        obtain r'' u where o': "flush_outbound (s\<lparr>input := events, protocol := p\<rparr>) = (r'', u)" by force
        have u: "line u = line s" "skip_lf u = skip_lf s" "send_error u = send_error s"
          using flush_outbound_frame [OF o'] by simp_all
        show ?thesis
          using "1.prems" "1.IH"(1) [OF Nil i Got _ f [symmetric] _ o' [symmetric]] Nil i Got f o' u
          by (auto simp: rd split: if_splits sum.splits)
      qed
    qed (use "1.prems" Nil in \<open>simp add: rd\<close>)
  qed
qed

lemma stream_write_up: "send_error s = None \<Longrightarrow> stream_write s bs = (Inr (), s\<lparr>sent := sent s @ bs\<rparr>)"
  by (simp add: stream_write_def)

text \<open>A terminal's result, with what it will deliver next.\<close>

definition seen :: "'r \<times> telnet_terminal \<Rightarrow> 'r \<times> bool \<times> items" where
  "seen x = (fst x, skip_lf (snd x), terminal_items (snd x))"

lemma drain_terminal_line_items:
  "send_error s = None \<Longrightarrow>
     drain_items actual (skip_lf s) (terminal_items s) = seen (drain_terminal_line actual echo s)"
proof (induction actual echo s rule: drain_terminal_line.induct)
  case (1 actual echo s)
  obtain x u where n: "read_application_byte s = (x, u)" by force
  note fr = read_application_byte_frame [OF n]
  show ?case
  proof (cases x)
    case (Inl e)
    then show ?thesis using n telnet.fetch_error [of s e u] fr by (subst drain_terminal_line.simps) (simp add: seen_def)
  next
    case (Inr o')
    show ?thesis
    proof (cases o')
      case None
      then show ?thesis using n Inr telnet.fetch_end [of s u] fr by (subst drain_terminal_line.simps) (simp add: seen_def)
    next
      case (Some b)
      have i: "terminal_items s = Inr b # terminal_items u" using n Inr Some telnet.fetch_byte by simp
      show ?thesis
        using "1.IH" [of o' u b] n Inr Some "1.prems" fr
        by (subst drain_terminal_line.simps) (auto simp: i seen_def stream_write_up Let_def)
    qed
  qed
qed

lemma read_terminal_line_items:
  "send_error s = None \<Longrightarrow>
     line_items maximum (line s) (skip_lf s) (terminal_items s) = seen (read_terminal_line maximum echo s)"
proof (induction maximum echo s rule: read_terminal_line.induct)
  case (1 maximum echo s)
  obtain x u where n: "read_application_byte s = (x, u)" by force
  note fr = read_application_byte_frame [OF n]
  show ?case
  proof (cases x)
    case (Inl e)
    then show ?thesis using n telnet.fetch_error [of s e u] fr by (subst read_terminal_line.simps) (simp add: seen_def)
  next
    case (Inr o')
    show ?thesis
    proof (cases o')
      case None
      then show ?thesis using n Inr telnet.fetch_end [of s u] fr by (subst read_terminal_line.simps) (simp add: seen_def)
    next
      case (Some b)
      have i: "terminal_items s = Inr b # terminal_items u" using n Inr Some telnet.fetch_byte by simp
      have n': "read_application_byte s = (Inr (Some b), u)" using n Inr Some by simp
      let ?u = "u\<lparr>skip_lf := False\<rparr>"
      have up: "send_error u = None" using fr "1.prems" by simp
      note eqs = read_terminal_line.simps [of maximum _ s] n' i seen_def stream_write_up up Let_def
      consider (skip) "skip_lf u" "b = LF" | (ended) "\<not> (skip_lf u \<and> b = LF)" "b = CR \<or> b = LF"
        | (erase) "b = 8 \<or> b = 127" | (full) "plain_byte b" "length (line u) = maximum"
        | (push) "plain_byte b" "length (line u) \<noteq> maximum"
        by (auto simp: plain_byte_def)
      then show ?thesis
      proof cases
        case skip
        then show ?thesis using "1.IH"(1) [OF n' refl] up fr by (simp add: eqs)
      next
        case ended
        then show ?thesis using fr by (auto simp: eqs)
      next
        case erase
        show ?thesis
        proof (cases "line u \<noteq> [] \<and> echo")
          case True
          let ?v = "?u\<lparr>line := butlast (line u), sent := sent u @ [8, 32, 8]\<rparr>"
          have "stream_write (?u\<lparr>line := butlast (line ?u)\<rparr>) [8, 32, 8] = (Inr (), ?v)"
            using up by (simp add: stream_write_up)
          from "1.IH"(2) [OF n' refl _ refl _ _ erase _ this] True erase up fr show ?thesis
            by (auto simp: eqs)
        next
          case False
          from "1.IH"(3) [OF n' refl _ refl _ _ erase] False erase up fr show ?thesis
            by (auto simp: eqs)
        qed
      next
        case full
        then show ?thesis
          using drain_terminal_line_items [of "?u\<lparr>line := []\<rparr>" "saturating_add maximum 1" echo] up fr
          by (auto simp: eqs plain_byte_def chain_def split: prod.splits sum.splits)
      next
        case push
        note p = push(1) [unfolded plain_byte_def]
        show ?thesis
        proof (cases echo)
          case True
          let ?v = "?u\<lparr>line := line u @ [b], sent := sent u @ [b]\<rparr>"
          have "stream_write (?u\<lparr>line := line ?u @ [b]\<rparr>) [b] = (Inr (), ?v)"
            using up by (simp add: stream_write_up)
          from "1.IH"(4) [OF n' refl _ refl _ _ _ _ refl True this] True push p up fr show ?thesis
            by (simp add: eqs)
        next
          case False
          from "1.IH"(5) [OF n' refl _ refl _ _ _ _ refl False] False push p up fr show ?thesis
            by (simp add: eqs)
        qed
      qed
    qed
  qed
qed

section \<open>Writing\<close>

definition escape_iac :: "bytes \<Rightarrow> bytes" where
  "escape_iac bs = concat (map (\<lambda>b. if b = IAC then [IAC, IAC] else [b]) bs)"

lemma split_inclusive_Nil: "split_inclusive p xs = [] \<longleftrightarrow> xs = []"
  by (cases xs) (auto split: list.split)

lemma split_inclusive_hd: "split_inclusive p xs = ys # yss \<Longrightarrow> ys \<noteq> []"
  by (cases xs) (auto split: if_splits list.splits)

lemma write_segments_up:
  "send_error s = None \<Longrightarrow>
     write_segments s (split_inclusive (\<lambda>b. b = IAC) bs) = (Inr (), s\<lparr>sent := sent s @ escape_iac bs\<rparr>)"
proof (induction bs arbitrary: s)
  case (Cons b bs)
  show ?case
  proof (cases "b = IAC")
    case True
    then show ?thesis using Cons by (simp add: stream_write_up escape_iac_def)
  next
    case False
    show ?thesis
    proof (cases "split_inclusive (\<lambda>b. b = IAC) bs")
      case Nil
      then show ?thesis using Cons.prems False by (simp add: stream_write_up escape_iac_def split_inclusive_Nil)
    next
      case (Cons ys yss)
      then have "ys \<noteq> []" by (rule split_inclusive_hd)
      with Cons.IH [of "s\<lparr>sent := sent s @ [b]\<rparr>"] Cons.prems False Cons show ?thesis
        by (simp add: stream_write_up escape_iac_def split: if_splits)
    qed
  qed
qed (simp add: escape_iac_def)

lemma feed_append:
  "feed p (as @ bs) = (case feed p as of (Inl e, q) \<Rightarrow> (Inl e, q) | (Inr u, q) \<Rightarrow> feed q bs)"
  by (induction p as rule: feed.induct) (auto split: prod.splits sum.splits)

lemma feed_escaped:
  "pstate p = Data \<Longrightarrow> feed p (escape_iac bs) = (Inr (), p\<lparr>application := application p @ bs\<rparr>)"
proof (induction bs arbitrary: p)
  case Nil
  then show ?case by (cases p) (simp add: escape_iac_def)
next
  case (Cons b bs)
  have s: "escape_iac (b # bs) = (if b = IAC then [IAC, IAC] else [b]) @ escape_iac bs"
    by (simp add: escape_iac_def)
  have "feed p (if b = IAC then [IAC, IAC] else [b]) = (Inr (), p\<lparr>application := application p @ [b]\<rparr>)"
    using Cons.prems by (cases p) (simp add: feed_byte_def)
  with Cons show ?case by (simp add: s feed_append)
qed

section \<open>Replies\<close>

definition silent_reply :: "bytes \<Rightarrow> bool" where
  "silent_reply w \<longleftrightarrow> (\<exists>opt. w = [IAC, DONT, opt] \<or> w = [IAC, WONT, opt]) \<or>
     w = [IAC, SB, OPT_TERMINAL_TYPE, TERMINAL_TYPE_SEND, IAC, SE]"

lemma silent_reply_silent:
  "silent_reply w \<Longrightarrow> pstate p = Data \<Longrightarrow>
     \<exists>q. feed p w = (Inr (), q) \<and> outbound q = outbound p \<and> application q = application p \<and> pstate q = Data"
  by (auto simp: silent_reply_def feed_byte_def finish_subnegotiation_def handle_negotiation_def
      MAX_SUBNEGOTIATION_BYTES_def Let_def)

lemma handle_negotiation_outbound:
  "\<exists>ws. outbound (handle_negotiation p c opt) = outbound p @ concat ws \<and> length ws \<le> 1 \<and> list_all silent_reply ws"
proof -
  let ?w = "if c = WILL \<and> opt = OPT_TERMINAL_TYPE
      then [[IAC, SB, OPT_TERMINAL_TYPE, TERMINAL_TYPE_SEND, IAC, SE]]
    else if c = WILL \<and> opt \<notin> {OPT_BINARY, OPT_TERMINAL_TYPE, OPT_NAWS} then [[IAC, DONT, opt]]
    else if c = DO \<and> opt \<notin> {OPT_BINARY, OPT_ECHO, OPT_SUPPRESS_GO_AHEAD} then [[IAC, WONT, opt]]
    else []"
  have "outbound (handle_negotiation p c opt) = outbound p @ concat ?w"
    by (simp add: handle_negotiation_def Let_def)
  moreover have "length ?w \<le> 1 \<and> list_all silent_reply ?w" by (simp add: silent_reply_def)
  ultimately show ?thesis by blast
qed

lemma feed_byte_outbound:
  "feed_byte p b = (r, q) \<Longrightarrow>
     \<exists>ws. outbound q = outbound p @ concat ws \<and> length ws \<le> 1 \<and> list_all silent_reply ws"
proof -
  assume f: "feed_byte p b = (r, q)"
  have same: "outbound q = outbound p \<Longrightarrow> ?thesis" by (intro exI [of _ "[]"]) simp
  show ?thesis
  proof (cases "pstate p")
    case (Negotiation c)
    then show ?thesis
      using f handle_negotiation_outbound [of "p\<lparr>pstate := Data\<rparr>" c b] by (simp add: feed_byte_def)
  next
    case (Subnegotiation opt payload after_iac)
    then show ?thesis
      using f by (intro same, cases opt)
        (auto simp: feed_byte_def Let_def split: if_splits dest!: finish_subnegotiation_frame)
  next
    case Data
    then show ?thesis using f by (intro same) (auto simp: feed_byte_def Let_def split: if_splits)
  next
    case Iac
    then show ?thesis using f by (intro same) (auto simp: feed_byte_def Let_def split: if_splits)
  qed
qed

lemma feed_outbound:
  "feed p bs = (r, q) \<Longrightarrow>
     \<exists>ws. outbound q = outbound p @ concat ws \<and> length ws \<le> length bs \<and> list_all silent_reply ws"
proof (induction p bs rule: feed.induct)
  case (2 p b bs)
  obtain r' p' where f: "feed_byte p b = (r', p')" by force
  from feed_byte_outbound [OF f] obtain ws where
    ws: "outbound p' = outbound p @ concat ws" "length ws \<le> 1" "list_all silent_reply ws" by blast
  show ?case
  proof (cases r')
    case (Inl e)
    then show ?thesis using f ws "2.prems" by (intro exI [of _ ws]) auto
  next
    case (Inr u)
    from "2.IH" [OF f [symmetric] Inr] "2.prems" f Inr obtain vs where
      "outbound q = outbound p' @ concat vs" "length vs \<le> length bs" "list_all silent_reply vs" by auto
    with ws show ?thesis by (intro exI [of _ "ws @ vs"]) auto
  qed
qed (intro exI [of _ "[]"]; simp)

section \<open>What the peer can set\<close>

definition announced_ok :: "telnet_protocol \<Rightarrow> bool" where
  "announced_ok p \<longleftrightarrow>
     (\<forall>t. terminal_type p = Some t \<longrightarrow> t \<noteq> [] \<and> length t \<le> 64 \<and> list_all (\<lambda>c. ascii_graphic (ord c)) t) \<and>
     (\<forall>w. window p = Some w \<longrightarrow> 0 < width w \<and> 0 < height w)"

lemma finish_subnegotiation_announced:
  "finish_subnegotiation p opt d = (r, q) \<Longrightarrow> announced_ok p \<Longrightarrow> announced_ok q"
  by (auto simp: finish_subnegotiation_def announced_ok_def Let_def from_bytes_def list_all_iff split: if_splits)

lemma announced_ok_update [simp]:
  "announced_ok (p\<lparr>pstate := x\<rparr>) = announced_ok p" "announced_ok (p\<lparr>application := a\<rparr>) = announced_ok p"
  "announced_ok (handle_negotiation p c opt) = announced_ok p"
  by (simp_all add: announced_ok_def)

lemma feed_byte_announced: "feed_byte p b = (r, q) \<Longrightarrow> announced_ok p \<Longrightarrow> announced_ok q"
proof (cases "pstate p")
  case (Subnegotiation opt payload after_iac)
  then show "feed_byte p b = (r, q) \<Longrightarrow> announced_ok p \<Longrightarrow> ?thesis"
    by (cases opt) (auto simp: feed_byte_def Let_def split: if_splits dest: finish_subnegotiation_announced)
qed (auto simp: feed_byte_def Let_def split: if_splits)

lemma feed_announced: "feed p bs = (r, q) \<Longrightarrow> announced_ok p \<Longrightarrow> announced_ok q"
proof (induction p bs rule: feed.induct)
  case (2 p b bs)
  obtain r' p' where f: "feed_byte p b = (r', p')" by force
  with "2.prems" "2.IH" [OF f [symmetric]] feed_byte_announced [OF f] show ?case
    by (auto split: sum.splits)
qed simp

section \<open>Segmentation\<close>

text \<open>The queues only grow, and what is in them does not influence the parser.\<close>

abbreviation queues :: "telnet_protocol \<Rightarrow> bytes \<Rightarrow> bytes \<Rightarrow> telnet_protocol" where
  "queues p a w \<equiv> p\<lparr>application := a, outbound := w\<rparr>"

lemma handle_negotiation_queues:
  "\<exists>w. handle_negotiation p c opt = (handle_negotiation p c opt)\<lparr>outbound := outbound p @ w\<rparr> \<and>
     (\<forall>a v. handle_negotiation (queues p a v) c opt = queues (handle_negotiation p c opt) a (v @ w))"
proof -
  let ?w = "if c = WILL \<and> opt = OPT_TERMINAL_TYPE
      then [IAC, SB, OPT_TERMINAL_TYPE, TERMINAL_TYPE_SEND, IAC, SE]
    else if c = WILL \<and> opt \<notin> {OPT_BINARY, OPT_TERMINAL_TYPE, OPT_NAWS} then [IAC, DONT, opt]
    else if c = DO \<and> opt \<notin> {OPT_BINARY, OPT_ECHO, OPT_SUPPRESS_GO_AHEAD} then [IAC, WONT, opt]
    else []"
  show ?thesis by (intro exI [of _ ?w]) (cases p, simp add: handle_negotiation_def Let_def)
qed

lemma finish_subnegotiation_queues:
  "finish_subnegotiation (queues p a v) opt d =
     (fst (finish_subnegotiation p opt d), queues (snd (finish_subnegotiation p opt d)) a v)"
  by (simp add: finish_subnegotiation_def Let_def)

lemma queues_pstate: "(queues p a v)\<lparr>pstate := x\<rparr> = queues (p\<lparr>pstate := x\<rparr>) a v"
  by (cases p) simp

lemma feed_byte_queues:
  "\<exists>d w. application (snd (feed_byte p b)) = application p @ d \<and> outbound (snd (feed_byte p b)) = outbound p @ w \<and>
     (\<forall>a v. feed_byte (queues p a v) b = (fst (feed_byte p b), queues (snd (feed_byte p b)) (a @ d) (v @ w)))"
proof (cases "pstate p")
  case Data
  then show ?thesis
    by (intro exI [of _ "if b = IAC then [] else [b]"] exI [of _ "[]"]) (cases p, simp add: feed_byte_def Let_def)
next
  case Iac
  then show ?thesis
    by (intro exI [of _ "if b = IAC then [b] else []"] exI [of _ "[]"]) (cases p, simp add: feed_byte_def Let_def)
next
  case (Negotiation c)
  from handle_negotiation_queues [of "p\<lparr>pstate := Data\<rparr>" c b] obtain w where
    w: "handle_negotiation (p\<lparr>pstate := Data\<rparr>) c b =
        (handle_negotiation (p\<lparr>pstate := Data\<rparr>) c b)\<lparr>outbound := outbound p @ w\<rparr>"
      "\<And>a v. handle_negotiation (queues (p\<lparr>pstate := Data\<rparr>) a v) c b =
        queues (handle_negotiation (p\<lparr>pstate := Data\<rparr>) c b) a (v @ w)"
    by auto
  have fb: "feed_byte p b = (Inr (), handle_negotiation (p\<lparr>pstate := Data\<rparr>) c b)"
    "feed_byte (queues p a v) b = (Inr (), handle_negotiation (queues (p\<lparr>pstate := Data\<rparr>) a v) c b)" for a v
    using Negotiation by (simp_all add: feed_byte_def Let_def queues_pstate)
  have "outbound (handle_negotiation (p\<lparr>pstate := Data\<rparr>) c b) = outbound p @ w"
    using arg_cong [OF w(1), of outbound] by simp
  then show ?thesis
    using w(2) by (intro exI [of _ "[]"] exI [of _ w]) (simp add: fb)
next
  case (Subnegotiation opt payload after_iac)
  have f: "application (snd (finish_subnegotiation q o' d)) = application q"
    "outbound (snd (finish_subnegotiation q o' d)) = outbound q" for q o' d
    by (simp_all add: finish_subnegotiation_def Let_def)
  show ?thesis
    using Subnegotiation finish_subnegotiation_queues [where p = "p\<lparr>pstate := Data\<rparr>"]
    by (intro exI [of _ "[]"] exI [of _ "[]"], cases opt)
      (simp_all add: feed_byte_def Let_def f queues_pstate)
qed

lemma feed_queues:
  "\<exists>d w. application (snd (feed p bs)) = application p @ d \<and> outbound (snd (feed p bs)) = outbound p @ w \<and>
     (\<forall>a v. feed (queues p a v) bs = (fst (feed p bs), queues (snd (feed p bs)) (a @ d) (v @ w)))"
proof (induction bs arbitrary: p)
  case (Cons b bs)
  obtain r q where f: "feed_byte p b = (r, q)" by force
  from feed_byte_queues [of p b] obtain d w where
    q: "application q = application p @ d" "outbound q = outbound p @ w"
      "\<And>a v. feed_byte (queues p a v) b = (r, queues q (a @ d) (v @ w))"
    by (auto simp: f)
  show ?case
  proof (cases r)
    case (Inl e)
    then show ?thesis using q f by auto
  next
    case (Inr u)
    from Cons.IH [of q] obtain d' w' where
      "application (snd (feed q bs)) = application q @ d'" "outbound (snd (feed q bs)) = outbound q @ w'"
      "\<And>a v. feed (queues q a v) bs = (fst (feed q bs), queues (snd (feed q bs)) (a @ d') (v @ w'))"
      by auto
    with q f Inr show ?thesis by (intro exI [of _ "d @ d'"] exI [of _ "w @ w'"]) simp
  qed
qed (rule exI [of _ "[]"], rule exI [of _ "[]"], simp)

lemma feed_queues_Inr:
  assumes "feed p bs = (Inr (), q)"
  obtains d w where "application q = application p @ d" "outbound q = outbound p @ w"
    "\<And>a v. feed (queues p a v) bs = (Inr (), queues q (a @ d) (v @ w))"
  using feed_queues [of p bs] assms by auto

lemma wire_items_prefix:
  "wire_items err (p\<lparr>application := d\<rparr>) evs = map Inr d @ wire_items err (p\<lparr>application := []\<rparr>) evs"
  by (cases evs) (simp_all add: Let_def)

text \<open>Chunks the peer sent, whose bytes the parser accepts.\<close>

lemma wire_items_chunks:
  "feed p (concat cs) = (Inr (), q) \<Longrightarrow> [] \<notin> set cs \<Longrightarrow>
     wire_items None (queues p [] []) (map Got cs @ events) =
       map Inr (drop (length (application p)) (application q)) @ wire_items None (queues q [] []) events"
proof (induction cs arbitrary: p)
  case (Cons c cs)
  from Cons.prems(1) obtain u where c: "feed p c = (Inr (), u)" and cs: "feed u (concat cs) = (Inr (), q)"
    by (auto simp: feed_append split: prod.splits sum.splits)
  from feed_queues_Inr [OF c] obtain d w where u: "application u = application p @ d"
    and fc: "\<And>a v. feed (queues p a v) c = (Inr (), queues u (a @ d) (v @ w))" by metis
  from feed_queues_Inr [OF cs] obtain d' w' where q: "application q = application u @ d'" by metis
  have ne: "c \<noteq> []" and cs': "[] \<notin> set cs" using Cons.prems(2) by auto
  have "wire_items None (queues p [] []) (map Got (c # cs) @ events) =
      wire_items None (queues u d []) (map Got cs @ events)"
    using ne fc [of "[]" "[]"] by (simp add: Let_def)
  also have "\<dots> = map Inr d @ wire_items None (queues u [] []) (map Got cs @ events)"
  proof -
    have eq: "queues u x [] = (u\<lparr>outbound := []\<rparr>)\<lparr>application := x\<rparr>" for x by (cases u) simp
    show ?thesis unfolding eq by (rule wire_items_prefix)
  qed
  also have "wire_items None (queues u [] []) (map Got cs @ events) =
      map Inr d' @ wire_items None (queues q [] []) events"
    using Cons.IH [OF cs cs'] q by simp
  finally show ?case using u q by simp
qed (simp add: Let_def)

section \<open>Properties\<close>

text \<open>
  C6.  The Telnet line reader implements the shared one: on a terminal with no partial line, for
  every echo mode, its answer, its CR/LF memory and the bytes it leaves are those of the plain
  reader on a stream that delivers the same application bytes and errors.
\<close>

theorem telnet_line_refines:
  assumes "send_error s = None" and "line s = []" and "terminal_items s = stream_items q"
  shows "\<exists>r k s' q'. read_terminal_line maximum echo s = (r, s') \<and>
    read_bounded_line maximum (skip_lf s) q = (r, k, q') \<and>
    skip_lf s' = k \<and> terminal_items s' = stream_items q'"
proof -
  obtain r s' where t: "read_terminal_line maximum echo s = (r, s')" by force
  obtain r' k q' where b: "read_bounded_line maximum (skip_lf s) q = (r', k, q')" by (metis prod.exhaust)
  have "seen (r, s') = (r', k, stream_items q')"
    using read_terminal_line_items [OF assms(1), of maximum echo] read_bounded_line_items [OF b] assms t by simp
  with t b show ?thesis by (auto simp: seen_def)
qed

definition sample_terminal :: telnet_terminal where
  "sample_terminal =
     \<lparr>input = [Got [72, 105], Got [IAC, WILL, OPT_NAWS, 33, CR]], sent = [], send_error = None,
      protocol = new_protocol, caps = \<lparr>cap_type = None, cap_ansi = False, cap_size = None\<rparr>,
      line = [], skip_lf = False\<rparr>"

theorem telnet_line_refines_witness:
  "\<exists>r k s' q'. read_terminal_line 80 True sample_terminal = (r, s') \<and>
    read_bounded_line 80 False [Got 72, Got 105, Raised KInterrupted, Got 33, Got CR] = (r, k, q') \<and>
    skip_lf s' = k \<and> terminal_items s' = stream_items q'"
proof -
  have "terminal_items sample_terminal = stream_items [Got 72, Got 105, Raised KInterrupted, Got 33, Got CR]"
    by (simp add: terminal_items_def sample_terminal_def new_protocol_def feed_byte_def handle_negotiation_def Let_def)
  from telnet_line_refines [OF _ _ this, of 80 True] show ?thesis by (simp add: sample_terminal_def)
qed

text \<open>
  C29.  Written data is transparent: whatever bytes are written, the peer's parser, in its data
  state, delivers exactly those bytes, changes nothing else and has nothing to reply.
\<close>

theorem telnet_write_transparent:
  assumes "send_error s = None" and "pstate p = Data"
  shows "\<exists>w. telnet_write_all s bs = (Inr (), s\<lparr>sent := sent s @ w\<rparr>) \<and>
    feed p w = (Inr (), p\<lparr>application := application p @ bs\<rparr>)"
  using write_segments_up [OF assms(1), of bs] feed_escaped [OF assms(2), of bs]
  by (auto simp: telnet_write_all_def)

theorem telnet_write_transparent_witness:
  "\<exists>w. telnet_write_all sample_terminal [1, IAC, 2] = (Inr (), sample_terminal\<lparr>sent := sent sample_terminal @ w\<rparr>) \<and>
    feed new_protocol w = (Inr (), new_protocol\<lparr>application := application new_protocol @ [1, IAC, 2]\<rparr>)"
  by (rule telnet_write_transparent) (simp_all add: sample_terminal_def new_protocol_def)

text \<open>
  C28.  Negotiation cannot loop: whatever the peer sends, at most one reply is queued per byte
  received, and each of them, arriving at a parser like this one, is taken without an error and
  without drawing a reply.
\<close>

theorem telnet_no_negotiation_loop:
  "\<exists>ws. outbound (snd (feed p bs)) = outbound p @ concat ws \<and> length ws \<le> length bs \<and>
     (\<forall>w \<in> set ws. \<forall>p'. pstate p' = Data \<longrightarrow> (\<exists>q. feed p' w = (Inr (), q) \<and> outbound q = outbound p' \<and>
       application q = application p' \<and> pstate q = Data))"
proof -
  obtain r q where f: "feed p bs = (r, q)" by force
  from feed_outbound [OF f] obtain ws where
    "outbound q = outbound p @ concat ws" "length ws \<le> length bs" "list_all silent_reply ws" by blast
  with silent_reply_silent show ?thesis
    by (intro exI [of _ ws]) (simp add: f list_all_iff)
qed

theorem telnet_no_negotiation_loop_witness:
  "\<exists>ws. outbound (snd (feed new_protocol [IAC, DO, 99])) = concat ws \<and> length ws \<le> 3 \<and>
     (\<forall>w \<in> set ws. \<exists>q. feed new_protocol w = (Inr (), q) \<and> outbound q = [])"
proof -
  have n: "pstate new_protocol = Data" "outbound new_protocol = []" by (simp_all add: new_protocol_def)
  from telnet_no_negotiation_loop [of new_protocol "[IAC, DO, 99]"] obtain ws where
    ws: "outbound (snd (feed new_protocol [IAC, DO, 99])) = outbound new_protocol @ concat ws"
      "length ws \<le> length [IAC, DO, 99]"
      "\<forall>w \<in> set ws. \<forall>p'. pstate p' = Data \<longrightarrow> (\<exists>q. feed p' w = (Inr (), q) \<and>
         outbound q = outbound p' \<and> application q = application p' \<and> pstate q = Data)"
    by blast
  have "\<forall>w \<in> set ws. \<exists>q. feed new_protocol w = (Inr (), q) \<and> outbound q = []"
    using ws(3) n by (metis (no_types, lifting))
  moreover have "length ws \<le> 3" using ws(2) by simp
  ultimately show ?thesis using ws(1) n(2) by (intro exI [of _ ws]) simp
qed

text \<open>
  C30.  Segmentation is invisible: however the bytes of an accepted conversation are cut into
  reads, a fresh terminal delivers the same application bytes.
\<close>

theorem telnet_segmentation:
  assumes "feed new_protocol (concat cs) = (Inr (), q)" and "[] \<notin> set cs"
    and "send_error s = None" and "protocol s = new_protocol" and "input s = map Got cs"
  shows "terminal_items s = map Inr (application q)"
proof -
  have "queues new_protocol [] [] = new_protocol" "application new_protocol = []"
    by (simp_all add: new_protocol_def)
  with wire_items_chunks [OF assms(1,2), of "[]"] show ?thesis
    by (simp add: terminal_items_def assms(3-5))
qed

theorem telnet_segmentation_witness:
  "terminal_items (sample_terminal\<lparr>input := map Got [[IAC], [DO, 99], [71]]\<rparr>) = [Inr 71]"
proof -
  have "feed new_protocol (concat [[IAC], [DO, 99], [71]]) =
      (Inr (), new_protocol\<lparr>application := [71], outbound := [IAC, WONT, 99]\<rparr>)"
    by (simp add: feed_byte_def handle_negotiation_def new_protocol_def Let_def)
  from telnet_segmentation [OF this, of "sample_terminal\<lparr>input := map Got [[IAC], [DO, 99], [71]]\<rparr>"]
  show ?thesis by (simp add: sample_terminal_def)
qed

text \<open>
  What a peer can announce is bounded: whatever it sends, errors included, the recorded
  terminal type is one to 64 printable ASCII characters and the recorded window has a width and
  a height.
\<close>

theorem telnet_announcements_bounded:
  "announced_ok (snd (feed new_protocol bs))"
  using feed_announced [of new_protocol bs] by (cases "feed new_protocol bs") (simp add: announced_ok_def new_protocol_def)

text \<open>
  The limit of 1024 bytes on a subnegotiation does not hold for escaped IACs: they are
  appended without the check, so a peer can make the buffered payload as long as it likes.
\<close>

theorem telnet_escaped_payload_unbounded:
  "feed new_protocol ([IAC, SB, opt] @ concat (replicate n [IAC, IAC])) =
     (Inr (), new_protocol\<lparr>pstate := Subnegotiation (Some opt) (replicate n IAC) False\<rparr>)"
proof -
  have "feed (new_protocol\<lparr>pstate := Subnegotiation (Some opt) d False\<rparr>) (concat (replicate n [IAC, IAC])) =
      (Inr (), new_protocol\<lparr>pstate := Subnegotiation (Some opt) (d @ replicate n IAC) False\<rparr>)" for d
    by (induction n arbitrary: d) (simp_all add: feed_byte_def)
  from this [of "[]"] show ?thesis by (simp add: feed_append feed_byte_def new_protocol_def)
qed

end
