(* ===== verification/Caller_Session.thy ===== *)
theory Caller_Session
  imports Interfaces
begin

text \<open>
  The identifiers of \<open>crates/sf-core/src\<close> (\<open>session.rs\<close>, \<open>node.rs\<close>, \<open>caller.rs\<close>) and the
  life of one \<open>Session\<close>: created for a node, activated, authenticated, closed with a reason.
  Instants of the monotonic clock are numbers.  The life is also given as a step relation, and
  what every reachable session satisfies is proved by rule induction.
\<close>

type_synonym session_id = u64
type_synonym node_id = u32
type_synonym caller_id = int

datatype session_state = Created | Active | Closed

datatype authentication_state =
    NotStarted
  | Unauthenticated
  | ExistingCallerLogin
  | NewCallerRegistration
  | Authenticated caller_id

datatype close_reason =
    Goodbye | EndOfInput | TransportLost | AuthenticationFailed | LoginTimeout
  | RegistrationTimeout | AccountUnavailable | TimeLimit | Inactivity | OperatorDisconnect
  | BoardShutdown

datatype session_error =
    InvalidSessionId u64
  | InvalidTransition session_state string

record session =
  sess_id :: session_id
  sess_node :: node_id
  sess_state :: session_state
  authentication :: authentication_state
  sess_close :: "close_reason option"
  authenticated_at :: "nat option"
  authenticated_unix_seconds :: "int option"

text \<open>Identifiers are never zero.\<close>

definition new_session_id :: "u64 \<Rightarrow> session_error + session_id" where
  "new_session_id v = (if v = 0 then Inl (InvalidSessionId v) else Inr v)"

definition session_new :: "session_id \<Rightarrow> node_id \<Rightarrow> session" where
  "session_new i n =
     \<lparr>sess_id = i, sess_node = n, sess_state = Created, authentication = NotStarted,
      sess_close = None, authenticated_at = None, authenticated_unix_seconds = None\<rparr>"

definition activate :: "session \<Rightarrow> session_error + session" where
  "activate s =
     (if sess_state s \<noteq> Created then Inl (InvalidTransition (sess_state s) ''activate'')
      else Inr (s\<lparr>sess_state := Active, authentication := Unauthenticated\<rparr>))"

definition set_authentication :: "session \<Rightarrow> authentication_state \<Rightarrow> session_error + session" where
  "set_authentication s a =
     (if sess_state s \<noteq> Active
      then Inl (InvalidTransition (sess_state s) ''change authentication state for'')
      else Inr (s\<lparr>authentication := a\<rparr>))"

definition mark_authenticated :: "session \<Rightarrow> caller_id \<Rightarrow> nat \<Rightarrow> int \<Rightarrow> session_error + session" where
  "mark_authenticated s caller instant now =
     attempt (set_authentication s (Authenticated caller)) (\<lambda>s.
       Inr (s\<lparr>authenticated_at := Some instant, authenticated_unix_seconds := Some now\<rparr>))"

definition session_close :: "session \<Rightarrow> close_reason \<Rightarrow> session_error + session" where
  "session_close s reason =
     (if sess_state s \<noteq> Active then Inl (InvalidTransition (sess_state s) ''close'')
      else Inr (s\<lparr>sess_state := Closed, sess_close := Some reason\<rparr>))"

section \<open>The life of a session\<close>

text \<open>
  The crate's code sets the authentication state directly only to the login and the registration
  state; \<open>mark_authenticated\<close> is the one way into \<open>Authenticated\<close>.
\<close>

inductive session_step :: "session \<Rightarrow> session \<Rightarrow> bool" where
  activate_step: "activate s = Inr t \<Longrightarrow> session_step s t"
| authentication_step:
    "a = ExistingCallerLogin \<or> a = NewCallerRegistration \<Longrightarrow>
       set_authentication s a = Inr t \<Longrightarrow> session_step s t"
| authenticated_step: "mark_authenticated s c i now = Inr t \<Longrightarrow> session_step s t"
| close_step: "session_close s r = Inr t \<Longrightarrow> session_step s t"

inductive_cases session_stepE: "session_step s t"
inductive_simps session_step_simps: "session_step s t"

inductive session_reachable :: "session_id \<Rightarrow> node_id \<Rightarrow> session \<Rightarrow> bool" for i n where
  reach_new: "session_reachable i n (session_new i n)"
| reach_step: "session_reachable i n s \<Longrightarrow> session_step s t \<Longrightarrow> session_reachable i n t"

lemmas session_defs = activate_def set_authentication_def mark_authenticated_def session_close_def

fun phase :: "session_state \<Rightarrow> nat" where
  "phase Created = 0"
| "phase Active = 1"
| "phase Closed = 2"

lemma session_step_phase:
  "session_step s t \<Longrightarrow> phase (sess_state s) \<le> phase (sess_state t) \<and> sess_state s \<noteq> Closed"
  by (erule session_stepE) (auto simp: session_defs result_simps)

definition session_ok :: "session_id \<Rightarrow> node_id \<Rightarrow> session \<Rightarrow> bool" where
  "session_ok i n s \<longleftrightarrow> sess_id s = i \<and> sess_node s = n \<and>
     (sess_close s \<noteq> None \<longleftrightarrow> sess_state s = Closed) \<and>
     (authentication s = NotStarted \<longleftrightarrow> sess_state s = Created) \<and>
     (authenticated_at s = None \<longleftrightarrow> authenticated_unix_seconds s = None) \<and>
     ((\<exists>c. authentication s = Authenticated c) \<longrightarrow> authenticated_unix_seconds s \<noteq> None)"

lemma session_step_ok: "session_step s t \<Longrightarrow> session_ok i n s \<Longrightarrow> session_ok i n t"
  by (erule session_stepE) (auto simp: session_defs session_ok_def result_simps)

section \<open>Properties\<close>

text \<open>
  Every session that the program can reach keeps its identity, has a close reason exactly
  when it is closed, has not started authentication exactly while it is only created, and has
  its accounting clock set whenever a caller is authenticated.
\<close>

theorem reachable_session_ok:
  assumes "session_reachable i n s"
  shows "session_ok i n s"
  using assms
proof induction
  case reach_new
  show ?case by (simp add: session_ok_def session_new_def)
next
  case (reach_step s t)
  then show ?case by (blast intro: session_step_ok)
qed

theorem reachable_session_ok_witness:
  "session_ok 7 1 (session_new 7 1\<lparr>sess_state := Active, authentication := Authenticated 5,
     authenticated_at := Some 10, authenticated_unix_seconds := Some 100\<rparr>)"
proof -
  let ?a = "session_new 7 1\<lparr>sess_state := Active, authentication := Unauthenticated\<rparr>"
  have "session_reachable 7 1 ?a"
    by (rule reach_step [OF reach_new activate_step]) (simp add: activate_def session_new_def)
  then have "session_reachable 7 1 (session_new 7 1\<lparr>sess_state := Active, authentication := Authenticated 5,
     authenticated_at := Some 10, authenticated_unix_seconds := Some 100\<rparr>)"
    by (rule reach_step [OF _ authenticated_step [where c = 5 and i = 10 and now = 100]])
      (simp add: session_defs session_new_def)
  then show ?thesis by (rule reachable_session_ok)
qed

end
