(* ===== verification/Node_Manager.thy ===== *)
theory Node_Manager
  imports Caller_Session "HOL-Library.Sublist"
begin

text \<open>
  \<open>crates/sf-core/src/node.rs\<close>: the pool of configured nodes that every transport acquires a
  node from, and the lease a session holds on it.  Each method takes the pool's mutex, so its
  body is one step; \<open>lock_poisoned\<close> and \<open>notify_poisoned\<close> say that a thread panicked while
  it held the mutex of the nodes or of the notifications.  The change hook is the caller's
  code: \<open>published\<close> lists what it was called with.
\<close>

datatype node_error =
    InvalidNodeNumber u32
  | NoConfiguredNodes
  | DefinitionsNotStrictlyOrdered
  | AllNodesBusy
  | UnknownNode u32
  | SessionMismatch u32 "u64 option" u64
  | SessionNotClosed u32 u64
  | LeaseSessionMismatch
  | CoordinationPoisoned

datatype node_runtime_state =
    Waiting | Connecting | Login | Online | PagePending | Chatting | Downloading | Uploading
  | Disconnecting | Disabled

datatype transport_kind =
    InMemory | TelnetTransport | RawTcp | Rlogin | UnixShell | Ssh | DirectSerial | HayesModem

datatype transfer_direction = Download | Upload

datatype menu_renderer_path =
    ExactSecurityBoardOverride | ExactSecurityActiveProfile | GeneratedStock | ExpertSuppressed

record presentation_context =
  terminal_type_name :: "string option"
  ansi :: bool
  encoding :: string
  columns :: "u16 option"
  rows :: "u16 option"
  page_length :: "u16 option"
  locale_name :: string
  presentation_profile :: string
  menu_mode :: string
  menu_context :: "string option"
  renderer_path :: "menu_renderer_path option"
  caller_security :: "u16 option"
  sysop_threshold :: u16
  visible_action_count :: "nat option"

record node_definition =
  def_id :: node_id
  enabled :: bool
  description :: "string option"

record node_snapshot =
  snap_id :: node_id
  snap_description :: "string option"
  snap_state :: node_runtime_state
  snap_session :: "session_id option"
  snap_generation :: "u64 option"
  snap_caller :: "caller_id option"
  snap_caller_name :: "string option"
  snap_transport :: "transport_kind option"
  snap_connected_at :: "int option"
  snap_activity_file :: "string option"
  snap_presentation :: "presentation_context option"

record node_slot =
  slot_definition :: node_definition
  state :: node_runtime_state
  occupant :: "session_id option"
  occupancy_generation :: u64
  caller :: "caller_id option"
  caller_name :: "string option"
  transport :: "transport_kind option"
  connected_at :: "int option"
  activity_file :: "string option"
  presentation :: "presentation_context option"

record manager =
  nodes :: "node_slot list"
  change_hook :: bool
  published :: "node_snapshot list list"
  lock_poisoned :: bool
  notify_poisoned :: bool

record lease =
  lease_node :: node_id
  lease_session :: session_id
  lease_generation :: u64
  released :: bool

definition new_node_id :: "u32 \<Rightarrow> node_error + node_id" where
  "new_node_id v = (if v = 0 then Inl (InvalidNodeNumber v) else Inr v)"

section \<open>Slots\<close>

definition snapshot :: "node_slot \<Rightarrow> node_snapshot" where
  "snapshot n =
     \<lparr>snap_id = def_id (slot_definition n), snap_description = description (slot_definition n),
      snap_state = state n, snap_session = occupant n,
      snap_generation = map_option (\<lambda>_. occupancy_generation n) (occupant n),
      snap_caller = caller n, snap_caller_name = caller_name n, snap_transport = transport n,
      snap_connected_at = connected_at n, snap_activity_file = activity_file n,
      snap_presentation = presentation n\<rparr>"

definition idle_state :: "node_definition \<Rightarrow> node_runtime_state" where
  "idle_state d = (if enabled d then Waiting else Disabled)"

definition clear :: "node_slot \<Rightarrow> node_slot" where
  "clear n = n\<lparr>state := idle_state (slot_definition n), occupant := None, caller := None,
     caller_name := None, transport := None, connected_at := None, activity_file := None,
     presentation := None\<rparr>"

definition fresh_slot :: "node_definition \<Rightarrow> node_slot" where
  "fresh_slot d =
     \<lparr>slot_definition = d, state = idle_state d, occupant = None, occupancy_generation = 0,
      caller = None, caller_name = None, transport = None, connected_at = None,
      activity_file = None, presentation = None\<rparr>"

text \<open>\<open>checked_add(1).unwrap_or(1)\<close>.\<close>

definition next_generation :: "u64 \<Rightarrow> u64" where
  "next_generation g = (if g = - 1 then 1 else g + 1)"

section \<open>The pool\<close>

definition lock :: "manager \<Rightarrow> node_error + node_slot list" where
  "lock m = (if lock_poisoned m then Inl CoordinationPoisoned else Inr (nodes m))"

definition snapshots :: "manager \<Rightarrow> node_error + node_snapshot list" where
  "snapshots m = attempt (lock m) (\<lambda>ns. Inr (map snapshot ns))"

definition notify :: "manager \<Rightarrow> (node_error + unit) \<times> manager" where
  "notify m =
     (if notify_poisoned m then (Inl CoordinationPoisoned, m)
      else if change_hook m then
        (case snapshots m of
           Inl e \<Rightarrow> (Inl e, m)
         | Inr ss \<Rightarrow> (Inr (), m\<lparr>published := published m @ [ss]\<rparr>))
      else (Inr (), m))"

fun build_slots :: "node_id option \<Rightarrow> node_definition list \<Rightarrow> node_error + node_slot list" where
  "build_slots previous [] = Inr []"
| "build_slots previous (d # ds) =
     (if (case previous of None \<Rightarrow> False | Some v \<Rightarrow> v \<ge> def_id d) then Inl DefinitionsNotStrictlyOrdered
      else attempt (build_slots (Some (def_id d)) ds) (\<lambda>ns. Inr (fresh_slot d # ns)))"

definition with_change_hook :: "node_definition list \<Rightarrow> bool \<Rightarrow> node_error + manager" where
  "with_change_hook ds has_hook =
     (if ds = [] then Inl NoConfiguredNodes
      else attempt (build_slots None ds) (\<lambda>ns.
        (case notify \<lparr>nodes = ns, change_hook = has_hook, published = [], lock_poisoned = False,
                      notify_poisoned = False\<rparr> of
           (Inl e, m) \<Rightarrow> Inl e
         | (Inr _, m) \<Rightarrow> Inr m)))"

text \<open>\<open>iter_mut().find\<close> and a change of what it finds.\<close>

fun update_first :: "('a \<Rightarrow> bool) \<Rightarrow> ('a \<Rightarrow> 'a) \<Rightarrow> 'a list \<Rightarrow> 'a list" where
  "update_first p f [] = []"
| "update_first p f (x # xs) = (if p x then f x # xs else x # update_first p f xs)"

definition acquire ::
    "session_id \<Rightarrow> transport_kind \<Rightarrow> int \<Rightarrow> manager \<Rightarrow> (node_error + lease) \<times> manager" where
  "acquire sid kind now m =
     (case lock m of
        Inl e \<Rightarrow> (Inl e, m)
      | Inr ns \<Rightarrow>
          (case find (\<lambda>n. state n = Waiting) ns of
             None \<Rightarrow> (Inl AllNodesBusy, m)
           | Some n \<Rightarrow>
               (let m = m\<lparr>nodes := update_first (\<lambda>n. state n = Waiting)
                      (\<lambda>n. n\<lparr>state := Connecting, occupant := Some sid,
                             occupancy_generation := next_generation (occupancy_generation n),
                             transport := Some kind, connected_at := Some now\<rparr>) ns\<rparr>;
                    nid = def_id (slot_definition n)
                in chain (notify m) (\<lambda>_ m.
                  (case snapshots m of
                     Inl e \<Rightarrow> (Inl e, m)
                   | Inr ss \<Rightarrow>
                       (Inr \<lparr>lease_node = nid, lease_session = sid,
                             lease_generation =
                               (case Option.bind (find (\<lambda>s. snap_id s = nid) ss) snap_generation of
                                  None \<Rightarrow> 1 | Some g \<Rightarrow> g),
                             released = False\<rparr>, m))))))"

definition available :: "manager \<Rightarrow> node_error + nat" where
  "available m = attempt (lock m) (\<lambda>ns. Inr (length (filter (\<lambda>n. state n = Waiting) ns)))"

definition with_session_target ::
    "node_id \<Rightarrow> session_id \<Rightarrow> u64 \<Rightarrow> (node_snapshot \<Rightarrow> 't) \<Rightarrow> manager \<Rightarrow> node_error + 't option" where
  "with_session_target nid sid occupancy transition m =
     attempt (lock m) (\<lambda>ns. Inr (map_option (\<lambda>n. transition (snapshot n))
       (find (\<lambda>n. def_id (slot_definition n) = nid \<and> occupant n = Some sid \<and>
                  occupancy_generation n = occupancy) ns)))"

text \<open>
  The part that \<open>update\<close>, \<open>update_transfer\<close>, \<open>update_presentation\<close> and \<open>release\<close> repeat: find
  the node, check that the session owns it, change it and notify.
\<close>

definition change_owned ::
    "node_id \<Rightarrow> session_id \<Rightarrow> (node_slot \<Rightarrow> node_slot) \<Rightarrow> manager \<Rightarrow> (node_error + unit) \<times> manager" where
  "change_owned nid sid f m =
     (case lock m of
        Inl e \<Rightarrow> (Inl e, m)
      | Inr ns \<Rightarrow>
          (case find (\<lambda>n. def_id (slot_definition n) = nid) ns of
             None \<Rightarrow> (Inl (UnknownNode nid), m)
           | Some n \<Rightarrow>
               if occupant n \<noteq> Some sid then (Inl (SessionMismatch nid (occupant n) sid), m)
               else notify (m\<lparr>nodes := update_first (\<lambda>n. def_id (slot_definition n) = nid) f ns\<rparr>)))"

definition keeps_activity :: "node_runtime_state \<Rightarrow> bool" where
  "keeps_activity st \<longleftrightarrow> st \<in> {Downloading, Uploading, PagePending, Chatting}"

definition update_slot :: "node_runtime_state \<Rightarrow> (caller_id \<times> string) option \<Rightarrow> node_slot \<Rightarrow> node_slot" where
  "update_slot st who n =
     (let n = n\<lparr>state := st\<rparr>;
          n = (if keeps_activity st then n else n\<lparr>activity_file := None\<rparr>)
      in case who of
           None \<Rightarrow> n
         | Some (i, name) \<Rightarrow> n\<lparr>caller := Some i, caller_name := Some name\<rparr>)"

definition update ::
    "node_id \<Rightarrow> session_id \<Rightarrow> node_runtime_state \<Rightarrow> (caller_id \<times> string) option \<Rightarrow> manager \<Rightarrow>
     (node_error + unit) \<times> manager" where
  "update nid sid st who m = change_owned nid sid (update_slot st who) m"

definition update_transfer ::
    "node_id \<Rightarrow> session_id \<Rightarrow> node_runtime_state \<Rightarrow> string \<Rightarrow> manager \<Rightarrow> (node_error + unit) \<times> manager" where
  "update_transfer nid sid st filename m =
     change_owned nid sid (\<lambda>n. n\<lparr>state := st, activity_file := Some filename\<rparr>) m"

definition update_presentation ::
    "node_id \<Rightarrow> session_id \<Rightarrow> presentation_context \<Rightarrow> manager \<Rightarrow> (node_error + unit) \<times> manager" where
  "update_presentation nid sid p m = change_owned nid sid (\<lambda>n. n\<lparr>presentation := Some p\<rparr>) m"

definition release_node :: "node_id \<Rightarrow> session_id \<Rightarrow> manager \<Rightarrow> (node_error + unit) \<times> manager" where
  "release_node nid sid m = change_owned nid sid clear m"

section \<open>Leases\<close>

definition start_session :: "lease \<Rightarrow> session" where
  "start_session l = session_new (lease_session l) (lease_node l)"

datatype lease_event =
    MarkLogin
  | MarkOnline caller_id string
  | MarkDisconnecting
  | TransferStarted transfer_direction string
  | TransferFinished
  | PagePendingEvent
  | ChatStarted
  | InteractionFinished
  | PresentationChanged presentation_context

text \<open>The methods of the lease and of its status observer.\<close>

fun observe :: "lease \<Rightarrow> lease_event \<Rightarrow> manager \<Rightarrow> (node_error + unit) \<times> manager" where
  "observe l MarkLogin m = update (lease_node l) (lease_session l) Login None m"
| "observe l (MarkOnline i name) m =
     update (lease_node l) (lease_session l) Online (Some (i, name)) m"
| "observe l MarkDisconnecting m = update (lease_node l) (lease_session l) Disconnecting None m"
| "observe l (TransferStarted d filename) m =
     update_transfer (lease_node l) (lease_session l)
       (case d of Download \<Rightarrow> Downloading | Upload \<Rightarrow> Uploading) filename m"
| "observe l TransferFinished m = update (lease_node l) (lease_session l) Online None m"
| "observe l PagePendingEvent m = update (lease_node l) (lease_session l) PagePending None m"
| "observe l ChatStarted m = update (lease_node l) (lease_session l) Chatting None m"
| "observe l InteractionFinished m = update (lease_node l) (lease_session l) Online None m"
| "observe l (PresentationChanged p) m =
     update_presentation (lease_node l) (lease_session l) p m"

text \<open>\<open>Drop\<close>: what happens to a lease that goes out of scope; its error is ignored.\<close>

definition lease_drop :: "lease \<Rightarrow> manager \<Rightarrow> manager" where
  "lease_drop l m =
     (if released l then m else snd (release_node (lease_node l) (lease_session l) m))"

text \<open>
  \<open>NodeLease::release\<close> consumes the lease, so on an error the lease is dropped, which releases
  the node after all.
\<close>

definition lease_release :: "lease \<Rightarrow> session \<Rightarrow> manager \<Rightarrow> (node_error + unit) \<times> manager" where
  "lease_release l s m =
     (if sess_id s \<noteq> lease_session l \<or> sess_node s \<noteq> lease_node l then
        (Inl LeaseSessionMismatch, lease_drop l m)
      else if sess_state s \<noteq> Closed then
        (Inl (SessionNotClosed (lease_node l) (lease_session l)), lease_drop l m)
      else
        (case release_node (lease_node l) (lease_session l) m of
           (Inl e, m) \<Rightarrow> (Inl e, lease_drop l m)
         | (Inr _, m) \<Rightarrow> (Inr (), lease_drop (l\<lparr>released := True\<rparr>) m)))"

section \<open>Finding and changing\<close>

lemma update_first_nth:
  assumes "i < length xs" "p (xs ! i)" "\<And>j. j < i \<Longrightarrow> \<not> p (xs ! j)"
  shows "update_first p f xs = xs[i := f (xs ! i)] \<and> find p xs = Some (xs ! i)"
  using assms
proof (induction xs arbitrary: i)
  case (Cons x xs)
  show ?case
  proof (cases i)
    case (Suc k)
    have "\<not> p x" using Cons.prems(3) [of 0] Suc by simp
    moreover have "\<not> p (xs ! j)" if "j < k" for j using Cons.prems(3) [of "Suc j"] Suc that by simp
    ultimately show ?thesis using Cons Suc by simp
  qed (use Cons in simp)
qed simp

lemma find_SomeE:
  assumes "find p xs = Some x"
  obtains i where "i < length xs" "xs ! i = x" "p x" "\<And>j. j < i \<Longrightarrow> \<not> p (xs ! j)"
  using assms by (fastforce simp: find_Some_iff)

lemma update_first_all:
  "list_all q xs \<Longrightarrow> (\<And>x. x \<in> set xs \<Longrightarrow> p x \<Longrightarrow> q x \<Longrightarrow> q (f x)) \<Longrightarrow> list_all q (update_first p f xs)"
  by (induction xs) auto

lemma map_update_first: "(\<And>x. g (f x) = g x) \<Longrightarrow> map g (update_first p f xs) = map g xs"
  by (induction xs) auto

lemma update_first_Nil [simp]: "update_first p f xs = [] \<longleftrightarrow> xs = []"
  by (cases xs) auto

section \<open>The invariant\<close>

definition slot_id :: "node_slot \<Rightarrow> node_id" where
  "slot_id n = def_id (slot_definition n)"

definition slot_ok :: "node_slot \<Rightarrow> bool" where
  "slot_ok n \<longleftrightarrow>
     (if occupant n = None
      then state n = idle_state (slot_definition n) \<and> caller n = None \<and> caller_name n = None \<and>
        transport n = None \<and> connected_at n = None \<and> activity_file n = None \<and> presentation n = None
      else enabled (slot_definition n) \<and> state n \<noteq> Waiting \<and> state n \<noteq> Disabled \<and>
        occupancy_generation n \<noteq> 0 \<and> transport n \<noteq> None \<and> connected_at n \<noteq> None \<and>
        (caller n = None \<longleftrightarrow> caller_name n = None))"

definition manager_ok :: "manager \<Rightarrow> bool" where
  "manager_ok m \<longleftrightarrow> nodes m \<noteq> [] \<and> sorted_wrt (<) (map slot_id (nodes m)) \<and> list_all slot_ok (nodes m)"

lemma map_slot_id_update:
  "i < length ns \<Longrightarrow> slot_id n = slot_id (ns ! i) \<Longrightarrow> map slot_id (ns[i := n]) = map slot_id ns"
  by (intro nth_equalityI) (auto simp: nth_list_update)

lemma manager_ok_nodes_update:
  "manager_ok m \<Longrightarrow> i < length (nodes m) \<Longrightarrow> slot_ok n \<Longrightarrow> slot_id n = slot_id (nodes m ! i) \<Longrightarrow>
     manager_ok (m\<lparr>nodes := (nodes m)[i := n]\<rparr>)"
  using map_slot_id_update [of i "nodes m" n]
  by (simp add: manager_ok_def list_all_length nth_list_update del: map_update)

lemma next_generation_neq: "next_generation g \<noteq> g" "next_generation g \<noteq> 0"
proof -
  have "g + 1 = 0 \<longleftrightarrow> g = - 1" by (simp add: eq_neg_iff_add_eq_0)
  then show "next_generation g \<noteq> 0" by (simp add: next_generation_def)
  show "next_generation g \<noteq> g" by (simp add: next_generation_def)
qed

lemma slot_ok_waiting: "slot_ok n \<Longrightarrow> state n = Waiting \<longleftrightarrow> occupant n = None \<and> enabled (slot_definition n)"
  by (auto simp: slot_ok_def idle_state_def split: if_splits)

lemma slot_ok_clear [simp]: "slot_ok (clear n)"
  by (simp add: slot_ok_def clear_def)

lemma slot_ok_fresh [simp]: "slot_ok (fresh_slot d)"
  by (simp add: slot_ok_def fresh_slot_def)

lemma clear_frame [simp]:
  "slot_definition (clear n) = slot_definition n" "occupancy_generation (clear n) = occupancy_generation n"
  "occupant (clear n) = None"
  by (simp_all add: clear_def)

lemma slot_id_simps [simp]:
  "slot_id (clear n) = slot_id n" "slot_id (fresh_slot d) = def_id d"
  "slot_id (n\<lparr>state := st\<rparr>) = slot_id n" "slot_id (n\<lparr>presentation := p\<rparr>) = slot_id n"
  by (simp_all add: slot_id_def fresh_slot_def)

lemma update_slot_frame [simp]:
  "slot_definition (update_slot st who n) = slot_definition n" "occupant (update_slot st who n) = occupant n"
  "occupancy_generation (update_slot st who n) = occupancy_generation n" "state (update_slot st who n) = st"
  "transport (update_slot st who n) = transport n" "connected_at (update_slot st who n) = connected_at n"
  "slot_id (update_slot st who n) = slot_id n"
  by (simp_all add: update_slot_def Let_def slot_id_def split: option.split)

lemma update_slot_ok:
  "slot_ok n \<Longrightarrow> occupant n \<noteq> None \<Longrightarrow> st \<noteq> Waiting \<Longrightarrow> st \<noteq> Disabled \<Longrightarrow> slot_ok (update_slot st who n)"
  by (auto simp: slot_ok_def update_slot_def Let_def split: option.splits)

lemma notify_nodes: "notify m = (r, m') \<Longrightarrow> nodes m' = nodes m \<and> lock_poisoned m' = lock_poisoned m \<and>
    notify_poisoned m' = notify_poisoned m \<and> change_hook m' = change_hook m \<and> prefix (published m) (published m')"
  by (auto simp: notify_def snapshots_def split: if_splits sum.splits)

lemma manager_ok_notify: "notify m = (r, m') \<Longrightarrow> manager_ok m' = manager_ok m"
  by (simp add: manager_ok_def notify_nodes)

lemma change_owned_nodes:
  "nodes (snd (change_owned nid sid f m)) = nodes m \<or>
   (\<exists>i < length (nodes m). slot_id (nodes m ! i) = nid \<and> occupant (nodes m ! i) = Some sid \<and>
      (\<forall>j < i. slot_id (nodes m ! j) \<noteq> nid) \<and>
      nodes (snd (change_owned nid sid f m)) = (nodes m)[i := f (nodes m ! i)])"
proof (cases "find (\<lambda>n. slot_id n = nid) (nodes m)")
  case (Some n)
  then obtain i where i: "i < length (nodes m)" "nodes m ! i = n" "slot_id n = nid"
    "\<And>j. j < i \<Longrightarrow> slot_id (nodes m ! j) \<noteq> nid" using find_SomeE [OF Some] by metis
  then have "update_first (\<lambda>n. slot_id n = nid) f (nodes m) = (nodes m)[i := f (nodes m ! i)]"
    using update_first_nth [of i "nodes m" "\<lambda>n. slot_id n = nid" f] by simp
  with i Some show ?thesis
    using notify_nodes [of "m\<lparr>nodes := (nodes m)[i := f (nodes m ! i)]\<rparr>", OF surjective_pairing]
    by (auto simp: change_owned_def lock_def slot_id_def)
qed (simp add: change_owned_def lock_def slot_id_def)

lemma change_owned_ok:
  assumes m: "manager_ok m" and f: "\<And>n. slot_ok n \<Longrightarrow> occupant n = Some sid \<Longrightarrow> slot_ok (f n)"
    "\<And>n. slot_id (f n) = slot_id n"
  shows "manager_ok (snd (change_owned nid sid f m))"
  using change_owned_nodes [of nid sid f m]
proof (elim disjE exE conjE)
  fix i
  assume i: "i < length (nodes m)" "occupant (nodes m ! i) = Some sid"
    and eq: "nodes (snd (change_owned nid sid f m)) = (nodes m)[i := f (nodes m ! i)]"
  have "map slot_id ((nodes m)[i := f (nodes m ! i)]) = map slot_id (nodes m)"
    using i(1) by (intro nth_equalityI) (auto simp: nth_list_update f(2))
  with m i f(1) show ?thesis
    by (simp add: manager_ok_def eq list_all_length nth_list_update)
qed (use m in \<open>simp add: manager_ok_def\<close>)

lemma build_slots_ok:
  "build_slots v ds = Inr ns \<Longrightarrow>
     map slot_id ns = map def_id ds \<and> list_all slot_ok ns \<and> sorted_wrt (<) (map slot_id ns) \<and>
     (\<forall>p. v = Some p \<longrightarrow> (\<forall>d \<in> set ds. p < def_id d))"
proof (induction v ds arbitrary: ns rule: build_slots.induct)
  case (2 v d ds)
  from "2.prems" obtain ns' where n: "\<not> (case v of None \<Rightarrow> False | Some p \<Rightarrow> p \<ge> def_id d)"
    and ns': "build_slots (Some (def_id d)) ds = Inr ns'" and ns: "ns = fresh_slot d # ns'"
    by (auto simp: result_simps)
  note ih = "2.IH" [OF n ns']
  then have "\<forall>x \<in> set ns'. def_id d < slot_id x" by (metis (no_types, lifting) image_iff list.set_map)
  with ih n show ?case by (fastforce simp: ns split: option.splits)
qed simp

lemma with_change_hook_ok: "with_change_hook ds h = Inr m \<Longrightarrow> manager_ok m \<and> \<not> lock_poisoned m \<and> \<not> notify_poisoned m \<and>
    map slot_id (nodes m) = map def_id ds \<and> list_all (\<lambda>n. occupant n = None) (nodes m)"
proof -
  assume w: "with_change_hook ds h = Inr m"
  then obtain ns where ns: "build_slots None ds = Inr ns" and ne: "ds \<noteq> []"
    by (auto simp: with_change_hook_def result_simps)
  let ?m = "\<lparr>nodes = ns, change_hook = h, published = [], lock_poisoned = False, notify_poisoned = False\<rparr>"
  obtain r m' where n: "notify ?m = (r, m')" by force
  with w ns ne have "m' = m" by (cases r) (simp_all add: with_change_hook_def)
  with notify_nodes [OF n] have m: "nodes m = ns" "\<not> lock_poisoned m" "\<not> notify_poisoned m" by simp_all
  have "list_all (\<lambda>n. occupant n = None) ns" if "build_slots v ds = Inr ns" for v ns ds
    using that by (induction v ds arbitrary: ns rule: build_slots.induct)
      (auto simp: result_simps fresh_slot_def split: if_splits)
  from this [OF ns] build_slots_ok [OF ns] ne m show ?thesis
    by (auto simp: manager_ok_def)
qed

section \<open>Acquiring\<close>

definition occupied :: "session_id \<Rightarrow> transport_kind \<Rightarrow> int \<Rightarrow> node_slot \<Rightarrow> node_slot" where
  "occupied sid kind now n = n\<lparr>state := Connecting, occupant := Some sid,
     occupancy_generation := next_generation (occupancy_generation n), transport := Some kind,
     connected_at := Some now\<rparr>"

lemma acquire_occupies:
  "acquire sid kind now m =
     (case lock m of
        Inl e \<Rightarrow> (Inl e, m)
      | Inr ns \<Rightarrow>
          (case find (\<lambda>n. state n = Waiting) ns of
             None \<Rightarrow> (Inl AllNodesBusy, m)
           | Some n \<Rightarrow>
               chain (notify (m\<lparr>nodes := update_first (\<lambda>n. state n = Waiting) (occupied sid kind now) ns\<rparr>)) (\<lambda>_ m.
                 (case snapshots m of
                    Inl e \<Rightarrow> (Inl e, m)
                  | Inr ss \<Rightarrow>
                      (Inr \<lparr>lease_node = slot_id n, lease_session = sid,
                            lease_generation =
                              (case Option.bind (find (\<lambda>s. snap_id s = slot_id n) ss) snap_generation of
                                 None \<Rightarrow> 1 | Some g \<Rightarrow> g),
                            released = False\<rparr>, m)))))"
  unfolding acquire_def occupied_def [abs_def] slot_id_def Let_def by simp

lemma occupied_simps [simp]:
  "slot_definition (occupied sid kind now n) = slot_definition n" "slot_id (occupied sid kind now n) = slot_id n"
  "occupant (occupied sid kind now n) = Some sid"
  "occupancy_generation (occupied sid kind now n) = next_generation (occupancy_generation n)"
  by (simp_all add: occupied_def slot_id_def)

lemma occupied_ok: "slot_ok n \<Longrightarrow> state n = Waiting \<Longrightarrow> slot_ok (occupied sid kind now n)"
  by (auto simp: slot_ok_def occupied_def next_generation_neq idle_state_def split: if_splits)

lemma acquire_nodes:
  "nodes (snd (acquire sid kind now m)) = nodes m \<or>
   nodes (snd (acquire sid kind now m)) = update_first (\<lambda>n. state n = Waiting) (occupied sid kind now) (nodes m)"
proof (cases "find (\<lambda>n. state n = Waiting) (nodes m)")
  case (Some n)
  let ?m = "m\<lparr>nodes := update_first (\<lambda>n. state n = Waiting) (occupied sid kind now) (nodes m)\<rparr>"
  obtain r m' where n: "notify ?m = (r, m')" by force
  from notify_nodes [OF n] Some n show ?thesis
    by (cases r) (auto simp: acquire_occupies lock_def snapshots_def)
qed (auto simp: acquire_def lock_def)

lemma acquire_ok: "manager_ok m \<Longrightarrow> manager_ok (snd (acquire sid kind now m))"
  using acquire_nodes [of sid kind now m]
  by (elim disjE) (simp_all add: manager_ok_def map_update_first update_first_all occupied_ok)

lemma sorted_ids_inject:
  "sorted_wrt (<) (map slot_id ns) \<Longrightarrow> i < length ns \<Longrightarrow> j < length ns \<Longrightarrow> slot_id (ns ! i) = slot_id (ns ! j) \<Longrightarrow> i = j"
proof -
  assume s: "sorted_wrt (<) (map slot_id ns)" and "i < length ns" "j < length ns" "slot_id (ns ! i) = slot_id (ns ! j)"
  moreover from s have "distinct (map slot_id ns)" by (simp add: strict_sorted_iff)
  ultimately show "i = j" by (auto simp: distinct_conv_nth)
qed

lemma find_slot:
  assumes "sorted_wrt (<) (map slot_id ns)" "i < length ns" "\<And>x. p (x :: node_slot) \<Longrightarrow> slot_id x = slot_id (ns ! i)"
  shows "find p ns = (if p (ns ! i) then Some (ns ! i) else None)"
proof (cases "find p ns")
  case None
  then show ?thesis using assms(2) by (auto simp: find_None_iff)
next
  case (Some x)
  then obtain j where j: "j < length ns" "ns ! j = x" "p x" using find_SomeE by metis
  then have "j = i" using sorted_ids_inject [OF assms(1) j(1) assms(2)] assms(3) [OF j(3)] by simp
  with Some j show ?thesis by simp
qed

section \<open>The pool as a machine\<close>

datatype pool_op =
    OpAcquire session_id transport_kind int
  | OpObserve lease lease_event
  | OpDrop lease
  | OpRelease lease session

text \<open>What an operation leaves of the pool; a refused one is an operation too.\<close>

fun pool_step :: "manager \<Rightarrow> pool_op \<Rightarrow> unit + manager" where
  "pool_step m (OpAcquire sid kind now) = Inr (snd (acquire sid kind now m))"
| "pool_step m (OpObserve l ev) = Inr (snd (observe l ev m))"
| "pool_step m (OpDrop l) = Inr (lease_drop l m)"
| "pool_step m (OpRelease l s) = Inr (snd (lease_release l s m))"

text \<open>Every change of an owned node is one of three.\<close>

lemma observe_change:
  "\<exists>f. observe l ev m = change_owned (lease_node l) (lease_session l) f m \<and>
     (\<forall>n. slot_ok n \<longrightarrow> occupant n = Some (lease_session l) \<longrightarrow> slot_ok (f n) \<and> occupant (f n) = occupant n) \<and>
     (\<forall>n. slot_id (f n) = slot_id n \<and> occupancy_generation (f n) = occupancy_generation n \<and>
          slot_definition (f n) = slot_definition n \<and> transport (f n) = transport n \<and>
          connected_at (f n) = connected_at n)"
proof -
  have upd: ?thesis if "observe l ev m = update (lease_node l) (lease_session l) st who m"
    "st \<noteq> Waiting" "st \<noteq> Disabled" for st who
    using that by (intro exI [of _ "update_slot st who"]) (simp add: update_def update_slot_ok)
  show ?thesis
  proof (cases ev)
    case (TransferStarted d filename)
    let ?f = "\<lambda>n. n\<lparr>state := case d of Download \<Rightarrow> Downloading | Upload \<Rightarrow> Uploading, activity_file := Some filename\<rparr>"
    show ?thesis
      by (intro exI [of _ ?f]) (simp add: TransferStarted update_transfer_def slot_ok_def slot_id_def split: transfer_direction.split)
  next
    case (PresentationChanged p)
    then show ?thesis
      by (intro exI [of _ "\<lambda>n. n\<lparr>presentation := Some p\<rparr>"]) (auto simp: update_presentation_def slot_ok_def)
  next
    case MarkLogin
    then show ?thesis by (intro upd [of Login None]) simp_all
  next
    case (MarkOnline i name)
    then show ?thesis by (intro upd [of Online "Some (i, name)"]) simp_all
  next
    case MarkDisconnecting
    then show ?thesis by (intro upd [of Disconnecting None]) simp_all
  next
    case TransferFinished
    then show ?thesis by (intro upd [of Online None]) simp_all
  next
    case PagePendingEvent
    then show ?thesis by (intro upd [of PagePending None]) simp_all
  next
    case ChatStarted
    then show ?thesis by (intro upd [of Chatting None]) simp_all
  next
    case InteractionFinished
    then show ?thesis by (intro upd [of Online None]) simp_all
  qed
qed

lemma observe_ok: "manager_ok m \<Longrightarrow> manager_ok (snd (observe l ev m))"
proof -
  assume m: "manager_ok m"
  from observe_change [of l ev m] obtain f where "observe l ev m = change_owned (lease_node l) (lease_session l) f m"
    "\<And>n. slot_ok n \<Longrightarrow> occupant n = Some (lease_session l) \<Longrightarrow> slot_ok (f n)" "\<And>n. slot_id (f n) = slot_id n"
    by blast
  with change_owned_ok [OF m, of "lease_session l" f "lease_node l"] show ?thesis by simp
qed

lemma release_node_ok: "manager_ok m \<Longrightarrow> manager_ok (snd (release_node nid sid m))"
  unfolding release_node_def by (rule change_owned_ok) simp_all

lemma lease_drop_ok: "manager_ok m \<Longrightarrow> manager_ok (lease_drop l m)"
  by (simp add: lease_drop_def release_node_ok)

lemma lease_release_ok: "manager_ok m \<Longrightarrow> manager_ok (snd (lease_release l s m))"
proof -
  assume m: "manager_ok m"
  obtain r m' where r: "release_node (lease_node l) (lease_session l) m = (r, m')" by force
  with release_node_ok [OF m, of "lease_node l" "lease_session l"] have "manager_ok m'" by simp
  with m r show ?thesis by (cases r) (simp_all add: lease_release_def lease_drop_ok)
qed


section \<open>What a session keeps\<close>

definition same_hold :: "node_slot \<Rightarrow> node_slot \<Rightarrow> bool" where
  "same_hold n n' \<longleftrightarrow> occupant n' = occupant n \<and> occupancy_generation n' = occupancy_generation n \<and>
     transport n' = transport n \<and> connected_at n' = connected_at n"

definition pool_frame :: "manager \<Rightarrow> manager \<Rightarrow> bool" where
  "pool_frame m m' \<longleftrightarrow> map slot_definition (nodes m') = map slot_definition (nodes m) \<and>
     prefix (published m) (published m')"

definition pool_held :: "node_id \<Rightarrow> session_id \<Rightarrow> manager \<Rightarrow> manager \<Rightarrow> bool" where
  "pool_held nid sid m m' \<longleftrightarrow> pool_frame m m' \<and>
     (\<forall>i < length (nodes m). slot_id (nodes m ! i) = nid \<and> occupant (nodes m ! i) = Some sid \<longrightarrow>
        same_hold (nodes m ! i) (nodes m' ! i))"

text \<open>The operations that end the hold of session \<open>sid\<close> on node \<open>nid\<close>.\<close>

fun gives_back :: "node_id \<Rightarrow> session_id \<Rightarrow> pool_op \<Rightarrow> bool" where
  "gives_back nid sid (OpAcquire s kind now) = False"
| "gives_back nid sid (OpObserve l ev) = False"
| "gives_back nid sid (OpDrop l) = (lease_node l = nid \<and> lease_session l = sid)"
| "gives_back nid sid (OpRelease l s) = (lease_node l = nid \<and> lease_session l = sid)"

lemma same_hold_refl [simp]: "same_hold n n"
  by (simp add: same_hold_def)

lemma pool_frame_refl [simp]: "pool_frame m m"
  by (simp add: pool_frame_def)

lemma pool_frame_trans: "pool_frame m m' \<Longrightarrow> pool_frame m' m'' \<Longrightarrow> pool_frame m m''"
  by (auto simp: pool_frame_def intro: prefix_order.trans)

lemma pool_frame_slot:
  "pool_frame m m' \<Longrightarrow> length (nodes m') = length (nodes m)"
  "pool_frame m m' \<Longrightarrow> i < length (nodes m) \<Longrightarrow> slot_id (nodes m' ! i) = slot_id (nodes m ! i)"
proof -
  assume "pool_frame m m'"
  then have eq: "map slot_definition (nodes m') = map slot_definition (nodes m)" by (simp add: pool_frame_def)
  then show len: "length (nodes m') = length (nodes m)" by (rule map_eq_imp_length_eq)
  assume i: "i < length (nodes m)"
  with len eq have "slot_definition (nodes m' ! i) = slot_definition (nodes m ! i)" by (metis nth_map)
  then show "slot_id (nodes m' ! i) = slot_id (nodes m ! i)" by (simp add: slot_id_def)
qed

lemma pool_held_refl [simp]: "pool_held nid sid m m"
  by (simp add: pool_held_def)

lemma pool_held_trans: "pool_held nid sid m m' \<Longrightarrow> pool_held nid sid m' m'' \<Longrightarrow> pool_held nid sid m m''"
  unfolding pool_held_def by (auto simp: pool_frame_slot same_hold_def intro: pool_frame_trans)

lemma notify_held: "pool_held nid sid m (snd (notify m))"
proof -
  obtain r m' where n: "notify m = (r, m')" by force
  from notify_nodes [OF n] n show ?thesis by (simp add: pool_held_def pool_frame_def)
qed

lemma map_update_slot: "i < length ns \<Longrightarrow> g n = g (ns ! i) \<Longrightarrow> map g (ns[i := n]) = map g ns"
  by (intro nth_equalityI) (auto simp: nth_list_update)

lemma update_first_slot:
  "i < length ns \<Longrightarrow> update_first p f ns ! i = ns ! i \<or> p (ns ! i) \<and> update_first p f ns ! i = f (ns ! i)"
  by (induction ns arbitrary: i) (auto simp: nth_Cons split: nat.split)

lemma length_update_first [simp]: "length (update_first p f ns) = length ns"
  by (induction ns) auto

text \<open>Changing the first slot that satisfies \<open>p\<close>, and publishing.\<close>

lemma update_first_held:
  assumes "\<And>n. slot_definition (f n) = slot_definition n"
    and "\<And>i. i < length (nodes m) \<Longrightarrow> p (nodes m ! i) \<Longrightarrow> slot_id (nodes m ! i) = nid \<Longrightarrow>
      occupant (nodes m ! i) = Some sid \<Longrightarrow> same_hold (nodes m ! i) (f (nodes m ! i))"
  shows "pool_held nid sid m (snd (notify (m\<lparr>nodes := update_first p f (nodes m)\<rparr>)))"
proof -
  have "pool_held nid sid m (m\<lparr>nodes := update_first p f (nodes m)\<rparr>)"
    unfolding pool_held_def pool_frame_def
  proof (intro conjI allI impI; (elim conjE)?)
    show "map slot_definition (nodes (m\<lparr>nodes := update_first p f (nodes m)\<rparr>)) = map slot_definition (nodes m)"
      by (simp add: map_update_first assms(1))
  next
    fix i
    assume "i < length (nodes m)" "slot_id (nodes m ! i) = nid" "occupant (nodes m ! i) = Some sid"
    then show "same_hold (nodes m ! i) (nodes (m\<lparr>nodes := update_first p f (nodes m)\<rparr>) ! i)"
      using update_first_slot [of i "nodes m" p f] assms(2) [of i] by auto
  qed simp
  then show ?thesis by (rule pool_held_trans) (rule notify_held)
qed

lemma change_owned_held:
  assumes m: "manager_ok m" and f: "\<And>n. slot_definition (f n) = slot_definition n"
    and hold: "\<And>n. nid2 = nid \<Longrightarrow> sid2 = sid \<Longrightarrow> slot_ok n \<Longrightarrow> occupant n = Some sid \<Longrightarrow> same_hold n (f n)"
  shows "pool_held nid sid m (snd (change_owned nid2 sid2 f m))"
proof (cases "lock_poisoned m \<or> find (\<lambda>n. slot_id n = nid2) (nodes m) = None \<or>
    occupant (the (find (\<lambda>n. slot_id n = nid2) (nodes m))) \<noteq> Some sid2")
  case True
  then show ?thesis by (auto simp: change_owned_def lock_def slot_id_def split: option.splits)
next
  case False
  then obtain n where n: "find (\<lambda>n. slot_id n = nid2) (nodes m) = Some n" "occupant n = Some sid2" by auto
  with False have step: "change_owned nid2 sid2 f m =
      notify (m\<lparr>nodes := update_first (\<lambda>n. slot_id n = nid2) f (nodes m)\<rparr>)"
    by (simp add: change_owned_def lock_def slot_id_def)
  show ?thesis
    unfolding step
  proof (rule update_first_held [OF f])
    fix i
    assume i: "i < length (nodes m)" "slot_id (nodes m ! i) = nid2" "slot_id (nodes m ! i) = nid"
      "occupant (nodes m ! i) = Some sid"
    have s: "sorted_wrt (<) (map slot_id (nodes m))" "slot_ok (nodes m ! i)"
      using m i(1) by (simp_all add: manager_ok_def list_all_length)
    from find_slot [OF s(1) i(1), of "\<lambda>n. slot_id n = nid2"] i(2) n(1) have "n = nodes m ! i" by simp
    with n(2) i s(2) show "same_hold (nodes m ! i) (f (nodes m ! i))" by (intro hold) auto
  qed
qed

text \<open>In particular a held node is not one that can be acquired.\<close>

lemma acquire_held: "manager_ok m \<Longrightarrow> pool_held nid sid m (snd (acquire sid2 kind now m))"
proof (cases "lock_poisoned m \<or> find (\<lambda>n. state n = Waiting) (nodes m) = None")
  case False
  assume m: "manager_ok m"
  let ?m = "m\<lparr>nodes := update_first (\<lambda>n. state n = Waiting) (occupied sid2 kind now) (nodes m)\<rparr>"
  have held: "pool_held nid sid m (snd (notify ?m))"
    using m by (intro update_first_held) (auto simp: manager_ok_def list_all_length slot_ok_waiting)
  obtain r m' where n: "notify ?m = (r, m')" by force
  with False have "snd (acquire sid2 kind now m) = m'"
    by (cases r) (auto simp: acquire_occupies lock_def snapshots_def)
  with held n show ?thesis by simp
qed (auto simp: acquire_def lock_def split: option.split)

lemma observe_held: "manager_ok m \<Longrightarrow> pool_held nid sid m (snd (observe l ev m))"
proof -
  assume m: "manager_ok m"
  from observe_change [of l ev m] obtain f where
    o': "observe l ev m = change_owned (lease_node l) (lease_session l) f m"
    and f: "\<And>n. slot_ok n \<Longrightarrow> occupant n = Some (lease_session l) \<Longrightarrow> occupant (f n) = occupant n"
      "\<And>n. occupancy_generation (f n) = occupancy_generation n \<and> slot_definition (f n) = slot_definition n \<and>
        transport (f n) = transport n \<and> connected_at (f n) = connected_at n" by blast
  show ?thesis
    unfolding o' by (rule change_owned_held [OF m]) (simp_all add: f same_hold_def)
qed

lemma release_node_held:
  "manager_ok m \<Longrightarrow> \<not> (nid2 = nid \<and> sid2 = sid) \<Longrightarrow> pool_held nid sid m (snd (release_node nid2 sid2 m))"
  unfolding release_node_def by (rule change_owned_held) auto

lemma lease_drop_held:
  "manager_ok m \<Longrightarrow> \<not> gives_back nid sid (OpDrop l) \<Longrightarrow> pool_held nid sid m (lease_drop l m)"
  by (simp add: lease_drop_def release_node_held)

lemma lease_release_held:
  assumes m: "manager_ok m" and g: "\<not> gives_back nid sid (OpRelease l s)"
  shows "pool_held nid sid m (snd (lease_release l s m))"
proof -
  obtain r m' where r: "release_node (lease_node l) (lease_session l) m = (r, m')" by force
  with m g release_node_held [OF m, of "lease_node l" nid "lease_session l" sid]
    release_node_ok [OF m, of "lease_node l" "lease_session l"]
  have h: "pool_held nid sid m m'" "manager_ok m'" by auto
  have "pool_held nid sid m (lease_drop k m'')"
    if "m'' \<in> {m, m'}" "lease_node k = lease_node l" "lease_session k = lease_session l" for k m''
    using that g m h lease_drop_held [of m'' nid sid k] by (auto intro: pool_held_trans)
  with h r show ?thesis by (cases r) (auto simp: lease_release_def)
qed

lemma pool_step_ok: "manager_ok m \<Longrightarrow> pool_step m i = Inr m' \<Longrightarrow> manager_ok m'"
  by (cases i) (auto intro: acquire_ok observe_ok lease_drop_ok lease_release_ok)

lemma pool_step_held: "manager_ok m \<Longrightarrow> \<not> gives_back nid sid i \<Longrightarrow> pool_step m i = Inr m' \<Longrightarrow> pool_held nid sid m m'"
  by (cases i) (auto intro: acquire_held observe_held lease_drop_held lease_release_held)

text \<open>Every operation gives back the node of at most one session, so the frame is kept by all.\<close>

lemma pool_step_frame: "manager_ok m \<Longrightarrow> pool_step m i = Inr m' \<Longrightarrow> pool_frame m m'"
proof -
  assume m: "manager_ok m" "pool_step m i = Inr m'"
  obtain k :: session_id where "case i of OpDrop l \<Rightarrow> k \<noteq> lease_session l | OpRelease l s \<Rightarrow> k \<noteq> lease_session l | _ \<Rightarrow> True"
    by (cases i) (auto intro: that [of "lease_session (case i of OpDrop l \<Rightarrow> l | OpRelease l s \<Rightarrow> l) + 1"])
  then have "\<not> gives_back 0 k i" by (cases i) auto
  from pool_step_held [OF m(1) this m(2)] show ?thesis by (simp add: pool_held_def)
qed

interpretation pool: tracked_machine pool_step manager_ok "\<lambda>_. True" pool_frame
  by unfold_locales (auto intro: pool_step_ok pool_step_frame pool_frame_trans)

interpretation holding: tracked_machine pool_step manager_ok "\<lambda>i. \<not> gives_back nid sid i" "pool_held nid sid"
  for nid sid
  by unfold_locales (auto intro: pool_step_ok pool_step_held pool_held_trans)

section \<open>Properties\<close>

text \<open>
  C7.  In every reachable state of the pool the nodes are in strict order of their numbers, and
  each is either free (waiting or disabled as configured, with nothing of a caller left in it)
  or held by one session, enabled, with a non-zero generation, a transport and a time.  A node
  that is held stays with its session, under the same generation, transport and time, through
  every further sequence of acquisitions, status changes, drops and releases in which no lease
  of that session on that node is dropped or released: it is given to nobody else.  What was
  published stays published.
\<close>

theorem node_pool_invariant:
  assumes "with_change_hook ds hook = Inr m" and "run_steps pool_step m ops = Inr m'"
    and "run_steps pool_step m' later = Inr m''"
  shows "nodes m' \<noteq> [] \<and> sorted_wrt (<) (map slot_id (nodes m')) \<and> list_all slot_ok (nodes m') \<and>
    map slot_definition (nodes m'') = map slot_definition (nodes m') \<and>
    (\<exists>new. published m'' = published m' @ new) \<and>
    (\<forall>i sid. i < length (nodes m') \<longrightarrow> occupant (nodes m' ! i) = Some sid \<longrightarrow>
       (\<forall>op \<in> set later. \<not> gives_back (slot_id (nodes m' ! i)) sid op) \<longrightarrow>
       occupant (nodes m'' ! i) = Some sid \<and>
       occupancy_generation (nodes m'' ! i) = occupancy_generation (nodes m' ! i) \<and>
       transport (nodes m'' ! i) = transport (nodes m' ! i) \<and>
       connected_at (nodes m'' ! i) = connected_at (nodes m' ! i))"
proof -
  have ok: "manager_ok m'"
    using pool.guarded_run [of m ops m'] with_change_hook_ok [OF assms(1)] assms(2) by (simp add: list_all_iff)
  have frame: "pool_frame m' m''"
    using pool.run_kept [of m' later m''] ok assms(3) by (simp add: list_all_iff)
  have "same_hold (nodes m' ! i) (nodes m'' ! i)"
    if "i < length (nodes m')" "occupant (nodes m' ! i) = Some sid"
      "\<forall>op \<in> set later. \<not> gives_back (slot_id (nodes m' ! i)) sid op" for i sid
    using holding.run_kept [of m' "slot_id (nodes m' ! i)" sid later m''] ok assms(3) that
    by (simp add: list_all_iff pool_held_def)
  with ok frame show ?thesis
    by (auto simp: manager_ok_def pool_frame_def same_hold_def prefix_def)
qed

definition sample_nodes :: "node_definition list" where
  "sample_nodes =
     [\<lparr>def_id = 1, enabled = True, description = None\<rparr>,
      \<lparr>def_id = 2, enabled = False, description = Some ''spare''\<rparr>,
      \<lparr>def_id = 5, enabled = True, description = None\<rparr>]"

definition sample_pool :: manager where
  "sample_pool =
     \<lparr>nodes = map fresh_slot sample_nodes, change_hook = False, published = [], lock_poisoned = False,
      notify_poisoned = False\<rparr>"

lemma sample_pool_created: "with_change_hook sample_nodes False = Inr sample_pool"
  by (simp add: with_change_hook_def sample_nodes_def sample_pool_def notify_def word_le_nat_alt)

lemma sample_pool_ok: "manager_ok sample_pool"
  using with_change_hook_ok [OF sample_pool_created] by simp

text \<open>Session 77 gets node 1, and session 78 after it does not get it.\<close>

lemma sample_acquired: "occupant (nodes (snd (acquire 77 Ssh 1000 sample_pool)) ! 0) = Some 77"
  "length (nodes (snd (acquire 77 Ssh 1000 sample_pool))) = 3"
  by (simp_all add: acquire_occupies lock_def sample_pool_def sample_nodes_def fresh_slot_def idle_state_def
      notify_def snapshots_def)

theorem node_pool_invariant_witness:
  "occupant (nodes (snd (acquire 78 Ssh 1001 (snd (acquire 77 Ssh 1000 sample_pool)))) ! 0) = Some 77"
  using node_pool_invariant [OF sample_pool_created, of "[OpAcquire 77 Ssh 1000]" _ "[OpAcquire 78 Ssh 1001]"]
  by (simp add: sample_acquired)

text \<open>
  A session gets the first waiting node, and nothing else changes; the lease carries the
  generation just stored in the slot.
\<close>

theorem acquire_takes_first:
  assumes "manager_ok m" and "\<not> lock_poisoned m" and "\<not> notify_poisoned m"
    and "i < length (nodes m)" and "state (nodes m ! i) = Waiting"
    and "\<forall>j < i. state (nodes m ! j) \<noteq> Waiting"
  shows "\<exists>m'. acquire sid kind now m =
      (Inr \<lparr>lease_node = slot_id (nodes m ! i), lease_session = sid,
            lease_generation = next_generation (occupancy_generation (nodes m ! i)), released = False\<rparr>, m') \<and>
    nodes m' = (nodes m)[i := occupied sid kind now (nodes m ! i)]"
proof -
  let ?n = "nodes m ! i"
  let ?ns = "(nodes m)[i := occupied sid kind now ?n]"
  have up: "update_first (\<lambda>n. state n = Waiting) (occupied sid kind now) (nodes m) = ?ns"
    and first: "find (\<lambda>n. state n = Waiting) (nodes m) = Some ?n"
    using update_first_nth [of i "nodes m" "\<lambda>n. state n = Waiting"] assms(4-6) by simp_all
  have ok': "sorted_wrt (<) (map slot_id ?ns)"
    using assms(1) by (simp add: manager_ok_def up [symmetric] map_update_first)
  obtain r m' where n: "notify (m\<lparr>nodes := ?ns\<rparr>) = (r, m')" by force
  have m': "nodes m' = ?ns" "\<not> lock_poisoned m'" using notify_nodes [OF n] assms(2) by simp_all
  have r: "r = Inr ()"
    using n assms(2,3) by (auto simp: notify_def snapshots_def lock_def split: if_splits)
  have "find (\<lambda>x. slot_id x = slot_id ?n) ?ns = Some (occupied sid kind now ?n)"
    using find_slot [OF ok', of i "\<lambda>x. slot_id x = slot_id ?n"] assms(4) by simp
  moreover have "find (\<lambda>s. snap_id s = k) (map snapshot xs) = map_option snapshot (find (\<lambda>x. slot_id x = k) xs)" for k xs
    by (induction xs) (auto simp: snapshot_def slot_id_def)
  ultimately have "find (\<lambda>s. snap_id s = slot_id ?n) (map snapshot ?ns) = Some (snapshot (occupied sid kind now ?n))"
    by simp
  then have "acquire sid kind now m =
      (Inr \<lparr>lease_node = slot_id ?n, lease_session = sid,
            lease_generation = next_generation (occupancy_generation ?n), released = False\<rparr>, m')"
    using first assms(2) n r m' up
    by (simp add: acquire_occupies lock_def snapshots_def snapshot_def)
  with m' show ?thesis by blast
qed

theorem acquire_takes_first_witness:
  "\<exists>m'. acquire 77 Ssh 1000 sample_pool =
     (Inr \<lparr>lease_node = 1, lease_session = 77, lease_generation = 1, released = False\<rparr>, m')"
  using acquire_takes_first [OF sample_pool_ok, of 0 77 Ssh 1000]
  by (auto simp: sample_pool_def sample_nodes_def fresh_slot_def idle_state_def slot_id_def next_generation_def)

text \<open>
  A session is turned away for want of a node exactly when no node is available, and then
  the pool is as it was.
\<close>

theorem acquire_refused_when_full:
  assumes "\<not> lock_poisoned m" and "\<not> notify_poisoned m"
  shows "(fst (acquire sid kind now m) = Inl AllNodesBusy \<longleftrightarrow> available m = Inr 0) \<and>
    (available m = Inr 0 \<longrightarrow> acquire sid kind now m = (Inl AllNodesBusy, m))"
proof -
  have av: "available m = Inr 0 \<longleftrightarrow> find (\<lambda>n. state n = Waiting) (nodes m) = None"
    using assms(1) by (auto simp: available_def lock_def find_None_iff filter_empty_conv)
  have full: "available m = Inr 0 \<Longrightarrow> acquire sid kind now m = (Inl AllNodesBusy, m)"
    using assms(1) by (simp add: av acquire_def lock_def)
  have "fst (acquire sid kind now m) \<noteq> Inl AllNodesBusy" if w: "find (\<lambda>n. state n = Waiting) (nodes m) = Some n" for n
  proof -
    let ?m = "m\<lparr>nodes := update_first (\<lambda>n. state n = Waiting) (occupied sid kind now) (nodes m)\<rparr>"
    obtain r m' where n: "notify ?m = (r, m')" by force
    have "r = Inr ()" "\<not> lock_poisoned m'"
      using n assms by (auto simp: notify_def snapshots_def lock_def split: if_splits)
    with w n assms(1) show ?thesis
      by (simp add: acquire_occupies lock_def snapshots_def)
  qed
  then have "fst (acquire sid kind now m) = Inl AllNodesBusy \<longleftrightarrow> available m = Inr 0"
    using full by (cases "find (\<lambda>n. state n = Waiting) (nodes m)") (simp_all add: av)
  with full show ?thesis by blast
qed

theorem acquire_refused_when_full_witness:
  "acquire 77 Ssh 1000 (sample_pool\<lparr>nodes := [fresh_slot \<lparr>def_id = 2, enabled = False, description = None\<rparr>]\<rparr>) =
     (Inl AllNodesBusy, sample_pool\<lparr>nodes := [fresh_slot \<lparr>def_id = 2, enabled = False, description = None\<rparr>]\<rparr>)"
  using acquire_refused_when_full [of "sample_pool\<lparr>nodes := [fresh_slot \<lparr>def_id = 2, enabled = False, description = None\<rparr>]\<rparr>" 77 Ssh 1000]
  by (simp add: sample_pool_def available_def lock_def fresh_slot_def idle_state_def)

text \<open>
  A session that does not hold a node cannot touch it: every status change, release and
  drop through a lease of another session is refused with the owner's name and leaves the pool
  as it was.
\<close>

theorem foreign_lease_powerless:
  assumes "manager_ok m" and "\<not> lock_poisoned m" and "i < length (nodes m)"
    and "lease_node l = slot_id (nodes m ! i)" and "occupant (nodes m ! i) \<noteq> Some (lease_session l)"
  shows "observe l ev m = (Inl (SessionMismatch (lease_node l) (occupant (nodes m ! i)) (lease_session l)), m) \<and>
    lease_drop l m = m \<and> fst (lease_release l s m) \<noteq> Inr () \<and> snd (lease_release l s m) = m"
proof -
  have "find (\<lambda>n. slot_id n = lease_node l) (nodes m) = Some (nodes m ! i)"
    using find_slot [of "nodes m" i "\<lambda>n. slot_id n = lease_node l"] assms by (simp add: manager_ok_def)
  then have refused: "change_owned (lease_node l) (lease_session l) f m =
      (Inl (SessionMismatch (lease_node l) (occupant (nodes m ! i)) (lease_session l)), m)" for f
    using assms(2,5) by (simp add: change_owned_def lock_def slot_id_def)
  then have "lease_drop k m = m" if "lease_node k = lease_node l" "lease_session k = lease_session l" for k
    using that by (simp add: lease_drop_def release_node_def)
  with refused observe_change [of l ev m] show ?thesis
    by (auto simp: lease_release_def release_node_def)
qed

theorem foreign_lease_powerless_witness:
  "lease_drop \<lparr>lease_node = 5, lease_session = 9, lease_generation = 1, released = False\<rparr> sample_pool = sample_pool"
  using foreign_lease_powerless [OF sample_pool_ok, of 2 "\<lparr>lease_node = 5, lease_session = 9, lease_generation = 1, released = False\<rparr>"]
  by (simp add: sample_pool_def sample_nodes_def fresh_slot_def slot_id_def)

text \<open>
  C35.  A node always comes back while the mutex of the nodes is not poisoned: dropping the
  lease that holds it, and \<open>release\<close> whatever it answers (a session that is not closed, a
  session of another lease), leave the node waiting for the next caller with no session, no
  caller, no transport, no time, no activity and no presentation in it, keep its definition and
  its generation and leave every other node alone.
\<close>

theorem lease_gives_node_back:
  assumes "manager_ok m" and "\<not> lock_poisoned m" and "i < length (nodes m)"
    and "lease_node l = slot_id (nodes m ! i)" and "occupant (nodes m ! i) = Some (lease_session l)"
    and "\<not> released l"
  shows "\<exists>idle. nodes (lease_drop l m) = (nodes m)[i := idle] \<and>
    nodes (snd (lease_release l s m)) = (nodes m)[i := idle] \<and>
    state idle = Waiting \<and> occupant idle = None \<and> caller idle = None \<and> caller_name idle = None \<and>
    transport idle = None \<and> connected_at idle = None \<and> activity_file idle = None \<and>
    presentation idle = None \<and> slot_definition idle = slot_definition (nodes m ! i) \<and>
    occupancy_generation idle = occupancy_generation (nodes m ! i)"
proof -
  let ?n = "nodes m ! i"
  let ?ns = "(nodes m)[i := clear ?n]"
  have "find (\<lambda>n. slot_id n = lease_node l) (nodes m) = Some ?n"
    using find_slot [of "nodes m" i "\<lambda>n. slot_id n = lease_node l"] assms by (simp add: manager_ok_def)
  moreover have "slot_id (nodes m ! j) \<noteq> slot_id ?n" if "j < i" for j
    using sorted_ids_inject [of "nodes m" j i] assms(1,3) that by (auto simp: manager_ok_def)
  then have "update_first (\<lambda>n. slot_id n = lease_node l) clear (nodes m) = ?ns"
    using update_first_nth [of i "nodes m" "\<lambda>n. slot_id n = lease_node l" clear] assms(3,4) by simp
  ultimately have rel: "release_node (lease_node l) (lease_session l) m = notify (m\<lparr>nodes := ?ns\<rparr>)"
    using assms(2,5) by (simp add: release_node_def change_owned_def lock_def slot_id_def)
  obtain r m' where n: "notify (m\<lparr>nodes := ?ns\<rparr>) = (r, m')" by force
  have m': "nodes m' = ?ns" "lock_poisoned m' = lock_poisoned m" using notify_nodes [OF n] by simp_all
  have drop: "nodes (lease_drop l m) = ?ns" using assms(6) rel n m' by (simp add: lease_drop_def)
  have again: "lease_drop l m' = m'"
  proof -
    have "sorted_wrt (<) (map slot_id ?ns)"
      using assms(1,3) map_slot_id_update [of i "nodes m" "clear ?n"] by (simp add: manager_ok_def del: map_update)
    then have "find (\<lambda>n. slot_id n = lease_node l) (nodes m') = Some (clear ?n)"
      using find_slot [of ?ns i "\<lambda>n. slot_id n = lease_node l"] assms(3,4) m' by simp
    then show ?thesis
      using m' assms(2) by (simp add: lease_drop_def release_node_def change_owned_def lock_def slot_id_def)
  qed
  have "nodes (snd (lease_release l s m)) = ?ns"
    using drop rel n m' again by (cases r) (auto simp: lease_release_def lease_drop_def)
  moreover have "slot_ok ?n" using assms(1,3) by (simp add: manager_ok_def list_all_length)
  then have "enabled (slot_definition ?n)" using assms(5) by (simp add: slot_ok_def)
  ultimately show ?thesis
    using drop by (intro exI [of _ "clear ?n"]) (simp add: clear_def idle_state_def)
qed

theorem lease_gives_node_back_witness:
  "\<exists>idle. nodes (lease_drop \<lparr>lease_node = 5, lease_session = 9, lease_generation = 1, released = False\<rparr>
      (sample_pool\<lparr>nodes := (nodes sample_pool)[2 := occupied 9 Ssh 3 (nodes sample_pool ! 2)]\<rparr>)) =
    (nodes sample_pool)[2 := idle] \<and> state idle = Waiting \<and> occupant idle = None"
proof -
  let ?m = "sample_pool\<lparr>nodes := (nodes sample_pool)[2 := occupied 9 Ssh 3 (nodes sample_pool ! 2)]\<rparr>"
  let ?l = "\<lparr>lease_node = 5, lease_session = 9, lease_generation = 1, released = False\<rparr> :: lease"
  have s: "nodes ?m ! 2 = occupied 9 Ssh 3 (nodes sample_pool ! 2)" "slot_id (nodes sample_pool ! 2) = 5"
      "length (nodes sample_pool) = 3"
    by (simp_all add: sample_pool_def sample_nodes_def fresh_slot_def slot_id_def)
  have "slot_ok (occupied 9 Ssh 3 (nodes sample_pool ! 2))"
    by (rule occupied_ok) (simp_all add: sample_pool_def sample_nodes_def, simp add: fresh_slot_def idle_state_def)
  with sample_pool_ok s have "manager_ok ?m" by (intro manager_ok_nodes_update) simp_all
  from lease_gives_node_back [OF this, of 2 ?l] s show ?thesis
    by (auto simp: sample_pool_def)
qed

text \<open>
  An operator's target does not survive a change of occupancy: once the session has given
  the node back and the node was acquired again, the old node, session and generation select
  nothing, even when the new session has the number of the old one.
\<close>

theorem stale_target_selects_nothing:
  assumes "manager_ok m" and "\<not> lock_poisoned m" and "i < length (nodes m)"
    and "nodes m2 = (nodes m)[i := occupied sid2 kind now (clear (nodes m ! i))]" and "\<not> lock_poisoned m2"
  shows "with_session_target (slot_id (nodes m ! i)) sid (occupancy_generation (nodes m ! i)) f m2 = Inr None"
proof -
  let ?n = "nodes m ! i" and ?o = "occupied sid2 kind now (clear (nodes m ! i))"
  have "sorted_wrt (<) (map slot_id (nodes m2))"
    using assms(1,3,4) map_slot_id_update [of i "nodes m" ?o] by (simp add: manager_ok_def del: map_update)
  then have "find (\<lambda>n. slot_id n = slot_id ?n \<and> occupant n = Some sid \<and>
      occupancy_generation n = occupancy_generation ?n) (nodes m2) = None"
    using find_slot [of "nodes m2" i "\<lambda>n. slot_id n = slot_id ?n \<and> occupant n = Some sid \<and>
        occupancy_generation n = occupancy_generation ?n"] assms(3,4)
    by (simp add: next_generation_neq)
  then show ?thesis
    using assms(5) by (simp add: with_session_target_def lock_def slot_id_def)
qed

theorem stale_target_selects_nothing_witness:
  "with_session_target 1 9 0 snap_state
     (sample_pool\<lparr>nodes := (nodes sample_pool)[0 := occupied 9 Ssh 3 (clear (nodes sample_pool ! 0))]\<rparr>) = Inr None"
  using stale_target_selects_nothing [OF sample_pool_ok, of 0
      "sample_pool\<lparr>nodes := (nodes sample_pool)[0 := occupied 9 Ssh 3 (clear (nodes sample_pool ! 0))]\<rparr>" 9 Ssh 3 9 snap_state]
  by (simp add: sample_pool_def sample_nodes_def fresh_slot_def slot_id_def)

text \<open>
  What the hook saw last is the pool as it is: every operation that succeeds and can change
  a node ends with a publication of the resulting snapshots.
\<close>

theorem last_published_is_current:
  assumes "change_hook m"
    and "acquire sid kind now m = (Inr l, m') \<or> observe l' ev m = (Inr (), m')"
  shows "published m' \<noteq> [] \<and> last (published m') = map snapshot (nodes m')"
proof -
  have n: "published v \<noteq> [] \<and> last (published v) = map snapshot (nodes v)"
    if "notify u = (Inr (), v)" "change_hook u" for u v
    using that by (auto simp: notify_def snapshots_def lock_def split: if_splits)
  from assms(2) show ?thesis
  proof
    assume a: "acquire sid kind now m = (Inr l, m')"
    obtain ns w where ns: "lock m = Inr ns" "find (\<lambda>n. state n = Waiting) ns = Some w"
      using a by (cases "lock m"; cases "find (\<lambda>n. state n = Waiting) (projr (lock m))")
        (auto simp: acquire_occupies)
    let ?u = "m\<lparr>nodes := update_first (\<lambda>n. state n = Waiting) (occupied sid kind now) ns\<rparr>"
    obtain r v where v: "notify ?u = (r, v)" by force
    have "r = Inr () \<and> m' = v" using a ns v by (cases r; cases "snapshots v") (auto simp: acquire_occupies)
    with v assms(1) show ?thesis using n [of ?u m'] by simp
  next
    assume o': "observe l' ev m = (Inr (), m')"
    from observe_change [of l' ev m] obtain f where
      "observe l' ev m = change_owned (lease_node l') (lease_session l') f m" by blast
    with o' obtain u where "notify u = (Inr (), m')" "change_hook u"
      using assms(1) by (auto simp: change_owned_def split: sum.splits option.splits if_splits)
    then show ?thesis by (rule n)
  qed
qed

theorem last_published_is_current_witness:
  "\<exists>l m'. acquire 9 Ssh 3 (sample_pool\<lparr>change_hook := True\<rparr>) = (Inr l, m') \<and> published m' \<noteq> [] \<and>
     last (published m') = map snapshot (nodes m')"
proof -
  let ?m = "sample_pool\<lparr>change_hook := True\<rparr>"
  obtain l m' where a: "acquire 9 Ssh 3 ?m = (Inr l, m')"
    by (cases "acquire 9 Ssh 3 ?m", cases "fst (acquire 9 Ssh 3 ?m)")
      (auto simp: acquire_occupies lock_def notify_def snapshots_def sample_pool_def sample_nodes_def fresh_slot_def idle_state_def)
  from last_published_is_current [OF _ disjI1 [OF a]] a show ?thesis by auto
qed

end
