(* ===== verification/Interaction.thy ===== *)
theory Interaction
  imports Sorted_Map Caller_Session Utf8
begin

text \<open>
  \<open>crates/sf-core/src/interaction.rs\<close>: paging the Sysop, chat and disconnect coordination.
  Every method takes the hub's mutex, so its body is one step on \<open>hub\<close>;  the one method that
  lets go of it in between (\<open>answer_invitation_exact\<close>, around the caller's authorization) is two.

  The bounded channels of an interaction are a \<open>wire\<close> of the hub, under the interaction's
  number: the queues, whether each receiver is alive, and how many senders are.  A handle that
  goes out of scope takes its ends of the channels with it.  A blocking receive is modelled at
  the moment it returns: with the first queued event, with \<open>Disconnected\<close> if nobody can send
  any more, and else with its time-out.  Shared disconnect tickets are cells of the hub.
  Instants and durations are numbers of nanoseconds.
\<close>

definition MAX_CHAT_LINE_BYTES :: nat where "MAX_CHAT_LINE_BYTES = 512"
definition CHAT_QUEUE_CAPACITY :: nat where "CHAT_QUEUE_CAPACITY = 32"

datatype interaction_error =
    InvalidLine
  | Backpressure
  | SysopUnavailable
  | AlreadyPaged u64
  | UnknownSession u64
  | NotPending u64
  | CallerGone u64
  | OperatorGone u64
  | ChatTimedOut
  | AlreadyCompleted
  | ProtocolState
  | HubPoisoned

datatype availability = Available | Unavailable

datatype page_state = Pending | Invited | Chatting

record page_request =
  interaction_id :: u64
  page_session :: session_id
  page_node :: node_id
  page_caller :: caller_id
  page_caller_name :: string
  requested_at :: int
  page_state :: page_state

datatype caller_event = Answered | Declined | OperatorLine string | Ended

datatype operator_event = CallerLine string | CallerLeft

record slot =
  request :: page_request
  holds_operator_receiver :: bool
  holds_invitation :: bool
  owner :: "string option"

record wire =
  to_caller :: "caller_event list"
  caller_receiver :: bool
  caller_senders :: nat
  to_operator :: "operator_event list"
  operator_receiver :: bool
  operator_senders :: nat

datatype ticket_state = Running | Completed | Failed

record disconnect_cell =
  cell_state :: ticket_state
  cell_fallback :: bool

record disconnect_request =
  notice :: bool
  board_shutdown :: bool
  consumed :: bool
  correlated :: bool
  ticket :: nat

record hub =
  next_interaction :: u64
  sysop :: availability
  slots :: "(session_id, slot) btree"
  disconnects :: "(session_id, disconnect_request) btree"
  pauses :: "(session_id, nat \<times> nat option) btree"
  wires :: "u64 \<Rightarrow> wire"
  cells :: "disconnect_cell list"
  poisoned :: bool

definition dead_wire :: wire where
  "dead_wire = \<lparr>to_caller = [], caller_receiver = False, caller_senders = 0,
     to_operator = [], operator_receiver = False, operator_senders = 0\<rparr>"

text \<open>\<open>sync_channel\<close> twice: both receivers alive, one sender each.\<close>

definition new_wire :: wire where
  "new_wire = \<lparr>to_caller = [], caller_receiver = True, caller_senders = 1,
     to_operator = [], operator_receiver = True, operator_senders = 1\<rparr>"

definition new_hub :: hub where
  "new_hub = \<lparr>next_interaction = 1, sysop = Available, slots = [], disconnects = [], pauses = [],
     wires = (\<lambda>_. dead_wire), cells = [], poisoned = False\<rparr>"

section \<open>Channels\<close>

datatype send_error = Full | Disconnected

definition change_wire :: "u64 \<Rightarrow> (wire \<Rightarrow> wire) \<Rightarrow> hub \<Rightarrow> hub" where
  "change_wire i f h = h\<lparr>wires := (wires h)(i := f (wires h i))\<rparr>"

definition send_caller :: "u64 \<Rightarrow> caller_event \<Rightarrow> hub \<Rightarrow> (send_error + unit) \<times> hub" where
  "send_caller i ev h =
     (if \<not> caller_receiver (wires h i) then (Inl Disconnected, h)
      else if CHAT_QUEUE_CAPACITY \<le> length (to_caller (wires h i)) then (Inl Full, h)
      else (Inr (), change_wire i (\<lambda>w. w\<lparr>to_caller := to_caller w @ [ev]\<rparr>) h))"

definition send_operator :: "u64 \<Rightarrow> operator_event \<Rightarrow> hub \<Rightarrow> (send_error + unit) \<times> hub" where
  "send_operator i ev h =
     (if \<not> operator_receiver (wires h i) then (Inl Disconnected, h)
      else if CHAT_QUEUE_CAPACITY \<le> length (to_operator (wires h i)) then (Inl Full, h)
      else (Inr (), change_wire i (\<lambda>w. w\<lparr>to_operator := to_operator w @ [ev]\<rparr>) h))"

datatype 'e received = Event 'e | RecvTimeout | RecvDisconnected

definition receive_caller :: "u64 \<Rightarrow> hub \<Rightarrow> caller_event received \<times> hub" where
  "receive_caller i h =
     (case to_caller (wires h i) of
        ev # evs \<Rightarrow> (Event ev, change_wire i (\<lambda>w. w\<lparr>to_caller := evs\<rparr>) h)
      | [] \<Rightarrow> (if caller_senders (wires h i) = 0 then RecvDisconnected else RecvTimeout, h))"

definition receive_operator :: "u64 \<Rightarrow> hub \<Rightarrow> operator_event received \<times> hub" where
  "receive_operator i h =
     (case to_operator (wires h i) of
        ev # evs \<Rightarrow> (Event ev, change_wire i (\<lambda>w. w\<lparr>to_operator := evs\<rparr>) h)
      | [] \<Rightarrow> (if operator_senders (wires h i) = 0 then RecvDisconnected else RecvTimeout, h))"

text \<open>The ends of the channels that a dropped slot, caller side or operator side takes along.\<close>

definition drop_slot :: "slot \<Rightarrow> hub \<Rightarrow> hub" where
  "drop_slot s = change_wire (interaction_id (request s)) (\<lambda>w.
     w\<lparr>caller_senders := caller_senders w - 1,
       operator_receiver := operator_receiver w \<and> \<not> holds_operator_receiver s,
       caller_receiver := caller_receiver w \<and> \<not> holds_invitation s,
       operator_senders := operator_senders w - (if holds_invitation s then 1 else 0)\<rparr>)"

definition drop_caller_side :: "u64 \<Rightarrow> hub \<Rightarrow> hub" where
  "drop_caller_side i = change_wire i (\<lambda>w.
     w\<lparr>caller_receiver := False, operator_senders := operator_senders w - 1\<rparr>)"

definition drop_operator_side :: "u64 \<Rightarrow> hub \<Rightarrow> hub" where
  "drop_operator_side i = change_wire i (\<lambda>w.
     w\<lparr>operator_receiver := False, caller_senders := caller_senders w - 1\<rparr>)"

text \<open>\<open>lock()?\<close>, and a slot that is removed, told an event and dropped.\<close>

definition locked ::
    "hub \<Rightarrow> (hub \<Rightarrow> (interaction_error + 'a) \<times> hub) \<Rightarrow> (interaction_error + 'a) \<times> hub" where
  "locked h f = (if poisoned h then (Inl HubPoisoned, h) else f h)"

definition dismiss :: "session_id \<Rightarrow> caller_event \<Rightarrow> hub \<Rightarrow> hub" where
  "dismiss sid ev h =
     (case tree_lookup (slots h) sid of
        None \<Rightarrow> h
      | Some s \<Rightarrow>
          drop_slot s (snd (send_caller (interaction_id (request s)) ev
            (h\<lparr>slots := tree_remove sid (slots h)\<rparr>))))"

definition remove_slot :: "session_id \<Rightarrow> u64 \<Rightarrow> hub \<Rightarrow> hub" where
  "remove_slot sid i h =
     (if poisoned h then h
      else case tree_lookup (slots h) sid of
        None \<Rightarrow> h
      | Some s \<Rightarrow>
          if interaction_id (request s) = i
          then drop_slot s (h\<lparr>slots := tree_remove sid (slots h)\<rparr>) else h)"

definition hub_contains :: "session_id \<Rightarrow> u64 \<Rightarrow> hub \<Rightarrow> bool" where
  "hub_contains sid i h =
     (case tree_lookup (slots h) sid of None \<Rightarrow> False | Some s \<Rightarrow> interaction_id (request s) = i)"

section \<open>Paging\<close>

record page_ticket =
  ticket_interaction :: u64
  ticket_session :: session_id
  ticket_finished :: bool

record chat =
  chat_interaction :: u64
  chat_session :: session_id

definition get_availability :: "hub \<Rightarrow> (interaction_error + availability) \<times> hub" where
  "get_availability h = locked h (\<lambda>h. (Inr (sysop h), h))"

definition set_availability :: "availability \<Rightarrow> hub \<Rightarrow> (interaction_error + unit) \<times> hub" where
  "set_availability a h = locked h (\<lambda>h.
     (let h = h\<lparr>sysop := a\<rparr> in
      (Inr (),
       if a = Unavailable then
         fold (\<lambda>sid. dismiss sid Declined)
           (map fst (filter (\<lambda>(_, s). page_state (request s) = Pending) (slots h))) h
       else h)))"

text \<open>\<open>checked_add(1)\<close> of the interaction counter.\<close>

definition request_page ::
    "session_id \<Rightarrow> node_id \<Rightarrow> caller_id \<Rightarrow> string \<Rightarrow> int \<Rightarrow> hub \<Rightarrow> (interaction_error + page_ticket) \<times> hub" where
  "request_page sid nid cid name at h = locked h (\<lambda>h.
     if sysop h = Unavailable then (Inl SysopUnavailable, h)
     else if tree_lookup (slots h) sid \<noteq> None then (Inl (AlreadyPaged sid), h)
     else if next_interaction h = - 1 then (Inl ProtocolState, h)
     else
       (let i = next_interaction h;
            s = \<lparr>request = \<lparr>interaction_id = i, page_session = sid, page_node = nid, page_caller = cid,
                   page_caller_name = name, requested_at = at, page_state = Pending\<rparr>,
                 holds_operator_receiver = True, holds_invitation = False, owner = None\<rparr>
        in (Inr \<lparr>ticket_interaction = i, ticket_session = sid, ticket_finished = False\<rparr>,
            h\<lparr>next_interaction := i + 1, slots := tree_insert sid s (slots h),
              wires := (wires h)(i := new_wire)\<rparr>)))"

definition pages :: "hub \<Rightarrow> (interaction_error + page_request list) \<times> hub" where
  "pages h = locked h (\<lambda>h.
     (Inr (map request (filter (\<lambda>s. page_state (request s) \<noteq> Invited) (map snd (slots h)))), h))"

definition decline :: "session_id \<Rightarrow> hub \<Rightarrow> (interaction_error + unit) \<times> hub" where
  "decline sid h = locked h (\<lambda>h.
     case tree_lookup (slots h) sid of
       None \<Rightarrow> (Inl (UnknownSession sid), h)
     | Some s \<Rightarrow>
         if page_state (request s) \<noteq> Pending then (Inl (NotPending sid), h)
         else (Inr (), dismiss sid Declined h))"

text \<open>
  The slot's owner, receiver and state are changed before the caller is told, so they stay
  changed when the caller turns out to be gone; the receiver taken out is then dropped.
\<close>

definition answer_owned :: "session_id \<Rightarrow> string option \<Rightarrow> hub \<Rightarrow> (interaction_error + chat) \<times> hub" where
  "answer_owned sid own h = locked h (\<lambda>h.
     case tree_lookup (slots h) sid of
       None \<Rightarrow> (Inl (UnknownSession sid), h)
     | Some s \<Rightarrow>
         if page_state (request s) \<noteq> Pending then (Inl (NotPending sid), h)
         else if \<not> holds_operator_receiver s then
           (Inl (NotPending sid), h\<lparr>slots := tree_insert sid (s\<lparr>owner := own\<rparr>) (slots h)\<rparr>)
         else
           (let i = interaction_id (request s);
                s = s\<lparr>owner := own, holds_operator_receiver := False,
                      request := (request s)\<lparr>page_state := Chatting\<rparr>\<rparr>
            in case send_caller i Answered (h\<lparr>slots := tree_insert sid s (slots h)\<rparr>) of
                 (Inl _, h) \<Rightarrow>
                   (Inl (CallerGone sid), change_wire i (\<lambda>w. w\<lparr>operator_receiver := False\<rparr>) h)
               | (Inr _, h) \<Rightarrow>
                   (Inr \<lparr>chat_interaction = i, chat_session = sid\<rparr>,
                    change_wire i (\<lambda>w. w\<lparr>caller_senders := caller_senders w + 1\<rparr>) h)))"

definition answer :: "session_id \<Rightarrow> hub \<Rightarrow> (interaction_error + chat) \<times> hub" where
  "answer sid h = answer_owned sid None h"

section \<open>Invitations\<close>

definition invite :: "page_request \<Rightarrow> string \<Rightarrow> hub \<Rightarrow> (interaction_error + chat) \<times> hub" where
  "invite req own h = locked h (\<lambda>h.
     if tree_lookup (slots h) (page_session req) \<noteq> None \<or> tree_lookup (disconnects h) (page_session req) \<noteq> None
     then (Inl (AlreadyPaged (page_session req)), h)
     else if next_interaction h = - 1 then (Inl ProtocolState, h)
     else
       (let i = next_interaction h;
            s = \<lparr>request = req\<lparr>interaction_id := i, page_state := Invited\<rparr>,
                 holds_operator_receiver = False, holds_invitation = True, owner = Some own\<rparr>
        in (Inr \<lparr>chat_interaction = i, chat_session = page_session req\<rparr>,
            h\<lparr>next_interaction := i + 1, slots := tree_insert (page_session req) s (slots h),
              wires := (wires h)(i := new_wire\<lparr>caller_senders := 2\<rparr>)\<rparr>)))"

definition invitation_pending :: "session_id \<Rightarrow> hub \<Rightarrow> (interaction_error + bool) \<times> hub" where
  "invitation_pending sid h = locked h (\<lambda>h.
     (Inr (case tree_lookup (slots h) sid of None \<Rightarrow> False | Some s \<Rightarrow> page_state (request s) = Invited), h))"

definition interaction_state :: "session_id \<Rightarrow> hub \<Rightarrow> (interaction_error + (u64 \<times> page_state) option) \<times> hub" where
  "interaction_state sid h = locked h (\<lambda>h.
     (Inr (map_option (\<lambda>s. (interaction_id (request s), page_state (request s))) (tree_lookup (slots h) sid)), h))"

text \<open>
  \<open>answer_invitation_exact\<close>: the check before the authorization, and the transition after it.
  Between them other threads may have changed the hub.
\<close>

definition invitation_check :: "session_id \<Rightarrow> u64 \<Rightarrow> hub \<Rightarrow> (interaction_error + unit) \<times> hub" where
  "invitation_check sid i h = locked h (\<lambda>h.
     case tree_lookup (slots h) sid of
       None \<Rightarrow> (Inl (UnknownSession sid), h)
     | Some s \<Rightarrow>
         if interaction_id (request s) \<noteq> i then (Inl (UnknownSession sid), h)
         else if \<not> holds_invitation s then (Inl (NotPending sid), h)
         else (Inr (), h))"

definition invitation_commit ::
    "session_id \<Rightarrow> u64 \<Rightarrow> bool \<Rightarrow> hub \<Rightarrow> (interaction_error + chat option) \<times> hub" where
  "invitation_commit sid i allowed h = locked h (\<lambda>h.
     case tree_lookup (slots h) sid of
       None \<Rightarrow> (Inl (NotPending sid), h)
     | Some s \<Rightarrow>
         if interaction_id (request s) \<noteq> i \<or> page_state (request s) \<noteq> Invited then (Inl (NotPending sid), h)
         else if \<not> allowed then (Inr None, drop_slot s (h\<lparr>slots := tree_remove sid (slots h)\<rparr>))
         else if \<not> holds_invitation s then (Inl (NotPending sid), h)
         else
           (Inr (Some \<lparr>chat_interaction = i, chat_session = sid\<rparr>),
            h\<lparr>slots := tree_insert sid
                (s\<lparr>holds_invitation := False, request := (request s)\<lparr>page_state := Chatting\<rparr>\<rparr>) (slots h)\<rparr>))"

definition answer_invitation_exact ::
    "session_id \<Rightarrow> u64 \<Rightarrow> bool \<Rightarrow> bool \<Rightarrow> (hub \<Rightarrow> hub) \<Rightarrow> hub \<Rightarrow> (interaction_error + chat option) \<times> hub" where
  "answer_invitation_exact sid i accept authorized others h =
     chain (invitation_check sid i h) (\<lambda>_ h.
       invitation_commit sid i (accept \<and> authorized) (others h))"

definition answer_invitation ::
    "session_id \<Rightarrow> bool \<Rightarrow> bool \<Rightarrow> (hub \<Rightarrow> hub) \<Rightarrow> hub \<Rightarrow> (interaction_error + chat option) \<times> hub" where
  "answer_invitation sid accept authorized others h =
     chain (interaction_state sid h) (\<lambda>st h.
       case st of
         None \<Rightarrow> (Inl (UnknownSession sid), h)
       | Some (i, _) \<Rightarrow> answer_invitation_exact sid i accept authorized others h)"

definition end_operator_attachment :: "string \<Rightarrow> hub \<Rightarrow> (interaction_error + unit) \<times> hub" where
  "end_operator_attachment own h = locked h (\<lambda>h.
     (Inr (), fold (\<lambda>(_, s). drop_slot s) (filter (\<lambda>(_, s). owner s = Some own) (slots h))
                (h\<lparr>slots := tree_retain (\<lambda>_ s. owner s \<noteq> Some own) (slots h)\<rparr>)))"

section \<open>Disconnects\<close>

definition request_disconnect_mode ::
    "session_id \<Rightarrow> bool \<Rightarrow> bool \<Rightarrow> bool \<Rightarrow> hub \<Rightarrow> (interaction_error + nat \<times> bool) \<times> hub" where
  "request_disconnect_mode sid ntc corr shutdown h = locked h (\<lambda>h.
     case tree_lookup (disconnects h) sid of
       Some r \<Rightarrow> (Inr (ticket r, False), h)
     | None \<Rightarrow>
         (let t = length (cells h);
              r = \<lparr>notice = ntc, board_shutdown = shutdown, consumed = False, correlated = corr, ticket = t\<rparr>
          in (Inr (t, True),
              dismiss sid Ended
                (h\<lparr>cells := cells h @ [\<lparr>cell_state = Running, cell_fallback = False\<rparr>],
                   disconnects := tree_insert sid r (disconnects h)\<rparr>))))"

definition request_disconnect_policy ::
    "session_id \<Rightarrow> bool \<Rightarrow> bool \<Rightarrow> hub \<Rightarrow> (interaction_error + nat \<times> bool) \<times> hub" where
  "request_disconnect_policy sid ntc corr h = request_disconnect_mode sid ntc corr False h"

definition request_disconnect :: "session_id \<Rightarrow> hub \<Rightarrow> (interaction_error + unit) \<times> hub" where
  "request_disconnect sid h =
     chain (request_disconnect_policy sid True False h) (\<lambda>_ h. (Inr (), h))"

definition request_board_shutdown :: "session_id \<Rightarrow> hub \<Rightarrow> (interaction_error + nat) \<times> hub" where
  "request_board_shutdown sid h =
     chain (request_disconnect_mode sid True True True h) (\<lambda>(t, _) h. (Inr t, h))"

definition board_shutdown_pending :: "session_id \<Rightarrow> hub \<Rightarrow> (interaction_error + bool) \<times> hub" where
  "board_shutdown_pending sid h = locked h (\<lambda>h.
     (Inr (case tree_lookup (disconnects h) sid of None \<Rightarrow> False | Some r \<Rightarrow> board_shutdown r), h))"

definition disconnect_pending :: "session_id \<Rightarrow> hub \<Rightarrow> (interaction_error + bool) \<times> hub" where
  "disconnect_pending sid h = locked h (\<lambda>h. (Inr (tree_lookup (disconnects h) sid \<noteq> None), h))"

definition take_disconnect_notice :: "session_id \<Rightarrow> hub \<Rightarrow> (interaction_error + bool option) \<times> hub" where
  "take_disconnect_notice sid h = locked h (\<lambda>h.
     case tree_lookup (disconnects h) sid of
       None \<Rightarrow> (Inr None, h)
     | Some r \<Rightarrow>
         if consumed r then (Inr None, h)
         else (Inr (Some (notice r)),
               h\<lparr>disconnects := tree_insert sid (r\<lparr>consumed := True\<rparr>) (disconnects h)\<rparr>))"

definition take_disconnect :: "session_id \<Rightarrow> hub \<Rightarrow> (interaction_error + bool) \<times> hub" where
  "take_disconnect sid h = chain (take_disconnect_notice sid h) (\<lambda>x h. (Inr (x \<noteq> None), h))"

definition disconnect_finalized :: "session_id \<Rightarrow> bool \<Rightarrow> hub \<Rightarrow> (interaction_error + unit) \<times> hub" where
  "disconnect_finalized sid succeeded h = locked h (\<lambda>h.
     case tree_lookup (disconnects h) sid of
       None \<Rightarrow> (Inr (), h)
     | Some r \<Rightarrow>
         (Inr (), h\<lparr>disconnects := tree_remove sid (disconnects h),
            cells := (cells h)[ticket r := (cells h ! ticket r)
              \<lparr>cell_state := if succeeded then Completed else Failed\<rparr>]\<rparr>))"

definition ticket_completed :: "nat \<Rightarrow> hub \<Rightarrow> bool" where
  "ticket_completed t h \<longleftrightarrow> cell_state (cells h ! t) = Completed"

definition ticket_failed :: "nat \<Rightarrow> hub \<Rightarrow> bool" where
  "ticket_failed t h \<longleftrightarrow> cell_state (cells h ! t) = Failed"

definition ticket_mark_fallback :: "nat \<Rightarrow> hub \<Rightarrow> hub" where
  "ticket_mark_fallback t h = h\<lparr>cells := (cells h)[t := (cells h ! t)\<lparr>cell_fallback := True\<rparr>]\<rparr>"

definition session_ended :: "session_id \<Rightarrow> hub \<Rightarrow> (interaction_error + unit) \<times> hub" where
  "session_ended sid h = locked h (\<lambda>h.
     (let h = (case tree_lookup (disconnects h) sid of
                 None \<Rightarrow> h
               | Some r \<Rightarrow>
                   if correlated r then h else h\<lparr>disconnects := tree_remove sid (disconnects h)\<rparr>);
          h = h\<lparr>pauses := tree_remove sid (pauses h)\<rparr>
      in (Inr (), dismiss sid Ended h)))"

section \<open>Allowance pauses\<close>

definition duration_max :: nat where
  "duration_max = (2 ^ 64 - 1) * 1000000000 + 999999999"

definition duration_add :: "nat \<Rightarrow> nat \<Rightarrow> nat" where
  "duration_add a b = min (a + b) duration_max"

definition pause_allowance :: "session_id \<Rightarrow> nat \<Rightarrow> hub \<Rightarrow> (interaction_error + session_id) \<times> hub" where
  "pause_allowance sid now h = locked h (\<lambda>h.
     (let (spent, active) = unwrap_or (tree_lookup (pauses h) sid) (0, None) in
      if active \<noteq> None then (Inl AlreadyCompleted, h)
      else (Inr sid, h\<lparr>pauses := tree_insert sid (spent, Some now) (pauses h)\<rparr>)))"

definition paused_allowance :: "session_id \<Rightarrow> nat \<Rightarrow> hub \<Rightarrow> (interaction_error + nat) \<times> hub" where
  "paused_allowance sid now h = locked h (\<lambda>h.
     (Inr (case tree_lookup (pauses h) sid of
             None \<Rightarrow> 0
           | Some (spent, active) \<Rightarrow>
               duration_add spent (case active of None \<Rightarrow> 0 | Some started \<Rightarrow> now - started)), h))"

definition pause_drop :: "session_id \<Rightarrow> nat \<Rightarrow> hub \<Rightarrow> hub" where
  "pause_drop sid now h =
     (if poisoned h then h
      else case tree_lookup (pauses h) sid of
        Some (spent, Some started) \<Rightarrow>
          h\<lparr>pauses := tree_insert sid (duration_add spent (now - started), None) (pauses h)\<rparr>
      | _ \<Rightarrow> h)"

section \<open>The handles\<close>

definition valid_chat_line :: "string \<Rightarrow> bool" where
  "valid_chat_line l \<longleftrightarrow> \<not> (MAX_CHAT_LINE_BYTES < length l \<or> list_ex is_control (chars l))"

definition validate_chat_line :: "string \<Rightarrow> interaction_error + unit" where
  "validate_chat_line l =
     (if MAX_CHAT_LINE_BYTES < length l \<or> list_ex is_control (chars l) then Inl InvalidLine else Inr ())"

datatype page_answer = Accepted chat | PageDeclined | PageTimedOut

definition ticket_drop :: "page_ticket \<Rightarrow> hub \<Rightarrow> hub" where
  "ticket_drop t h =
     drop_caller_side (ticket_interaction t)
       (if ticket_finished t then h else remove_slot (ticket_session t) (ticket_interaction t) h)"

text \<open>
  \<open>PageTicket::wait\<close> consumes the ticket: accepted, its ends of the channels go on to the chat;
  otherwise it is dropped.
\<close>

definition page_wait :: "page_ticket \<Rightarrow> hub \<Rightarrow> (interaction_error + page_answer) \<times> hub" where
  "page_wait t h =
     (let i = ticket_interaction t; fin = t\<lparr>ticket_finished := True\<rparr> in
      case receive_caller i h of
        (Event Answered, h) \<Rightarrow>
          (Inr (Accepted \<lparr>chat_interaction = i, chat_session = ticket_session t\<rparr>), h)
      | (Event Declined, h) \<Rightarrow> (Inr PageDeclined, ticket_drop fin h)
      | (Event Ended, h) \<Rightarrow> (Inr PageDeclined, ticket_drop fin h)
      | (Event (OperatorLine l), h) \<Rightarrow> (Inl ProtocolState, ticket_drop t h)
      | (RecvTimeout, h) \<Rightarrow> (Inr PageTimedOut, ticket_drop fin (remove_slot (ticket_session t) i h))
      | (RecvDisconnected, h) \<Rightarrow> (Inr PageDeclined, ticket_drop fin h))"

definition caller_send_line :: "chat \<Rightarrow> string \<Rightarrow> hub \<Rightarrow> (interaction_error + unit) \<times> hub" where
  "caller_send_line c l h = locked h (\<lambda>h.
     if \<not> hub_contains (chat_session c) (chat_interaction c) h then (Inl (OperatorGone (chat_session c)), h)
     else case validate_chat_line l of
       Inl e \<Rightarrow> (Inl e, h)
     | Inr _ \<Rightarrow>
         (case send_operator (chat_interaction c) (CallerLine l) h of
            (Inl Full, h) \<Rightarrow> (Inl Backpressure, h)
          | (Inl Disconnected, h) \<Rightarrow> (Inl (OperatorGone (chat_session c)), h)
          | (Inr _, h) \<Rightarrow> (Inr (), h)))"

definition caller_receive_line :: "chat \<Rightarrow> hub \<Rightarrow> (interaction_error + string option) \<times> hub" where
  "caller_receive_line c h = locked h (\<lambda>h.
     if \<not> hub_contains (chat_session c) (chat_interaction c) h then (Inr None, h)
     else case receive_caller (chat_interaction c) h of
       (Event (OperatorLine l), h) \<Rightarrow> (Inr (Some l), h)
     | (Event Ended, h) \<Rightarrow> (Inr None, h)
     | (Event Declined, h) \<Rightarrow> (Inr None, h)
     | (Event Answered, h) \<Rightarrow> (Inl ProtocolState, h)
     | (RecvTimeout, h) \<Rightarrow> (Inl ChatTimedOut, h)
     | (RecvDisconnected, h) \<Rightarrow> (Inr None, h))"

text \<open>\<open>end\<close> and \<open>Drop\<close> of the caller's side do the same.\<close>

definition caller_end :: "chat \<Rightarrow> hub \<Rightarrow> hub" where
  "caller_end c h =
     drop_caller_side (chat_interaction c)
       (remove_slot (chat_session c) (chat_interaction c)
         (snd (send_operator (chat_interaction c) CallerLeft h)))"

definition operator_state :: "chat \<Rightarrow> hub \<Rightarrow> (interaction_error + page_state option) \<times> hub" where
  "operator_state c h =
     chain (interaction_state (chat_session c) h) (\<lambda>st h.
       (Inr (case st of None \<Rightarrow> None | Some (i, p) \<Rightarrow> if i = chat_interaction c then Some p else None), h))"

definition operator_receive_line :: "chat \<Rightarrow> hub \<Rightarrow> (interaction_error + string option) \<times> hub" where
  "operator_receive_line c h = locked h (\<lambda>h.
     if \<not> hub_contains (chat_session c) (chat_interaction c) h then (Inr None, h)
     else case receive_operator (chat_interaction c) h of
       (Event (CallerLine l), h) \<Rightarrow> (Inr (Some l), h)
     | (Event CallerLeft, h) \<Rightarrow> (Inr None, h)
     | (RecvTimeout, h) \<Rightarrow> (Inl ChatTimedOut, h)
     | (RecvDisconnected, h) \<Rightarrow> (Inr None, h))"

definition operator_send_line :: "chat \<Rightarrow> string \<Rightarrow> hub \<Rightarrow> (interaction_error + unit) \<times> hub" where
  "operator_send_line c l h = locked h (\<lambda>h.
     if \<not> hub_contains (chat_session c) (chat_interaction c) h then (Inl (CallerGone (chat_session c)), h)
     else chain (interaction_state (chat_session c) h) (\<lambda>st h.
       if st \<noteq> Some (chat_interaction c, Chatting) then (Inl (NotPending (chat_session c)), h)
       else case validate_chat_line l of
         Inl e \<Rightarrow> (Inl e, h)
       | Inr _ \<Rightarrow>
           (case send_caller (chat_interaction c) (OperatorLine l) h of
              (Inl Full, h) \<Rightarrow> (Inl Backpressure, h)
            | (Inl Disconnected, h) \<Rightarrow> (Inl (CallerGone (chat_session c)), h)
            | (Inr _, h) \<Rightarrow> (Inr (), h))))"

definition operator_end :: "chat \<Rightarrow> hub \<Rightarrow> hub" where
  "operator_end c h =
     drop_operator_side (chat_interaction c)
       (remove_slot (chat_session c) (chat_interaction c)
         (snd (send_caller (chat_interaction c) Ended h)))"

section \<open>The invariant of the hub\<close>

definition slot_shape :: "slot \<Rightarrow> bool" where
  "slot_shape s \<longleftrightarrow>
     (holds_operator_receiver s \<longleftrightarrow> page_state (request s) = Pending) \<and>
     (holds_invitation s \<longleftrightarrow> page_state (request s) = Invited) \<and>
     (page_state (request s) = Pending \<longrightarrow> owner s = None) \<and>
     (page_state (request s) = Invited \<longrightarrow> owner s \<noteq> None)"

text \<open>
  One slot per session, under its session's number; interaction numbers below the counter and
  never shared; the channel ends a slot holds agree with its state; each pending disconnect has
  a ticket cell of its own that is still running; queues within their capacity.
\<close>

definition slots_ok :: "u64 \<Rightarrow> (session_id, slot) btree \<Rightarrow> bool" where
  "slots_ok n t \<longleftrightarrow> tree_ok t \<and>
     (\<forall>k s. (k, s) \<in> set t \<longrightarrow> page_session (request s) = k \<and> slot_shape s \<and> interaction_id (request s) < n) \<and>
     (\<forall>k s l u. (k, s) \<in> set t \<longrightarrow> (l, u) \<in> set t \<longrightarrow>
        interaction_id (request s) = interaction_id (request u) \<longrightarrow> k = l)"

definition disconnects_ok :: "disconnect_cell list \<Rightarrow> (session_id, disconnect_request) btree \<Rightarrow> bool" where
  "disconnects_ok cs t \<longleftrightarrow> tree_ok t \<and>
     (\<forall>k r. (k, r) \<in> set t \<longrightarrow> ticket r < length cs \<and> cell_state (cs ! ticket r) = Running) \<and>
     (\<forall>k r l q. (k, r) \<in> set t \<longrightarrow> (l, q) \<in> set t \<longrightarrow> ticket r = ticket q \<longrightarrow> k = l)"

definition queues_ok :: "(u64 \<Rightarrow> wire) \<Rightarrow> bool" where
  "queues_ok w \<longleftrightarrow> (\<forall>i. length (to_caller (w i)) \<le> CHAT_QUEUE_CAPACITY \<and>
     length (to_operator (w i)) \<le> CHAT_QUEUE_CAPACITY)"

definition hub_ok :: "hub \<Rightarrow> bool" where
  "hub_ok h \<longleftrightarrow> slots_ok (next_interaction h) (slots h) \<and> disconnects_ok (cells h) (disconnects h) \<and>
     tree_ok (pauses h) \<and> queues_ok (wires h)"

section \<open>What the pieces keep\<close>

lemma slots_ok_subset: "slots_ok n t \<Longrightarrow> tree_ok u \<Longrightarrow> set u \<subseteq> set t \<Longrightarrow> slots_ok n u"
  unfolding slots_ok_def by blast

lemma slots_ok_remove: "slots_ok n t \<Longrightarrow> slots_ok n (tree_remove k t)"
  by (rule slots_ok_subset) (auto simp: slots_ok_def filter_ok tree_remove_def)

lemma slots_ok_retain: "slots_ok n t \<Longrightarrow> slots_ok n (tree_retain p t)"
  by (rule slots_ok_subset) (auto simp: slots_ok_def filter_ok tree_retain_def)

lemma set_insert_found:
  "tree_ok t \<Longrightarrow> (l, u) \<in> set (tree_insert k v t) \<Longrightarrow> (l, u) = (k, v) \<or> (l \<noteq> k \<and> (l, u) \<in> set t)"
  using mem_lookup [OF tree_insert_ok, of t l u k v] set_tree_insert [of k v t]
  by (auto simp: lookup_insert split: if_splits)

lemma slots_ok_replace:
  assumes t: "slots_ok n t" and s: "tree_lookup t k = Some s"
    and u: "interaction_id (request u) = interaction_id (request s)"
      "page_session (request u) = page_session (request s)" "slot_shape u"
  shows "slots_ok n (tree_insert k u t)"
proof -
  have ok: "tree_ok t" using t by (simp add: slots_ok_def)
  note m = lookup_mem [OF s]
  have old: "interaction_id (request v) = interaction_id (request s) \<Longrightarrow> (l, v) \<in> set t \<Longrightarrow> l = k" for l v
    using t m unfolding slots_ok_def by metis
  show ?thesis
    unfolding slots_ok_def
  proof (intro conjI allI impI)
    fix l v assume "(l, v) \<in> set (tree_insert k u t)"
    from set_insert_found [OF ok this] t m u
    show "page_session (request v) = l" "slot_shape v" "interaction_id (request v) < n"
      unfolding slots_ok_def by auto
  next
    fix l v l' v'
    assume "(l, v) \<in> set (tree_insert k u t)" "(l', v') \<in> set (tree_insert k u t)"
      and eq: "interaction_id (request v) = interaction_id (request v')"
    with set_insert_found [OF ok] have "(l, v) = (k, u) \<or> (l, v) \<in> set t" "(l', v') = (k, u) \<or> (l', v') \<in> set t"
      by blast+
    with eq old u(1) t show "l = l'" unfolding slots_ok_def by (metis prod.inject)
  qed (simp add: ok tree_insert_ok)
qed

lemma word_less_succ: "(n :: u64) \<noteq> - 1 \<Longrightarrow> n < n + 1 \<and> (i < n \<longrightarrow> i < n + 1)"
proof -
  assume "n \<noteq> - 1"
  then have "1 + n \<noteq> 0" by (simp add: eq_neg_iff_add_eq_0 add.commute)
  then have "unat (n + 1) = Suc (unat n)" by (simp add: unatSuc add.commute)
  then show ?thesis by (simp add: word_less_nat_alt)
qed

lemma slots_ok_fresh:
  assumes t: "slots_ok n t" and n: "n \<noteq> - 1"
    and s: "interaction_id (request s) = n" "page_session (request s) = k" "slot_shape s"
  shows "slots_ok (n + 1) (tree_insert k s t)"
proof -
  have ok: "tree_ok t" using t by (simp add: slots_ok_def)
  have old: "(l, v) \<in> set t \<Longrightarrow> interaction_id (request v) \<noteq> n" for l v
    using t unfolding slots_ok_def by (metis less_irrefl)
  show ?thesis
    unfolding slots_ok_def
  proof (intro conjI allI impI)
    fix l v assume "(l, v) \<in> set (tree_insert k s t)"
    from set_insert_found [OF ok this] t s word_less_succ [OF n]
    show "page_session (request v) = l" "slot_shape v" "interaction_id (request v) < n + 1"
      unfolding slots_ok_def by auto
  next
    fix l v l' v'
    assume "(l, v) \<in> set (tree_insert k s t)" "(l', v') \<in> set (tree_insert k s t)"
      and eq: "interaction_id (request v) = interaction_id (request v')"
    with set_insert_found [OF ok] have "(l, v) = (k, s) \<or> (l, v) \<in> set t" "(l', v') = (k, s) \<or> (l', v') \<in> set t"
      by blast+
    with eq old s(1) t show "l = l'" unfolding slots_ok_def by (metis prod.inject)
  qed (simp add: ok tree_insert_ok)
qed

lemma disconnects_ok_subset:
  "disconnects_ok cs t \<Longrightarrow> tree_ok u \<Longrightarrow> set u \<subseteq> set t \<Longrightarrow> disconnects_ok cs u"
  unfolding disconnects_ok_def by blast

lemma disconnects_ok_remove: "disconnects_ok cs t \<Longrightarrow> disconnects_ok cs (tree_remove k t)"
  by (rule disconnects_ok_subset) (auto simp: disconnects_ok_def filter_ok tree_remove_def)

lemma disconnects_ok_new:
  assumes t: "disconnects_ok cs t" and r: "ticket r = length cs" and c: "cell_state c = Running"
  shows "disconnects_ok (cs @ [c]) (tree_insert k r t)"
proof -
  have ok: "tree_ok t" using t by (simp add: disconnects_ok_def)
  have old: "(l, q) \<in> set t \<Longrightarrow> ticket q < length cs" for l q using t unfolding disconnects_ok_def by blast
  show ?thesis
    unfolding disconnects_ok_def
  proof (intro conjI allI impI)
    fix l q assume "(l, q) \<in> set (tree_insert k r t)"
    from set_insert_found [OF ok this] t r c
    show "ticket q < length (cs @ [c])" "cell_state ((cs @ [c]) ! ticket q) = Running"
      unfolding disconnects_ok_def by (auto simp: nth_append intro: less_SucI)
  next
    fix l q l' q'
    assume "(l, q) \<in> set (tree_insert k r t)" "(l', q') \<in> set (tree_insert k r t)" and eq: "ticket q = ticket q'"
    with set_insert_found [OF ok] have "(l, q) = (k, r) \<or> (l, q) \<in> set t" "(l', q') = (k, r) \<or> (l', q') \<in> set t"
      by blast+
    with eq r t show "l = l'" unfolding disconnects_ok_def by (metis prod.inject old less_irrefl)
  qed (simp add: ok tree_insert_ok)
qed

lemma disconnects_ok_replace:
  assumes t: "disconnects_ok cs t" and r: "tree_lookup t k = Some r" and q: "ticket q = ticket r"
  shows "disconnects_ok cs (tree_insert k q t)"
proof -
  have ok: "tree_ok t" using t by (simp add: disconnects_ok_def)
  note m = lookup_mem [OF r]
  have old: "ticket v = ticket r \<Longrightarrow> (l, v) \<in> set t \<Longrightarrow> l = k" for l v
    using t m unfolding disconnects_ok_def by metis
  show ?thesis
    unfolding disconnects_ok_def
  proof (intro conjI allI impI)
    fix l v assume "(l, v) \<in> set (tree_insert k q t)"
    from set_insert_found [OF ok this] t m q
    show "ticket v < length cs" "cell_state (cs ! ticket v) = Running"
      unfolding disconnects_ok_def by auto
  next
    fix l v l' v'
    assume "(l, v) \<in> set (tree_insert k q t)" "(l', v') \<in> set (tree_insert k q t)" and eq: "ticket v = ticket v'"
    with set_insert_found [OF ok] have "(l, v) = (k, q) \<or> (l, v) \<in> set t" "(l', v') = (k, q) \<or> (l', v') \<in> set t"
      by blast+
    with eq old q t show "l = l'" unfolding disconnects_ok_def by (metis prod.inject)
  qed (simp add: ok tree_insert_ok)
qed

text \<open>Once a request is taken out, its cell belongs to nobody else.\<close>

lemma disconnects_ok_finalize:
  assumes t: "disconnects_ok cs t" and r: "tree_lookup t k = Some r"
  shows "disconnects_ok (cs[ticket r := c]) (tree_remove k t)"
proof -
  note m = lookup_mem [OF r]
  have "ticket q \<noteq> ticket r" if "(l, q) \<in> set (tree_remove k t)" for l q
    using t m that unfolding disconnects_ok_def tree_remove_def by auto
  with disconnects_ok_remove [OF t, of k] show ?thesis
    unfolding disconnects_ok_def by (metis length_list_update nth_list_update_neq)
qed

lemma disconnects_ok_fallback:
  "disconnects_ok cs t \<Longrightarrow> disconnects_ok (cs[i := (cs ! i)\<lparr>cell_fallback := True\<rparr>]) t"
proof -
  have "cell_state (cs[i := (cs ! i)\<lparr>cell_fallback := True\<rparr>] ! j) = cell_state (cs ! j)" for j
    by (cases "i < length cs"; cases "i = j") (simp_all add: not_less list_update_beyond)
  then show "disconnects_ok cs t \<Longrightarrow> ?thesis" unfolding disconnects_ok_def by simp
qed

lemma change_wire_frame [simp]:
  "next_interaction (change_wire i f h) = next_interaction h" "sysop (change_wire i f h) = sysop h"
  "slots (change_wire i f h) = slots h" "disconnects (change_wire i f h) = disconnects h"
  "pauses (change_wire i f h) = pauses h" "cells (change_wire i f h) = cells h"
  "poisoned (change_wire i f h) = poisoned h"
  "wires (change_wire i f h) = (wires h)(i := f (wires h i))"
  by (simp_all add: change_wire_def)

lemma hub_ok_change_wire:
  assumes "hub_ok h" and "length (to_caller (f (wires h i))) \<le> CHAT_QUEUE_CAPACITY"
    and "length (to_operator (f (wires h i))) \<le> CHAT_QUEUE_CAPACITY"
  shows "hub_ok (change_wire i f h)"
  using assms by (simp add: hub_ok_def queues_ok_def)

lemma hub_ok_send_caller: "hub_ok h \<Longrightarrow> hub_ok (snd (send_caller i ev h))"
  by (auto simp: send_caller_def hub_ok_def queues_ok_def intro!: hub_ok_change_wire)

lemma hub_ok_send_operator: "hub_ok h \<Longrightarrow> hub_ok (snd (send_operator i ev h))"
  by (auto simp: send_operator_def hub_ok_def queues_ok_def intro!: hub_ok_change_wire)

lemma length_tl_le: "xs = ev # evs \<Longrightarrow> length xs \<le> n \<Longrightarrow> length evs \<le> n"
  by simp

lemma hub_ok_receive_caller: "hub_ok h \<Longrightarrow> receive_caller i h = (r, h') \<Longrightarrow> hub_ok h'"
  by (auto simp: receive_caller_def hub_ok_def queues_ok_def split: list.splits dest: length_tl_le)

lemma hub_ok_receive_operator: "hub_ok h \<Longrightarrow> receive_operator i h = (r, h') \<Longrightarrow> hub_ok h'"
  by (auto simp: receive_operator_def hub_ok_def queues_ok_def split: list.splits dest: length_tl_le)

lemma hub_ok_drops [simp]:
  "hub_ok (drop_slot s h) = hub_ok h" "hub_ok (drop_caller_side i h) = hub_ok h"
  "hub_ok (drop_operator_side i h) = hub_ok h"
  by (auto simp: drop_slot_def drop_caller_side_def drop_operator_side_def hub_ok_def queues_ok_def split: if_splits)

lemma hub_ok_remove: "hub_ok h \<Longrightarrow> hub_ok (h\<lparr>slots := tree_remove k (slots h)\<rparr>)"
  by (simp add: hub_ok_def slots_ok_remove)

lemma hub_ok_dismiss: "hub_ok h \<Longrightarrow> hub_ok (dismiss sid ev h)"
  by (auto simp: dismiss_def hub_ok_remove hub_ok_send_caller split: option.split)

lemma hub_ok_dismiss_all: "hub_ok h \<Longrightarrow> hub_ok (fold (\<lambda>sid. dismiss sid ev) sids h)"
  by (induction sids arbitrary: h) (auto simp: hub_ok_dismiss)

lemma hub_ok_drop_slots: "hub_ok (fold (\<lambda>(k, s). drop_slot s) xs h) = hub_ok h"
proof (induction xs arbitrary: h)
  case (Cons x xs)
  obtain k s where x: "x = (k, s)" by force
  show ?case unfolding x fold_Cons comp_def prod.case Cons.IH by (rule hub_ok_drops(1))
qed simp

lemma hub_ok_remove_slot: "hub_ok h \<Longrightarrow> hub_ok (remove_slot sid i h)"
  by (auto simp: remove_slot_def hub_ok_remove split: option.split)

section \<open>Every operation keeps the invariant\<close>

lemma hub_ok_locked: "hub_ok h \<Longrightarrow> hub_ok (snd (f h)) \<Longrightarrow> hub_ok (snd (locked h f))"
  by (simp add: locked_def)

lemma hub_ok_chain:
  assumes "hub_ok (snd r)" and "\<And>x h. r = (Inr x, h) \<Longrightarrow> hub_ok h \<Longrightarrow> hub_ok (snd (f x h))"
  shows "hub_ok (snd (chain r f))"
  using assms by (cases r) (auto simp: chain_def split: sum.split)

lemma hub_ok_sysop: "hub_ok (h\<lparr>sysop := a\<rparr>) = hub_ok h"
  by (simp add: hub_ok_def)

lemma hub_ok_set_availability: "hub_ok h \<Longrightarrow> hub_ok (snd (set_availability a h))"
  unfolding set_availability_def
  by (rule hub_ok_locked) (simp_all add: Let_def hub_ok_dismiss_all hub_ok_sysop)

lemma queues_ok_new_wire: "queues_ok w \<Longrightarrow> to_caller v = [] \<Longrightarrow> to_operator v = [] \<Longrightarrow> queues_ok (w(i := v))"
  by (simp add: queues_ok_def)

lemma hub_ok_new_slot:
  assumes "hub_ok h" and "next_interaction h \<noteq> - 1"
    and "interaction_id (request s) = next_interaction h" "page_session (request s) = k" "slot_shape s"
    and "to_caller v = []" "to_operator v = []"
  shows "hub_ok (h\<lparr>next_interaction := next_interaction h + 1, slots := tree_insert k s (slots h),
      wires := (wires h)(next_interaction h := v)\<rparr>)"
  using assms slots_ok_fresh [of "next_interaction h" "slots h" s k]
  by (simp add: hub_ok_def queues_ok_new_wire)

lemma hub_ok_request_page: "hub_ok h \<Longrightarrow> hub_ok (snd (request_page sid nid cid name at h))"
  unfolding request_page_def
  by (rule hub_ok_locked) (simp_all add: Let_def hub_ok_new_slot slot_shape_def new_wire_def)

lemma hub_ok_invite: "hub_ok h \<Longrightarrow> hub_ok (snd (invite req own h))"
  unfolding invite_def
  by (rule hub_ok_locked) (simp_all add: Let_def hub_ok_new_slot slot_shape_def new_wire_def)

lemma hub_ok_decline: "hub_ok h \<Longrightarrow> hub_ok (snd (decline sid h))"
  unfolding decline_def by (rule hub_ok_locked) (auto simp: hub_ok_dismiss split: option.split)

lemma hub_slot_shape: "hub_ok h \<Longrightarrow> tree_lookup (slots h) k = Some s \<Longrightarrow> slot_shape s"
  by (auto simp: hub_ok_def slots_ok_def dest: lookup_mem)

lemma hub_ok_replace_slot:
  "hub_ok h \<Longrightarrow> tree_lookup (slots h) k = Some s \<Longrightarrow> interaction_id (request u) = interaction_id (request s) \<Longrightarrow>
     page_session (request u) = page_session (request s) \<Longrightarrow> slot_shape u \<Longrightarrow>
     hub_ok (h\<lparr>slots := tree_insert k u (slots h)\<rparr>)"
  by (simp add: hub_ok_def slots_ok_replace)

lemma hub_ok_answer_owned: "hub_ok h \<Longrightarrow> hub_ok (snd (answer_owned sid own h))"
proof (cases "tree_lookup (slots h) sid")
  case None
  then show "hub_ok h \<Longrightarrow> ?thesis" by (simp add: answer_owned_def locked_def)
next
  case (Some s)
  assume h: "hub_ok h"
  note shape = hub_slot_shape [OF h Some]
  define u where "u = s\<lparr>owner := own, holds_operator_receiver := False,
    request := (request s)\<lparr>page_state := Chatting\<rparr>\<rparr>"
  obtain r g where g: "send_caller (interaction_id (request s)) Answered
      (h\<lparr>slots := tree_insert sid u (slots h)\<rparr>) = (r, g)" by force
  have "hub_ok (h\<lparr>slots := tree_insert sid u (slots h)\<rparr>)" if "page_state (request s) = Pending"
    using that shape by (intro hub_ok_replace_slot [OF h Some]) (auto simp: u_def slot_shape_def)
  then have "page_state (request s) = Pending \<Longrightarrow> hub_ok g"
    using hub_ok_send_caller [of "h\<lparr>slots := tree_insert sid u (slots h)\<rparr>" "interaction_id (request s)" Answered] g by simp
  then have "page_state (request s) = Pending \<Longrightarrow> hub_ok (change_wire i (\<lambda>w. w\<lparr>operator_receiver := b\<rparr>) g)"
    "page_state (request s) = Pending \<Longrightarrow> hub_ok (change_wire i (\<lambda>w. w\<lparr>caller_senders := caller_senders w + 1\<rparr>) g)" for i b
    by (auto intro!: hub_ok_change_wire simp: hub_ok_def queues_ok_def)
  with h shape g Some show ?thesis
    by (cases r) (auto simp: answer_owned_def locked_def Let_def slot_shape_def u_def [symmetric])
qed

lemma hub_ok_invitation_commit: "hub_ok h \<Longrightarrow> hub_ok (snd (invitation_commit sid i allowed h))"
proof -
  assume h: "hub_ok h"
  have "hub_ok (h\<lparr>slots := tree_insert sid (s\<lparr>holds_invitation := False,
      request := (request s)\<lparr>page_state := Chatting\<rparr>\<rparr>) (slots h)\<rparr>)"
    if "tree_lookup (slots h) sid = Some s" "page_state (request s) = Invited" for s
    using that hub_slot_shape [OF h that(1)] by (intro hub_ok_replace_slot [OF h that(1)]) (auto simp: slot_shape_def)
  with h show ?thesis
    by (auto simp: invitation_commit_def locked_def hub_ok_remove split: option.split)
qed

lemma hub_ok_end_operator_attachment: "hub_ok h \<Longrightarrow> hub_ok (snd (end_operator_attachment own h))"
proof -
  assume "hub_ok h"
  then have "hub_ok (h\<lparr>slots := tree_retain (\<lambda>_ s. owner s \<noteq> Some own) (slots h)\<rparr>)"
    by (simp add: hub_ok_def slots_ok_retain)
  with \<open>hub_ok h\<close> show ?thesis by (simp add: end_operator_attachment_def locked_def hub_ok_drop_slots)
qed

lemma hub_ok_request_disconnect_mode: "hub_ok h \<Longrightarrow> hub_ok (snd (request_disconnect_mode sid n c b h))"
proof (cases "tree_lookup (disconnects h) sid")
  case None
  assume h: "hub_ok h"
  let ?g = "h\<lparr>cells := cells h @ [\<lparr>cell_state = Running, cell_fallback = False\<rparr>],
    disconnects := tree_insert sid \<lparr>notice = n, board_shutdown = b, consumed = False, correlated = c,
      ticket = length (cells h)\<rparr> (disconnects h)\<rparr>"
  have "hub_ok ?g" using h by (simp add: hub_ok_def disconnects_ok_new)
  then have "hub_ok (dismiss sid Ended ?g)" by (rule hub_ok_dismiss)
  with h None show ?thesis by (simp add: request_disconnect_mode_def locked_def Let_def)
qed (simp add: request_disconnect_mode_def locked_def)

lemma hub_ok_take_disconnect_notice: "hub_ok h \<Longrightarrow> hub_ok (snd (take_disconnect_notice sid h))"
  by (auto simp: take_disconnect_notice_def locked_def hub_ok_def disconnects_ok_replace split: option.split)

lemma hub_ok_disconnect_finalized: "hub_ok h \<Longrightarrow> hub_ok (snd (disconnect_finalized sid ok h))"
  by (auto simp: disconnect_finalized_def locked_def hub_ok_def disconnects_ok_finalize split: option.split)

lemma hub_ok_mark_fallback: "hub_ok h \<Longrightarrow> hub_ok (ticket_mark_fallback t h)"
  by (simp add: ticket_mark_fallback_def hub_ok_def disconnects_ok_fallback)

lemma hub_ok_session_ended: "hub_ok h \<Longrightarrow> hub_ok (snd (session_ended sid h))"
proof -
  assume h: "hub_ok h"
  define g where "g = (case tree_lookup (disconnects h) sid of
     None \<Rightarrow> h
   | Some r \<Rightarrow> if correlated r then h else h\<lparr>disconnects := tree_remove sid (disconnects h)\<rparr>)"
  have "hub_ok g" using h by (auto simp: g_def hub_ok_def disconnects_ok_remove split: option.split)
  then have "hub_ok (g\<lparr>pauses := tree_remove sid (pauses g)\<rparr>)" by (simp add: hub_ok_def tree_remove_ok)
  then have "hub_ok (dismiss sid Ended (g\<lparr>pauses := tree_remove sid (pauses g)\<rparr>))" by (rule hub_ok_dismiss)
  with h show ?thesis by (simp add: session_ended_def locked_def Let_def g_def [symmetric])
qed

lemma hub_ok_pauses: "hub_ok h \<Longrightarrow> hub_ok (h\<lparr>pauses := tree_insert k v (pauses h)\<rparr>)"
  by (simp add: hub_ok_def tree_insert_ok)

lemma hub_ok_pause_allowance: "hub_ok h \<Longrightarrow> hub_ok (snd (pause_allowance sid now h))"
  by (simp add: pause_allowance_def locked_def Let_def hub_ok_pauses split: prod.split)

lemma hub_ok_pause_drop: "hub_ok h \<Longrightarrow> hub_ok (pause_drop sid now h)"
  by (simp add: pause_drop_def hub_ok_pauses split: option.split prod.split)

lemma hub_ok_ticket_drop: "hub_ok h \<Longrightarrow> hub_ok (ticket_drop t h)"
  by (simp add: ticket_drop_def hub_ok_remove_slot)

lemma hub_ok_page_wait: "hub_ok h \<Longrightarrow> hub_ok (snd (page_wait t h))"
proof -
  assume h: "hub_ok h"
  obtain r g where g: "receive_caller (ticket_interaction t) h = (r, g)" by force
  have "hub_ok g" by (rule hub_ok_receive_caller [OF h g])
  with g show ?thesis
    by (simp add: page_wait_def Let_def hub_ok_ticket_drop hub_ok_remove_slot split: received.split caller_event.split)
qed

lemma hub_ok_caller_send_line: "hub_ok h \<Longrightarrow> hub_ok (snd (caller_send_line c l h))"
  using hub_ok_send_operator [of h "chat_interaction c" "CallerLine l"]
  by (cases "send_operator (chat_interaction c) (CallerLine l) h")
    (auto simp: caller_send_line_def locked_def split: sum.split send_error.split)

lemma hub_ok_operator_send_line: "hub_ok h \<Longrightarrow> hub_ok (snd (operator_send_line c l h))"
  using hub_ok_send_caller [of h "chat_interaction c" "OperatorLine l"]
  by (cases "send_caller (chat_interaction c) (OperatorLine l) h")
    (auto simp: operator_send_line_def interaction_state_def locked_def split: sum.split send_error.split)

lemma hub_ok_caller_receive_line: "hub_ok h \<Longrightarrow> hub_ok (snd (caller_receive_line c h))"
  using hub_ok_receive_caller [of h "chat_interaction c"]
  by (cases "receive_caller (chat_interaction c) h")
    (auto simp: caller_receive_line_def locked_def split: received.split caller_event.split)

lemma hub_ok_operator_receive_line: "hub_ok h \<Longrightarrow> hub_ok (snd (operator_receive_line c h))"
  using hub_ok_receive_operator [of h "chat_interaction c"]
  by (cases "receive_operator (chat_interaction c) h")
    (auto simp: operator_receive_line_def locked_def split: received.split operator_event.split)

lemma hub_ok_ends: "hub_ok h \<Longrightarrow> hub_ok (caller_end c h)" "hub_ok h \<Longrightarrow> hub_ok (operator_end c h)"
  by (simp_all add: caller_end_def operator_end_def hub_ok_remove_slot hub_ok_send_caller hub_ok_send_operator)

section \<open>The hub as a machine\<close>

datatype hub_op =
    HubSetAvailability availability
  | HubRequestPage session_id node_id caller_id string int
  | HubDecline session_id
  | HubAnswer session_id "string option"
  | HubInvite page_request string
  | HubInvitationCommit session_id u64 bool
  | HubEndAttachment string
  | HubDisconnect session_id bool bool bool
  | HubTakeNotice session_id
  | HubFinalize session_id bool
  | HubMarkFallback nat
  | HubSessionEnded session_id
  | HubPause session_id nat
  | HubPauseDrop session_id nat
  | HubWait page_ticket
  | HubTicketDrop page_ticket
  | HubCallerSend chat string
  | HubCallerReceive chat
  | HubCallerEnd chat
  | HubOperatorSend chat string
  | HubOperatorReceive chat
  | HubOperatorEnd chat

fun hub_after :: "hub_op \<Rightarrow> hub \<Rightarrow> hub" where
  "hub_after (HubSetAvailability a) h = snd (set_availability a h)"
| "hub_after (HubRequestPage sid nid cid name at) h = snd (request_page sid nid cid name at h)"
| "hub_after (HubDecline sid) h = snd (decline sid h)"
| "hub_after (HubAnswer sid own) h = snd (answer_owned sid own h)"
| "hub_after (HubInvite req own) h = snd (invite req own h)"
| "hub_after (HubInvitationCommit sid i allowed) h = snd (invitation_commit sid i allowed h)"
| "hub_after (HubEndAttachment own) h = snd (end_operator_attachment own h)"
| "hub_after (HubDisconnect sid n c b) h = snd (request_disconnect_mode sid n c b h)"
| "hub_after (HubTakeNotice sid) h = snd (take_disconnect_notice sid h)"
| "hub_after (HubFinalize sid ok) h = snd (disconnect_finalized sid ok h)"
| "hub_after (HubMarkFallback t) h = ticket_mark_fallback t h"
| "hub_after (HubSessionEnded sid) h = snd (session_ended sid h)"
| "hub_after (HubPause sid now) h = snd (pause_allowance sid now h)"
| "hub_after (HubPauseDrop sid now) h = pause_drop sid now h"
| "hub_after (HubWait t) h = snd (page_wait t h)"
| "hub_after (HubTicketDrop t) h = ticket_drop t h"
| "hub_after (HubCallerSend c l) h = snd (caller_send_line c l h)"
| "hub_after (HubCallerReceive c) h = snd (caller_receive_line c h)"
| "hub_after (HubCallerEnd c) h = caller_end c h"
| "hub_after (HubOperatorSend c l) h = snd (operator_send_line c l h)"
| "hub_after (HubOperatorReceive c) h = snd (operator_receive_line c h)"
| "hub_after (HubOperatorEnd c) h = operator_end c h"

definition hub_step :: "hub \<Rightarrow> hub_op \<Rightarrow> unit + hub" where
  "hub_step h op = Inr (hub_after op h)"

lemmas hub_ok_ops =
  hub_ok_set_availability hub_ok_request_page hub_ok_decline hub_ok_answer_owned hub_ok_invite
  hub_ok_invitation_commit hub_ok_end_operator_attachment hub_ok_request_disconnect_mode
  hub_ok_take_disconnect_notice hub_ok_disconnect_finalized hub_ok_mark_fallback hub_ok_session_ended
  hub_ok_pause_allowance hub_ok_pause_drop hub_ok_page_wait hub_ok_ticket_drop hub_ok_caller_send_line
  hub_ok_caller_receive_line hub_ok_operator_send_line hub_ok_operator_receive_line hub_ok_ends

lemma hub_after_ok: "hub_ok h \<Longrightarrow> hub_ok (hub_after op h)"
  by (cases op) (simp_all add: hub_ok_ops)

lemma send_counter [simp]:
  "next_interaction (snd (send_caller i ev h)) = next_interaction h"
  "next_interaction (snd (send_operator i ev' h)) = next_interaction h"
  by (simp_all add: send_caller_def send_operator_def)

lemma drops_counter [simp]:
  "next_interaction (drop_slot s h) = next_interaction h"
  "next_interaction (drop_caller_side i h) = next_interaction h"
  "next_interaction (drop_operator_side i h) = next_interaction h"
  by (simp_all add: drop_slot_def drop_caller_side_def drop_operator_side_def)

lemma receive_counter:
  "receive_caller i h = (r, g) \<Longrightarrow> next_interaction g = next_interaction h"
  "receive_operator i h = (r', g) \<Longrightarrow> next_interaction g = next_interaction h"
  by (auto simp: receive_caller_def receive_operator_def split: list.splits)

lemma dismiss_counter [simp]:
  "next_interaction (dismiss sid ev h) = next_interaction h"
  "next_interaction (remove_slot sid i h) = next_interaction h"
  by (simp_all add: dismiss_def remove_slot_def split: option.split)

lemma dismiss_all_counter [simp]:
  "next_interaction (fold (\<lambda>sid. dismiss sid ev) sids h) = next_interaction h"
  by (induction sids arbitrary: h) simp_all

lemma drop_slots_counter [simp]:
  "next_interaction (fold (\<lambda>(k, s). drop_slot s) xs h) = next_interaction h"
  by (induction xs arbitrary: h) (simp_all add: case_prod_beta)

lemma hub_after_counter: "unat (next_interaction h) \<le> unat (next_interaction (hub_after op h))"
proof -
  have up: "n \<noteq> - 1 \<Longrightarrow> unat n \<le> unat (n + 1)" for n :: u64
    using word_less_succ [of n 0] by (simp add: word_less_nat_alt)
  show ?thesis
  proof (cases op)
    case (HubAnswer sid own)
    then show ?thesis
      by (auto simp: answer_owned_def locked_def Let_def send_caller_def split: option.split sum.split prod.split)
  next
    case (HubWait t)
    then show ?thesis
      using receive_counter(1) [of "ticket_interaction t" h]
      by (cases "receive_caller (ticket_interaction t) h")
        (auto simp: page_wait_def Let_def ticket_drop_def split: received.split caller_event.split)
  next
    case (HubCallerReceive c)
    then show ?thesis
      using receive_counter(1) [of "chat_interaction c" h]
      by (cases "receive_caller (chat_interaction c) h")
        (auto simp: caller_receive_line_def locked_def split: received.split caller_event.split)
  next
    case (HubOperatorReceive c)
    then show ?thesis
      using receive_counter(2) [of "chat_interaction c" h]
      by (cases "receive_operator (chat_interaction c) h")
        (auto simp: operator_receive_line_def locked_def split: received.split operator_event.split)
  next
    case (HubCallerSend c l)
    then show ?thesis
      using send_counter(2) [of "chat_interaction c" "CallerLine l" h]
      by (cases "send_operator (chat_interaction c) (CallerLine l) h")
        (auto simp: caller_send_line_def locked_def split: sum.split send_error.split)
  next
    case (HubOperatorSend c l)
    then show ?thesis
      using send_counter(1) [of "chat_interaction c" "OperatorLine l" h]
      by (cases "send_caller (chat_interaction c) (OperatorLine l) h")
        (auto simp: operator_send_line_def interaction_state_def locked_def split: sum.split send_error.split)
  qed (simp_all add: locked_def Let_def up set_availability_def request_page_def decline_def invite_def
      invitation_commit_def end_operator_attachment_def request_disconnect_mode_def take_disconnect_notice_def
      disconnect_finalized_def ticket_mark_fallback_def session_ended_def pause_allowance_def pause_drop_def
      ticket_drop_def caller_end_def operator_end_def split: option.split prod.split)
qed

interpretation desk: monotone_machine hub_step hub_ok "\<lambda>h. unat (next_interaction h)"
  by unfold_locales (auto simp: hub_step_def hub_after_ok hub_after_counter)

lemma new_hub_ok: "hub_ok new_hub"
  by (simp add: hub_ok_def new_hub_def slots_ok_def disconnects_ok_def tree_ok_def queues_ok_def dead_wire_def)

section \<open>Properties\<close>

text \<open>
  C8.  Whatever operations run on a new hub, in whatever order, refused ones included: there is
  one slot per session and it carries that session, no two slots share an interaction number,
  the channel ends and the owner recorded in a slot fit its state, every pending disconnect has
  a ticket of its own that is still running, and no queue exceeds its 32 places.
\<close>

theorem hub_invariant:
  assumes "run_steps hub_step new_hub ops = Inr h"
  shows "hub_ok h"
  by (rule desk.run_inv [OF new_hub_ok assms])

lemma request_page_result:
  assumes "hub_ok h" and "request_page sid nid cid name at h = (Inr t, g)"
  shows "\<not> poisoned g \<and> ticket_interaction t = next_interaction h \<and> ticket_session t = sid \<and>
    \<not> ticket_finished t \<and> hub_ok g \<and> wires g (next_interaction h) = new_wire \<and>
    tree_lookup (slots g) sid = Some
      \<lparr>request = \<lparr>interaction_id = next_interaction h, page_session = sid, page_node = nid, page_caller = cid,
         page_caller_name = name, requested_at = at, page_state = Pending\<rparr>,
       holds_operator_receiver = True, holds_invitation = False, owner = None\<rparr>"
proof -
  have "tree_ok (slots h)" using assms(1) by (simp add: hub_ok_def slots_ok_def)
  with assms hub_ok_request_page [OF assms(1), of sid nid cid name at] show ?thesis
    by (auto simp: request_page_def locked_def Let_def tree.look_put split: if_splits)
qed

theorem hub_invariant_witness:
  "hub_ok (hub_after (HubDisconnect 3 True False False) (hub_after (HubRequestPage 3 1 9 ''joe'' 100) new_hub))"
  using hub_invariant [of "[HubRequestPage 3 1 9 ''joe'' 100, HubDisconnect 3 True False False]"]
  by (simp add: hub_step_def del: hub_after.simps)

text \<open>
  Interaction numbers are never used twice: a page requested after any run has a number
  that no earlier interaction had, so what is left of an earlier interaction (a ticket that is
  dropped late, a chat that ends late) cannot remove the new one.
\<close>

theorem interaction_numbers_never_reused:
  assumes "hub_ok h" and "run_steps hub_step h ops = Inr g"
    and "request_page sid nid cid name at g = (Inr t, g')" and "i < next_interaction h"
  shows "ticket_interaction t \<noteq> i \<and> remove_slot sid i g' = g'"
proof -
  have "hub_ok g" by (rule desk.run_inv [OF assms(1,2)])
  note r = request_page_result [OF this assms(3)]
  have "next_interaction h \<le> next_interaction g"
    using desk.run_level [OF assms(1,2)] by (simp add: word_le_nat_alt)
  with assms(4) r have "ticket_interaction t \<noteq> i" by auto
  with r show ?thesis by (auto simp: remove_slot_def)
qed

theorem interaction_numbers_never_reused_witness:
  "ticket_interaction (projr (fst (request_page 3 1 9 ''joe'' 100 (new_hub\<lparr>next_interaction := 5\<rparr>)))) \<noteq> 4"
proof -
  let ?h = "new_hub\<lparr>next_interaction := 5\<rparr>"
  have ok: "hub_ok ?h" using new_hub_ok by (simp add: hub_ok_def new_hub_def slots_ok_def)
  obtain t g where r: "request_page 3 1 9 ''joe'' 100 ?h = (Inr t, g)"
    by (auto simp: request_page_def locked_def Let_def new_hub_def tree_lookup_def)
  have "(4 :: u64) < next_interaction ?h" by (simp add: word_less_nat_alt)
  from interaction_numbers_never_reused [OF ok _ r this, of "[]"] show ?thesis by (simp add: r)
qed

text \<open>
  C36.  A page that is answered becomes a chat: for every page the operator answers, the caller's
  wait is accepted with the same interaction, and a valid line the operator then sends is the
  next one the caller receives.
\<close>

theorem answered_page_becomes_chat:
  assumes "hub_ok h" and "request_page sid nid cid name at h = (Inr t, h1)" and "valid_chat_line l"
  shows "\<exists>c h2 h3 h4 h5. answer_owned sid own h1 = (Inr c, h2) \<and> page_wait t h2 = (Inr (Accepted c), h3) \<and>
    operator_send_line c l h3 = (Inr (), h4) \<and> caller_receive_line c h4 = (Inr (Some l), h5)"
proof -
  note r = request_page_result [OF assms(1,2)]
  let ?i = "next_interaction h" and ?c = "\<lparr>chat_interaction = next_interaction h, chat_session = sid\<rparr>"
  have ok: "tree_ok (slots h1)" using r by (simp add: hub_ok_def slots_ok_def)
  from r have ans: "\<exists>h2. answer_owned sid own h1 = (Inr ?c, h2) \<and> \<not> poisoned h2 \<and>
      (\<exists>s. tree_lookup (slots h2) sid = Some s \<and> interaction_id (request s) = ?i \<and> page_state (request s) = Chatting) \<and>
      to_caller (wires h2 ?i) = [Answered] \<and> caller_receiver (wires h2 ?i)"
    using ok by (auto simp: answer_owned_def locked_def Let_def send_caller_def CHAT_QUEUE_CAPACITY_def
        new_wire_def tree.look_put change_wire_def)
  then obtain h2 s where h2: "answer_owned sid own h1 = (Inr ?c, h2)" "\<not> poisoned h2"
      "tree_lookup (slots h2) sid = Some s" "interaction_id (request s) = ?i" "page_state (request s) = Chatting"
      "to_caller (wires h2 ?i) = [Answered]" "caller_receiver (wires h2 ?i)" by blast
  define h3 where "h3 = change_wire ?i (\<lambda>w. w\<lparr>to_caller := []\<rparr>) h2"
  have w: "page_wait t h2 = (Inr (Accepted ?c), h3)"
    using h2 r by (simp add: page_wait_def Let_def receive_caller_def h3_def)
  define h4 where "h4 = change_wire ?i (\<lambda>w. w\<lparr>to_caller := to_caller w @ [OperatorLine l]\<rparr>) h3"
  have s: "operator_send_line ?c l h3 = (Inr (), h4)"
    using h2 assms(3) by (simp add: operator_send_line_def locked_def hub_contains_def interaction_state_def
        validate_chat_line_def valid_chat_line_def send_caller_def h3_def h4_def CHAT_QUEUE_CAPACITY_def)
  have "\<exists>h5. caller_receive_line ?c h4 = (Inr (Some l), h5)"
    using h2 by (simp add: caller_receive_line_def locked_def hub_contains_def receive_caller_def h3_def h4_def)
  with h2(1) w s show ?thesis by blast
qed

theorem answered_page_becomes_chat_witness:
  "\<exists>t h1 c h2 h3 h4 h5. request_page 3 1 9 ''joe'' 100 new_hub = (Inr t, h1) \<and>
    answer_owned 3 None h1 = (Inr c, h2) \<and> page_wait t h2 = (Inr (Accepted c), h3) \<and>
    operator_send_line c ''hi'' h3 = (Inr (), h4) \<and> caller_receive_line c h4 = (Inr (Some ''hi''), h5)"
proof -
  obtain t h1 where r: "request_page 3 1 9 ''joe'' 100 new_hub = (Inr t, h1)"
    by (auto simp: request_page_def locked_def Let_def new_hub_def tree_lookup_def)
  have "valid_chat_line ''hi''"
    by (simp add: valid_chat_line_def MAX_CHAT_LINE_BYTES_def is_control_def)
  from answered_page_becomes_chat [OF new_hub_ok r this, of None] r show ?thesis by blast
qed

text \<open>
  C37.  No chat without consent: an invitation becomes a chat only if the caller accepted, the
  authorization said yes, and, whatever other threads did while the hub was not locked, the slot
  still is the invited interaction at the moment of the transition.
\<close>

theorem invitation_needs_consent:
  assumes "answer_invitation_exact sid i accept authorized others h = (Inr (Some c), g)"
  shows "accept \<and> authorized \<and> chat_interaction c = i \<and> chat_session c = sid \<and>
    (\<exists>s. tree_lookup (slots (others h)) sid = Some s \<and> interaction_id (request s) = i \<and>
       page_state (request s) = Invited \<and> holds_invitation s)"
proof -
  from assms have "invitation_commit sid i (accept \<and> authorized) (others h) = (Inr (Some c), g)"
    by (auto simp: answer_invitation_exact_def result_simps invitation_check_def locked_def
        split: option.splits if_splits)
  then show ?thesis
    by (auto simp: invitation_commit_def locked_def split: option.splits if_splits)
qed

theorem invitation_needs_consent_witness:
  "\<exists>c g h. invite \<lparr>interaction_id = 0, page_session = 3, page_node = 1, page_caller = 9,
      page_caller_name = ''joe'', requested_at = 100, page_state = Pending\<rparr> ''op'' new_hub = (Inr c, h) \<and>
    answer_invitation_exact 3 1 True True (\<lambda>h. h) h = (Inr (Some c), g) \<and> chat_session c = 3"
proof -
  let ?req = "\<lparr>interaction_id = 0, page_session = 3, page_node = 1, page_caller = 9,
      page_caller_name = ''joe'', requested_at = 100, page_state = Pending\<rparr>"
  obtain h where h: "invite ?req ''op'' new_hub = (Inr \<lparr>chat_interaction = 1, chat_session = 3\<rparr>, h)"
    by (auto simp: invite_def locked_def Let_def new_hub_def tree_lookup_def)
  then obtain g where g: "answer_invitation_exact 3 1 True True (\<lambda>h. h) h =
      (Inr (Some \<lparr>chat_interaction = 1, chat_session = 3\<rparr>), g)"
    by (auto simp: answer_invitation_exact_def invitation_check_def invitation_commit_def locked_def
        invite_def Let_def new_hub_def tree_lookup_def)
  from invitation_needs_consent [OF g] h g show ?thesis by blast
qed

text \<open>
  A disconnect is requested once and announced once: the first request opens a ticket and
  ends the session's page or chat, any later one gets the same ticket and changes nothing, and
  the notice is handed out exactly once however often it is asked for.
\<close>

theorem disconnect_requested_once:
  assumes "hub_ok h" and "request_disconnect_mode sid n c b h = (Inr (t, True), h1)"
  shows "tree_lookup (slots h1) sid = None \<and>
    request_disconnect_mode sid n' c' b' h1 = (Inr (t, False), h1) \<and>
    (\<exists>h2. take_disconnect_notice sid h1 = (Inr (Some n), h2) \<and>
       take_disconnect_notice sid h2 = (Inr None, h2) \<and>
       request_disconnect_mode sid n' c' b' h2 = (Inr (t, False), h2))"
proof -
  let ?r = "\<lparr>notice = n, board_shutdown = b, consumed = False, correlated = c, ticket = t\<rparr>"
  from assms(1) have ok: "tree_ok (slots h)" "tree_ok (disconnects h)"
    by (simp_all add: hub_ok_def slots_ok_def disconnects_ok_def)
  from assms(2) have p: "\<not> poisoned h" and none: "tree_lookup (disconnects h) sid = None"
    and t: "t = length (cells h)"
    and h1: "h1 = dismiss sid Ended (h\<lparr>cells := cells h @ [\<lparr>cell_state = Running, cell_fallback = False\<rparr>],
      disconnects := tree_insert sid ?r (disconnects h)\<rparr>)"
    by (auto simp: request_disconnect_mode_def locked_def Let_def split: if_splits option.splits)
  have keep: "disconnects (dismiss sid ev g) = disconnects g" "poisoned (dismiss sid ev g) = poisoned g" for ev g
    by (simp_all add: dismiss_def drop_slot_def send_caller_def split: option.split)
  have d: "disconnects h1 = tree_insert sid ?r (disconnects h)" "\<not> poisoned h1"
    using p by (simp_all add: h1 keep)
  have r: "tree_lookup (disconnects h1) sid = Some ?r" and ok1: "tree_ok (disconnects h1)"
    using ok d by (simp_all add: tree.look_put tree_insert_ok)
  have "tree_lookup (slots h1) sid = None"
    using ok by (simp add: h1 dismiss_def drop_slot_def send_caller_def tree.look_del split: option.split)
  moreover have "take_disconnect_notice sid h1 =
      (Inr (Some n), h1\<lparr>disconnects := tree_insert sid (?r\<lparr>consumed := True\<rparr>) (disconnects h1)\<rparr>)"
    using r d(2) by (simp add: take_disconnect_notice_def locked_def)
  ultimately show ?thesis
    using r d(2) ok1 by (simp add: request_disconnect_mode_def take_disconnect_notice_def locked_def tree.look_put)
qed

theorem disconnect_requested_once_witness:
  "\<exists>h1 h2. request_disconnect_mode 3 True False False new_hub = (Inr (0, True), h1) \<and>
     request_disconnect_mode 3 False True True h1 = (Inr (0, False), h1) \<and>
     take_disconnect_notice 3 h1 = (Inr (Some True), h2) \<and> take_disconnect_notice 3 h2 = (Inr None, h2)"
proof -
  obtain h1 where h1: "request_disconnect_mode 3 True False False new_hub = (Inr (0, True), h1)"
    by (auto simp: request_disconnect_mode_def locked_def Let_def new_hub_def tree_lookup_def)
  from disconnect_requested_once [OF new_hub_ok h1, of False True True] h1 show ?thesis by blast
qed

lemma dismiss_all_lookup:
  "tree_ok (slots h) \<Longrightarrow> tree_lookup (slots (fold (\<lambda>sid. dismiss sid ev) sids h)) k =
     (if k \<in> set sids then None else tree_lookup (slots h) k)"
proof (induction sids arbitrary: h)
  case (Cons sid sids)
  have "slots (dismiss sid ev h) = (if tree_lookup (slots h) sid = None then slots h else tree_remove sid (slots h))"
    by (simp add: dismiss_def drop_slot_def send_caller_def split: option.split)
  with Cons show ?case by (auto simp: tree_remove_ok tree.look_del)
qed simp

text \<open>
  When the Sysop becomes unavailable every page still pending is withdrawn, and only those:
  invitations and running chats stay as they are, and no new page is accepted.
\<close>

theorem unavailable_withdraws_pending:
  assumes "hub_ok h" and "\<not> poisoned h" and "set_availability Unavailable h = (r, g)"
  shows "r = Inr () \<and> tree_lookup (slots g) k =
      (case tree_lookup (slots h) k of
         Some s \<Rightarrow> if page_state (request s) = Pending then None else Some s
       | None \<Rightarrow> None) \<and>
    request_page sid nid cid name at g = (Inl SysopUnavailable, g)"
proof -
  let ?p = "map fst (filter (\<lambda>(_, s). page_state (request s) = Pending) (slots h))"
  have ok: "tree_ok (slots h)" using assms(1) by (simp add: hub_ok_def slots_ok_def)
  have k: "k \<in> set ?p \<longleftrightarrow> (\<exists>s. tree_lookup (slots h) k = Some s \<and> page_state (request s) = Pending)"
  proof -
    have "k \<in> set ?p \<longleftrightarrow> (\<exists>s. (k, s) \<in> set (slots h) \<and> page_state (request s) = Pending)" by force
    then show ?thesis using mem_lookup [OF ok] lookup_mem [of "slots h"] by blast
  qed
  have g: "g = fold (\<lambda>sid. dismiss sid Declined) ?p (h\<lparr>sysop := Unavailable\<rparr>)" "r = Inr ()"
    using assms(2,3) by (simp_all add: set_availability_def locked_def Let_def)
  have frame: "sysop (fold (\<lambda>sid. dismiss sid ev) xs u) = sysop u" "poisoned (fold (\<lambda>sid. dismiss sid ev) xs u) = poisoned u"
    for ev xs u
    by (induction xs arbitrary: u) (simp_all add: dismiss_def drop_slot_def send_caller_def split: option.split)
  have "tree_lookup (slots g) k = (if k \<in> set ?p then None else tree_lookup (slots h) k)"
    unfolding g(1) using ok by (subst dismiss_all_lookup) simp_all
  with k g assms(2) show ?thesis
    by (auto simp: frame request_page_def locked_def split: option.split)
qed

theorem unavailable_withdraws_pending_witness:
  "\<exists>g. set_availability Unavailable (hub_after (HubRequestPage 3 1 9 ''joe'' 100) new_hub) = (Inr (), g) \<and>
     tree_lookup (slots g) 3 = None"
proof -
  let ?h = "hub_after (HubRequestPage 3 1 9 ''joe'' 100) new_hub"
  obtain t where t: "request_page 3 1 9 ''joe'' 100 new_hub = (Inr t, ?h)"
    by (auto simp: request_page_def locked_def Let_def new_hub_def tree_lookup_def)
  note r = request_page_result [OF new_hub_ok t]
  obtain x g where g: "set_availability Unavailable ?h = (x, g)" by force
  from unavailable_withdraws_pending [OF _ _ g, of 3] r g show ?thesis by (auto split: option.splits)
qed

text \<open>
  An allowance pause counts once: pausing and dropping the pause adds exactly the time in
  between (up to the largest duration) to what was paused before, and while it runs the amount
  reported is what dropping it then would give and a second pause is refused.
\<close>

theorem allowance_pause_adds_elapsed:
  assumes "hub_ok h" and "pause_allowance sid start h = (Inr p, g)"
    and "paused_allowance sid start h = (Inr before, h)"
  shows "paused_allowance sid now g = (Inr (duration_add before (now - start)), g) \<and>
    paused_allowance sid later (pause_drop sid now g) = (Inr (duration_add before (now - start)), pause_drop sid now g) \<and>
    pause_allowance sid now g = (Inl AlreadyCompleted, g)"
proof -
  from assms(1) have ok: "tree_ok (pauses h)" by (simp add: hub_ok_def)
  obtain spent active where sa: "unwrap_or (tree_lookup (pauses h) sid) (0, None) = (spent, active)" by force
  from assms(2) sa have p: "\<not> poisoned h" and a: "active = None"
    and g: "g = h\<lparr>pauses := tree_insert sid (spent, Some start) (pauses h)\<rparr>"
    by (auto simp: pause_allowance_def locked_def split: if_splits)
  have b: "before = duration_add spent 0"
    using assms(3) sa a p by (auto simp: paused_allowance_def locked_def unwrap_or_def duration_add_def split: option.splits)
  have l: "tree_lookup (pauses g) sid = Some (spent, Some start)" and okg: "tree_ok (pauses g)"
    using ok by (simp_all add: g tree.look_put tree_insert_ok)
  have add: "duration_add (duration_add spent 0) d = duration_add spent d"
    "duration_add (duration_add spent d) 0 = duration_add spent d" for d
    by (simp_all add: duration_add_def)
  show ?thesis
    using l okg p by (simp add: b add paused_allowance_def pause_allowance_def pause_drop_def locked_def unwrap_or_def
        tree.look_put g)
qed

theorem allowance_pause_adds_elapsed_witness:
  "paused_allowance 3 30 (pause_drop 3 25 (snd (pause_allowance 3 10 new_hub))) =
     (Inr 15, pause_drop 3 25 (snd (pause_allowance 3 10 new_hub)))"
proof -
  have p: "pause_allowance 3 10 new_hub = (Inr 3, snd (pause_allowance 3 10 new_hub))"
    "paused_allowance 3 10 new_hub = (Inr 0, new_hub)"
    by (simp_all add: pause_allowance_def paused_allowance_def locked_def new_hub_def tree_lookup_def unwrap_or_def)
  from allowance_pause_adds_elapsed [OF new_hub_ok p, of 25 30] show ?thesis
    by (simp add: duration_add_def duration_max_def)
qed

end
