(* ===== verification/Transfer_Blocks.thy ===== *)
theory Transfer_Blocks
  imports Line_Input Crc
begin

unbundle bit_operations_syntax

text \<open>
  \<open>crates/sf-core/src/transfer.rs\<close>, first part: the terminal a protocol engine owns, its error
  type, the blocks with their checksum or CRC, and the reads and bounded retries all protocols
  share.  What the terminal will deliver is a list of arrivals: a chunk of bytes, or a failed
  read (a time-out among them); after the list it has disconnected (\<open>Ok(0)\<close>).  How long a read
  waits has no other effect than which arrival it meets, so the time-outs are not arguments.
  Each write is recorded, and may fail as \<open>write_faults\<close> says.
\<close>

datatype arrival = Chunk bytes | Fault terminal_error

record terminal =
  incoming :: "arrival list"
  outgoing :: "bytes list"
  write_faults :: "terminal_error option list"
  mode_faults :: "terminal_error option list"

datatype transfer_error =
    XTerminal terminal_error
  | XTimedOut string
  | XCanceled string
  | XMalformed string string
  | XRetryLimit string
  | XDisconnected string
  | XUnsafeFilename string
  | XTooLarge nat
  | XSingleFileOnly string
  | XZmodem string
  | XSourceIo string

type_synonym 'a transfer = "terminal \<Rightarrow> (transfer_error + 'a) \<times> terminal"

abbreviation SOH :: u8 where "SOH \<equiv> 0x01"
abbreviation STX :: u8 where "STX \<equiv> 0x02"
abbreviation EOT :: u8 where "EOT \<equiv> 0x04"
abbreviation ACK :: u8 where "ACK \<equiv> 0x06"
abbreviation NAK :: u8 where "NAK \<equiv> 0x15"
abbreviation CAN :: u8 where "CAN \<equiv> 0x18"
abbreviation CRC_REQUEST :: u8 where "CRC_REQUEST \<equiv> 67"
abbreviation STREAM_REQUEST :: u8 where "STREAM_REQUEST \<equiv> 71"
abbreviation CPM_EOF :: u8 where "CPM_EOF \<equiv> 0x1A"
abbreviation TELINK_HEADER :: u8 where "TELINK_HEADER \<equiv> 0x16"

definition MAX_RETRIES :: nat where "MAX_RETRIES = 10"
definition HANDSHAKE_RETRIES :: nat where "HANDSHAKE_RETRIES = 60"
definition CRC_HANDSHAKE_RETRIES :: nat where "CRC_HANDSHAKE_RETRIES = 30"

section \<open>The terminal\<close>

definition write_binary :: "bytes \<Rightarrow> unit transfer" where
  "write_binary bs s =
     (case write_faults s of
        [] \<Rightarrow> (Inr (), s\<lparr>outgoing := outgoing s @ [bs]\<rparr>)
      | None # fs \<Rightarrow> (Inr (), s\<lparr>outgoing := outgoing s @ [bs], write_faults := fs\<rparr>)
      | Some e # fs \<Rightarrow> (Inl (XTerminal e), s\<lparr>write_faults := fs\<rparr>))"

definition read_binary :: "nat \<Rightarrow> terminal \<Rightarrow> (terminal_error + bytes) \<times> terminal" where
  "read_binary n s =
     (case incoming s of
        [] \<Rightarrow> (Inr [], s)
      | Fault e # as \<Rightarrow> (Inl e, s\<lparr>incoming := as\<rparr>)
      | Chunk bs # as \<Rightarrow>
          (Inr (take n bs), s\<lparr>incoming := (if length bs \<le> n then as else Chunk (drop n bs) # as)\<rparr>))"

definition change_mode :: "unit transfer" where
  "change_mode s =
     (case mode_faults s of
        [] \<Rightarrow> (Inr (), s)
      | None # fs \<Rightarrow> (Inr (), s\<lparr>mode_faults := fs\<rparr>)
      | Some e # fs \<Rightarrow> (Inl (XTerminal e), s\<lparr>mode_faults := fs\<rparr>))"

definition read_control :: "string \<Rightarrow> u8 transfer" where
  "read_control p s =
     (case read_binary 1 s of
        (Inr bs, s) \<Rightarrow> (case bs of [] \<Rightarrow> (Inl (XDisconnected p), s) | b # _ \<Rightarrow> (Inr b, s))
      | (Inl e, s) \<Rightarrow> (Inl (if e = TTimedOut then XTimedOut p else XTerminal e), s))"

definition cancel :: "unit transfer" where
  "cancel s = chain (write_binary (replicate 8 CAN) s) (\<lambda>_ s. (Inr (), s))"

text \<open>How much the terminal can still answer: every read that is not a disconnect uses some of it.\<close>

fun weight :: "arrival \<Rightarrow> nat" where
  "weight (Chunk bs) = Suc (length bs)"
| "weight (Fault e) = 1"

definition stock :: "terminal \<Rightarrow> nat" where
  "stock s = sum_list (map weight (incoming s))"

lemma read_binary_stock: "read_binary n s = (r, t) \<Longrightarrow> stock t \<le> stock s"
  by (auto simp: read_binary_def stock_def split: list.splits arrival.splits)

lemma read_binary_stock_less:
  "read_binary n s = (r, t) \<Longrightarrow> r \<noteq> Inr [] \<Longrightarrow> stock t < stock s"
  by (cases n) (auto simp: read_binary_def stock_def split: list.splits arrival.splits if_splits)

lemma write_binary_stock: "write_binary bs s = (r, t) \<Longrightarrow> stock t = stock s"
  by (auto simp: write_binary_def stock_def split: list.splits option.splits)

lemma cancel_stock: "cancel s = (r, t) \<Longrightarrow> stock t = stock s"
  by (auto simp: cancel_def elim!: chainE dest: write_binary_stock)

lemma read_control_stock: "read_control p s = (r, t) \<Longrightarrow> stock t \<le> stock s"
  by (auto simp: read_control_def split: prod.splits sum.splits list.splits dest: read_binary_stock)

lemma read_control_stock_less: "read_control p s = (Inr b, t) \<Longrightarrow> stock t < stock s"
  by (auto simp: read_control_def split: prod.splits sum.splits list.splits dest: read_binary_stock_less)

lemma read_control_timeout_stock: "read_control p s = (Inl (XTimedOut q), t) \<Longrightarrow> stock t < stock s"
  by (auto simp: read_control_def split: prod.splits sum.splits list.splits if_splits dest: read_binary_stock_less)

text \<open>The loop over the rest of the buffer.  A terminal that claims more bytes than asked for is refused.\<close>

function read_exact :: "string \<Rightarrow> nat \<Rightarrow> bytes transfer" where
  "read_exact p n s =
     (if n = 0 then (Inr [], s)
      else case read_binary n s of
        (Inr bs, s) \<Rightarrow>
          if bs = [] then (Inl (XDisconnected p), s)
          else if length bs \<le> n then
            chain (read_exact p (n - length bs) s) (\<lambda>cs s. (Inr (bs @ cs), s))
          else (Inl (XMalformed p ''terminal returned an invalid byte count''), s)
      | (Inl e, s) \<Rightarrow> (Inl (if e = TTimedOut then XTimedOut p else XTerminal e), s))"
  by pat_completeness auto
termination
  by (relation "measure (\<lambda>(p, n, s). n)") auto

declare read_exact.simps [simp del]

lemma read_exact_stock: "read_exact p n s = (r, t) \<Longrightarrow> stock t \<le> stock s"
proof (induction p n s arbitrary: r t rule: read_exact.induct)
  case (1 p n s)
  obtain x u where rd: "read_binary n s = (x, u)" by force
  then have u: "stock u \<le> stock s" by (rule read_binary_stock)
  show ?case
  proof (cases x)
    case (Inr bs)
    obtain y v where rest: "read_exact p (n - length bs) u = (y, v)" by force
    show ?thesis
    proof (cases "n \<noteq> 0 \<and> bs \<noteq> [] \<and> length bs \<le> n")
      case True
      with "1.IH" [OF _ rd [symmetric] Inr _ _ rest] have "stock v \<le> stock u" by simp
      with True "1.prems" rd Inr rest u show ?thesis
        by (subst (asm) read_exact.simps) (auto elim!: chainE)
    next
      case False
      with "1.prems" rd Inr u show ?thesis
        by (subst (asm) read_exact.simps) (auto split: if_splits)
    qed
  next
    case (Inl e)
    with "1.prems" rd u show ?thesis by (subst (asm) read_exact.simps) (auto split: if_splits)
  qed
qed

lemma read_exact_length: "read_exact p n s = (Inr bs, t) \<Longrightarrow> length bs = n"
proof (induction n arbitrary: s bs rule: less_induct)
  case (less n)
  show ?case
  proof (cases "n = 0")
    case False
    with less.prems obtain as u cs where "as \<noteq> []" "length as \<le> n"
        "read_exact p (n - length as) u = (Inr cs, t)" "bs = as @ cs"
      by (subst (asm) read_exact.simps) (auto split: if_splits prod.splits sum.splits elim!: chainE)
    with less.IH [OF _ this(3)] False show ?thesis by simp
  qed (use less.prems in \<open>simp add: read_exact.simps\<close>)
qed

section \<open>Blocks\<close>

definition checksum :: "bytes \<Rightarrow> u8" where
  "checksum bs = foldl (+) 0 bs"

definition trailer :: "bytes \<Rightarrow> bool \<Rightarrow> bytes" where
  "trailer payload crc = (if crc then be_bytes (crc16_xmodem payload) else [checksum payload])"

definition encode_block :: "u8 \<Rightarrow> bytes \<Rightarrow> bool \<Rightarrow> bytes" where
  "encode_block n payload crc =
     [if length payload = 1024 then STX else SOH, n, NOT n] @ payload @ trailer payload crc"

definition check_block :: "string \<Rightarrow> nat \<Rightarrow> bool \<Rightarrow> bytes \<Rightarrow> transfer_error + u8 \<times> bytes" where
  "check_block p k crc r =
     (let n = r ! 0; payload = take k (drop 2 r) in
      if r ! 1 \<noteq> NOT n then Inl (XMalformed p ''block sequence complement is invalid'')
      else if crc then
        (if u16_of (r ! (2 + k)) (r ! (3 + k)) \<noteq> crc16_xmodem payload
         then Inl (XMalformed p ''block CRC is invalid'') else Inr (n, payload))
      else if r ! (2 + k) \<noteq> checksum payload
        then Inl (XMalformed p ''block checksum is invalid'')
      else Inr (n, payload))"

definition read_and_validate_block :: "string \<Rightarrow> nat \<Rightarrow> bool \<Rightarrow> (u8 \<times> bytes) transfer" where
  "read_and_validate_block p k crc s =
     chain (read_exact p (2 + k + (if crc then 1 else 0) + 1) s) (\<lambda>r s. (check_block p k crc r, s))"

section \<open>What the checksum detects\<close>

lemma checksum_start: "foldl (+) c bs = c + checksum bs"
proof (induction bs arbitrary: c)
  case (Cons b bs)
  have "checksum (b # bs) = b + checksum bs"
    unfolding checksum_def by (simp add: Cons.IH [of b, unfolded checksum_def])
  then show ?case by (simp add: Cons.IH [of "c + b"])
qed (simp add: checksum_def)

lemma checksum_append: "checksum (xs @ ys) = checksum xs + checksum ys"
  by (simp add: checksum_start [symmetric]) (simp add: checksum_def)

lemma checksum_one_byte: "a \<noteq> b \<Longrightarrow> checksum (xs @ a # ys) \<noteq> checksum (xs @ b # ys)"
  using checksum_append [of "[a]" ys] checksum_append [of "[b]" ys]
  by (simp add: checksum_append) (simp add: checksum_def)

section \<open>Blocks that are read back\<close>

lemma length_trailer: "length (trailer payload crc) = (if crc then 2 else 1)"
  by (simp add: trailer_def be_bytes_def)

lemma length_encode_block: "length (encode_block n payload crc) = 3 + length payload + (if crc then 2 else 1)"
  by (simp add: encode_block_def length_trailer)

lemma check_encoded:
  "length payload = k \<Longrightarrow> check_block p k crc (n # NOT n # payload @ trailer payload crc) = Inr (n, payload)"
  by (simp add: check_block_def Let_def trailer_def be_bytes_def nth_append)

text \<open>
  A block is \<open>damaged\<close> when its framing survived (the marker and the length) and nothing else has
  to: the sequence number, its complement, payload or trailer changed and the checks notice.
\<close>

definition damaged :: "bool \<Rightarrow> nat \<Rightarrow> bytes \<Rightarrow> bool" where
  "damaged crc k bs \<longleftrightarrow>
     length bs = k + (if crc then 5 else 4) \<and> hd bs = (if k = 1024 then STX else SOH) \<and>
     isl (check_block [] k crc (tl bs))"

lemma isl_check_block: "isl (check_block p k crc r) = isl (check_block q k crc r)"
  by (simp add: check_block_def Let_def)

lemma crc_update:
  assumes "i < length bs" "b \<noteq> bs ! i"
  shows "crc16_xmodem (bs[i := b]) \<noteq> crc16_xmodem bs" "checksum (bs[i := b]) \<noteq> checksum bs"
  using crc_one_byte [of b "bs ! i" "take i bs" "drop (Suc i) bs"]
    checksum_one_byte [of b "bs ! i" "take i bs" "drop (Suc i) bs"] assms
  by (simp_all add: upd_conv_take_nth_drop id_take_nth_drop [symmetric])

lemma u16_of_eq: "u16_of a b = w \<longleftrightarrow> a = hi_byte w \<and> b = lo_byte w"
  by (metis hi_byte_u16_of lo_byte_u16_of u16_of_hi_lo)

lemma not_byte_inj: "NOT a = NOT (b :: u8) \<longleftrightarrow> a = b"
  by (metis bit.double_compl)

lemma changed_block_refused:
  assumes "length payload = k" and "j < 2 + k + (if crc then 2 else 1)"
    and "b \<noteq> (n # NOT n # payload @ trailer payload crc) ! j"
  shows "isl (check_block p k crc ((n # NOT n # payload @ trailer payload crc)[j := b]))"
proof -
  consider "j = 0" | "j = 1" | i where "j = Suc (Suc i)" "i < k" | i where "j = Suc (Suc i)" "k \<le> i"
    by (metis One_nat_def not_less old.nat.exhaust)
  then show ?thesis
  proof cases
    case 1
    then show ?thesis using assms by (simp add: check_block_def Let_def not_byte_inj)
  next
    case 2
    then show ?thesis using assms by (simp add: check_block_def Let_def)
  next
    case 3
    then show ?thesis
      using assms crc_update [of i payload b]
      by (auto simp: check_block_def Let_def list_update_append nth_append trailer_def be_bytes_def)
  next
    case 4
    then have "i = k \<or> i = Suc k" using assms(2) by (auto split: if_splits)
    then show ?thesis
      using 4 assms
      by (auto simp: check_block_def Let_def list_update_append nth_append trailer_def be_bytes_def u16_of_eq
            split: if_splits)
  qed
qed

text \<open>
  C24.  A block survives the line or the damage is noticed: what is read back from an encoded
  block is its number and its payload, and after a change of any one byte behind the marker,
  in either mode, the block is refused.
\<close>

theorem block_one_byte_error:
  assumes "0 < i" and "i < length (encode_block n payload crc)" and "b \<noteq> encode_block n payload crc ! i"
  shows "check_block p (length payload) crc (tl (encode_block n payload crc)) = Inr (n, payload) \<and>
    isl (check_block p (length payload) crc (tl ((encode_block n payload crc)[i := b])))"
proof -
  obtain j where j: "i = Suc j" using assms(1) by (cases i) auto
  have "isl (check_block p (length payload) crc ((n # NOT n # payload @ trailer payload crc)[j := b]))"
    by (rule changed_block_refused [OF refl])
       (use assms(2,3) in \<open>simp_all add: j encode_block_def length_trailer\<close>)
  then show ?thesis by (simp add: encode_block_def j check_encoded)
qed

theorem block_one_byte_error_witness:
  "isl (check_block ''X'' 2 True (tl ((encode_block 7 [1, 2] True)[3 := 9])))"
proof -
  have "length [1, 2 :: u8] = 2" by simp
  with block_one_byte_error [of 3 7 "[1, 2]" True 9 "''X''"] show ?thesis
    unfolding \<open>length [1, 2 :: u8] = 2\<close> by (simp add: length_encode_block) (simp add: encode_block_def)
qed

section \<open>A terminal on a line\<close>

text \<open>
  \<open>line_at xs out s\<close>: the terminal will deliver the bytes and errors \<open>xs\<close>, in whatever chunks,
  has written \<open>out\<close> and cannot fail to write.  \<open>goes r x xs out\<close>: the operation returns \<open>x\<close> and
  leaves such a terminal.
\<close>

fun items_of :: "arrival \<Rightarrow> (terminal_error + u8) list" where
  "items_of (Chunk bs) = map Inr bs"
| "items_of (Fault e) = [Inl e]"

definition line_at :: "(terminal_error + u8) list \<Rightarrow> bytes list \<Rightarrow> terminal \<Rightarrow> bool" where
  "line_at xs out s \<longleftrightarrow>
     concat (map items_of (incoming s)) = xs \<and> Chunk [] \<notin> set (incoming s) \<and>
     outgoing s = out \<and> write_faults s = [] \<and> mode_faults s = []"

definition goes ::
    "('e + 'a) \<times> terminal \<Rightarrow> 'a \<Rightarrow> (terminal_error + u8) list \<Rightarrow> bytes list \<Rightarrow> bool" where
  "goes r x xs out \<longleftrightarrow> (\<exists>t. r = (Inr x, t) \<and> line_at xs out t)"

abbreviation heard :: "bytes \<Rightarrow> (terminal_error + u8) list" where
  "heard bs \<equiv> map Inr bs"

lemma goes_return [intro]: "line_at xs out s \<Longrightarrow> goes (Inr x, s) x xs out"
  by (simp add: goes_def)

lemma goes_chain:
  assumes "goes r x xs out" and "\<And>s. line_at xs out s \<Longrightarrow> goes (f x s) y ys out'"
  shows "goes (chain r f) y ys out'"
  using assms by (auto simp: goes_def)

lemma goes_write: "line_at xs out s \<Longrightarrow> goes (write_binary bs s) () xs (out @ [bs])"
  by (auto simp: goes_def write_binary_def line_at_def)

lemma map_Inr_eq [simp]: "map Inr as = map Inr bs \<longleftrightarrow> as = bs"
  by (simp add: inj_map_eq_map)

lemma heard_prefix:
  assumes "map Inr as @ ys = heard bs @ xs" and "length as \<le> length bs"
  shows "\<exists>cs. bs = as @ cs \<and> ys = heard cs @ xs"
proof -
  have "map Inr as = heard (take (length as) bs)" and "ys = heard (drop (length as) bs) @ xs"
    using assms by (auto simp: append_eq_conv_conj take_map drop_map)
  then show ?thesis by (metis append_take_drop_id map_Inr_eq)
qed

lemma read_binary_line:
  assumes "line_at (heard bs @ xs) out s" and "0 < n" and "n \<le> length bs"
  shows "\<exists>as cs t. as \<noteq> [] \<and> length as \<le> n \<and> bs = as @ cs \<and> read_binary n s = (Inr as, t) \<and>
    line_at (heard cs @ xs) out t"
proof -
  obtain b bs' where bs: "bs = b # bs'" using assms(2,3) by (cases bs) auto
  then obtain ds rest where inc: "incoming s = Chunk ds # rest" "ds \<noteq> []"
    using assms(1) by (cases "incoming s"; cases "hd (incoming s)") (auto simp: line_at_def)
  let ?as = "take n ds" and ?ys = "map Inr (drop n ds) @ concat (map items_of rest)"
  have "map Inr ?as @ ?ys = heard bs @ xs"
    using assms(1) inc by (simp add: line_at_def flip: map_append append_assoc)
  moreover have "length ?as \<le> length bs" using assms(3) by simp
  ultimately obtain cs where "bs = ?as @ cs" "?ys = heard cs @ xs"
    using heard_prefix by blast
  moreover have "read_binary n s =
      (Inr ?as, s\<lparr>incoming := (if length ds \<le> n then rest else Chunk (drop n ds) # rest)\<rparr>)"
    by (simp add: read_binary_def inc)
  moreover have "line_at ?ys out (s\<lparr>incoming := (if length ds \<le> n then rest else Chunk (drop n ds) # rest)\<rparr>)"
    using assms(1) inc by (auto simp: line_at_def)
  ultimately show ?thesis using inc assms(2) by (intro exI [of _ ?as] exI [of _ cs]) auto
qed

lemma goes_control: "line_at (Inr b # xs) out s \<Longrightarrow> goes (read_control p s) b xs out"
  using read_binary_line [of "[b]" xs out s 1]
  by (auto simp: goes_def read_control_def Cons_eq_append_conv)

lemma goes_read_exact:
  "line_at (heard bs @ xs) out s \<Longrightarrow> n = length bs \<Longrightarrow> goes (read_exact p n s) bs xs out"
proof (induction n arbitrary: bs s rule: less_induct)
  case (less n)
  show ?case
  proof (cases "n = 0")
    case False
    then have "0 < n" "n \<le> length bs" using less.prems(2) by auto
    from read_binary_line [OF less.prems(1) this] obtain as cs t where r: "as \<noteq> []" "length as \<le> n"
        "bs = as @ cs" "read_binary n s = (Inr as, t)" "line_at (heard cs @ xs) out t" by blast
    have "goes (read_exact p (n - length as) t) cs xs out"
      by (rule less.IH) (use r False less.prems(2) in auto)
    with r False show ?thesis
      by (subst read_exact.simps) (auto simp: intro!: goes_chain)
  qed (use less.prems in \<open>auto simp: read_exact.simps\<close>)
qed

lemma goes_block:
  assumes "line_at (heard (tl (encode_block n payload crc)) @ xs) out s" and "length payload = k"
  shows "goes (read_and_validate_block p k crc s) (n, payload) xs out"
  unfolding read_and_validate_block_def
proof (rule goes_chain)
  show "goes (read_exact p (2 + k + (if crc then 1 else 0) + 1) s) (tl (encode_block n payload crc)) xs out"
    by (rule goes_read_exact [OF assms(1)]) (simp add: assms(2) length_encode_block)
qed (use assms(2) in \<open>simp add: encode_block_def check_encoded goes_return\<close>)

lemma goes_damaged:
  assumes "line_at (heard (tl bs) @ xs) out s" and "damaged crc k bs"
  shows "\<exists>e t. read_and_validate_block p k crc s = (Inl e, t) \<and> line_at xs out t"
proof -
  have "goes (read_exact p (2 + k + (if crc then 1 else 0) + 1) s) (tl bs) xs out"
    by (rule goes_read_exact [OF assms(1)]) (use assms(2) in \<open>simp add: damaged_def\<close>)
  then obtain t where t: "read_exact p (2 + k + (if crc then 1 else 0) + 1) s = (Inr (tl bs), t)" "line_at xs out t"
    by (auto simp: goes_def)
  moreover obtain e where "check_block p k crc (tl bs) = Inl e"
    using assms(2) isl_check_block [of p k crc "tl bs" "[]"] by (auto simp: damaged_def isl_def)
  ultimately show ?thesis by (simp add: read_and_validate_block_def)
qed

end
