(* ===== verification/Xmodem.thy ===== *)
theory Xmodem
  imports Transfer_Blocks Utf8
begin

text \<open>
  \<open>crates/sf-core/src/transfer.rs\<close>, second part: the XMODEM family, and the file names all
  protocols accept (\<open>normalize_filename\<close> of \<open>crates/sf-core/src/file.rs\<close>).  The source of a
  file that is sent is the content a \<open>Cursor\<close> holds; a read beyond its end fails.  A receiver
  that is sent the same block for ever has no bound of its own; its loop ends because every turn
  uses up something the terminal delivers (\<open>stock\<close>).
\<close>

unbundle bit_operations_syntax

record protocol_file =
  file_name :: string
  file_size :: nat
  content :: bytes
  modified_unix :: "nat option"

record received_file =
  received_name :: string
  received_bytes :: bytes
  received_modified :: "nat option"

datatype xmode = Checksum | Crc | OneK | OneKG

definition mode_request :: "xmode \<Rightarrow> u8" where
  "mode_request m = (case m of Checksum \<Rightarrow> NAK | Crc \<Rightarrow> CRC_REQUEST | OneK \<Rightarrow> CRC_REQUEST | OneKG \<Rightarrow> STREAM_REQUEST)"

definition mode_uses_crc :: "xmode \<Rightarrow> bool" where
  "mode_uses_crc m \<longleftrightarrow> m \<noteq> Checksum"

definition streaming :: "xmode \<Rightarrow> bool" where
  "streaming m \<longleftrightarrow> m = OneKG"

definition mode_name :: "xmode \<Rightarrow> string" where
  "mode_name m =
     (case m of Checksum \<Rightarrow> ''XMODEM checksum'' | Crc \<Rightarrow> ''XMODEM CRC'' | OneK \<Rightarrow> ''1K-XMODEM''
      | OneKG \<Rightarrow> ''1K-XMODEM-g'')"

section \<open>File names\<close>

definition MAX_FILE_NAME_BYTES :: nat where "MAX_FILE_NAME_BYTES = 64"

text \<open>\<open>Path::components\<close> on Unix: the root, a leading dot, and the other non-empty pieces.\<close>

definition path_components :: "string \<Rightarrow> nat" where
  "path_components s =
     (let pieces = split_by (\<lambda>c. c = CHR ''/'') s in
      (if starts_with ''/'' s then 1 else 0) + (if hd pieces = ''.'' then 1 else 0) +
      length (filter (\<lambda>p. p \<noteq> [] \<and> p \<noteq> ''.'') pieces))"

definition normalize_filename :: "string \<Rightarrow> unit + string" where
  "normalize_filename s =
     (if s = [] \<or> MAX_FILE_NAME_BYTES < length s then Inl ()
      else if s = ''.'' \<or> s = ''..'' \<or> starts_with ''.'' s \<or>
        \<not> list_all (\<lambda>c. ascii_alphanumeric (ord c) \<or> c \<in> set ''._-+'') s \<or> path_components s \<noteq> 1
      then Inl ()
      else Inr (map upper_char s))"

definition validate_remote_filename :: "string \<Rightarrow> transfer_error + unit" where
  "validate_remote_filename s =
     (if s = [] \<or> MAX_FILE_NAME_BYTES < length s \<or> isl (normalize_filename s)
      then Inl (XUnsafeFilename s) else Inr ())"

section \<open>Bounded retries\<close>

fun read_control_retry :: "nat \<Rightarrow> string \<Rightarrow> u8 transfer" where
  "read_control_retry 0 p s = (Inl (XRetryLimit p), s)"
| "read_control_retry (Suc n) p s =
     (case read_control p s of
        (Inl (XTimedOut q), s) \<Rightarrow> read_control_retry n p s
      | r \<Rightarrow> r)"

definition read_control_with_retries :: "string \<Rightarrow> u8 transfer" where
  "read_control_with_retries = read_control_retry MAX_RETRIES"

fun request_control :: "nat \<Rightarrow> string \<Rightarrow> u8 \<Rightarrow> u8 transfer" where
  "request_control 0 p q s = (Inl (XRetryLimit p), s)"
| "request_control (Suc n) p q s =
     chain (write_binary [q] s) (\<lambda>_ s.
       case read_control p s of
         (Inl (XTimedOut _), s) \<Rightarrow> request_control n p q s
       | r \<Rightarrow> r)"

definition request_control_with_retries :: "string \<Rightarrow> u8 \<Rightarrow> u8 transfer" where
  "request_control_with_retries = request_control HANDSHAKE_RETRIES"

fun send_eot_retry :: "nat \<Rightarrow> string \<Rightarrow> unit transfer" where
  "send_eot_retry 0 p s = (Inl (XRetryLimit p), s)"
| "send_eot_retry (Suc n) p s =
     chain (write_binary [EOT] s) (\<lambda>_ s.
       case read_control p s of
         (Inr b, s) \<Rightarrow>
           if b = ACK then (Inr (), s)
           else if b = CAN then (Inl (XCanceled p), s)
           else send_eot_retry n p s
       | (Inl (XTimedOut _), s) \<Rightarrow> send_eot_retry n p s
       | (Inl e, s) \<Rightarrow> (Inl e, s))"

definition send_eot :: "string \<Rightarrow> unit transfer" where
  "send_eot = send_eot_retry MAX_RETRIES"

fun send_block_retry :: "nat \<Rightarrow> string \<Rightarrow> bytes \<Rightarrow> unit transfer" where
  "send_block_retry 0 p packet s = (Inl (XRetryLimit p), s)"
| "send_block_retry (Suc n) p packet s =
     chain (write_binary packet s) (\<lambda>_ s.
       case read_control p s of
         (Inr b, s) \<Rightarrow>
           if b = ACK then (Inr (), s)
           else if b = CAN then (Inl (XCanceled p), s)
           else send_block_retry n p packet s
       | (Inl (XTimedOut _), s) \<Rightarrow> send_block_retry n p packet s
       | (Inl e, s) \<Rightarrow> (Inl e, s))"

definition send_block_with_retry :: "string \<Rightarrow> bytes \<Rightarrow> bool \<Rightarrow> unit transfer" where
  "send_block_with_retry p packet stream s =
     (if stream then chain (write_binary packet s) (\<lambda>_ s. (Inr (), s))
      else send_block_retry MAX_RETRIES p packet s)"

section \<open>Sending\<close>

definition read_source_exact :: "protocol_file \<Rightarrow> nat \<Rightarrow> nat \<Rightarrow> string \<Rightarrow> transfer_error + bytes" where
  "read_source_exact f offset n p =
     (if offset + n \<le> length (content f) then Inr (take n (drop offset (content f)))
      else Inl (XSourceIo p))"

definition block_size :: "bool \<Rightarrow> nat \<Rightarrow> nat" where
  "block_size large remaining = (if large \<and> 128 < remaining then 1024 else 128)"

text \<open>
  The loop of \<open>send_xmodem\<close>, \<open>send_ymodem_data\<close> and \<open>send_xmodem_data_after_handshake\<close>: they differ
  in whether they use blocks of 1024 bytes, in the check value and in whether they stream.
\<close>

function send_blocks ::
    "bool \<Rightarrow> bool \<Rightarrow> bool \<Rightarrow> string \<Rightarrow> protocol_file \<Rightarrow> u8 \<Rightarrow> nat \<Rightarrow> unit transfer" where
  "send_blocks large crc stream p f block offset s =
     (if offset < file_size f then
        let remaining = file_size f - offset;
            k = block_size large remaining;
            n = min remaining k
        in
          chain (read_source_exact f offset n p, s) (\<lambda>bs s.
          chain (send_block_with_retry p (encode_block block (bs @ replicate (k - n) CPM_EOF) crc) stream s) (\<lambda>_ s.
            send_blocks large crc stream p f (block + 1) (offset + n) s))
      else (Inr (), s))"
  by pat_completeness auto
termination
  by (relation "measure (\<lambda>(large, crc, stream, p, f, block, offset, s). file_size f - offset)")
     (auto simp: block_size_def)

declare send_blocks.simps [simp del]

definition send_xmodem :: "protocol_file \<Rightarrow> xmode \<Rightarrow> unit transfer" where
  "send_xmodem f m s =
     (let p = mode_name m in
      chain (read_control_with_retries p s) (\<lambda>request s.
        if request = CAN then (Inl (XCanceled p), s)
        else
          chain
            (if m = Crc \<and> request = NAK then (Inr False, s)
             else if request = mode_request m then (Inr (mode_uses_crc m), s)
             else (Inl (XMalformed p ''receiver requested a different checksum mode''), s)) (\<lambda>crc s.
          if streaming m \<and> request \<noteq> STREAM_REQUEST
          then (Inl (XMalformed p ''receiver requested a different checksum mode''), s)
          else
            chain (send_blocks (m = OneK \<or> m = OneKG) crc (streaming m) p f 1 0 s) (\<lambda>_ s. send_eot p s))))"

section \<open>Receiving\<close>

function handshake :: "xmode \<Rightarrow> nat \<Rightarrow> u8 \<Rightarrow> bool \<Rightarrow> (u8 \<times> u8 \<times> bool) transfer" where
  "handshake m attempts request crc s =
     (if HANDSHAKE_RETRIES \<le> attempts then (Inl (XRetryLimit (mode_name m)), s)
      else
        chain (write_binary [request] s) (\<lambda>_ s.
          case read_control (mode_name m) s of
            (Inr c, s) \<Rightarrow> (Inr (c, request, crc), s)
          | (Inl (XTimedOut _), s) \<Rightarrow>
              if m = Crc \<and> crc \<and> CRC_HANDSHAKE_RETRIES \<le> attempts + 1
              then handshake m (attempts + 1) NAK False s
              else handshake m (attempts + 1) request crc s
          | (Inl e, s) \<Rightarrow> (Inl e, s)))"
  by pat_completeness auto
termination
  by (relation "measure (\<lambda>(m, attempts, request, crc, s). HANDSHAKE_RETRIES - attempts)") auto

declare handshake.simps [simp del]

lemma block_stock: "read_and_validate_block p k crc s = (r, t) \<Longrightarrow> stock t \<le> stock s"
  by (auto simp: read_and_validate_block_def elim!: chainE dest: read_exact_stock)

definition pending_or_read :: "string \<Rightarrow> u8 option \<Rightarrow> u8 transfer" where
  "pending_or_read p pending s = (case pending of Some c \<Rightarrow> (Inr c, s) | None \<Rightarrow> read_control p s)"

lemma pending_stock:
  "pending_or_read p pending s = (Inr c, t) \<Longrightarrow>
     stock t < stock s + (if pending = None then 0 else 1)"
  by (auto simp: pending_or_read_def split: option.splits dest: read_control_stock_less)

text \<open>An acknowledgement is written unless the protocol streams.\<close>

definition answer_unless :: "bool \<Rightarrow> u8 \<Rightarrow> unit transfer" where
  "answer_unless stream b s = (if stream then (Inr (), s) else write_binary [b] s)"

lemma answer_unless_stock: "answer_unless st b s = (r, t) \<Longrightarrow> stock t = stock s"
  by (auto simp: answer_unless_def dest: write_binary_stock split: if_splits)

definition give_up :: "transfer_error \<Rightarrow> 'a transfer" where
  "give_up e s = chain (cancel s) (\<lambda>_ s. (Inl e, s))"

function receive_blocks ::
    "xmode \<Rightarrow> u8 \<Rightarrow> bool \<Rightarrow> nat \<Rightarrow> bytes \<Rightarrow> u8 \<Rightarrow> nat \<Rightarrow> u8 option \<Rightarrow> bytes transfer" where
  "receive_blocks m request crc maximum output expected retries pending s =
     (let p = mode_name m in
      chain (pending_or_read p pending s) (\<lambda>control s.
        if control = EOT then chain (write_binary [ACK] s) (\<lambda>_ s. (Inr output, s))
        else if control = CAN then (Inl (XCanceled p), s)
        else if control = SOH \<or> control = STX then
          (if control = STX \<and> (m = Checksum \<or> m = Crc)
           then give_up (XMalformed p ''unexpected 1024-byte block'') s
           else
             case read_and_validate_block p (if control = SOH then 128 else 1024) crc s of
               (Inr (n, payload), s) \<Rightarrow>
                 if n = expected then
                   (if maximum < length output + length payload then give_up (XTooLarge maximum) s
                    else
                      chain (answer_unless (streaming m) ACK s) (\<lambda>_ s.
                        receive_blocks m request crc maximum (output @ payload) (expected + 1) 0 None s))
                 else if n = expected - 1 then
                   chain (answer_unless (streaming m) ACK s) (\<lambda>_ s.
                     receive_blocks m request crc maximum output expected retries None s)
                 else if streaming m then give_up (XMalformed p ''streaming block error'') s
                 else give_up (XMalformed p ''out-of-sequence block'') s
             | (Inl e, s) \<Rightarrow>
                 if streaming m then give_up (XMalformed p ''streaming block error'') s
                 else if MAX_RETRIES \<le> retries + 1 then give_up e s
                 else
                   chain (write_binary [NAK] s) (\<lambda>_ s.
                     receive_blocks m request crc maximum output expected (retries + 1) None s))
        else if MAX_RETRIES \<le> retries + 1 then give_up (XRetryLimit p) s
        else
          chain (answer_unless (streaming m) request s) (\<lambda>_ s.
            receive_blocks m request crc maximum output expected (retries + 1) None s)))"
  by pat_completeness auto
termination
  by (relation "measure (\<lambda>(m, request, crc, maximum, output, expected, retries, pending, s).
        stock s + (if pending = None then 0 else 1))")
     (auto dest!: pending_stock block_stock [OF sym] answer_unless_stock write_binary_stock)

declare receive_blocks.simps [simp del]

definition receive_xmodem :: "string \<Rightarrow> nat \<Rightarrow> xmode \<Rightarrow> received_file list transfer" where
  "receive_xmodem fallback maximum m s =
     chain (validate_remote_filename fallback, s) (\<lambda>_ s.
     chain (handshake m 0 (mode_request m) (mode_uses_crc m) s) (\<lambda>(first, request, crc) s.
     chain (receive_blocks m request crc maximum [] 1 0 (Some first) s) (\<lambda>output s.
       (Inr [\<lparr>received_name = fallback, received_bytes = output, received_modified = None\<rparr>], s))))"

end
