(* ===== verification/Xmodem_Link.thy ===== *)
theory Xmodem_Link
  imports Xmodem
begin

text \<open>
  The XMODEM family over a line that damages blocks and answers.  A block is sent in a few
  attempts that fail and one that does not; in a failed attempt either the block arrives damaged
  (and is answered with NAK) or it arrives and its ACK is changed to something else, or lost.
\<close>

unbundle bit_operations_syntax

section \<open>The sender\<close>

definition again :: "terminal_error + u8 \<Rightarrow> bool" where
  "again x \<longleftrightarrow> (case x of Inl e \<Rightarrow> e = TTimedOut | Inr b \<Rightarrow> b \<noteq> ACK \<and> b \<noteq> CAN)"

lemma control_timeout:
  assumes "line_at (Inl TTimedOut # xs) out s"
  shows "\<exists>t. read_control p s = (Inl (XTimedOut p), t) \<and> line_at xs out t"
proof -
  obtain a as where "incoming s = a # as" using assms by (cases "incoming s") (auto simp: line_at_def)
  moreover have "a \<noteq> Chunk bs" for bs
    using assms calculation by (cases bs) (auto simp: line_at_def)
  ultimately have inc: "incoming s = Fault TTimedOut # as"
    using assms by (cases a) (auto simp: line_at_def)
  then have "line_at xs out (s\<lparr>incoming := as\<rparr>)" using assms by (auto simp: line_at_def)
  then show ?thesis by (simp add: read_control_def read_binary_def inc)
qed

lemma control_byte:
  "line_at (Inr b # xs) out s \<Longrightarrow> \<exists>t. read_control p s = (Inr b, t) \<and> line_at xs out t"
  using goes_control unfolding goes_def .

lemma again_control:
  assumes "line_at (r # xs) out s" and "again r"
  obtains u where "read_control p s = (Inl (XTimedOut p), u)" "line_at xs out u"
    | b u where "read_control p s = (Inr b, u)" "b \<noteq> ACK" "b \<noteq> CAN" "line_at xs out u"
proof (cases r)
  case (Inl e)
  with assms that(1) control_timeout [of xs out s p] show thesis by (auto simp: again_def)
next
  case (Inr b)
  with assms have "b \<noteq> ACK" "b \<noteq> CAN" by (auto simp: again_def)
  with Inr assms that(2) control_byte [of b xs out s p] show thesis by blast
qed

lemma goes_send_block:
  assumes "line_at (rs @ Inr ACK # xs) out s" and "list_all again rs" and "length rs < n"
  shows "goes (send_block_retry n p packet s) () xs (out @ replicate (Suc (length rs)) packet)"
  using assms
proof (induction rs arbitrary: n s out)
  case Nil
  then obtain k where n: "n = Suc k" by (cases n) auto
  show ?case
    unfolding n send_block_retry.simps
  proof (rule goes_chain [OF goes_write [OF Nil.prems(1)]], goal_cases)
    case (1 t)
    then obtain u where "read_control p t = (Inr ACK, u)" "line_at xs (out @ [packet]) u"
      using control_byte [of ACK xs _ t p] by auto
    then show ?case by (simp add: goes_return)
  qed
next
  case (Cons r rs)
  then obtain k where n: "n = Suc k" by (cases n) auto
  show ?case
    unfolding n send_block_retry.simps
  proof (rule goes_chain [OF goes_write [OF Cons.prems(1)]], goal_cases)
    case (1 t)
    have IH: "goes (send_block_retry k p packet u) () xs (out @ replicate (Suc (length (r # rs))) packet)"
      if "line_at (rs @ Inr ACK # xs) (out @ [packet]) u" for u
      using Cons.IH [OF that] Cons.prems n by simp
    have "line_at (r # (rs @ Inr ACK # xs)) (out @ [packet]) t" "again r" using 1 Cons.prems(2) by simp_all
    then show ?case by (rule again_control [where p = p]) (use IH in simp_all)
  qed
qed

text \<open>The blocks of a file: full ones as long as they fit, the last one filled up.\<close>

function file_blocks :: "bool \<Rightarrow> bytes \<Rightarrow> bytes list" where
  "file_blocks large bs =
     (if bs = [] then []
      else
        let k = block_size large (length bs) in
        (take k bs @ replicate (k - length bs) CPM_EOF) # file_blocks large (drop k bs))"
  by pat_completeness auto
termination
  by (relation "measure (\<lambda>(large, bs). length bs)") (auto simp: block_size_def)

declare file_blocks.simps [simp del]

lemma file_blocks_Nil [simp]: "file_blocks large [] = []"
  by (simp add: file_blocks.simps)

lemma file_blocks_length: "b \<in> set (file_blocks large bs) \<Longrightarrow> length b = 128 \<or> large \<and> length b = 1024"
proof (induction large bs rule: file_blocks.induct)
  case (1 large bs)
  show ?case
  proof (cases "b \<in> set (file_blocks large (drop (block_size large (length bs)) bs))")
    case True
    with 1 show ?thesis by (cases "bs = []") auto
  next
    case False
    with "1.prems" show ?thesis
      by (subst (asm) file_blocks.simps) (auto simp: Let_def block_size_def min_def split: if_splits)
  qed
qed

lemma file_blocks_content:
  "\<exists>j. concat (file_blocks large bs) = bs @ replicate j CPM_EOF \<and> j < 1024"
proof (induction large bs rule: file_blocks.induct)
  case (1 large bs)
  let ?k = "block_size large (length bs)"
  show ?case
  proof (cases "bs = []")
    case False
    with 1 obtain j where j: "concat (file_blocks large (drop ?k bs)) = drop ?k bs @ replicate j CPM_EOF" "j < 1024"
      by auto
    show ?thesis
    proof (cases "length bs \<le> ?k")
      case True
      then have "concat (file_blocks large bs) = bs @ replicate (?k - length bs) CPM_EOF"
        using False by (subst file_blocks.simps) (simp add: Let_def)
      moreover have "?k - length bs < 1024"
        using False by (cases bs) (auto simp: block_size_def)
      ultimately show ?thesis by blast
    next
      case False
      then have "concat (file_blocks large bs) = bs @ replicate j CPM_EOF"
        using \<open>bs \<noteq> []\<close> by (subst file_blocks.simps) (simp add: Let_def j(1) flip: append_assoc)
      then show ?thesis using j(2) by blast
    qed
  qed auto
qed

text \<open>The attempts of one block, and what both ends hear of them.\<close>

datatype trial =
    Hit bytes
  | Echo "terminal_error + u8"

fun trial_ok :: "bool \<Rightarrow> nat \<Rightarrow> trial \<Rightarrow> bool" where
  "trial_ok crc k (Hit d) = damaged crc k d"
| "trial_ok crc k (Echo x) = again x"

fun answer_heard :: "trial \<Rightarrow> terminal_error + u8" where
  "answer_heard (Hit d) = Inr NAK"
| "answer_heard (Echo x) = x"

fun answer_sent :: "trial \<Rightarrow> bytes" where
  "answer_sent (Hit d) = [NAK]"
| "answer_sent (Echo x) = [ACK]"

fun arrives :: "bytes \<Rightarrow> trial \<Rightarrow> bytes" where
  "arrives block (Hit d) = d"
| "arrives block (Echo x) = block"

type_synonym exchange = "bytes \<times> trial list"

text \<open>A run of blocks, the first with the given number: what is sent, heard and answered.\<close>

fun sent_on :: "bool \<Rightarrow> u8 \<Rightarrow> exchange list \<Rightarrow> bytes list" where
  "sent_on crc n [] = []"
| "sent_on crc n ((b, as) # es) =
     replicate (Suc (length as)) (encode_block n b crc) @ sent_on crc (n + 1) es"

fun arriving :: "bool \<Rightarrow> u8 \<Rightarrow> exchange list \<Rightarrow> bytes" where
  "arriving crc n [] = []"
| "arriving crc n ((b, as) # es) =
     concat (map (arrives (encode_block n b crc)) as) @ encode_block n b crc @ arriving crc (n + 1) es"

definition answers_heard :: "exchange list \<Rightarrow> (terminal_error + u8) list" where
  "answers_heard es = concat (map (\<lambda>(b, as). map answer_heard as @ [Inr ACK]) es)"

definition answers_sent :: "exchange list \<Rightarrow> bytes list" where
  "answers_sent es = concat (map (\<lambda>(b, as). map answer_sent as @ [[ACK]]) es)"

definition exchange_ok :: "bool \<Rightarrow> exchange \<Rightarrow> bool" where
  "exchange_ok crc e \<longleftrightarrow> (case e of (b, as) \<Rightarrow> list_all (trial_ok crc (length b)) as \<and> length as \<le> 5)"

lemma again_heard: "trial_ok crc k a \<Longrightarrow> again (answer_heard a)"
  by (cases a) (auto simp: again_def)

lemma goes_send_blocks:
  assumes "line_at (answers_heard es @ xs) out s" and "map fst es = file_blocks large (drop offset (content f))"
    and "list_all (exchange_ok crc) es" and "file_size f = length (content f)" and "offset \<le> file_size f"
  shows "goes (send_blocks large crc False p f n offset s) () xs (out @ sent_on crc n es)"
  using assms
proof (induction es arbitrary: n offset s out)
  case Nil
  then have "drop offset (content f) = []"
    by (subst (asm) file_blocks.simps) (simp add: Let_def split: if_splits)
  with Nil show ?case
    by (subst send_blocks.simps) (simp add: answers_heard_def goes_return)
next
  case (Cons e es)
  obtain b as where e: "e = (b, as)" by force
  let ?rest = "drop offset (content f)" and ?r = "file_size f - offset"
  let ?k = "block_size large ?r" and ?c = "min ?r (block_size large ?r)"
  have more: "offset < file_size f"
    using Cons.prems(2,4) by (cases "?rest = []") auto
  then have "?rest \<noteq> []" "length ?rest = ?r" using Cons.prems(4) by auto
  then have bs: "b = take ?k ?rest @ replicate (?k - ?r) CPM_EOF" "map fst es = file_blocks large (drop ?k ?rest)"
    using Cons.prems(2) unfolding file_blocks.simps [of large ?rest] by (simp_all add: e Let_def)
  have src: "read_source_exact f offset ?c p = Inr (take ?c ?rest)"
    using more Cons.prems(4) by (simp add: read_source_exact_def)
  have pay: "take ?c ?rest @ replicate (?k - ?c) CPM_EOF = b"
    using bs(1) \<open>length ?rest = ?r\<close> by (auto simp: min_def)
  have rest: "map fst es = file_blocks large (drop (offset + ?c) (content f))"
    using bs(2) \<open>length ?rest = ?r\<close> by (cases "?r \<le> ?k") (auto simp: min_def add.commute)
  have line: "line_at (map answer_heard as @ Inr ACK # (answers_heard es @ xs)) out s"
    using Cons.prems(1) by (simp add: e answers_heard_def)
  have ok: "list_all again (map answer_heard as)" "length as < MAX_RETRIES" "list_all (exchange_ok crc) es"
    using Cons.prems(3) by (auto simp: e exchange_ok_def list_all_iff MAX_RETRIES_def intro: again_heard)
  have "goes (chain (send_block_retry MAX_RETRIES p (encode_block n b crc) s)
      (\<lambda>_ s. send_blocks large crc False p f (n + 1) (offset + ?c) s)) () xs (out @ sent_on crc n (e # es))"
  proof (rule goes_chain [OF goes_send_block [OF line ok(1)]], goal_cases)
    case (2 t)
    from Cons.IH [OF 2 rest ok(3) Cons.prems(4)] more show ?case by (simp add: e)
  qed (use ok(2) in simp)
  then show ?case
    by (subst send_blocks.simps) (simp add: more Let_def src pay send_block_with_retry_def)
qed

lemma goes_send_eot: "line_at (Inr ACK # xs) out s \<Longrightarrow> goes (send_eot p s) () xs (out @ [[EOT]])"
  unfolding send_eot_def MAX_RETRIES_def numeral_eq_Suc send_eot_retry.simps
proof (rule goes_chain [OF goes_write], assumption, goal_cases)
  case (1 t)
  then obtain u where "read_control p t = (Inr ACK, u)" "line_at xs (out @ [[EOT]]) u"
    using control_byte [of ACK xs _ t p] by auto
  then show ?case by (simp add: goes_return)
qed

lemma goes_read_with_retries: "line_at (Inr b # xs) out s \<Longrightarrow> goes (read_control_with_retries p s) b xs out"
  using control_byte [of b xs out s p]
  by (auto simp: read_control_with_retries_def MAX_RETRIES_def numeral_eq_Suc)

section \<open>The receiver\<close>

definition pushed :: "u8 \<Rightarrow> terminal \<Rightarrow> terminal" where
  "pushed b s = s\<lparr>incoming := Chunk [b] # incoming s\<rparr>"

lemma receive_pending:
  "receive_blocks m q crc mx acc e r (Some b) s = receive_blocks m q crc mx acc e r None (pushed b s)"
proof -
  have "pending_or_read (mode_name m) None (pushed b s) = pending_or_read (mode_name m) (Some b) s"
    by (simp add: pending_or_read_def pushed_def read_control_def read_binary_def)
  then show ?thesis
    unfolding receive_blocks.simps [of m q crc mx acc e r "Some b" s]
      receive_blocks.simps [of m q crc mx acc e r None "pushed b s"] by (simp add: Let_def)
qed

lemma line_at_pushed: "line_at xs out s \<Longrightarrow> line_at (Inr b # xs) out (pushed b s)"
  by (auto simp: line_at_def pushed_def)

text \<open>The block sizes a mode takes.\<close>

definition fits :: "xmode \<Rightarrow> nat \<Rightarrow> bool" where
  "fits m k \<longleftrightarrow> k = 128 \<or> k = 1024 \<and> m = OneK"

lemma marker: "damaged crc k d \<Longrightarrow> d = (if k = 1024 then STX else SOH) # tl d"
  by (cases d) (auto simp: damaged_def split: if_splits)

lemma encode_marker: "encode_block n b crc = (if length b = 1024 then STX else SOH) # tl (encode_block n b crc)"
  by (simp add: encode_block_def)

lemma receive_step:
  assumes "line_at (Inr b # xs) out s"
  shows "\<exists>t. line_at xs out t \<and>
    receive_blocks m q crc mx acc e r None s = receive_blocks m q crc mx acc e r (Some b) t"
proof -
  obtain t where "read_control (mode_name m) s = (Inr b, t)" "line_at xs out t"
    using control_byte [OF assms] by blast
  then show ?thesis
    unfolding receive_blocks.simps [of m q crc mx acc e r None s]
      receive_blocks.simps [of m q crc mx acc e r "Some b"] by (auto simp: pending_or_read_def Let_def)
qed

lemma write_line: "line_at xs out s \<Longrightarrow> \<exists>t. write_binary bs s = (Inr (), t) \<and> line_at xs (out @ [bs]) t"
  using goes_write unfolding goes_def .

lemma receive_damaged:
  assumes l: "line_at (heard d @ xs) out s" and d: "damaged crc k d" "fits m k" and m: "m \<noteq> OneKG"
    and r: "r + 1 < MAX_RETRIES"
  shows "\<exists>t. line_at xs (out @ [[NAK]]) t \<and>
    receive_blocks m q crc mx acc e r None s = receive_blocks m q crc mx acc e (r + 1) None t"
proof -
  obtain s1 where 1: "line_at (heard (tl d) @ xs) out s1"
      "receive_blocks m q crc mx acc e r None s =
       receive_blocks m q crc mx acc e r (Some (if k = 1024 then STX else SOH)) s1"
    using l receive_step [of "if k = 1024 then STX else SOH" "heard (tl d) @ xs" out s m q crc mx acc e r]
    by (subst (asm) marker [OF d(1)]) auto
  obtain er s2 where 2: "read_and_validate_block (mode_name m) k crc s1 = (Inl er, s2)" "line_at xs out s2"
    using goes_damaged [OF 1(1) d(1)] by blast
  obtain t where 3: "write_binary [NAK] s2 = (Inr (), t)" "line_at xs (out @ [[NAK]]) t"
    using write_line [OF 2(2)] by blast
  have "receive_blocks m q crc mx acc e r (Some (if k = 1024 then STX else SOH)) s1 =
      receive_blocks m q crc mx acc e (r + 1) None t"
    using d(2) m r 2 3 by (subst receive_blocks.simps) (auto simp: pending_or_read_def fits_def streaming_def)
  with 1 3 show ?thesis by auto
qed

lemma receive_intact:
  assumes l: "line_at (heard (encode_block n b crc) @ xs) out s" and b: "fits m (length b)" and m: "m \<noteq> OneKG"
    and n: "n = e \<and> length acc + length b \<le> mx \<or> n = e - 1"
  shows "\<exists>t. line_at xs (out @ [[ACK]]) t \<and>
    receive_blocks m q crc mx acc e r None s =
      (if n = e then receive_blocks m q crc mx (acc @ b) (e + 1) 0 None t
       else receive_blocks m q crc mx acc e r None t)"
proof -
  let ?mk = "if length b = 1024 then STX else SOH"
  obtain s1 where 1: "line_at (heard (tl (encode_block n b crc)) @ xs) out s1"
      "receive_blocks m q crc mx acc e r None s = receive_blocks m q crc mx acc e r (Some ?mk) s1"
    using l receive_step [of ?mk "heard (tl (encode_block n b crc)) @ xs" out s m q crc mx acc e r]
    by (subst (asm) encode_marker) auto
  obtain s2 where 2: "read_and_validate_block (mode_name m) (length b) crc s1 = (Inr (n, b), s2)" "line_at xs out s2"
    using goes_block [OF 1(1) refl] unfolding goes_def by blast
  obtain t where 3: "write_binary [ACK] s2 = (Inr (), t)" "line_at xs (out @ [[ACK]]) t"
    using write_line [OF 2(2)] by blast
  have "receive_blocks m q crc mx acc e r (Some ?mk) s1 =
      (if n = e then receive_blocks m q crc mx (acc @ b) (e + 1) 0 None t
       else receive_blocks m q crc mx acc e r None t)"
    using b m n 2 3
    by (subst receive_blocks.simps) (auto simp: pending_or_read_def fits_def streaming_def answer_unless_def)
  with 1 3 show ?thesis by auto
qed

text \<open>Once a block is in, further copies of it are acknowledged and otherwise ignored.\<close>

lemma receive_copies:
  assumes "line_at (heard (concat (map (arrives (encode_block (e - 1) b crc)) as) @ encode_block (e - 1) b crc) @ xs) out s"
    and "list_all (trial_ok crc (length b)) as" and "fits m (length b)" and "m \<noteq> OneKG"
    and "r + length as < MAX_RETRIES"
  shows "\<exists>t r'. r' \<le> r + length as \<and> line_at xs (out @ map answer_sent as @ [[ACK]]) t \<and>
    receive_blocks m q crc mx acc e r None s = receive_blocks m q crc mx acc e r' None t"
  using assms
proof (induction as arbitrary: s out r)
  case Nil
  then show ?case
    using receive_intact [of "e - 1" b crc xs out s m e acc mx q r] by auto
next
  case (Cons a as)
  let ?ys = "heard (concat (map (arrives (encode_block (e - 1) b crc)) as) @ encode_block (e - 1) b crc) @ xs"
  obtain s' r1 where 1: "r1 \<le> r + 1" "line_at ?ys (out @ [answer_sent a]) s'"
      "receive_blocks m q crc mx acc e r None s = receive_blocks m q crc mx acc e r1 None s'"
  proof (cases a)
    case (Hit d)
    with Cons.prems receive_damaged [of d ?ys out s crc "length b" m r q mx acc e] that [of "r + 1"]
    show thesis by auto
  next
    case (Echo x)
    with Cons.prems receive_intact [of "e - 1" b crc ?ys out s m e acc mx q r] that [of r]
    show thesis by auto
  qed
  have "r1 + length as < MAX_RETRIES" using 1(1) Cons.prems(5) by simp
  then obtain t r' where 2: "r' \<le> r1 + length as"
      "line_at xs ((out @ [answer_sent a]) @ map answer_sent as @ [[ACK]]) t"
      "receive_blocks m q crc mx acc e r1 None s' = receive_blocks m q crc mx acc e r' None t"
    using Cons.IH [where r = r1, OF 1(2) _ Cons.prems(3,4)] Cons.prems(2) by auto
  show ?case by (intro exI [of _ t] exI [of _ r']) (use 1 2 in simp)
qed

lemma receive_exchange:
  assumes "line_at (heard (concat (map (arrives (encode_block e b crc)) as) @ encode_block e b crc) @ xs) out s"
    and "list_all (trial_ok crc (length b)) as" and "fits m (length b)" and "m \<noteq> OneKG"
    and "r + length as < MAX_RETRIES" and "length acc + length b \<le> mx"
  shows "\<exists>t r'. r' \<le> length as - 1 \<and> line_at xs (out @ map answer_sent as @ [[ACK]]) t \<and>
    receive_blocks m q crc mx acc e r None s = receive_blocks m q crc mx (acc @ b) (e + 1) r' None t"
  using assms
proof (induction as arbitrary: s out r)
  case Nil
  then show ?case
    using receive_intact [of e b crc xs out s m e acc mx q r] by auto
next
  case (Cons a as)
  let ?ys = "heard (concat (map (arrives (encode_block e b crc)) as) @ encode_block e b crc) @ xs"
  show ?case
  proof (cases a)
    case (Hit d)
    with Cons.prems obtain s' where 1: "line_at ?ys (out @ [[NAK]]) s'"
        "receive_blocks m q crc mx acc e r None s = receive_blocks m q crc mx acc e (r + 1) None s'"
      using receive_damaged [of d ?ys out s crc "length b" m r q mx acc e] by auto
    have "r + 1 + length as < MAX_RETRIES" using Cons.prems(5) by simp
    then obtain t r' where 2: "r' \<le> length as - 1"
        "line_at xs ((out @ [[NAK]]) @ map answer_sent as @ [[ACK]]) t"
        "receive_blocks m q crc mx acc e (r + 1) None s' = receive_blocks m q crc mx (acc @ b) (e + 1) r' None t"
      using Cons.IH [where r = "r + 1", OF 1(1) _ Cons.prems(3,4) _ Cons.prems(6)] Cons.prems(2) by auto
    show ?thesis by (intro exI [of _ t] exI [of _ r']) (use 1 2 Hit in simp)
  next
    case (Echo x)
    with Cons.prems obtain s' where 1: "line_at ?ys (out @ [[ACK]]) s'"
        "receive_blocks m q crc mx acc e r None s = receive_blocks m q crc mx (acc @ b) (e + 1) 0 None s'"
      using receive_intact [of e b crc ?ys out s m e acc mx q r] by auto
    have "0 + length as < MAX_RETRIES" using Cons.prems(5) by simp
    then obtain t r' where 2: "r' \<le> 0 + length as"
        "line_at xs ((out @ [[ACK]]) @ map answer_sent as @ [[ACK]]) t"
        "receive_blocks m q crc mx (acc @ b) (e + 1) 0 None s' = receive_blocks m q crc mx (acc @ b) (e + 1) r' None t"
      using receive_copies [of "e + 1" b crc as xs "out @ [[ACK]]" s' m 0 q mx "acc @ b"] 1(1) Cons.prems(2-4) by auto
    show ?thesis by (intro exI [of _ t] exI [of _ r']) (use 1 2 Echo in simp)
  qed
qed

lemma goes_receive:
  assumes "line_at (heard (arriving crc e es @ [EOT]) @ xs) out s"
    and "list_all (exchange_ok crc) es" and "\<forall>(b, as) \<in> set es. fits m (length b)" and "m \<noteq> OneKG"
    and "r < 5" and "length acc + length (concat (map fst es)) \<le> mx"
  shows "goes (receive_blocks m q crc mx acc e r None s) (acc @ concat (map fst es)) xs
    (out @ answers_sent es @ [[ACK]])"
  using assms
proof (induction es arbitrary: s out r acc e)
  case Nil
  then obtain t where t: "line_at xs out t"
      "receive_blocks m q crc mx acc e r None s = receive_blocks m q crc mx acc e r (Some EOT) t"
    using receive_step [of EOT xs out s m q crc mx acc e r] by auto
  obtain u where "write_binary [ACK] t = (Inr (), u)" "line_at xs (out @ [[ACK]]) u"
    using write_line [OF t(1)] by blast
  then show ?case
    unfolding t(2) by (subst receive_blocks.simps) (simp add: pending_or_read_def answers_sent_def goes_return)
next
  case (Cons x es)
  obtain b as where x: "x = (b, as)" by force
  have as: "list_all (trial_ok crc (length b)) as" "length as \<le> 5" using Cons.prems(2) by (auto simp: x exchange_ok_def)
  have "r + length as < MAX_RETRIES" using as Cons.prems(5) by (simp add: MAX_RETRIES_def)
  moreover have "line_at (heard (concat (map (arrives (encode_block e b crc)) as) @ encode_block e b crc) @
      heard (arriving crc (e + 1) es @ [EOT]) @ xs) out s"
    using Cons.prems(1) by (simp add: x)
  ultimately obtain t r' where t: "r' \<le> length as - 1"
      "line_at (heard (arriving crc (e + 1) es @ [EOT]) @ xs) (out @ map answer_sent as @ [[ACK]]) t"
      "receive_blocks m q crc mx acc e r None s = receive_blocks m q crc mx (acc @ b) (e + 1) r' None t"
    using receive_exchange [of e b crc as "heard (arriving crc (e + 1) es @ [EOT]) @ xs" out s m r acc mx q]
      as(1) Cons.prems(3,4,6) by (force simp: x)
  have "goes (receive_blocks m q crc mx (acc @ b) (e + 1) r' None t) ((acc @ b) @ concat (map fst es)) xs
      ((out @ map answer_sent as @ [[ACK]]) @ answers_sent es @ [[ACK]])"
    by (rule Cons.IH [OF t(2)]) (use Cons.prems t(1) as(2) in \<open>auto simp: x\<close>)
  then show ?case by (simp add: t(3) x answers_sent_def)
qed

section \<open>Both ends\<close>

text \<open>
  C5.  A file arrives over a line that damages it: in every mode that waits for acknowledgements,
  whatever happens in up to five failed attempts per block (blocks damaged so that the framing
  survives, acknowledgements garbled or timed out), the sender, hearing what the receiver
  answers, and the receiver, hearing what the sender writes, both succeed, and the receiver has
  the file's bytes followed by fewer than 1024 filler bytes.
\<close>

theorem xmodem_over_a_bad_line:
  assumes "m \<noteq> OneKG" and "file_size f = length (content f)" and "validate_remote_filename name = Inr ()"
    and "map fst es = file_blocks (m = OneK) (content f)" and "list_all (exchange_ok (mode_uses_crc m)) es"
    and "length (concat (map fst es)) \<le> maximum"
    and "line_at (Inr (mode_request m) # answers_heard es @ [Inr ACK]) [] s"
    and "line_at (heard (arriving (mode_uses_crc m) 1 es @ [EOT])) [] r"
  shows "\<exists>s' r' j. send_xmodem f m s = (Inr (), s') \<and>
    receive_xmodem name maximum m r =
      (Inr [\<lparr>received_name = name, received_bytes = content f @ replicate j CPM_EOF, received_modified = None\<rparr>], r') \<and>
    outgoing s' = sent_on (mode_uses_crc m) 1 es @ [[EOT]] \<and>
    outgoing r' = [mode_request m] # answers_sent es @ [[ACK]] \<and> j < 1024"
proof -
  let ?crc = "mode_uses_crc m" and ?p = "mode_name m"
  have req: "mode_request m \<noteq> CAN" "m = Crc \<Longrightarrow> mode_request m \<noteq> NAK" "\<not> streaming m" "m = OneKG \<longleftrightarrow> False"
    using assms(1) by (cases m; simp add: mode_request_def streaming_def)+
  obtain s1 where s1: "read_control_with_retries ?p s = (Inr (mode_request m), s1)"
      "line_at (answers_heard es @ [Inr ACK]) [] s1"
    using goes_read_with_retries [OF assms(7)] by (auto simp: goes_def)
  obtain s2 where s2: "send_blocks (m = OneK) ?crc False ?p f 1 0 s1 = (Inr (), s2)"
      "line_at [Inr ACK] (sent_on ?crc 1 es) s2"
    using goes_send_blocks [OF s1(2) _ assms(5,2), of "m = OneK" 0 ?p 1] assms(4) by (auto simp: goes_def)
  obtain s' where s': "send_eot ?p s2 = (Inr (), s')" "line_at [] (sent_on ?crc 1 es @ [[EOT]]) s'"
    using goes_send_eot [OF s2(2), of ?p] by (auto simp: goes_def)
  have send: "send_xmodem f m s = (Inr (), s')"
    using req s1(1) s2(1) s'(1) by (auto simp: send_xmodem_def Let_def)
  let ?in = "arriving ?crc 1 es @ [EOT]"
  have ne: "?in \<noteq> []" by simp
  obtain r1 where r1: "write_binary [mode_request m] r = (Inr (), r1)" "line_at (heard ?in) [[mode_request m]] r1"
    using write_line [OF assms(8)] by auto
  obtain r2 where r2: "read_control ?p r1 = (Inr (hd ?in), r2)" "line_at (heard (tl ?in)) [[mode_request m]] r2"
    using control_byte [of "hd ?in" "heard (tl ?in)" _ r1 ?p] r1(2) ne by (metis list.collapse list.map(2))
  have hs: "handshake m 0 (mode_request m) ?crc r = (Inr (hd ?in, mode_request m, ?crc), r2)"
    using r1(1) r2(1) by (subst handshake.simps) (simp add: HANDSHAKE_RETRIES_def)
  have fit: "\<forall>(b, as) \<in> set es. fits m (length b)"
  proof (clarify)
    fix b as assume "(b, as) \<in> set es"
    then have "b \<in> set (file_blocks (m = OneK) (content f))" unfolding assms(4) [symmetric] by force
    then show "fits m (length b)" by (auto simp: fits_def dest: file_blocks_length)
  qed
  have "line_at (heard ?in) [[mode_request m]] (pushed (hd ?in) r2)"
    using line_at_pushed [OF r2(2), of "hd ?in"] ne by (metis list.collapse list.map(2))
  then have "goes (receive_blocks m (mode_request m) ?crc maximum [] 1 0 None (pushed (hd ?in) r2))
      ([] @ concat (map fst es)) [] ([[mode_request m]] @ answers_sent es @ [[ACK]])"
    by (intro goes_receive) (use assms(1,5,6) fit in simp_all)
  then obtain r' where r': "receive_blocks m (mode_request m) ?crc maximum [] 1 0 (Some (hd ?in)) r2 =
      (Inr (concat (map fst es)), r')" "line_at [] ([mode_request m] # answers_sent es @ [[ACK]]) r'"
    by (auto simp: goes_def receive_pending)
  obtain j where j: "concat (map fst es) = content f @ replicate j CPM_EOF" "j < 1024"
    using file_blocks_content [of "m = OneK" "content f"] assms(4) by auto
  have "receive_xmodem name maximum m r =
      (Inr [\<lparr>received_name = name, received_bytes = content f @ replicate j CPM_EOF, received_modified = None\<rparr>], r')"
    using hs r'(1) by (simp add: receive_xmodem_def assms(3) j(1))
  with send s'(2) r'(2) j(2) show ?thesis by (auto simp: line_at_def)
qed

definition sample_file :: protocol_file where
  "sample_file = \<lparr>file_name = ''A.TXT'', file_size = 3, content = [1, 2, 3], modified_unix = None\<rparr>"

definition sample_block :: bytes where
  "sample_block = [1, 2, 3] @ replicate 125 CPM_EOF"

text \<open>The first copy is hit in its first byte, the second arrives but its answer does not.\<close>

definition sample_exchange :: exchange where
  "sample_exchange = (sample_block, [Hit ((encode_block 1 sample_block False)[3 := 9]), Echo (Inl TTimedOut)])"

definition hearing :: "arrival list \<Rightarrow> terminal" where
  "hearing as = \<lparr>incoming = as, outgoing = [], write_faults = [], mode_faults = []\<rparr>"

lemma line_at_hearing: "Chunk [] \<notin> set as \<Longrightarrow> line_at (concat (map items_of as)) [] (hearing as)"
  by (simp add: line_at_def hearing_def)

lemma sample_blocks: "file_blocks False [1, 2, 3] = [sample_block]"
  by (simp add: file_blocks.simps [of False "[1, 2, 3]"] block_size_def sample_block_def)

lemma sample_block_length: "length sample_block = 128"
  by (simp add: sample_block_def)

lemma sample_hit: "damaged False 128 ((encode_block 1 sample_block False)[3 := 9])"
proof -
  have "isl (check_block [] 128 False ((1 # NOT 1 # sample_block @ trailer sample_block False)[2 := 9]))"
    by (rule changed_block_refused [OF sample_block_length]) (simp_all add: sample_block_def)
  then show ?thesis
    by (simp add: damaged_def length_encode_block sample_block_length)
       (simp add: encode_block_def sample_block_length)
qed

theorem xmodem_over_a_bad_line_witness:
  "\<exists>s' r' j.
     send_xmodem sample_file Checksum (hearing [Chunk [NAK], Chunk [NAK], Fault TTimedOut, Chunk [ACK], Chunk [ACK]]) = (Inr (), s') \<and>
     receive_xmodem ''A.TXT'' 1000 Checksum (hearing [Chunk (arriving False 1 [sample_exchange] @ [EOT])]) =
       (Inr [\<lparr>received_name = ''A.TXT'', received_bytes = [1, 2, 3] @ replicate j CPM_EOF, received_modified = None\<rparr>], r') \<and>
     j < 1024"
proof -
  have name: "validate_remote_filename ''A.TXT'' = Inr ()"
    by (simp add: validate_remote_filename_def normalize_filename_def MAX_FILE_NAME_BYTES_def path_components_def
        starts_with_def ascii_defs)
  have ok: "list_all (exchange_ok (mode_uses_crc Checksum)) [sample_exchange]"
    by (simp add: sample_exchange_def exchange_ok_def mode_uses_crc_def sample_block_length sample_hit again_def)
  have s: "line_at (Inr (mode_request Checksum) # answers_heard [sample_exchange] @ [Inr ACK]) []
      (hearing [Chunk [NAK], Chunk [NAK], Fault TTimedOut, Chunk [ACK], Chunk [ACK]])"
    using line_at_hearing [of "[Chunk [NAK], Chunk [NAK], Fault TTimedOut, Chunk [ACK], Chunk [ACK]]"]
    by (simp add: mode_request_def answers_heard_def sample_exchange_def)
  have r: "line_at (heard (arriving (mode_uses_crc Checksum) 1 [sample_exchange] @ [EOT])) []
      (hearing [Chunk (arriving False 1 [sample_exchange] @ [EOT])])"
    using line_at_hearing [of "[Chunk (arriving False 1 [sample_exchange] @ [EOT])]"]
    by (simp add: mode_uses_crc_def)
  have b: "map fst [sample_exchange] = file_blocks (Checksum = OneK) (content sample_file)"
    by (simp add: sample_exchange_def sample_file_def sample_blocks)
  have l: "length (concat (map fst [sample_exchange])) \<le> 1000"
    by (simp add: sample_exchange_def sample_block_length)
  have f: "file_size sample_file = length (content sample_file)" "content sample_file = [1, 2, 3]"
    by (simp_all add: sample_file_def)
  from xmodem_over_a_bad_line [OF _ f(1) name b ok l s r] show ?thesis
    unfolding f(2) by blast
qed

section \<open>Whatever the line does\<close>

lemma write_binary_out: "write_binary bs s = (r, t) \<Longrightarrow> \<exists>k \<le> 1. outgoing t = outgoing s @ replicate k bs"
  by (auto simp: write_binary_def split: list.splits option.splits intro: exI [of _ 0] exI [of _ "1::nat"])

lemma read_control_out: "read_control p s = (r, t) \<Longrightarrow> outgoing t = outgoing s"
  by (auto simp: read_control_def read_binary_def split: prod.splits sum.splits list.splits arrival.splits)

lemma send_block_retry_out:
  "send_block_retry n p packet s = (r, t) \<Longrightarrow> \<exists>k \<le> n. outgoing t = outgoing s @ replicate k packet"
proof (induction n arbitrary: s)
  case (Suc n)
  from Suc.prems show ?case
    unfolding send_block_retry.simps
  proof (rule chainE)
    fix e assume "write_binary packet s = (Inl e, t)"
    then show ?thesis using write_binary_out by fastforce
  next
    fix x u
    assume w: "write_binary packet s = (Inr x, u)"
      and k: "(case read_control p u of
        (Inl (XTimedOut q), s) \<Rightarrow> send_block_retry n p packet s
      | (Inl e, s) \<Rightarrow> (Inl e, s)
      | (Inr b, s) \<Rightarrow> if b = ACK then (Inr (), s) else if b = CAN then (Inl (XCanceled p), s)
          else send_block_retry n p packet s) = (r, t)"
    obtain c v where v: "read_control p u = (c, v)" by force
    have "outgoing v = outgoing u" using v by (rule read_control_out)
    moreover have "t = v \<or> send_block_retry n p packet v = (r, t)"
      using k v by (auto split: sum.splits transfer_error.splits if_splits)
    moreover obtain i where "i \<le> 1" "outgoing u = outgoing s @ replicate i packet"
      using write_binary_out [OF w] by blast
    ultimately show ?thesis
      using Suc.IH [of v] by (auto simp: replicate_add [symmetric] intro: exI [of _ i])
  qed
qed simp

text \<open>
  C31.  A sender is patient but not for ever: whatever the terminal answers, a call that
  delivers a block writes nothing but that block, and at most ten times.
\<close>

theorem block_sent_at_most_ten_times:
  "\<exists>k \<le> 10. outgoing (snd (send_block_with_retry p packet stream s)) = outgoing s @ replicate k packet"
proof (cases stream)
  case True
  obtain r t where "write_binary packet s = (r, t)" by force
  with write_binary_out [OF this] True show ?thesis
    by (cases r) (auto simp: send_block_with_retry_def)
next
  case False
  obtain r t where "send_block_retry MAX_RETRIES p packet s = (r, t)" by force
  with send_block_retry_out [OF this] False show ?thesis
    by (auto simp: send_block_with_retry_def MAX_RETRIES_def)
qed

lemma block_payload_length:
  "read_and_validate_block p k crc s = (Inr (n, payload), t) \<Longrightarrow> length payload = k"
  by (auto simp: read_and_validate_block_def check_block_def Let_def elim!: chainE dest!: read_exact_length
      split: if_splits)

text \<open>One turn of the receiver that ends with a file: it stores nothing or one whole block that fits.\<close>

lemma receive_turn:
  assumes "receive_blocks m q crc mx acc e r pending s = (Inr bs, t)"
  shows "bs = acc \<or> (\<exists>acc' e' r' s'. receive_blocks m q crc mx acc' e' r' None s' = (Inr bs, t) \<and>
    stock s' < stock s + (if pending = None then 0 else 1) \<and>
    (acc' = acc \<or> length acc' \<le> mx \<and> (\<exists>payload. acc' = acc @ payload \<and> 128 dvd length payload)))"
proof -
  obtain c u where c: "pending_or_read (mode_name m) pending s = (Inr c, u)"
    using assms by (subst (asm) receive_blocks.simps) (auto simp: Let_def elim!: chainE)
  note less = pending_stock [OF c]
  obtain x v where v: "read_and_validate_block (mode_name m) (if c = SOH then 128 else 1024) crc u = (x, v)"
    by force
  note le = block_stock [OF v]
  define P where "P \<longleftrightarrow> bs = acc \<or> (\<exists>acc' e' r' s'. receive_blocks m q crc mx acc' e' r' None s' = (Inr bs, t) \<and>
    stock s' < stock s + (if pending = None then 0 else 1) \<and>
    (acc' = acc \<or> length acc' \<le> mx \<and> (\<exists>payload. acc' = acc @ payload \<and> 128 dvd length payload)))"
  have stop: P if "bs = acc" using that by (simp add: P_def)
  have same: P
    if "receive_blocks m q crc mx acc e' r' None w = (Inr bs, t)" "stock w \<le> stock u" for e' r' w
    unfolding P_def using that less
    by (intro disjI2 exI [of _ acc] exI [of _ e'] exI [of _ r'] exI [of _ w]) auto
  have more: P
    if "receive_blocks m q crc mx (acc @ payload) e' r' None w = (Inr bs, t)" "stock w \<le> stock u"
      "128 dvd length payload" "length acc + length payload \<le> mx" for payload e' r' w
    unfolding P_def using that less
    by (intro disjI2 exI [of _ "acc @ payload"] exI [of _ e'] exI [of _ r'] exI [of _ w]) auto
  note rec = assms [unfolded receive_blocks.simps [of m q crc mx acc e r pending s]]
  have P
  proof (cases x)
    case (Inl er)
    show P
      using rec c v le Inl
      by (auto simp: Let_def give_up_def elim!: chainE dest!: write_binary_stock answer_unless_stock
          split: if_splits intro: same stop)
  next
    case (Inr y)
    obtain n payload where y: "y = (n, payload)" by force
    have d: "128 dvd length payload"
      using block_payload_length [of "mode_name m" "if c = SOH then 128 else 1024" crc u n payload v] v Inr y
      by (auto split: if_splits)
    show P
      using rec c v le Inr y d
      by (auto simp: Let_def give_up_def not_less elim!: chainE dest!: write_binary_stock answer_unless_stock
          split: if_splits intro: same more stop)
  qed
  then show ?thesis by (simp only: P_def)
qed

lemma receive_blocks_bound:
  "receive_blocks m q crc mx acc e r pending s = (Inr bs, t) \<Longrightarrow> length acc \<le> mx \<Longrightarrow> 128 dvd length acc \<Longrightarrow>
     length bs \<le> mx \<and> 128 dvd length bs"
proof (induction "stock s + (if pending = None then 0 else 1)" arbitrary: acc e r pending s rule: less_induct)
  case less
  from receive_turn [OF less.prems(1)] show ?case
  proof (elim disjE exE conjE, goal_cases)
    case (2 acc' e' r' s')
    with less.hyps [of s' None acc' e' r'] less.prems show ?case by auto
  next
    case (3 acc' e' r' s' payload)
    with less.hyps [of s' None acc' e' r'] less.prems show ?case by auto
  qed (use less.prems in simp)
qed

text \<open>
  What a receiver stores is bounded: whatever the line delivers, a file it returns carries
  the name that was asked for, which is safe, and consists of whole blocks of 128 bytes within
  the configured maximum.
\<close>

theorem xmodem_stores_within_limit:
  assumes "receive_xmodem name maximum m s = (Inr fs, t)"
  shows "\<exists>bs. fs = [\<lparr>received_name = name, received_bytes = bs, received_modified = None\<rparr>] \<and>
    length bs \<le> maximum \<and> 128 dvd length bs \<and> validate_remote_filename name = Inr ()"
  using assms
  by (auto simp: receive_xmodem_def elim!: chainE dest!: receive_blocks_bound)

theorem xmodem_stores_within_limit_witness:
  "\<exists>t. receive_xmodem ''A.TXT'' 0 Crc (hearing [Chunk [EOT]]) =
      (Inr [\<lparr>received_name = ''A.TXT'', received_bytes = [], received_modified = None\<rparr>], t) \<and>
    128 dvd length ([] :: bytes)"
proof -
  have "validate_remote_filename ''A.TXT'' = Inr ()"
    by (simp add: validate_remote_filename_def normalize_filename_def MAX_FILE_NAME_BYTES_def path_components_def
        starts_with_def ascii_defs)
  then obtain t where t: "receive_xmodem ''A.TXT'' 0 Crc (hearing [Chunk [EOT]]) =
      (Inr [\<lparr>received_name = ''A.TXT'', received_bytes = [], received_modified = None\<rparr>], t)"
    by (simp add: receive_xmodem_def hearing_def handshake.simps HANDSHAKE_RETRIES_def write_binary_def
        read_control_def read_binary_def receive_blocks.simps pending_or_read_def Let_def mode_request_def)
  with xmodem_stores_within_limit [OF t] show ?thesis by auto
qed

end
