(* ===== verification/Ymodem.thy ===== *)
theory Ymodem
  imports Xmodem_Link
begin

text \<open>
  \<open>crates/sf-core/src/transfer.rs\<close>, third part: YMODEM and YMODEM-g batches, Telink, and the
  choice of the protocol.  The two ZMODEM drivers call a third-party engine and are arguments of
  that choice.  \<open>usize\<close> has 64 bits.
\<close>

section \<open>Octal numbers\<close>

text \<open>\<open>format!("{:o}")\<close> and \<open>u64::from_str_radix(_, 8)\<close>.\<close>

fun show_oct :: "nat \<Rightarrow> string" where
  "show_oct n = (if n < 8 then [digit n] else show_oct (n div 8) @ [digit (n mod 8)])"

declare show_oct.simps [simp del]

definition oct_value :: "string \<Rightarrow> nat" where
  "oct_value s = foldl (\<lambda>a c. 8 * a + (ord c - 48)) 0 s"

definition parse_octal :: "nat \<Rightarrow> string \<Rightarrow> nat option" where
  "parse_octal m s =
     (let t = unwrap_or (strip_prefix ''+'' s) s in
      if t = [] \<or> \<not> list_all (\<lambda>c. 48 \<le> ord c \<and> ord c \<le> 55) t \<or> m < oct_value t then None
      else Some (oct_value t))"

lemma oct_digits: "list_all (\<lambda>c. 48 \<le> ord c \<and> ord c \<le> 55) (show_oct n)"
proof (induction n rule: show_oct.induct)
  case (1 n)
  then show ?case by (subst show_oct.simps) (auto simp: ord_digit)
qed

lemma show_oct_nonempty [simp]: "show_oct n \<noteq> []"
  by (subst show_oct.simps) simp

lemma oct_value_show_oct [simp]: "oct_value (show_oct n) = n"
proof (induction n rule: show_oct.induct)
  case (1 n)
  then show ?case by (subst show_oct.simps) (auto simp: oct_value_def ord_digit)
qed

lemma all_digits_show_oct [simp]: "all_digits (show_oct n)"
  using oct_digits [of n] by (auto simp: all_digits_def list_all_iff ascii_digit_def)

lemma parse_octal_show_oct [simp]: "n \<le> m \<Longrightarrow> parse_octal m (show_oct n) = Some n"
proof -
  have "CHR ''+'' \<notin> set (show_oct n)"
    by (rule all_digits_no) (simp_all add: ascii_digit_def ord_def)
  then have "strip_prefix ''+'' (show_oct n) = None" by (cases "show_oct n") auto
  then show "n \<le> m \<Longrightarrow> parse_octal m (show_oct n) = Some n"
    by (simp add: parse_octal_def oct_digits)
qed

lemma length_show_oct: "n < 8 ^ k \<Longrightarrow> 0 < k \<Longrightarrow> length (show_oct n) \<le> k"
proof (induction k arbitrary: n)
  case (Suc k)
  show ?case
  proof (cases "n < 8")
    case False
    then have "0 < k" using Suc.prems(1) by (cases k) auto
    moreover have "n div 8 < 8 ^ k" using Suc.prems(1) by (simp add: less_mult_imp_div_less mult.commute)
    ultimately have "length (show_oct (n div 8)) \<le> k" by (rule Suc.IH [rotated])
    with False show ?thesis by (subst show_oct.simps) simp
  qed (subst show_oct.simps, simp)
qed simp

section \<open>The metadata block\<close>

abbreviation u64_max :: nat where "u64_max \<equiv> 2 ^ 64 - 1"

text \<open>
  The fields follow the name and its zero; the block is 128 bytes as long as they fit
  (\<open>metadata_round_trip\<close> shows that they always do: the slice assignment of the source, which
  would panic otherwise, has no branch here).
\<close>

definition metadata_fields :: "protocol_file \<Rightarrow> string" where
  "metadata_fields f =
     show_nat (file_size f) @ (case modified_unix f of None \<Rightarrow> [] | Some m \<Rightarrow> '' '' @ show_oct m)"

definition ymodem_metadata :: "protocol_file \<Rightarrow> transfer_error + bytes" where
  "ymodem_metadata f =
     (if 128 \<le> length (file_name f) + 2 then Inl (XUnsafeFilename (file_name f))
      else
        let data = as_bytes (file_name f) @ [0] @ as_bytes (metadata_fields f) in
        Inr (data @ replicate (128 - length data) 0))"

definition parse_ymodem_metadata :: "bytes \<Rightarrow> transfer_error + string \<times> nat \<times> nat option" where
  "parse_ymodem_metadata md =
     attempt (ok_or (position (\<lambda>b. b = 0) md) (XMalformed ''YMODEM'' ''filename is not terminated'')) (\<lambda>name_end.
       let name = from_utf8_lossy (take name_end md) in
       attempt (validate_remote_filename name) (\<lambda>_.
         let rest = drop (name_end + 1) md;
             fields = from_utf8_lossy (take (unwrap_or (position (\<lambda>b. b = 0) rest) (length rest)) rest);
             parts = split_ascii_whitespace fields
         in
         attempt (case parts of [] \<Rightarrow> Inl (XMalformed ''YMODEM'' ''file size is missing'') | x # _ \<Rightarrow> Inr x) (\<lambda>x.
         attempt (ok_or (parse_uint u64_max x) (XMalformed ''YMODEM'' ''file size is invalid'')) (\<lambda>n.
         attempt
           (case parts of
              _ # y # _ \<Rightarrow> attempt (ok_or (parse_octal u64_max y) (XMalformed ''YMODEM'' ''modification date is invalid''))
                (\<lambda>m. Inr (Some m))
            | _ \<Rightarrow> Inr None) (\<lambda>modified.
           Inr (name, n, modified))))))"

section \<open>Sending a batch\<close>

definition batch_request :: "bool \<Rightarrow> u8" where
  "batch_request stream = (if stream then STREAM_REQUEST else CRC_REQUEST)"

definition batch_name :: "bool \<Rightarrow> string" where
  "batch_name stream = (if stream then ''YMODEM-g'' else ''YMODEM'')"

function drain_repeated_control :: "string \<Rightarrow> u8 \<Rightarrow> unit transfer" where
  "drain_repeated_control p request s =
     (case read_control p s of
        (Inr b, s) \<Rightarrow>
          if b = request then drain_repeated_control p request s
          else if b = CAN then (Inl (XCanceled p), s)
          else (Inl (XMalformed p ''unexpected queued initiation byte''), s)
      | (Inl (XTimedOut _), s) \<Rightarrow> (Inr (), s)
      | (Inl e, s) \<Rightarrow> (Inl e, s))"
  by pat_completeness auto
termination
  by (relation "measure (\<lambda>(p, request, s). stock s)") (auto dest: read_control_stock_less [OF sym])

declare drain_repeated_control.simps [simp del]

text \<open>The answers to one copy of the metadata: accepted, or to be sent again.\<close>

fun metadata_answer :: "nat \<Rightarrow> string \<Rightarrow> u8 \<Rightarrow> bool \<Rightarrow> bool transfer" where
  "metadata_answer 0 p request stream s = (Inr False, s)"
| "metadata_answer (Suc n) p request stream s =
     (case read_control p s of
        (Inr b, s) \<Rightarrow>
          if b = ACK then (Inr True, s)
          else if stream \<and> b = STREAM_REQUEST then (Inr True, s)
          else if b = CAN then (Inl (XCanceled p), s)
          else if b = NAK then (Inr False, s)
          else if b = request then metadata_answer n p request stream s
          else (Inl (XMalformed p ''unexpected metadata response''), s)
      | (Inl (XTimedOut _), s) \<Rightarrow> metadata_answer n p request stream s
      | (Inl e, s) \<Rightarrow> (Inl e, s))"

fun metadata_retry :: "nat \<Rightarrow> string \<Rightarrow> bytes \<Rightarrow> u8 \<Rightarrow> bool \<Rightarrow> unit transfer" where
  "metadata_retry 0 p packet request stream s = (Inl (XRetryLimit p), s)"
| "metadata_retry (Suc n) p packet request stream s =
     chain (write_binary packet s) (\<lambda>_ s.
     chain (metadata_answer HANDSHAKE_RETRIES p request stream s) (\<lambda>accepted s.
       if accepted then (Inr (), s) else metadata_retry n p packet request stream s))"

definition send_ymodem_metadata :: "string \<Rightarrow> bytes \<Rightarrow> u8 \<Rightarrow> bool \<Rightarrow> unit transfer" where
  "send_ymodem_metadata p metadata request stream s =
     chain (if stream then drain_repeated_control p request s else (Inr (), s)) (\<lambda>_ s.
       let packet = encode_block 0 metadata True in
       if stream \<and> metadata ! 0 = 0 then chain (write_binary packet s) (\<lambda>_ s. (Inr (), s))
       else metadata_retry MAX_RETRIES p packet request stream s)"

definition finish_ymodem_file_send :: "string \<Rightarrow> unit transfer" where
  "finish_ymodem_file_send p s =
     chain (write_binary [EOT] s) (\<lambda>_ s.
     chain (read_control p s) (\<lambda>b s.
       if b = NAK then
         chain (write_binary [EOT] s) (\<lambda>_ s.
         chain (read_control p s) (\<lambda>b s.
           if b \<noteq> ACK then (Inl (XMalformed p ''receiver did not acknowledge EOT''), s) else (Inr (), s)))
       else if b = ACK then (Inr (), s)
       else if b = CAN then (Inl (XCanceled p), s)
       else (Inl (XMalformed p ''unexpected EOT response''), s)))"

text \<open>One file of the batch, up to the point where it counts as completed.\<close>

definition send_ymodem_file :: "string \<Rightarrow> u8 \<Rightarrow> bool \<Rightarrow> protocol_file \<Rightarrow> unit transfer" where
  "send_ymodem_file p request stream f s =
     chain (validate_remote_filename (file_name f), s) (\<lambda>_ s.
     chain (ymodem_metadata f, s) (\<lambda>md s.
     chain (send_ymodem_metadata p md request stream s) (\<lambda>_ s.
     chain (if stream then (Inr (), s)
            else chain (read_control_with_retries p s) (\<lambda>b s.
              if b \<noteq> CRC_REQUEST then (Inl (XMalformed p ''receiver did not initiate file data''), s)
              else (Inr (), s))) (\<lambda>_ s.
     chain (send_blocks True True stream p f 1 0 s) (\<lambda>_ s.
       finish_ymodem_file_send p s)))))"

definition counted :: "nat \<Rightarrow> (transfer_error + 'a) \<times> terminal \<Rightarrow> (transfer_error \<times> nat + 'a) \<times> terminal" where
  "counted n r = (case r of (Inl e, s) \<Rightarrow> (Inl (e, n), s) | (Inr x, s) \<Rightarrow> (Inr x, s))"

fun send_ymodem_files ::
    "string \<Rightarrow> u8 \<Rightarrow> bool \<Rightarrow> nat \<Rightarrow> protocol_file list \<Rightarrow> terminal \<Rightarrow> (transfer_error \<times> nat + nat) \<times> terminal" where
  "send_ymodem_files p request stream completed [] s =
     chain (counted completed (send_ymodem_metadata p (replicate 128 0) request stream s)) (\<lambda>_ s.
       (Inr completed, s))"
| "send_ymodem_files p request stream completed (f # fs) s =
     chain (counted completed (send_ymodem_file p request stream f s)) (\<lambda>_ s.
     chain (counted (completed + 1) (read_control_with_retries p s)) (\<lambda>b s.
       if b \<noteq> batch_request stream
       then (Inl (XMalformed p ''receiver did not request next metadata block'', completed + 1), s)
       else send_ymodem_files p request stream (completed + 1) fs s))"

definition send_ymodem ::
    "protocol_file list \<Rightarrow> bool \<Rightarrow> terminal \<Rightarrow> (transfer_error \<times> nat + nat) \<times> terminal" where
  "send_ymodem files stream s =
     (let p = batch_name stream in
      chain (counted 0 (read_control_with_retries p s)) (\<lambda>request s.
        if request \<noteq> batch_request stream
        then (Inl (XMalformed p ''unexpected batch initiation'', 0), s)
        else send_ymodem_files p request stream 0 files s))"

section \<open>Receiving a batch\<close>

function receive_ymodem_data :: "string \<Rightarrow> nat \<Rightarrow> bool \<Rightarrow> bytes \<Rightarrow> u8 \<Rightarrow> bytes transfer" where
  "receive_ymodem_data p exact_size stream output expected s =
     chain (read_control p s) (\<lambda>c s.
       if c = EOT then
         chain
           (if stream then write_binary [ACK] s
            else
              chain (write_binary [NAK] s) (\<lambda>_ s.
              chain (read_control p s) (\<lambda>c s.
                if c \<noteq> EOT then (Inl (XMalformed p ''expected repeated EOT''), s)
                else write_binary [ACK] s))) (\<lambda>_ s.
           (Inr (take exact_size output), s))
       else if c = CAN then (Inl (XCanceled p), s)
       else if c = SOH \<or> c = STX then
         (case read_and_validate_block p (if c = SOH then 128 else 1024) True s of
            (Inr (n, payload), s) \<Rightarrow>
              if n = expected then
                chain (answer_unless stream ACK s) (\<lambda>_ s.
                  receive_ymodem_data p exact_size stream (output @ payload) (expected + 1) s)
              else if stream then give_up (XMalformed p ''streaming data error'') s
              else give_up (XMalformed p ''out-of-sequence data block'') s
          | (Inl e, s) \<Rightarrow>
              if stream then give_up (XMalformed p ''streaming data error'') s
              else chain (write_binary [NAK] s) (\<lambda>_ s. (Inl e, s)))
       else (Inl (XMalformed p ''unexpected data control byte''), s))"
  by pat_completeness auto
termination
  by (relation "measure (\<lambda>(p, exact_size, stream, output, expected, s). stock s)")
     (auto dest!: read_control_stock_less block_stock [OF sym] answer_unless_stock)

declare receive_ymodem_data.simps [simp del]

lemma ymodem_data_stock: "receive_ymodem_data p k stream acc e s = (r, t) \<Longrightarrow> stock t \<le> stock s"
proof (induction "stock s" arbitrary: acc e s rule: less_induct)
  case less
  show ?case
  proof (cases "fst (read_control p s)")
    case (Inl er)
    then have "t = snd (read_control p s)"
      using less.prems by (subst (asm) receive_ymodem_data.simps) (auto simp: chain_def split: prod.splits)
    then show ?thesis using read_control_stock by (metis prod.collapse)
  next
    case (Inr c)
    then obtain u where u: "read_control p s = (Inr c, u)" by (metis prod.collapse)
    note le = read_control_stock_less [OF u]
    have rec: "stock t \<le> stock s"
      if "receive_ymodem_data p k stream acc' e' w = (r, t)" "stock w \<le> stock u" for acc' e' w
      using less.hyps [of w] that le by fastforce
    obtain x v where v: "read_and_validate_block p (if c = SOH then 128 else 1024) True u = (x, v)" by force
    note lv = block_stock [OF v]
    show ?thesis
      using less.prems u v le lv
      by (subst (asm) receive_ymodem_data.simps)
         (auto simp: give_up_def elim!: chainE dest!: read_control_stock write_binary_stock answer_unless_stock
           cancel_stock split: if_splits sum.splits prod.splits intro: rec)
  qed
qed

function receive_ymodem_files ::
    "string \<Rightarrow> u8 \<Rightarrow> nat \<Rightarrow> nat \<Rightarrow> bool \<Rightarrow> u8 \<Rightarrow> received_file list \<Rightarrow> received_file list transfer" where
  "receive_ymodem_files p request maximum maximum_files stream first files s =
     chain (if files = [] then (Inr first, s) else read_control p s) (\<lambda>marker s.
       if marker = CAN then (Inl (XCanceled p), s)
       else if marker \<noteq> SOH then (Inl (XMalformed p ''metadata must use a 128-byte block''), s)
       else
         chain (read_and_validate_block p 128 True s) (\<lambda>y s. case y of (n, md) \<Rightarrow>
           if n \<noteq> 0 then (Inl (XMalformed p ''metadata sequence must be zero''), s)
           else if md ! 0 = 0 then
             chain (answer_unless stream ACK s) (\<lambda>_ s. (Inr files, s))
           else if maximum_files \<le> length files then
             give_up (XMalformed p ''batch file count exceeds configured limit'') s
           else
             chain (parse_ymodem_metadata md, s) (\<lambda>y s. case y of (name, k, modified) \<Rightarrow>
               if maximum < k then give_up (XTooLarge maximum) s
               else
                 chain (write_binary (if stream then [request] else [ACK, request]) s) (\<lambda>_ s.
                 chain (receive_ymodem_data p k stream [] 1 s) (\<lambda>bs s.
                 chain (write_binary [request] s) (\<lambda>_ s.
                   receive_ymodem_files p request maximum maximum_files stream first
                     (files @ [\<lparr>received_name = name, received_bytes = bs, received_modified = modified\<rparr>]) s))))))"
  by pat_completeness auto
termination
proof (relation "measure (\<lambda>(p, request, maximum, maximum_files, stream, first, files, s).
    stock s + (if files = [] then 1 else 0))", goal_cases)
  case (2 p request maximum maximum_files stream first files s)
  then show ?case
    by (auto dest!: read_control_stock_less block_stock ymodem_data_stock write_binary_stock split: if_splits)
qed simp

declare receive_ymodem_files.simps [simp del]

definition receive_ymodem :: "nat \<Rightarrow> nat \<Rightarrow> bool \<Rightarrow> received_file list transfer" where
  "receive_ymodem maximum maximum_files stream s =
     (let p = batch_name stream; request = batch_request stream in
      chain (request_control_with_retries p request s) (\<lambda>first s.
        receive_ymodem_files p request maximum maximum_files stream first [] s))"

section \<open>Telink\<close>

text \<open>The descriptor: length, name padded with blanks, the sender's name and the CRC flag.\<close>

definition u32_le_bytes :: "nat \<Rightarrow> bytes" where
  "u32_le_bytes n = [of_nat n, of_nat (n div 256), of_nat (n div 65536), of_nat (n div 16777216)]"

definition u32_of_le :: "bytes \<Rightarrow> nat" where
  "u32_of_le bs = unat (bs ! 0) + 256 * unat (bs ! 1) + 65536 * unat (bs ! 2) + 16777216 * unat (bs ! 3)"

definition telink_header :: "protocol_file \<Rightarrow> bool \<Rightarrow> bytes" where
  "telink_header f crc =
     u32_le_bytes (file_size f) @ replicate 4 0 @
     take 15 (as_bytes (file_name f)) @ replicate (16 - min 15 (length (file_name f))) 32 @
     [0] @ as_bytes ''SPITFIRE NG'' @ replicate 5 0 @ [if crc then 1 else 0] @ replicate 86 0"

definition send_telink :: "protocol_file \<Rightarrow> unit transfer" where
  "send_telink f s =
     (let p = ''Telink'' in
      chain (validate_remote_filename (file_name f), s) (\<lambda>_ s.
      chain (read_control_with_retries p s) (\<lambda>request s.
        if \<not> (request = NAK \<or> request = CRC_REQUEST)
        then (Inl (XMalformed p ''unexpected receiver initiation''), s)
        else if 2 ^ 32 - 1 < file_size f then (Inl (XTooLarge (2 ^ 32 - 1)), s)
        else
          let crc = request = CRC_REQUEST; header = telink_header f crc;
              packet = [TELINK_HEADER, 0, 255] @ header @ [checksum header]
          in
          chain (send_block_with_retry p packet False s) (\<lambda>_ s.
          chain (send_blocks False crc False p f 1 0 s) (\<lambda>_ s.
          chain (send_eot p s) (\<lambda>_ s.
          chain (read_control_with_retries p s) (\<lambda>next_request s.
            if \<not> (next_request = NAK \<or> next_request = CRC_REQUEST)
            then (Inl (XMalformed p ''unexpected batch-finish request''), s)
            else send_eot p s)))))))"

function receive_xmodem_data :: "nat \<Rightarrow> bool \<Rightarrow> string \<Rightarrow> bytes \<Rightarrow> u8 \<Rightarrow> bytes transfer" where
  "receive_xmodem_data exact_size crc p output expected s =
     chain (read_control p s) (\<lambda>c s.
       if c = EOT then chain (write_binary [ACK] s) (\<lambda>_ s. (Inr output, s))
       else if c = SOH then
         chain (read_and_validate_block p 128 crc s) (\<lambda>y s. case y of (n, payload) \<Rightarrow>
           if n \<noteq> expected then give_up (XMalformed p ''out-of-sequence data block'') s
           else if saturating_add exact_size 127 < saturating_add (length output) (length payload)
           then give_up (XMalformed p ''data exceeds declared size'') s
           else
             chain (write_binary [ACK] s) (\<lambda>_ s.
               receive_xmodem_data exact_size crc p (output @ payload) (expected + 1) s))
       else if c = CAN then (Inl (XCanceled p), s)
       else (Inl (XMalformed p ''unexpected data control byte''), s))"
  by pat_completeness auto
termination
  by (relation "measure (\<lambda>(exact_size, crc, p, output, expected, s). stock s)")
     (auto dest!: read_control_stock_less block_stock write_binary_stock)

declare receive_xmodem_data.simps [simp del]

definition receive_telink :: "nat \<Rightarrow> received_file list transfer" where
  "receive_telink maximum s =
     (let p = ''Telink'' in
      chain (request_control_with_retries p CRC_REQUEST s) (\<lambda>c s.
        if c \<noteq> TELINK_HEADER then (Inl (XMalformed p ''missing TeLink descriptor block''), s)
        else
          chain (read_and_validate_block p 128 False s) (\<lambda>(n, header) s.
            if n \<noteq> 0 then (Inl (XMalformed p ''descriptor sequence must be zero''), s)
            else
              let k = u32_of_le header in
              if maximum < k then give_up (XTooLarge maximum) s
              else
                let field = take 16 (drop 8 header);
                    name_end = unwrap_or (position (\<lambda>b. b = 0 \<or> b = 32) field) 16;
                    name = from_utf8_lossy (take name_end field)
                in
                chain (validate_remote_filename name, s) (\<lambda>_ s.
                chain (write_binary [ACK] s) (\<lambda>_ s.
                chain (receive_xmodem_data k (header ! 41 \<noteq> 0) p [] 1 s) (\<lambda>result s.
                chain (request_control_with_retries p CRC_REQUEST s) (\<lambda>c s.
                  if c \<noteq> EOT then (Inl (XMalformed p ''missing batch terminator''), s)
                  else
                    chain (write_binary [ACK] s) (\<lambda>_ s.
                      (Inr [\<lparr>received_name = name, received_bytes = take k result, received_modified = None\<rparr>], s)))))))))"

section \<open>Choice of the protocol\<close>

datatype transfer_protocol =
    XmodemChecksum | XmodemCrc | Xmodem1k | Xmodem1kG | YmodemBatch | YmodemGBatch | ZmodemBatch | Telink

definition stock_name :: "transfer_protocol \<Rightarrow> string" where
  "stock_name p =
     (case p of XmodemChecksum \<Rightarrow> ''Xmodem Checksum'' | XmodemCrc \<Rightarrow> ''Xmodem CRC'' | Xmodem1k \<Rightarrow> ''1K-Xmodem''
      | Xmodem1kG \<Rightarrow> ''1K-Xmodem-g'' | YmodemBatch \<Rightarrow> ''Ymodem (Batch)'' | YmodemGBatch \<Rightarrow> ''Ymodem-g (Batch)''
      | ZmodemBatch \<Rightarrow> ''Zmodem (Batch)'' | Telink \<Rightarrow> ''Telink'')"

definition is_batch :: "transfer_protocol \<Rightarrow> bool" where
  "is_batch p \<longleftrightarrow> p \<in> {YmodemBatch, YmodemGBatch, ZmodemBatch}"

text \<open>A single file counts as one completed file, or as none with the error.\<close>

definition one_file :: "(transfer_error + unit) \<times> terminal \<Rightarrow> (transfer_error \<times> nat + nat) \<times> terminal" where
  "one_file r = chain (counted 0 r) (\<lambda>_ s. (Inr 1, s))"

definition send_binary_streams_report ::
    "(protocol_file list \<Rightarrow> terminal \<Rightarrow> (transfer_error \<times> nat + nat) \<times> terminal) \<Rightarrow>
     transfer_protocol \<Rightarrow> protocol_file list \<Rightarrow> terminal \<Rightarrow> (transfer_error \<times> nat + nat) \<times> terminal" where
  "send_binary_streams_report send_zmodem protocol files s =
     (if \<not> is_batch protocol \<and> length files \<noteq> 1
      then (Inl (XSingleFileOnly (stock_name protocol), 0), s)
      else
        chain (counted 0 (change_mode s)) (\<lambda>_ s.
          case
            (case protocol of
               XmodemChecksum \<Rightarrow> one_file (send_xmodem (hd files) Checksum s)
             | XmodemCrc \<Rightarrow> one_file (send_xmodem (hd files) Crc s)
             | Xmodem1k \<Rightarrow> one_file (send_xmodem (hd files) OneK s)
             | Xmodem1kG \<Rightarrow> one_file (send_xmodem (hd files) OneKG s)
             | YmodemBatch \<Rightarrow> send_ymodem files False s
             | YmodemGBatch \<Rightarrow> send_ymodem files True s
             | ZmodemBatch \<Rightarrow> send_zmodem files s
             | Telink \<Rightarrow> one_file (send_telink (hd files) s))
          of
            (Inl e, s) \<Rightarrow> (Inl e, snd (change_mode s))
          | (Inr completed, s) \<Rightarrow> chain (counted 0 (change_mode s)) (\<lambda>_ s. (Inr completed, s))))"

definition finish_binary_mode :: "(transfer_error + 'a) \<times> terminal \<Rightarrow> (transfer_error + 'a) \<times> terminal" where
  "finish_binary_mode r =
     (case r of
        (result, s) \<Rightarrow>
          case change_mode s of
            (finish, s) \<Rightarrow>
              (case (result, finish) of
                 (Inr x, Inr _) \<Rightarrow> Inr x
               | (Inl e, _) \<Rightarrow> Inl e
               | (Inr _, Inl e) \<Rightarrow> Inl e, s))"

definition receive_binary_files ::
    "(nat \<Rightarrow> nat \<Rightarrow> received_file list transfer) \<Rightarrow>
     transfer_protocol \<Rightarrow> string \<Rightarrow> nat \<Rightarrow> nat \<Rightarrow> received_file list transfer" where
  "receive_binary_files receive_zmodem protocol fallback maximum maximum_files s =
     chain (change_mode s) (\<lambda>_ s.
       finish_binary_mode
         (case protocol of
            XmodemChecksum \<Rightarrow> receive_xmodem fallback maximum Checksum s
          | XmodemCrc \<Rightarrow> receive_xmodem fallback maximum Crc s
          | Xmodem1k \<Rightarrow> receive_xmodem fallback maximum OneK s
          | Xmodem1kG \<Rightarrow> receive_xmodem fallback maximum OneKG s
          | YmodemBatch \<Rightarrow> receive_ymodem maximum maximum_files False s
          | YmodemGBatch \<Rightarrow> receive_ymodem maximum maximum_files True s
          | ZmodemBatch \<Rightarrow> receive_zmodem maximum maximum_files s
          | Telink \<Rightarrow> receive_telink maximum s))"

end
