(* ===== verification/Ymodem_Link.thy ===== *)
theory Ymodem_Link
  imports Ymodem
begin

text \<open>
  YMODEM on the wire: the metadata block, a batch between two ends that hear each other, and
  what the declared size does.
\<close>

unbundle bit_operations_syntax

section \<open>Metadata\<close>

text \<open>What can be sent: a safe name and numbers of 64 bits.\<close>

definition sendable :: "protocol_file \<Rightarrow> bool" where
  "sendable f \<longleftrightarrow> validate_remote_filename (file_name f) = Inr () \<and> file_size f \<le> u64_max \<and>
     (case modified_unix f of None \<Rightarrow> True | Some m \<Rightarrow> m \<le> u64_max)"

definition metadata_of :: "protocol_file \<Rightarrow> bytes" where
  "metadata_of f = (case ymodem_metadata f of Inl _ \<Rightarrow> [] | Inr md \<Rightarrow> md)"

lemma safe_name:
  assumes "validate_remote_filename s = Inr ()"
  shows "s \<noteq> []" "length s \<le> 64" "ascii s" "\<forall>c \<in> set s. ord c \<noteq> 0"
proof -
  have all: "list_all (\<lambda>c. ascii_alphanumeric (ord c) \<or> c \<in> set ''._-+'') s"
    using assms by (auto simp: validate_remote_filename_def normalize_filename_def isl_def split: if_splits)
  show "s \<noteq> []" "length s \<le> 64"
    using assms by (auto simp: validate_remote_filename_def MAX_FILE_NAME_BYTES_def split: if_splits)
  show "ascii s" "\<forall>c \<in> set s. ord c \<noteq> 0"
    using all by (auto simp: ascii_def list_all_iff ascii_defs)
qed

lemma length_metadata_fields: "sendable f \<Longrightarrow> length (metadata_fields f) \<le> 43"
proof -
  assume f: "sendable f"
  have "length (show_nat (file_size f)) \<le> 20"
    using f by (intro length_show_nat_le) (simp_all add: sendable_def)
  moreover have "length (show_oct m) \<le> 22" if "modified_unix f = Some m" for m
    using f that by (intro length_show_oct) (simp_all add: sendable_def)
  ultimately show ?thesis by (auto simp: metadata_fields_def split: option.splits)
qed

lemma as_bytes_no_zero: "\<forall>c \<in> set s. ord c \<noteq> 0 \<Longrightarrow> 0 \<notin> set (as_bytes s)"
  by (auto simp: as_bytes_def dest!: arg_cong [of 0 _ unat])

lemma position_after: "x \<notin> set xs \<Longrightarrow> position (\<lambda>b. b = x) (xs @ x # ys) = Some (length xs)"
  by (induction xs) auto

lemma metadata_ok:
  assumes "sendable f"
  shows "\<exists>md. ymodem_metadata f = Inr md \<and> length md = 128 \<and> md ! 0 \<noteq> 0 \<and>
    parse_ymodem_metadata md = Inr (file_name f, file_size f, modified_unix f)"
proof -
  note name = safe_name [of "file_name f"]
  have v: "validate_remote_filename (file_name f) = Inr ()" using assms by (simp add: sendable_def)
  let ?data = "as_bytes (file_name f) @ [0] @ as_bytes (metadata_fields f)"
  let ?md = "?data @ replicate (128 - length ?data) 0"
  have len: "length (file_name f) \<le> 64" "length (metadata_fields f) \<le> 43"
    using name(2) [OF v] length_metadata_fields [OF assms] by auto
  then have m: "ymodem_metadata f = Inr ?md"
    by (simp add: ymodem_metadata_def Let_def)
  have l: "length ?md = 128" using len by simp
  have "as_bytes (file_name f) \<noteq> []" using name(1) [OF v] by (simp add: as_bytes_def)
  moreover have z: "0 \<notin> set (as_bytes (file_name f))" using name(4) [OF v] by (rule as_bytes_no_zero)
  ultimately have h: "?md ! 0 \<noteq> 0" by (cases "as_bytes (file_name f)") auto
  have nz: "0 < ord c" if "c \<in> set s" "all_digits s" for c s
    using that by (auto simp: all_digits_def list_all_iff ascii_digit_def)
  have "\<forall>c \<in> set (metadata_fields f). ord c \<noteq> 0"
    using nz [of _ "show_nat (file_size f)"] nz [of _ "show_oct (the (modified_unix f))"]
    by (cases "modified_unix f") (auto simp: metadata_fields_def)
  then have zf: "0 \<notin> set (as_bytes (metadata_fields f))" by (rule as_bytes_no_zero)
  obtain n where n: "128 - length ?data = Suc n" using len by (cases "128 - length ?data") auto
  have "ascii (metadata_fields f)" by (auto simp: metadata_fields_def split: option.splits intro: ascii_digits)
  moreover have "split_ascii_whitespace (metadata_fields f) =
      show_nat (file_size f) # (case modified_unix f of None \<Rightarrow> [] | Some m \<Rightarrow> [show_oct m])"
    by (cases "modified_unix f") (simp_all add: metadata_fields_def no_space_digits)
  ultimately have "parse_ymodem_metadata ?md = Inr (file_name f, file_size f, modified_unix f)"
    unfolding n using z zf v name(3) [OF v] assms
    by (cases "modified_unix f") (simp_all add: parse_ymodem_metadata_def position_after Let_def sendable_def)
  with m l h show ?thesis by blast
qed

text \<open>
  The metadata block of YMODEM round-trips: for every file that can be sent it has exactly
  128 bytes, so that the name and the fields always fit, it is not the empty block that ends a
  batch, and it is read back as the file's name, size and modification time.
\<close>

theorem metadata_round_trip:
  assumes "sendable f"
  shows "\<exists>md. ymodem_metadata f = Inr md \<and> length md = 128 \<and> md ! 0 \<noteq> 0 \<and>
    parse_ymodem_metadata md = Inr (file_name f, file_size f, modified_unix f)"
  using assms by (rule metadata_ok)

definition sample_batch_file :: protocol_file where
  "sample_batch_file = \<lparr>file_name = ''A.TXT'', file_size = 3, content = [1, 2, 3], modified_unix = Some 8\<rparr>"

lemma sample_sendable: "sendable sample_batch_file"
  by (simp add: sendable_def sample_batch_file_def validate_remote_filename_def normalize_filename_def
      MAX_FILE_NAME_BYTES_def path_components_def starts_with_def ascii_defs)

theorem metadata_round_trip_witness:
  "\<exists>md. ymodem_metadata sample_batch_file = Inr md \<and> length md = 128 \<and>
     parse_ymodem_metadata md = Inr (''A.TXT'', 3, Some 8)"
  using metadata_round_trip [OF sample_sendable] by (auto simp: sample_batch_file_def)

section \<open>A batch over a clean line\<close>

text \<open>
  The exchanges of the data phase have no failed attempts.  \<open>file_bytes\<close> is what the sender
  writes for a file, \<open>file_answers\<close> what the receiver answers, up to its request for the next.
\<close>

definition clean_exchanges :: "protocol_file \<Rightarrow> exchange list" where
  "clean_exchanges f = map (\<lambda>b. (b, [])) (file_blocks True (content f))"

definition file_bytes :: "protocol_file \<Rightarrow> bytes" where
  "file_bytes f = encode_block 0 (metadata_of f) True @ arriving True 1 (clean_exchanges f) @ [EOT, EOT]"

definition file_answers :: "protocol_file \<Rightarrow> bytes" where
  "file_answers f = [ACK, CRC_REQUEST] @ replicate (length (clean_exchanges f)) ACK @ [NAK, ACK, CRC_REQUEST]"

definition batch_bytes :: "protocol_file list \<Rightarrow> bytes" where
  "batch_bytes fs = concat (map file_bytes fs) @ encode_block 0 (replicate 128 0) True"

definition batch_answers :: "protocol_file list \<Rightarrow> bytes" where
  "batch_answers fs = concat (map file_answers fs) @ [ACK]"

lemma clean_heard: "answers_heard (map (\<lambda>b. (b, [])) bs) = heard (replicate (length bs) ACK)"
  by (induction bs) (simp_all add: answers_heard_def)

lemma clean_sent: "concat (sent_on crc n (map (\<lambda>b. (b, [])) bs)) = arriving crc n (map (\<lambda>b. (b, [])) bs)"
  by (induction bs arbitrary: n) simp_all

lemma metadata_Inr: "sendable f \<Longrightarrow> ymodem_metadata f = Inr (metadata_of f)"
  using metadata_ok by (force simp: metadata_of_def)

lemma goes_counted: "goes r x xs out \<Longrightarrow> goes (counted n r) x xs out"
  by (auto simp: goes_def counted_def)

lemma goes_metadata:
  assumes "line_at (Inr ACK # xs) out s"
  shows "goes (send_ymodem_metadata p md q False s) () xs (out @ [encode_block 0 md True])"
  using write_line [OF assms, of "encode_block 0 md True"] control_byte [of ACK xs "out @ [encode_block 0 md True]" _ p]
  by (fastforce simp: send_ymodem_metadata_def MAX_RETRIES_def HANDSHAKE_RETRIES_def numeral_eq_Suc goes_def)

lemma goes_finish:
  assumes "line_at (Inr NAK # Inr ACK # xs) out s"
  shows "goes (finish_ymodem_file_send p s) () xs (out @ [[EOT], [EOT]])"
proof -
  obtain s1 where 1: "write_binary [EOT] s = (Inr (), s1)" "line_at (Inr NAK # Inr ACK # xs) (out @ [[EOT]]) s1"
    using write_line [OF assms] by blast
  obtain s2 where 2: "read_control p s1 = (Inr NAK, s2)" "line_at (Inr ACK # xs) (out @ [[EOT]]) s2"
    using control_byte [OF 1(2)] by blast
  obtain s3 where 3: "write_binary [EOT] s2 = (Inr (), s3)" "line_at (Inr ACK # xs) (out @ [[EOT], [EOT]]) s3"
    using write_line [OF 2(2)] by fastforce
  obtain s4 where 4: "read_control p s3 = (Inr ACK, s4)" "line_at xs (out @ [[EOT], [EOT]]) s4"
    using control_byte [OF 3(2)] by blast
  show ?thesis using 1 2 3 4 by (simp add: finish_ymodem_file_send_def goes_return)
qed

lemma goes_send_file:
  assumes "sendable f" and "file_size f = length (content f)"
    and "line_at (heard ([ACK, CRC_REQUEST] @ replicate (length (clean_exchanges f)) ACK @ [NAK, ACK]) @ xs) out s"
  shows "\<exists>ws. concat ws = file_bytes f \<and> goes (send_ymodem_file p CRC_REQUEST False f s) () xs (out @ ws)"
proof -
  let ?md = "encode_block 0 (metadata_of f) True" and ?es = "clean_exchanges f"
  obtain s1 where 1: "send_ymodem_metadata p (metadata_of f) CRC_REQUEST False s = (Inr (), s1)"
      "line_at (Inr CRC_REQUEST # answers_heard ?es @ Inr NAK # Inr ACK # xs) (out @ [?md]) s1"
    using goes_metadata [of "Inr CRC_REQUEST # answers_heard ?es @ Inr NAK # Inr ACK # xs" out s p] assms(3)
    by (auto simp: goes_def clean_exchanges_def clean_heard)
  obtain s2 where 2: "read_control_with_retries p s1 = (Inr CRC_REQUEST, s2)"
      "line_at (answers_heard ?es @ Inr NAK # Inr ACK # xs) (out @ [?md]) s2"
    using goes_read_with_retries [OF 1(2)] by (auto simp: goes_def)
  have e: "map fst ?es = file_blocks True (drop 0 (content f))" "list_all (exchange_ok True) ?es"
    by (simp_all add: clean_exchanges_def exchange_ok_def list_all_iff o_def)
  obtain s3 where 3: "send_blocks True True False p f 1 0 s2 = (Inr (), s3)"
      "line_at (Inr NAK # Inr ACK # xs) (out @ [?md] @ sent_on True 1 ?es) s3"
    using goes_send_blocks [OF 2(2) e assms(2), of p 1] by (auto simp: goes_def)
  have "goes (finish_ymodem_file_send p s3) () xs ((out @ [?md] @ sent_on True 1 ?es) @ [[EOT], [EOT]])"
    by (rule goes_finish [OF 3(2)])
  then have "goes (send_ymodem_file p CRC_REQUEST False f s) () xs (out @ ([?md] @ sent_on True 1 ?es @ [[EOT], [EOT]]))"
    using 1(1) 2(1) 3(1) assms(1) metadata_Inr [OF assms(1)] by (simp add: send_ymodem_file_def sendable_def)
  moreover have "concat ([?md] @ sent_on True 1 ?es @ [[EOT], [EOT]]) = file_bytes f"
    by (simp add: file_bytes_def clean_exchanges_def clean_sent)
  ultimately show ?thesis by blast
qed

lemma goes_send_files:
  assumes "\<forall>f \<in> set fs. sendable f \<and> file_size f = length (content f)"
    and "line_at (heard (batch_answers fs) @ xs) out s"
  shows "\<exists>ws. concat ws = batch_bytes fs \<and>
    goes (send_ymodem_files p CRC_REQUEST False n fs s) (n + length fs) xs (out @ ws)"
  using assms
proof (induction fs arbitrary: n out s)
  case Nil
  then have "line_at (Inr ACK # xs) out s" by (simp add: batch_answers_def)
  from goes_metadata [OF this, of p "replicate 128 0" CRC_REQUEST]
  obtain t where "send_ymodem_metadata p (replicate 128 0) CRC_REQUEST False s = (Inr (), t)"
      "line_at xs (out @ [encode_block 0 (replicate 128 0) True]) t"
    by (auto simp: goes_def)
  then show ?case
    by (intro exI [of _ "[encode_block 0 (replicate 128 0) True]"])
       (simp add: batch_bytes_def counted_def goes_return)
next
  case (Cons f fs)
  let ?xs = "heard (batch_answers fs) @ xs"
  have "line_at (heard ([ACK, CRC_REQUEST] @ replicate (length (clean_exchanges f)) ACK @ [NAK, ACK]) @
      (Inr CRC_REQUEST # ?xs)) out s"
    using Cons.prems(2) by (simp add: batch_answers_def file_answers_def)
  then obtain ws where ws: "concat ws = file_bytes f"
      "goes (send_ymodem_file p CRC_REQUEST False f s) () (Inr CRC_REQUEST # ?xs) (out @ ws)"
    using goes_send_file Cons.prems(1) by (metis list.set_intros(1))
  then obtain s1 where 1: "send_ymodem_file p CRC_REQUEST False f s = (Inr (), s1)"
      "line_at (Inr CRC_REQUEST # ?xs) (out @ ws) s1" by (auto simp: goes_def)
  obtain s2 where 2: "read_control_with_retries p s1 = (Inr CRC_REQUEST, s2)" "line_at ?xs (out @ ws) s2"
    using goes_read_with_retries [OF 1(2)] by (auto simp: goes_def)
  obtain vs where vs: "concat vs = batch_bytes fs"
      "goes (send_ymodem_files p CRC_REQUEST False (n + 1) fs s2) (n + 1 + length fs) xs ((out @ ws) @ vs)"
    using Cons.IH [OF _ 2(2)] Cons.prems(1) by (metis list.set_intros(2))
  show ?case
    by (intro exI [of _ "ws @ vs"])
       (use 1 2 ws vs in \<open>simp add: batch_bytes_def counted_def batch_request_def\<close>)
qed

lemma goes_ymodem_data:
  assumes "line_at (heard (arriving True e (map (\<lambda>b. (b, [])) bs) @ [EOT, EOT]) @ xs) out s"
    and "\<forall>b \<in> set bs. length b = 128 \<or> length b = 1024"
  shows "\<exists>ws. concat ws = replicate (length bs) ACK @ [NAK, ACK] \<and>
    goes (receive_ymodem_data p k False acc e s) (take k (acc @ concat bs)) xs (out @ ws)"
  using assms
proof (induction bs arbitrary: e acc out s)
  case Nil
  then obtain s1 where 1: "read_control p s = (Inr EOT, s1)" "line_at (Inr EOT # xs) out s1"
    using control_byte [of EOT "Inr EOT # xs" out s p] by auto
  obtain s2 where 2: "write_binary [NAK] s1 = (Inr (), s2)" "line_at (Inr EOT # xs) (out @ [[NAK]]) s2"
    using write_line [OF 1(2)] by blast
  obtain s3 where 3: "read_control p s2 = (Inr EOT, s3)" "line_at xs (out @ [[NAK]]) s3"
    using control_byte [OF 2(2)] by blast
  obtain s4 where 4: "write_binary [ACK] s3 = (Inr (), s4)" "line_at xs (out @ [[NAK], [ACK]]) s4"
    using write_line [OF 3(2)] by fastforce
  show ?case
    by (intro exI [of _ "[[NAK], [ACK]]"], subst receive_ymodem_data.simps)
       (use 1 2 3 4 in \<open>simp add: goes_return\<close>)
next
  case (Cons b bs)
  let ?mk = "if length b = 1024 then STX else SOH"
  let ?ys = "heard (arriving True (e + 1) (map (\<lambda>b. (b, [])) bs) @ [EOT, EOT]) @ xs"
  have "line_at (Inr ?mk # heard (tl (encode_block e b True)) @ ?ys) out s"
    using Cons.prems(1) by (simp add: encode_block_def)
  then obtain s1 where 1: "read_control p s = (Inr ?mk, s1)" "line_at (heard (tl (encode_block e b True)) @ ?ys) out s1"
    using control_byte by blast
  obtain s2 where 2: "read_and_validate_block p (length b) True s1 = (Inr (e, b), s2)" "line_at ?ys out s2"
    using goes_block [OF 1(2) refl] unfolding goes_def by blast
  obtain s3 where 3: "write_binary [ACK] s2 = (Inr (), s3)" "line_at ?ys (out @ [[ACK]]) s3"
    using write_line [OF 2(2)] by blast
  obtain ws where ws: "concat ws = replicate (length bs) ACK @ [NAK, ACK]"
      "goes (receive_ymodem_data p k False (acc @ b) (e + 1) s3) (take k ((acc @ b) @ concat bs)) xs ((out @ [[ACK]]) @ ws)"
    using Cons.IH [where acc = "acc @ b", OF 3(2)] Cons.prems(2) by (meson list.set_intros(2))
  show ?case
    by (intro exI [of _ "[ACK] # ws"], subst receive_ymodem_data.simps)
       (use 1 2 3 ws Cons.prems(2) in \<open>auto simp: answer_unless_def\<close>)
qed

definition received_of :: "protocol_file \<Rightarrow> received_file" where
  "received_of f = \<lparr>received_name = file_name f, received_bytes = content f, received_modified = modified_unix f\<rparr>"

lemma tl_append_marker: "tl (encode_block n b crc @ xs) = tl (encode_block n b crc) @ xs"
  by (simp add: encode_block_def)

lemma goes_receive_files:
  assumes "\<forall>f \<in> set fs. sendable f \<and> file_size f = length (content f) \<and> file_size f \<le> maximum"
    and "length files + length fs \<le> maximum_files"
    and "if files = [] then first = SOH \<and> line_at (heard (tl (batch_bytes fs)) @ xs) out s
         else line_at (heard (batch_bytes fs) @ xs) out s"
  shows "\<exists>ws. concat ws = batch_answers fs \<and>
    goes (receive_ymodem_files p CRC_REQUEST maximum maximum_files False first files s)
      (files @ map received_of fs) xs (out @ ws)"
  using assms
proof (induction fs arbitrary: files out s)
  case Nil
  obtain s1 where 1: "(if files = [] then (Inr first, s) else read_control p s) = (Inr SOH, s1)"
      "line_at (heard (tl (encode_block 0 (replicate 128 0) True)) @ xs) out s1"
    using Nil.prems(3) control_byte [of SOH "heard (tl (encode_block 0 (replicate 128 0) True)) @ xs" out s p]
    by (cases "files = []") (auto simp: batch_bytes_def encode_block_def)
  obtain s2 where 2: "read_and_validate_block p 128 True s1 = (Inr (0, replicate 128 0), s2)" "line_at xs out s2"
    using goes_block [OF 1(2)] unfolding goes_def by force
  obtain s3 where 3: "write_binary [ACK] s2 = (Inr (), s3)" "line_at xs (out @ [[ACK]]) s3"
    using write_line [OF 2(2)] by blast
  have z: "replicate 128 (0::u8) ! 0 = 0" by simp
  show ?case
    by (intro exI [of _ "[[ACK]]"], subst receive_ymodem_files.simps)
       (use 1 2 3 z in \<open>simp add: batch_answers_def answer_unless_def goes_return del: nth_replicate\<close>)
next
  case (Cons f fs)
  let ?md = "metadata_of f" and ?ys = "heard (batch_bytes fs) @ xs"
  let ?zs = "heard (arriving True 1 (clean_exchanges f) @ [EOT, EOT]) @ ?ys"
  have f: "sendable f" "file_size f = length (content f)" "file_size f \<le> maximum"
    using Cons.prems(1) by simp_all
  have md: "length ?md = 128" "?md ! 0 \<noteq> 0" "parse_ymodem_metadata ?md = Inr (file_name f, file_size f, modified_unix f)"
    using metadata_ok [OF f(1)] metadata_Inr [OF f(1)] by auto
  obtain s1 where 1: "(if files = [] then (Inr first, s) else read_control p s) = (Inr SOH, s1)"
      "line_at (heard (tl (encode_block 0 ?md True)) @ ?zs) out s1"
    using Cons.prems(3) control_byte [of SOH "heard (tl (encode_block 0 ?md True)) @ ?zs" out s p] md(1)
    by (cases "files = []") (auto simp: batch_bytes_def file_bytes_def encode_block_def)
  obtain s2 where 2: "read_and_validate_block p 128 True s1 = (Inr (0, ?md), s2)" "line_at ?zs out s2"
    using goes_block [OF 1(2) md(1)] unfolding goes_def by blast
  obtain s3 where 3: "write_binary [ACK, CRC_REQUEST] s2 = (Inr (), s3)" "line_at ?zs (out @ [[ACK, CRC_REQUEST]]) s3"
    using write_line [OF 2(2)] by blast
  have bl: "\<forall>b \<in> set (file_blocks True (content f)). length b = 128 \<or> length b = 1024"
    using file_blocks_length by blast
  obtain j where "concat (file_blocks True (content f)) = content f @ replicate j CPM_EOF"
    using file_blocks_content by blast
  then have cut: "take (file_size f) ([] @ concat (file_blocks True (content f))) = content f"
    using f(2) by simp
  obtain vs where vs: "concat vs = replicate (length (clean_exchanges f)) ACK @ [NAK, ACK]"
      "goes (receive_ymodem_data p (file_size f) False [] 1 s3) (content f) ?ys ((out @ [[ACK, CRC_REQUEST]]) @ vs)"
    using goes_ymodem_data [OF 3(2) [unfolded clean_exchanges_def] bl, of p "file_size f" "[]"]
    unfolding cut by (auto simp: clean_exchanges_def)
  then obtain s4 where 4: "receive_ymodem_data p (file_size f) False [] 1 s3 = (Inr (content f), s4)"
      "line_at ?ys (out @ [[ACK, CRC_REQUEST]] @ vs) s4" by (auto simp: goes_def)
  obtain s5 where 5: "write_binary [CRC_REQUEST] s4 = (Inr (), s5)"
      "line_at ?ys ((out @ [[ACK, CRC_REQUEST]] @ vs) @ [[CRC_REQUEST]]) s5"
    using write_line [OF 4(2)] by blast
  have rest: "\<forall>f \<in> set fs. sendable f \<and> file_size f = length (content f) \<and> file_size f \<le> maximum"
      "length (files @ [received_of f]) + length fs \<le> maximum_files"
      "if files @ [received_of f] = []
       then first = SOH \<and> line_at (heard (tl (batch_bytes fs)) @ xs) ((out @ [[ACK, CRC_REQUEST]] @ vs) @ [[CRC_REQUEST]]) s5
       else line_at ?ys ((out @ [[ACK, CRC_REQUEST]] @ vs) @ [[CRC_REQUEST]]) s5"
    by (use Cons.prems(1) in fastforce, use Cons.prems(2) 5(2) in simp_all)
  obtain ws where ws: "concat ws = batch_answers fs"
      "goes (receive_ymodem_files p CRC_REQUEST maximum maximum_files False first (files @ [received_of f]) s5)
        ((files @ [received_of f]) @ map received_of fs) xs (((out @ [[ACK, CRC_REQUEST]] @ vs) @ [[CRC_REQUEST]]) @ ws)"
    using Cons.IH [OF rest] by blast
  show ?case
    by (intro exI [of _ "[ACK, CRC_REQUEST] # vs @ [CRC_REQUEST] # ws"], subst receive_ymodem_files.simps)
       (use 1 2 3 4 5 ws vs(1) md f Cons.prems(2) in
         \<open>simp add: batch_answers_def file_answers_def received_of_def\<close>)
qed

text \<open>
  C11.  A YMODEM batch arrives as it was sent: over a line that carries every byte, sender and
  receiver, each hearing exactly what the other writes, both succeed; the sender counts every
  file, and the receiver has the files in order with their names, times and exact contents, the
  filler of the last blocks cut off.
\<close>

theorem ymodem_batch_delivered:
  assumes "\<forall>f \<in> set fs. sendable f \<and> file_size f = length (content f) \<and> file_size f \<le> maximum"
    and "length fs \<le> maximum_files"
    and "line_at (heard (CRC_REQUEST # batch_answers fs)) [] s" and "line_at (heard (batch_bytes fs)) [] r"
  shows "\<exists>s' r'. send_ymodem fs False s = (Inr (length fs), s') \<and>
    receive_ymodem maximum maximum_files False r = (Inr (map received_of fs), r') \<and>
    concat (outgoing s') = batch_bytes fs \<and> concat (outgoing r') = CRC_REQUEST # batch_answers fs"
proof -
  obtain s1 where s1: "read_control_with_retries (batch_name False) s = (Inr CRC_REQUEST, s1)"
      "line_at (heard (batch_answers fs) @ []) [] s1"
    using goes_read_with_retries [of CRC_REQUEST "heard (batch_answers fs)" "[]" s] assms(3) by (auto simp: goes_def)
  have ok: "\<forall>f \<in> set fs. sendable f \<and> file_size f = length (content f)" using assms(1) by blast
  obtain ws s' where s': "concat ws = batch_bytes fs"
      "send_ymodem_files (batch_name False) CRC_REQUEST False 0 fs s1 = (Inr (length fs), s')" "line_at [] ws s'"
    using goes_send_files [OF ok s1(2), of "batch_name False" 0] by (auto simp: goes_def)
  have send: "send_ymodem fs False s = (Inr (length fs), s')"
    using s1(1) s'(2) by (simp add: send_ymodem_def Let_def counted_def batch_request_def)
  have h: "batch_bytes fs = SOH # tl (batch_bytes fs)"
    using metadata_ok metadata_Inr ok
    by (cases fs) (force simp: batch_bytes_def file_bytes_def encode_block_def)+
  obtain r1 where r1: "write_binary [CRC_REQUEST] r = (Inr (), r1)"
      "line_at (Inr SOH # heard (tl (batch_bytes fs))) [[CRC_REQUEST]] r1"
    using write_line [OF assms(4)] h by (metis append_Nil list.simps(9))
  obtain r2 where r2: "read_control (batch_name False) r1 = (Inr SOH, r2)"
      "line_at (heard (tl (batch_bytes fs)) @ []) [[CRC_REQUEST]] r2"
    using control_byte [OF r1(2)] by auto
  obtain vs r' where r': "concat vs = batch_answers fs"
      "receive_ymodem_files (batch_name False) CRC_REQUEST maximum maximum_files False SOH [] r2 =
        (Inr (map received_of fs), r')" "line_at [] ([CRC_REQUEST] # vs) r'"
    using goes_receive_files [OF assms(1), of "[]" maximum_files SOH "[]" "[[CRC_REQUEST]]" r2 "batch_name False"]
      assms(2) r2(2) by (auto simp: goes_def)
  have "receive_ymodem maximum maximum_files False r = (Inr (map received_of fs), r')"
    using r1(1) r2(1) r'(2)
    by (simp add: receive_ymodem_def Let_def batch_request_def request_control_with_retries_def HANDSHAKE_RETRIES_def
        numeral_eq_Suc)
  with send s'(1,3) r'(1,3) show ?thesis by (auto simp: line_at_def)
qed

lemma line_at_chunk: "bs \<noteq> [] \<Longrightarrow> line_at (heard bs) [] (hearing [Chunk bs])"
  using line_at_hearing [of "[Chunk bs]"] by simp

theorem ymodem_batch_delivered_witness:
  "\<exists>s' r'. send_ymodem [sample_batch_file] False
      (hearing [Chunk (CRC_REQUEST # batch_answers [sample_batch_file])]) = (Inr 1, s') \<and>
    receive_ymodem 1000 5 False (hearing [Chunk (batch_bytes [sample_batch_file])]) =
      (Inr [received_of sample_batch_file], r')"
proof -
  have f: "\<forall>f \<in> set [sample_batch_file]. sendable f \<and> file_size f = length (content f) \<and> file_size f \<le> 1000"
    using sample_sendable by (simp add: sample_batch_file_def)
  have "batch_bytes [sample_batch_file] \<noteq> []" by (simp add: batch_bytes_def encode_block_def)
  from ymodem_batch_delivered [OF f _ line_at_chunk line_at_chunk [OF this], of 5] show ?thesis by auto
qed

text \<open>
  The size a YMODEM sender declares is only used to cut the result: every block in sequence
  is stored and acknowledged, however many follow, and a file that ends early is returned as if
  it were whole.
\<close>

theorem ymodem_declared_size_only_cuts:
  assumes "\<forall>b \<in> set bs. length b = 128 \<or> length b = 1024"
  shows "\<exists>t. receive_ymodem_data p k False [] 1
      (hearing [Chunk (arriving True 1 (map (\<lambda>b. (b, [])) bs) @ [EOT, EOT])]) = (Inr (take k (concat bs)), t) \<and>
    concat (outgoing t) = replicate (length bs) ACK @ [NAK, ACK]"
proof -
  let ?in = "arriving True 1 (map (\<lambda>b. (b, [])) bs) @ [EOT, EOT]"
  have "line_at (heard ?in @ []) [] (hearing [Chunk ?in])" using line_at_chunk [of ?in] by simp
  from goes_ymodem_data [OF this assms, of p k "[]"] show ?thesis
    by (auto simp: goes_def line_at_def)
qed

theorem ymodem_declared_size_only_cuts_witness:
  "\<exists>t. receive_ymodem_data ''YMODEM'' 1 False [] 1
      (hearing [Chunk (arriving True 1 (map (\<lambda>b. (b, [])) (replicate 1000 (replicate 1024 7))) @ [EOT, EOT])]) =
        (Inr [7], t) \<and>
    concat (outgoing t) = replicate 1000 ACK @ [NAK, ACK]"
proof -
  let ?bs = "replicate 1000 (replicate 1024 7) :: bytes list"
  have "take 1 (concat (replicate n (replicate m x))) = [x]" if "0 < n" "0 < m" for n m and x :: u8
    using that by (cases n; cases m) auto
  then have cut: "take 1 (concat ?bs) = [7]" by (meson zero_less_numeral)
  have "\<forall>b \<in> set ?bs. length b = 128 \<or> length b = 1024" by simp
  from ymodem_declared_size_only_cuts [OF this, of "''YMODEM''" 1] show ?thesis
    unfolding cut length_replicate .
qed

end
