(* ===== verification/Events.thy ===== *)
theory Events
  imports Sorted_Map Utf8 "HOL-Library.List_Lexorder" "HOL-Library.Char_ord"
begin

text \<open>
  \<open>crates/sf-core/src/events.rs\<close>: native Events, their schedules and the durable claims of
  their runs.  The two tables are the state: \<open>scheduled_events\<close> by its primary key, the history
  in the order of its row numbers.  Every operation runs in one immediate transaction, so it is
  one step, and an error rolls it back (\<open>transaction\<close>).  A definition is stored as JSON and read
  back as it was written; \<open>i64\<close> values are integers with the checked and saturating additions of
  the code.  The time zone database and the civil calendar (\<open>chrono\<close>) are the parameter \<open>cal\<close>,
  the random run number is an argument.
\<close>

abbreviation i64_max :: int where "i64_max \<equiv> 2 ^ 63 - 1"

datatype event_error = EventInvalid | EventConflict | EventStorage

datatype action =
    ConferenceHealth
  | Circuitnet string "string option"
  | BinkpLink string

datatype schedule =
    Manual
  | Interval nat
  | Daily nat nat "nat list"

datatype exchange_policy = ImmediatePolicy | ScheduledPolicy | ManualPolicy | HybridPolicy

datatype missed_policy = RunOnce | SkipMissed

datatype outcome = Succeeded | PartialOutcome | FailedOutcome | Held | Busy | Interrupted

record event =
  event_id :: string
  event_name :: string
  event_enabled :: bool
  event_action :: action
  event_schedule :: schedule
  event_timezone :: string
  event_policy :: exchange_policy
  event_missed :: missed_policy
  minimum_spacing :: nat

text \<open>
  What the code asks of the calendar: the local date of a timestamp, the weekday of a date
  (Sunday is zero), the timestamps a civil time has on a date, the next date, and whether a
  time zone is known.  Dates are numbers.
\<close>

datatype local_result = Single int | Ambiguous int int | Nonexistent

record calendar =
  local_date :: "string \<Rightarrow> int \<Rightarrow> int option"
  weekday :: "int \<Rightarrow> nat"
  civil_time :: "string \<Rightarrow> int \<Rightarrow> nat \<Rightarrow> nat \<Rightarrow> local_result"
  next_date :: "int \<Rightarrow> int option"
  known_zone :: "string \<Rightarrow> bool"

section \<open>Definitions and schedules\<close>

definition schedule_validate :: "schedule \<Rightarrow> event_error + unit" where
  "schedule_validate s =
     (case s of
        Manual \<Rightarrow> Inr ()
      | Interval n \<Rightarrow> if 5 \<le> n \<and> n \<le> 2678400 then Inr () else Inl EventInvalid
      | Daily h m days \<Rightarrow>
          if h < 24 \<and> m < 60 \<and> days \<noteq> [] \<and> length days \<le> 7 \<and> list_all (\<lambda>d. d < 7) days \<and> distinct days
          then Inr () else Inl EventInvalid)"

definition chosen :: "local_result \<Rightarrow> int option" where
  "chosen r = (case r of Single t \<Rightarrow> Some t | Ambiguous a b \<Rightarrow> Some (min a b) | Nonexistent \<Rightarrow> None)"

definition daily_slot :: "calendar \<Rightarrow> string \<Rightarrow> nat \<Rightarrow> nat \<Rightarrow> nat list \<Rightarrow> int \<Rightarrow> int \<Rightarrow> int option" where
  "daily_slot cal tz h m days after date =
     (if weekday cal date \<in> set days
      then (case chosen (civil_time cal tz date h m) of
              Some t \<Rightarrow> if after < t then Some t else None
            | None \<Rightarrow> None)
      else None)"

fun daily_walk ::
    "nat \<Rightarrow> calendar \<Rightarrow> string \<Rightarrow> nat \<Rightarrow> nat \<Rightarrow> nat list \<Rightarrow> int \<Rightarrow> int \<Rightarrow> event_error + int option" where
  "daily_walk 0 cal tz h m days after date = Inl EventInvalid"
| "daily_walk (Suc n) cal tz h m days after date =
     (case daily_slot cal tz h m days after date of
        Some t \<Rightarrow> Inr (Some t)
      | None \<Rightarrow>
          attempt (ok_or (next_date cal date) EventInvalid) (\<lambda>date.
            daily_walk n cal tz h m days after date))"

definition next_after :: "calendar \<Rightarrow> schedule \<Rightarrow> int \<Rightarrow> string \<Rightarrow> event_error + int option" where
  "next_after cal s after tz =
     attempt (schedule_validate s) (\<lambda>_.
       case s of
         Manual \<Rightarrow> Inr None
       | Interval n \<Rightarrow>
           (if i64_max < after + int n then Inl EventInvalid else Inr (Some (after + int n)))
       | Daily h m days \<Rightarrow>
           attempt (ok_or (local_date cal tz after) EventInvalid) (\<lambda>date.
             daily_walk 15 cal tz h m days after date))"

definition identifier_ok :: "string \<Rightarrow> bool" where
  "identifier_ok s \<longleftrightarrow> s \<noteq> [] \<and> length s \<le> 64 \<and>
     list_all (\<lambda>c. ascii_alphanumeric (ord c) \<or> c \<in> set ''-_.'') s"

text \<open>The bidirectional controls.\<close>

definition bidi_control :: "nat \<Rightarrow> bool" where
  "bidi_control u \<longleftrightarrow> (0x202A \<le> u \<and> u \<le> 0x202E) \<or> (0x2066 \<le> u \<and> u \<le> 0x2069)"

definition event_validate :: "calendar \<Rightarrow> event \<Rightarrow> event_error + unit" where
  "event_validate cal d =
     (if \<not> identifier_ok (event_id d) \<or> list_all white_space (chars (event_name d)) \<or>
         80 < length (event_name d) \<or>
         list_ex (\<lambda>u. is_control u \<or> bidi_control u) (chars (event_name d)) \<or>
         \<not> (5 \<le> minimum_spacing d \<and> minimum_spacing d \<le> 86400)
      then Inl EventInvalid
      else if (case event_action d of BinkpLink l \<Rightarrow> \<not> identifier_ok l | _ \<Rightarrow> False) then Inl EventInvalid
      else if event_action d = ConferenceHealth \<and>
        \<not> (event_policy d = ScheduledPolicy \<or> event_policy d = ManualPolicy)
      then Inl EventInvalid
      else if \<not> known_zone cal (event_timezone d) then Inl EventInvalid
      else
        attempt (schedule_validate (event_schedule d)) (\<lambda>_.
          if (event_policy d = ScheduledPolicy \<or> event_policy d = HybridPolicy) \<and> event_schedule d = Manual
          then Inl EventInvalid
          else Inr ()))"

definition event_next :: "calendar \<Rightarrow> event \<Rightarrow> int \<Rightarrow> event_error + int option" where
  "event_next cal d after =
     (if \<not> event_enabled d \<or> \<not> (event_policy d = ScheduledPolicy \<or> event_policy d = HybridPolicy)
      then Inr None
      else if \<not> known_zone cal (event_timezone d) then Inl EventInvalid
      else next_after cal (event_schedule d) after (event_timezone d))"

definition outcome_key :: "outcome \<Rightarrow> string" where
  "outcome_key r =
     (case r of Succeeded \<Rightarrow> ''succeeded'' | PartialOutcome \<Rightarrow> ''partial'' | FailedOutcome \<Rightarrow> ''failed''
      | Held \<Rightarrow> ''held'' | Busy \<Rightarrow> ''busy'' | Interrupted \<Rightarrow> ''interrupted'')"

section \<open>The tables\<close>

record event_row =
  row_event :: event
  version :: int
  next_due :: "int option"
  last_started :: "int option"
  last_completed :: "int option"
  last_result :: "string option"
  failures :: int
  running :: "string option"
  requested :: bool
  observed_generation :: int

record history_row =
  history_run :: string
  history_event :: string
  trigger :: string
  started :: int
  completed :: "int option"
  history_result :: "string option"
  targets :: nat
  history_action :: action

record event_store =
  scheduled :: "(string, event_row) btree"
  history :: "history_row list"

type_synonym 'a event_op = "event_store \<Rightarrow> (event_error + 'a) \<times> event_store"

definition transaction :: "'a event_op \<Rightarrow> 'a event_op" where
  "transaction f s = (case f s of (Inl e, _) \<Rightarrow> (Inl e, s) | (Inr x, t) \<Rightarrow> (Inr x, t))"

definition events_listed :: "event_store \<Rightarrow> event_row list" where
  "events_listed s = map snd (take 128 (scheduled s))"

definition overlap :: "action \<Rightarrow> action \<Rightarrow> bool" where
  "overlap a b =
     (case (a, b) of
        (Circuitnet n x, Circuitnet m y) \<Rightarrow> n = m \<and> (x = None \<or> y = None \<or> x = y)
      | (BinkpLink k, BinkpLink l) \<Rightarrow> k = l
      | (ConferenceHealth, ConferenceHealth) \<Rightarrow> True
      | _ \<Rightarrow> False)"

definition new_row :: "event \<Rightarrow> int option \<Rightarrow> event_row" where
  "new_row d due =
     \<lparr>row_event = d, version = 1, next_due = due, last_started = None, last_completed = None,
      last_result = None, failures = 0, running = None, requested = False, observed_generation = 0\<rparr>"

definition event_save :: "calendar \<Rightarrow> event \<Rightarrow> int \<Rightarrow> int \<Rightarrow> unit event_op" where
  "event_save cal d expected now =
     transaction (\<lambda>s.
       chain (event_validate cal d, s) (\<lambda>_ s.
         let prior = tree_lookup (scheduled s) (event_id d) in
         if (case prior of Some r \<Rightarrow> version r \<noteq> expected \<or> running r \<noteq> None | None \<Rightarrow> expected \<noteq> 0)
         then (Inl EventConflict, s)
         else if prior = None \<and> 128 \<le> length (scheduled s) then (Inl EventConflict, s)
         else if list_ex (\<lambda>(k, r). k \<noteq> event_id d \<and> event_enabled d \<and> event_enabled (row_event r) \<and>
             overlap (event_action d) (event_action (row_event r))) (scheduled s)
         then (Inl EventConflict, s)
         else
           chain (event_next cal d now, s) (\<lambda>due s.
             let row = (case prior of
                 None \<Rightarrow> new_row d due
               | Some r \<Rightarrow> r\<lparr>row_event := d, version := version r + 1, next_due := due, requested := False\<rparr>)
             in (Inr (), s\<lparr>scheduled := tree_insert (event_id d) row (scheduled s)\<rparr>))))"

text \<open>\<open>UPDATE \<dots> WHERE id=? AND version=?\<close>; the number of rows it changed is checked.\<close>

definition event_run_now :: "string \<Rightarrow> int \<Rightarrow> unit event_op" where
  "event_run_now i expected =
     transaction (\<lambda>s.
       chain (ok_or (find (\<lambda>r. event_id (row_event r) = i) (events_listed s)) EventConflict, s) (\<lambda>r s.
         if \<not> event_enabled (row_event r) \<or> version r \<noteq> expected then (Inl EventConflict, s)
         else
           case tree_lookup (scheduled s) i of
             None \<Rightarrow> (Inl EventConflict, s)
           | Some r \<Rightarrow>
               if version r \<noteq> expected then (Inl EventConflict, s)
               else (Inr (), s\<lparr>scheduled := tree_insert i (r\<lparr>requested := (running r = None)\<rparr>) (scheduled s)\<rparr>)))"

definition event_history :: "string \<Rightarrow> event_store \<Rightarrow> history_row list" where
  "event_history i s =
     take 50 (rev (sort_key started (filter (\<lambda>h. history_event h = i) (history s))))"

fun skip_missed ::
    "calendar \<Rightarrow> int \<Rightarrow> event_row list \<Rightarrow> (string, event_row) btree \<Rightarrow> event_error + (string, event_row) btree" where
  "skip_missed cal now [] t = Inr t"
| "skip_missed cal now (r # rs) t =
     (if event_missed (row_event r) = SkipMissed \<and> (case next_due r of Some d \<Rightarrow> d < now | None \<Rightarrow> False)
      then
        attempt (event_next cal (row_event r) now) (\<lambda>due.
          skip_missed cal now rs
            (tree_map (\<lambda>k q. if k = event_id (row_event r) then q\<lparr>next_due := due\<rparr> else q) t))
      else skip_missed cal now rs t)"

definition event_recover :: "calendar \<Rightarrow> int \<Rightarrow> unit event_op" where
  "event_recover cal now =
     transaction (\<lambda>s.
       let h = map (\<lambda>h. if completed h = None then h\<lparr>completed := Some now, history_result := Some ''interrupted''\<rparr> else h)
                 (history s);
           t = tree_map (\<lambda>k r. if running r \<noteq> None
                 then r\<lparr>running := None, last_completed := Some now, last_result := Some ''interrupted'',
                        failures := failures r + 1\<rparr>
                 else r) (scheduled s)
       in chain (skip_missed cal now (events_listed s) t, s) (\<lambda>t s. (Inr (), s\<lparr>scheduled := t, history := h\<rparr>)))"

section \<open>Claims\<close>

definition saturating_i64 :: "int \<Rightarrow> int \<Rightarrow> int" where
  "saturating_i64 a b = min (a + b) i64_max"

text \<open>Of the completed rows the 4096 newest stay, of the others all.\<close>

fun prune_newest :: "nat \<Rightarrow> history_row list \<Rightarrow> history_row list" where
  "prune_newest n [] = []"
| "prune_newest n (h # hs) =
     (if completed h = None then h # prune_newest n hs
      else if n = 0 then prune_newest 0 hs
      else h # prune_newest (n - 1) hs)"

definition prune :: "history_row list \<Rightarrow> history_row list" where
  "prune hs = rev (prune_newest 4096 (rev hs))"

definition due_now :: "event_row \<Rightarrow> int \<Rightarrow> bool" where
  "due_now r now \<longleftrightarrow>
     (case next_due r of Some t \<Rightarrow> t \<le> now | None \<Rightarrow> False) \<and>
     (event_policy (row_event r) = ScheduledPolicy \<or> event_policy (row_event r) = HybridPolicy)"

definition prompted :: "event_row \<Rightarrow> int \<Rightarrow> bool" where
  "prompted r generation \<longleftrightarrow>
     observed_generation r < generation \<and>
     (event_policy (row_event r) = ImmediatePolicy \<or> event_policy (row_event r) = HybridPolicy)"

definition event_claim ::
    "calendar \<Rightarrow> string \<Rightarrow> int \<Rightarrow> int \<Rightarrow> string \<Rightarrow> (string \<times> event) option event_op" where
  "event_claim cal i now generation run =
     transaction (\<lambda>s.
       case tree_lookup (scheduled s) i of
         None \<Rightarrow> (Inr None, s)
       | Some r \<Rightarrow>
           let d = row_event r in
           chain (event_validate cal d, s) (\<lambda>_ s.
             if \<not> event_enabled d \<or> running r \<noteq> None \<or>
                (case last_started r of
                   Some t \<Rightarrow> now < saturating_i64 t (int (minimum_spacing d)) | None \<Rightarrow> False)
             then (Inr None, s)
             else
               let due = due_now r now; prompt = prompted r generation in
               if \<not> requested r \<and> \<not> due \<and> \<not> prompt then (Inr None, s)
               else
                 let trig = (if requested r then ''manual'' else if due then ''scheduled'' else ''activity'') in
                 chain (if due then event_next cal d now else Inr (next_due r), s) (\<lambda>nd s.
                   if list_ex (\<lambda>(k, q). k \<noteq> i \<and> running q = Some run) (scheduled s) \<or>
                      list_ex (\<lambda>h. history_run h = run) (history s)
                   then (Inl EventStorage, s)
                   else
                     (Inr (Some (run, d)),
                      s\<lparr>scheduled := tree_insert i
                           (r\<lparr>running := Some run, requested := False, last_started := Some now, next_due := nd,
                              observed_generation := generation\<rparr>) (scheduled s),
                        history := prune (history s @
                           [\<lparr>history_run = run, history_event = i, trigger = trig, started = now, completed = None,
                             history_result = None, targets = 0, history_action = event_action d\<rparr>])\<rparr>))))"

definition event_complete :: "string \<Rightarrow> outcome \<Rightarrow> nat \<Rightarrow> int \<Rightarrow> unit event_op" where
  "event_complete run result n now =
     transaction (\<lambda>s.
       if length (filter (\<lambda>(k, r). running r = Some run) (scheduled s)) \<noteq> 1 then (Inl EventConflict, s)
       else
         (Inr (),
          s\<lparr>scheduled := tree_map (\<lambda>k r. if running r = Some run
               then r\<lparr>running := None,
                      last_completed := map_option (\<lambda>t. max t now) (last_started r),
                      last_result := Some (outcome_key result),
                      failures := (if outcome_key result = ''succeeded'' then 0 else min (failures r + 1) 1000000)\<rparr>
               else r) (scheduled s),
            history := map (\<lambda>h. if history_run h = run \<and> completed h = None
               then h\<lparr>completed := Some (max (started h) now), history_result := Some (outcome_key result),
                      targets := n\<rparr>
               else h) (history s)\<rparr>))"

text \<open>The subquery gives the event of the run, when the run is in the history and succeeded.\<close>

definition event_continue :: "string \<Rightarrow> unit event_op" where
  "event_continue run s =
     (case find (\<lambda>h. history_run h = run \<and> history_result h = Some ''succeeded'') (history s) of
        None \<Rightarrow> (Inr (), s)
      | Some h \<Rightarrow>
          (Inr (), s\<lparr>scheduled := tree_map (\<lambda>k r. if k = history_event h \<and> running r = None
              then r\<lparr>observed_generation := -1\<rparr> else r) (scheduled s)\<rparr>))"

end
