(* ===== verification/Events_Safety.thy ===== *)
theory Events_Safety
  imports Events
begin

text \<open>
  What the Events scheduler of \<open>Events\<close> promises: the slot a schedule names, the invariant of the
  two tables under every sequence of requests, the authority and the exclusiveness of a claim, and
  that a run is completed at most once.
\<close>

section \<open>Slots\<close>

fun nth_date :: "calendar \<Rightarrow> int \<Rightarrow> nat \<Rightarrow> int option" where
  "nth_date cal d 0 = Some d"
| "nth_date cal d (Suc k) = (case next_date cal d of None \<Rightarrow> None | Some e \<Rightarrow> nth_date cal e k)"

lemma daily_walk_Some:
  "daily_walk n cal tz h m days after date = Inr r \<Longrightarrow>
     \<exists>k < n. \<exists>e t. r = Some t \<and> nth_date cal date k = Some e \<and> daily_slot cal tz h m days after e = Some t \<and>
       (\<forall>j < k. \<forall>f. nth_date cal date j = Some f \<longrightarrow> daily_slot cal tz h m days after f = None)"
proof (induction n arbitrary: date)
  case (Suc n)
  show ?case
  proof (cases "daily_slot cal tz h m days after date")
    case None
    with Suc.prems obtain e where e: "next_date cal date = Some e" "daily_walk n cal tz h m days after e = Inr r"
      by (auto simp: result_simps)
    from Suc.IH [OF e(2)] obtain k f t where 1: "k < n" "r = Some t" "nth_date cal e k = Some f"
        "daily_slot cal tz h m days after f = Some t"
        "\<forall>j < k. \<forall>f. nth_date cal e j = Some f \<longrightarrow> daily_slot cal tz h m days after f = None" by blast
    have "\<forall>j < Suc k. \<forall>f. nth_date cal date j = Some f \<longrightarrow> daily_slot cal tz h m days after f = None"
    proof (intro allI impI)
      fix j f assume "j < Suc k" "nth_date cal date j = Some f"
      then show "daily_slot cal tz h m days after f = None"
        using 1(5) e(1) None by (cases j) auto
    qed
    with 1 e(1) show ?thesis by (intro exI [of _ "Suc k"]) auto
  next
    case (Some t)
    with Suc.prems show ?thesis by (intro exI [of _ 0]) auto
  qed
qed simp

text \<open>
  The slots of a daily schedule, said of the calendar: on each date of a chosen weekday the first
  of the instants that have the civil time, when there is one.
\<close>

definition instants :: "local_result \<Rightarrow> int set" where
  "instants r = (case r of Single t \<Rightarrow> {t} | Ambiguous a b \<Rightarrow> {a, b} | Nonexistent \<Rightarrow> {})"

definition first_instant :: "calendar \<Rightarrow> string \<Rightarrow> nat \<Rightarrow> nat \<Rightarrow> int \<Rightarrow> int \<Rightarrow> bool" where
  "first_instant cal tz h m date x \<longleftrightarrow>
     x \<in> instants (civil_time cal tz date h m) \<and> (\<forall>y \<in> instants (civil_time cal tz date h m). x \<le> y)"

definition daily_time :: "calendar \<Rightarrow> string \<Rightarrow> nat \<Rightarrow> nat \<Rightarrow> nat list \<Rightarrow> int \<Rightarrow> bool" where
  "daily_time cal tz h m days x \<longleftrightarrow> (\<exists>date. weekday cal date \<in> set days \<and> first_instant cal tz h m date x)"

text \<open>
  What a calendar is expected to do: a civil time comes earlier on an earlier date, and an instant
  after the given one lies on the local date of that one or on a later date.
\<close>

definition orderly :: "calendar \<Rightarrow> string \<Rightarrow> nat \<Rightarrow> nat \<Rightarrow> bool" where
  "orderly cal tz h m \<longleftrightarrow>
     (\<forall>d e k x y. nth_date cal d k = Some e \<longrightarrow> 0 < k \<longrightarrow>
        first_instant cal tz h m d x \<longrightarrow> first_instant cal tz h m e y \<longrightarrow> x < y) \<and>
     (\<forall>after today date x. local_date cal tz after = Some today \<longrightarrow> first_instant cal tz h m date x \<longrightarrow>
        after < x \<longrightarrow> (\<exists>k. nth_date cal today k = Some date))"

lemma chosen_first: "chosen (civil_time cal tz date h m) = Some x \<longleftrightarrow> first_instant cal tz h m date x"
  by (auto simp: chosen_def first_instant_def instants_def split: local_result.split)

lemma daily_slot_Some:
  "daily_slot cal tz h m days after date = Some x \<longleftrightarrow>
     weekday cal date \<in> set days \<and> first_instant cal tz h m date x \<and> after < x"
  by (auto simp: daily_slot_def chosen_first [symmetric] split: option.splits)

lemma nth_date_add:
  "nth_date cal d (j + k) = (case nth_date cal d j of None \<Rightarrow> None | Some e \<Rightarrow> nth_date cal e k)"
  by (induction j arbitrary: d) (auto split: option.split)

lemma daily_walk_finds:
  "k < n \<Longrightarrow> nth_date cal date k = Some e \<Longrightarrow> daily_slot cal tz h m days after e = Some t \<Longrightarrow>
   (\<And>j f. j < k \<Longrightarrow> nth_date cal date j = Some f \<Longrightarrow> daily_slot cal tz h m days after f = None) \<Longrightarrow>
   daily_walk n cal tz h m days after date = Inr (Some t)"
proof (induction n arbitrary: k date)
  case (Suc n)
  show ?case
  proof (cases k)
    case (Suc l)
    with Suc.prems(2) obtain f where f: "next_date cal date = Some f" "nth_date cal f l = Some e"
      by (auto split: option.splits)
    have "daily_walk n cal tz h m days after f = Inr (Some t)"
      using Suc.prems(1,3) Suc.prems(4) [of "Suc j" for j] Suc f by (intro Suc.IH [of l]) auto
    moreover have "daily_slot cal tz h m days after date = None"
      using Suc.prems(4) [of 0 date] Suc by simp
    ultimately show ?thesis using f(1) by simp
  qed (use Suc.prems in simp)
qed simp

text \<open>The walk over fifteen dates finds the least daily time there is after the given instant.\<close>

lemma daily_walk_least:
  assumes ord: "orderly cal tz h m" and today: "local_date cal tz after = Some today"
  shows "daily_walk n cal tz h m days after today = Inr (Some t) \<longleftrightarrow>
    daily_time cal tz h m days t \<and> after < t \<and> (\<forall>x. daily_time cal tz h m days x \<and> after < x \<longrightarrow> t \<le> x) \<and>
    (\<exists>k < n. \<exists>date. nth_date cal today k = Some date \<and> weekday cal date \<in> set days \<and> first_instant cal tz h m date t)"
    (is "?walk \<longleftrightarrow> ?least")
proof
  assume ?walk
  from daily_walk_Some [OF this] obtain k date where k: "k < n" "nth_date cal today k = Some date"
      "daily_slot cal tz h m days after date = Some t"
      "\<forall>j < k. \<forall>f. nth_date cal today j = Some f \<longrightarrow> daily_slot cal tz h m days after f = None" by blast
  have "t \<le> x" if "weekday cal f \<in> set days" "first_instant cal tz h m f x" "after < x" for f x
  proof -
    from ord today that obtain j where j: "nth_date cal today j = Some f" unfolding orderly_def by blast
    with that have "\<not> j < k" using k(4) by (metis daily_slot_Some option.distinct(1))
    then obtain l where l: "j = k + l" by (metis le_Suc_ex not_less)
    show ?thesis
    proof (cases l)
      case 0
      with j k that(2) l show ?thesis by (auto simp: daily_slot_Some chosen_first [symmetric])
    next
      case (Suc l')
      have "nth_date cal date l = Some f" using j [unfolded l nth_date_add] k(2) by simp
      with ord k(3) that(2) Suc have "t < x" unfolding orderly_def daily_slot_Some by blast
      then show ?thesis by simp
    qed
  qed
  with k show ?least by (auto simp: daily_slot_Some daily_time_def)
next
  assume ?least
  then obtain k date where k: "k < n" "nth_date cal today k = Some date" "weekday cal date \<in> set days"
      "first_instant cal tz h m date t" "after < t"
      and least: "\<And>x. daily_time cal tz h m days x \<Longrightarrow> after < x \<Longrightarrow> t \<le> x" by blast
  show ?walk
  proof (rule daily_walk_finds [OF k(1,2)])
    show "daily_slot cal tz h m days after date = Some t" using k by (simp add: daily_slot_Some)
    fix j f assume j: "j < k" "nth_date cal today j = Some f"
    show "daily_slot cal tz h m days after f = None"
    proof (rule ccontr)
      assume "daily_slot cal tz h m days after f \<noteq> None"
      then obtain x where x: "weekday cal f \<in> set days" "first_instant cal tz h m f x" "after < x"
        by (auto simp: daily_slot_Some)
      then have "t \<le> x" by (intro least) (auto simp: daily_time_def)
      moreover have "nth_date cal f (k - j) = Some date" using nth_date_add [of cal today j "k - j"] j k(2) by simp
      then have "x < t" using ord x(2) k(4) j(1) unfolding orderly_def by (meson zero_less_diff)
      ultimately show False by simp
    qed
  qed
qed

text \<open>
  C34.  What the next slot of a schedule is, for a calendar in which a civil time comes earlier on
  an earlier date: an answer is the instant the interval adds to the given one, when it does not
  overflow; for a daily schedule it is the least of all its times after the given one, where a
  date of a chosen weekday has the first of the instants with that civil time and no time when
  there is none.  It is found when it lies on the local date of the given instant or one of the
  next fourteen, and only for a valid schedule; a manual schedule has none.
\<close>

theorem next_slot_is_first:
  assumes "\<forall>h m days. s = Daily h m days \<longrightarrow> orderly cal tz h m"
  shows "next_after cal s after tz = Inr (Some t) \<longleftrightarrow>
    (case s of
       Manual \<Rightarrow> False
     | Interval n \<Rightarrow> 5 \<le> n \<and> n \<le> 2678400 \<and> t = after + int n \<and> t \<le> i64_max
     | Daily h m days \<Rightarrow>
         h < 24 \<and> m < 60 \<and> days \<noteq> [] \<and> length days \<le> 7 \<and> (\<forall>d \<in> set days. d < 7) \<and> distinct days \<and>
         daily_time cal tz h m days t \<and> after < t \<and>
         (\<forall>x. daily_time cal tz h m days x \<and> after < x \<longrightarrow> t \<le> x) \<and>
         (\<exists>today k date. local_date cal tz after = Some today \<and> k < 15 \<and> nth_date cal today k = Some date \<and>
            weekday cal date \<in> set days \<and> first_instant cal tz h m date t))"
proof (cases s)
  case (Daily h m days)
  with assms have ord: "orderly cal tz h m" by simp
  show ?thesis
  proof (cases "local_date cal tz after")
    case (Some today)
    have "next_after cal s after tz = Inr (Some t) \<longleftrightarrow>
        schedule_validate s = Inr () \<and> daily_walk 15 cal tz h m days after today = Inr (Some t)"
      unfolding next_after_def Daily by (cases "schedule_validate (Daily h m days)") (simp_all add: Some)
    then show ?thesis
      using daily_walk_least [OF ord Some, of 15 days t] Some Daily
      by (simp add: schedule_validate_def list_all_iff) blast
  qed (simp add: Daily next_after_def result_simps)
qed (auto simp: next_after_def schedule_validate_def result_simps split: if_splits)

text \<open>A calendar without time zones: dates are days, each day has 86400 seconds.\<close>

definition plain_calendar :: calendar where
  "plain_calendar =
     \<lparr>local_date = \<lambda>tz t. Some (t div 86400), weekday = \<lambda>d. nat ((d + 4) mod 7),
      civil_time = \<lambda>tz d h m. Single (d * 86400 + int h * 3600 + int m * 60),
      next_date = \<lambda>d. Some (d + 1), known_zone = \<lambda>z. z = ''UTC''\<rparr>"

lemma plain_dates: "nth_date plain_calendar d k = Some (d + int k)"
  by (induction k arbitrary: d) (simp_all add: plain_calendar_def)

lemma plain_first: "first_instant plain_calendar tz h m d x \<longleftrightarrow> x = d * 86400 + int h * 3600 + int m * 60"
  by (auto simp: first_instant_def instants_def plain_calendar_def)

lemma plain_orderly: "h < 24 \<Longrightarrow> m < 60 \<Longrightarrow> orderly plain_calendar tz h m"
proof -
  assume hm: "h < 24" "m < 60"
  have later: "\<exists>k. nth_date plain_calendar today k = Some d"
    if "local_date plain_calendar tz after = Some today" "after < d * 86400 + int h * 3600 + int m * 60" for after today d
  proof (intro exI [of _ "nat (d - today)"])
    have "today = after div 86400" using that(1) by (simp add: plain_calendar_def)
    then have "today \<le> d" using that(2) hm by linarith
    then show "nth_date plain_calendar today (nat (d - today)) = Some d" by (simp add: plain_dates)
  qed
  show ?thesis unfolding orderly_def plain_first using later by (auto simp: plain_dates)
qed

theorem next_slot_is_first_witness:
  "next_after plain_calendar (Daily 3 30 [1, 3]) 0 ''UTC'' = Inr (Some 358200) \<and>
   \<not> (\<exists>x. daily_time plain_calendar ''UTC'' 3 30 [1, 3] x \<and> 0 < x \<and> x < 358200)"
proof -
  have "daily_walk (Suc (Suc (Suc (Suc (Suc n))))) plain_calendar ''UTC'' 3 30 [1, 3] 0 0 = Inr (Some 358200)" for n
    by (simp add: plain_calendar_def daily_slot_def chosen_def)
  from this [of 10] have "daily_walk 15 plain_calendar ''UTC'' 3 30 [1, 3] 0 0 = Inr (Some 358200)" by simp
  then have n: "next_after plain_calendar (Daily 3 30 [1, 3]) 0 ''UTC'' = Inr (Some 358200)"
    by (simp add: next_after_def schedule_validate_def) (simp add: plain_calendar_def)
  have "\<forall>h m days. Daily 3 30 [1, 3] = Daily h m days \<longrightarrow> orderly plain_calendar ''UTC'' h m"
    by (simp add: plain_orderly)
  from next_slot_is_first [OF this, of 0 358200] n show ?thesis by fastforce
qed

section \<open>The invariant of the tables\<close>

text \<open>
  \<open>rows_ok\<close>: the table holds at most 128 valid definitions under their own identifiers, and no
  two enabled ones have a target in common.  \<open>runs_ok\<close>: run numbers are not repeated in the
  history, and the rows that say they are running are exactly the runs the history has open.
  \<open>busy_ok\<close>: what runs is enabled.
\<close>

definition rows_ok :: "calendar \<Rightarrow> (string, event_row) btree \<Rightarrow> bool" where
  "rows_ok cal t \<longleftrightarrow>
     tree_ok t \<and> length t \<le> 128 \<and>
     (\<forall>k r. tree_lookup t k = Some r \<longrightarrow>
        event_id (row_event r) = k \<and> event_validate cal (row_event r) = Inr ()) \<and>
     (\<forall>k r l q. tree_lookup t k = Some r \<longrightarrow> tree_lookup t l = Some q \<longrightarrow> k \<noteq> l \<longrightarrow>
        event_enabled (row_event r) \<longrightarrow> event_enabled (row_event q) \<longrightarrow>
        \<not> overlap (event_action (row_event r)) (event_action (row_event q)))"

definition running_pairs :: "(string, event_row) btree \<Rightarrow> (string \<times> string) set" where
  "running_pairs t = {(k, run). \<exists>r. tree_lookup t k = Some r \<and> running r = Some run}"

definition open_pairs :: "history_row list \<Rightarrow> (string \<times> string) set" where
  "open_pairs hs = (\<lambda>h. (history_event h, history_run h)) ` {h \<in> set hs. completed h = None}"

definition runs_ok :: "(string, event_row) btree \<Rightarrow> history_row list \<Rightarrow> bool" where
  "runs_ok t hs \<longleftrightarrow> distinct (map history_run hs) \<and> running_pairs t = open_pairs hs"

definition busy_ok :: "(string, event_row) btree \<Rightarrow> bool" where
  "busy_ok t \<longleftrightarrow> (\<forall>k r. tree_lookup t k = Some r \<longrightarrow> running r \<noteq> None \<longrightarrow> event_enabled (row_event r))"

definition store_ok :: "calendar \<Rightarrow> event_store \<Rightarrow> bool" where
  "store_ok cal s \<longleftrightarrow>
     rows_ok cal (scheduled s) \<and> runs_ok (scheduled s) (history s) \<and> busy_ok (scheduled s)"

lemma transaction_Inr: "transaction f s = (Inr x, t) \<longleftrightarrow> f s = (Inr x, t)"
  by (auto simp: transaction_def split: prod.splits sum.splits)

lemma transaction_Inl: "transaction f s = (Inl e, t) \<Longrightarrow> t = s"
  by (auto simp: transaction_def split: prod.splits sum.splits)

lemma overlap_sym: "overlap a b \<longleftrightarrow> overlap b a"
  by (cases a; cases b) (auto simp: overlap_def)

lemma rows_ok_update:
  assumes "rows_ok cal t" and "tree_lookup t k = Some r" and "row_event q = row_event r"
  shows "rows_ok cal (tree_insert k q t)"
proof -
  have t: "tree_ok t" "length t \<le> 128" using assms(1) by (auto simp: rows_ok_def)
  have l: "length (tree_insert k q t) = length t"
    using t(1) assms(2) by (simp add: length_tree_insert_present)
  show ?thesis
    unfolding rows_ok_def tree.look_put [OF t(1)]
    using assms tree.good_put [OF t(1)] t(2) l unfolding rows_ok_def by (auto split: if_splits)
qed

lemma rows_ok_map:
  assumes "rows_ok cal t" and "\<And>k r. row_event (f k r) = row_event r"
  shows "rows_ok cal (tree_map f t)"
proof -
  have "tree_ok t" "length t \<le> 128" using assms(1) by (auto simp: rows_ok_def)
  with assms show ?thesis
    unfolding rows_ok_def by (auto simp: tree_map_ok lookup_tree_map)
qed

lemma busy_ok_insert:
  "busy_ok t \<Longrightarrow> tree_ok t \<Longrightarrow> (running q \<noteq> None \<longrightarrow> event_enabled (row_event q)) \<Longrightarrow>
     busy_ok (tree_insert k q t)"
  by (simp add: busy_ok_def tree.look_put)

lemma busy_ok_map:
  assumes "busy_ok t" and "\<And>k r. row_event (f k r) = row_event r"
    and "\<And>k r. running (f k r) = running r \<or> running (f k r) = None"
  shows "busy_ok (tree_map f t)"
proof -
  show ?thesis
    unfolding busy_ok_def lookup_tree_map
  proof (intro allI impI)
    fix k q assume "map_option (f k) (tree_lookup t k) = Some q" "running q \<noteq> None"
    then obtain r where r: "tree_lookup t k = Some r" "q = f k r" "running (f k r) \<noteq> None" by auto
    then have "running r \<noteq> None" using assms(3) by metis
    with r assms(1) show "event_enabled (row_event q)" by (simp add: busy_ok_def assms(2))
  qed
qed

lemma running_pairs_insert:
  "tree_ok t \<Longrightarrow> running_pairs (tree_insert k q t) =
     {p \<in> running_pairs t. fst p \<noteq> k} \<union> (case running q of None \<Rightarrow> {} | Some run \<Rightarrow> {(k, run)})"
  by (auto simp: running_pairs_def tree.look_put split: option.splits if_splits)

lemma running_pairs_same:
  assumes "tree_ok t" and "running q = (case tree_lookup t k of None \<Rightarrow> None | Some r \<Rightarrow> running r)"
  shows "running_pairs (tree_insert k q t) = running_pairs t"
  using assms by (auto simp: running_pairs_insert) (auto simp: running_pairs_def split: option.splits)

lemma prune_newest_set: "set (prune_newest n hs) \<subseteq> set hs"
  by (induction n hs rule: prune_newest.induct) auto

lemma prune_newest_open: "h \<in> set hs \<Longrightarrow> completed h = None \<Longrightarrow> h \<in> set (prune_newest n hs)"
  by (induction n hs rule: prune_newest.induct) auto

lemma prune_newest_distinct: "distinct (map f hs) \<Longrightarrow> distinct (map f (prune_newest n hs))"
  using prune_newest_set
  by (induction n hs rule: prune_newest.induct) (auto, (metis image_eqI prune_newest_set subsetD)+)

lemma open_pairs_prune: "open_pairs (prune hs) = open_pairs hs"
proof -
  have "{h \<in> set (prune hs). completed h = None} = {h \<in> set hs. completed h = None}"
    using prune_newest_set [of 4096 "rev hs"] by (auto simp: prune_def intro: prune_newest_open)
  then show ?thesis by (simp add: open_pairs_def)
qed

lemma prune_distinct: "distinct (map history_run hs) \<Longrightarrow> distinct (map history_run (prune hs))"
  unfolding prune_def by (metis distinct_rev prune_newest_distinct rev_map)

section \<open>Each operation keeps it\<close>

lemma store_ok_save:
  assumes "store_ok cal s" and "event_save cal d expected now s = (r, t)"
  shows "store_ok cal t"
proof (cases r)
  case (Inl e)
  with assms show ?thesis by (auto simp: event_save_def dest: transaction_Inl)
next
  case (Inr u)
  let ?p = "tree_lookup (scheduled s) (event_id d)"
  have ok: "tree_ok (scheduled s)" "length (scheduled s) \<le> 128" "rows_ok cal (scheduled s)"
    using assms(1) by (auto simp: store_ok_def rows_ok_def)
  from assms(2) [unfolded Inr event_save_def transaction_Inr] obtain due where
      v: "event_validate cal d = Inr ()"
      and g: "case ?p of Some r \<Rightarrow> version r = expected \<and> running r = None | None \<Rightarrow> expected = 0"
      and c: "?p = None \<longrightarrow> length (scheduled s) < 128"
      and n: "\<forall>k r. tree_lookup (scheduled s) k = Some r \<longrightarrow> k \<noteq> event_id d \<longrightarrow> event_enabled d \<longrightarrow>
        event_enabled (row_event r) \<longrightarrow> \<not> overlap (event_action d) (event_action (row_event r))"
      and t: "t = s\<lparr>scheduled := tree_insert (event_id d)
        (case ?p of None \<Rightarrow> new_row d due
         | Some r \<Rightarrow> r\<lparr>row_event := d, version := version r + 1, next_due := due, requested := False\<rparr>) (scheduled s)\<rparr>"
    by (auto simp: result_simps Let_def list_ex_iff split: if_splits option.splits dest!: lookup_mem)
  let ?row = "case ?p of None \<Rightarrow> new_row d due
    | Some r \<Rightarrow> r\<lparr>row_event := d, version := version r + 1, next_due := due, requested := False\<rparr>"
  have row: "row_event ?row = d" "running ?row = (case ?p of None \<Rightarrow> None | Some r \<Rightarrow> running r)"
    by (auto simp: new_row_def split: option.splits)
  have "length (tree_insert (event_id d) ?row (scheduled s)) \<le> 128"
    using c ok(2) length_tree_insert [of "event_id d" ?row "scheduled s"]
      length_tree_insert_present [OF ok(1), of "event_id d" ?row] by (cases ?p) auto
  moreover have "\<not> overlap (event_action (row_event q)) (event_action d)"
    if "tree_lookup (scheduled s) k = Some q" "k \<noteq> event_id d" "event_enabled d" "event_enabled (row_event q)" for k q
    using n that overlap_sym by blast
  ultimately have "rows_ok cal (tree_insert (event_id d) ?row (scheduled s))"
    unfolding rows_ok_def tree.look_put [OF ok(1)]
    using ok(3) tree.good_put [OF ok(1)] v n row(1) unfolding rows_ok_def by (auto split: if_splits)
  moreover have "busy_ok (tree_insert (event_id d) ?row (scheduled s))"
    using assms(1) g row by (intro busy_ok_insert) (auto simp: store_ok_def ok split: option.splits)
  ultimately show ?thesis
    using assms(1) running_pairs_same [OF ok(1) row(2)] by (simp add: store_ok_def t runs_ok_def)
qed


lemma store_ok_run_now:
  assumes "store_ok cal s" and "event_run_now i expected s = (r, t)"
  shows "store_ok cal t"
proof (cases r)
  case (Inl e)
  with assms show ?thesis by (auto simp: event_run_now_def dest: transaction_Inl)
next
  case (Inr u)
  have ok: "tree_ok (scheduled s)" "rows_ok cal (scheduled s)"
    using assms(1) by (auto simp: store_ok_def rows_ok_def)
  from assms(2) [unfolded Inr event_run_now_def transaction_Inr] obtain q where
      q: "tree_lookup (scheduled s) i = Some q"
      and t: "t = s\<lparr>scheduled := tree_insert i (q\<lparr>requested := (running q = None)\<rparr>) (scheduled s)\<rparr>"
    by (auto simp: result_simps split: if_splits option.splits)
  have "running_pairs (scheduled t) = running_pairs (scheduled s)"
    using running_pairs_same [OF ok(1), of "q\<lparr>requested := (running q = None)\<rparr>" i] q by (simp add: t)
  moreover have "busy_ok (scheduled t)"
    unfolding t using assms(1) q by (auto simp: store_ok_def intro!: busy_ok_insert ok(1)) (auto simp: busy_ok_def)
  ultimately show ?thesis
    using assms(1) rows_ok_update [OF ok(2) q, of "q\<lparr>requested := (running q = None)\<rparr>"]
    by (simp add: store_ok_def runs_ok_def t)
qed

lemma running_pairs_map:
  "running_pairs (tree_map f t) =
     {(k, run). \<exists>r. tree_lookup t k = Some r \<and> running (f k r) = Some run}"
  by (auto simp: running_pairs_def lookup_tree_map)

lemma running_pairs_map_same:
  "(\<And>k r. running (f k r) = running r) \<Longrightarrow> running_pairs (tree_map f t) = running_pairs t"
  by (simp add: running_pairs_map) (simp add: running_pairs_def)

lemma skip_missed_ok:
  "rows_ok cal t \<and> busy_ok t \<Longrightarrow> skip_missed cal now rs t = Inr u \<Longrightarrow>
     rows_ok cal u \<and> busy_ok u \<and> running_pairs u = running_pairs t"
proof (induction cal now rs t rule: skip_missed.induct)
  case (2 cal now r rs t)
  let ?skip = "event_missed (row_event r) = SkipMissed \<and> (case next_due r of Some d \<Rightarrow> d < now | None \<Rightarrow> False)"
  show ?case
  proof (cases ?skip)
    case True
    with 2(4) obtain due where d: "event_next cal (row_event r) now = Inr due"
      "skip_missed cal now rs (tree_map (\<lambda>k q. if k = event_id (row_event r) then q\<lparr>next_due := due\<rparr> else q) t) = Inr u"
      by (auto simp: result_simps)
    let ?m = "tree_map (\<lambda>k q. if k = event_id (row_event r) then q\<lparr>next_due := due\<rparr> else q) t"
    have "rows_ok cal ?m" using 2(3) by (auto intro: rows_ok_map)
    moreover have "busy_ok ?m" using 2(3) by (intro busy_ok_map) auto
    moreover have "running_pairs ?m = running_pairs t"
      by (rule running_pairs_map_same) simp
    ultimately show ?thesis using 2(1) [OF True] d by simp
  next
    case False
    with 2(4) have "skip_missed cal now rs t = Inr u" by (simp add: if_not_P)
    with 2(2) [OF False] 2(3) show ?thesis by blast
  qed
qed simp

lemma store_ok_recover:
  assumes "store_ok cal s" and "event_recover cal now s = (r, t)"
  shows "store_ok cal t" and "r = Inr () \<Longrightarrow> running_pairs (scheduled t) = {} \<and> open_pairs (history t) = {}"
proof -
  define h where "h = map (\<lambda>h. if completed h = None then h\<lparr>completed := Some now, history_result := Some ''interrupted''\<rparr> else h)
    (history s)"
  define m where "m = tree_map (\<lambda>k r. if running r \<noteq> None
      then r\<lparr>running := None, last_completed := Some now, last_result := Some ''interrupted'', failures := failures r + 1\<rparr>
      else r) (scheduled s)"
  have ok: "rows_ok cal (scheduled s)" "distinct (map history_run (history s))" "busy_ok (scheduled s)"
    using assms(1) by (auto simp: store_ok_def runs_ok_def)
  have hs: "map history_run h = map history_run (history s)" "open_pairs h = {}"
    by (auto simp: h_def open_pairs_def split: if_splits)
  have ms: "rows_ok cal m" "running_pairs m = {}"
    unfolding m_def by (rule rows_ok_map [OF ok(1)], simp) (auto simp: running_pairs_map split: if_splits)
  have mb: "busy_ok m"
    unfolding m_def by (rule busy_ok_map [OF ok(3)]) (simp_all split: if_splits)
  have main: "store_ok cal t \<and> (r = Inr () \<longrightarrow> running_pairs (scheduled t) = {} \<and> open_pairs (history t) = {})"
  proof (cases r)
    case (Inl e)
    with assms show ?thesis by (auto simp: event_recover_def dest: transaction_Inl)
  next
    case (Inr u)
    from assms(2) [unfolded Inr event_recover_def transaction_Inr Let_def, folded h_def m_def] obtain v where
      "skip_missed cal now (events_listed s) m = Inr v" "t = s\<lparr>scheduled := v, history := h\<rparr>"
      by (auto simp: result_simps)
    with skip_missed_ok [OF conjI [OF ms(1) mb]] ms(2) hs ok(2) show ?thesis
      by (auto simp: store_ok_def runs_ok_def)
  qed
  from main show "store_ok cal t" by simp
  from main show "r = Inr () \<Longrightarrow> running_pairs (scheduled t) = {} \<and> open_pairs (history t) = {}" by simp
qed

text \<open>The two outcomes of a claim: nothing happens, or the event starts.\<close>

definition may_start :: "event_row \<Rightarrow> int \<Rightarrow> int \<Rightarrow> bool" where
  "may_start r now generation \<longleftrightarrow>
     event_enabled (row_event r) \<and> running r = None \<and>
     (case last_started r of
        Some t \<Rightarrow> saturating_i64 t (int (minimum_spacing (row_event r))) \<le> now | None \<Rightarrow> True) \<and>
     (requested r \<or> due_now r now \<or> prompted r generation)"

definition started_row :: "event_row \<Rightarrow> string \<Rightarrow> int \<Rightarrow> int option \<Rightarrow> int \<Rightarrow> event_row" where
  "started_row r run now due generation =
     r\<lparr>running := Some run, requested := False, last_started := Some now, next_due := due,
       observed_generation := generation\<rparr>"

definition open_row :: "string \<Rightarrow> string \<Rightarrow> string \<Rightarrow> int \<Rightarrow> action \<Rightarrow> history_row" where
  "open_row run i trig now a =
     \<lparr>history_run = run, history_event = i, trigger = trig, started = now, completed = None,
      history_result = None, targets = 0, history_action = a\<rparr>"

lemma open_pairs_snoc:
  "open_pairs (hs @ [h]) =
     open_pairs hs \<union> (if completed h = None then {(history_event h, history_run h)} else {})"
  by (auto simp: open_pairs_def)

lemma claim_shape:
  "(if A then (Inr None, s) else if B then (Inr None, s)
    else chain (n, s) (\<lambda>nd s. if C s then (Inl e, s) else (Inr (Some y), g nd s))) = (Inr (Some x), t) \<longleftrightarrow>
   \<not> A \<and> \<not> B \<and> \<not> C s \<and> x = y \<and> (\<exists>nd. n = Inr nd \<and> t = g nd s)"
  by (cases n) auto

lemma claim_started:
  assumes "event_claim cal i now generation run s = (Inr (Some (x, d)), t)"
  obtains r due trig where "tree_lookup (scheduled s) i = Some r" "x = run" "d = row_event r"
    "may_start r now generation" "run \<notin> history_run ` set (history s)"
    "(if due_now r now then event_next cal d now = Inr due else due = next_due r)"
    "trig = (if requested r then ''manual'' else if due_now r now then ''scheduled'' else ''activity'')"
    "\<forall>k q. tree_lookup (scheduled s) k = Some q \<longrightarrow> k \<noteq> i \<longrightarrow> running q \<noteq> Some run"
    "t = s\<lparr>scheduled := tree_insert i (started_row r run now due generation) (scheduled s),
      history := prune (history s @ [open_row run i trig now (event_action d)])\<rparr>"
proof -
  from assms [unfolded event_claim_def transaction_Inr] obtain r where
    r: "tree_lookup (scheduled s) i = Some r" by (auto split: option.splits)
  define nd where "nd = (if due_now r now then event_next cal (row_event r) now else Inr (next_due r))"
  define trig where "trig = (if requested r then ''manual'' else if due_now r now then ''scheduled'' else ''activity'')"
  from assms [unfolded event_claim_def transaction_Inr Let_def r option.case] obtain due where
    *: "\<not> (\<not> event_enabled (row_event r) \<or> running r \<noteq> None \<or>
        (case last_started r of Some t \<Rightarrow> now < saturating_i64 t (int (minimum_spacing (row_event r))) | None \<Rightarrow> False))"
    "\<not> (\<not> requested r \<and> \<not> due_now r now \<and> \<not> prompted r generation)" "nd = Inr due"
    "\<not> (list_ex (\<lambda>(k, q). k \<noteq> i \<and> running q = Some run) (scheduled s) \<or>
    list_ex (\<lambda>h. history_run h = run) (history s))" "x = run" "d = row_event r"
    "t = s\<lparr>scheduled := tree_insert i (started_row r run now due generation) (scheduled s),
      history := prune (history s @ [open_row run i trig now (event_action d)])\<rparr>"
    unfolding nd_def [symmetric] trig_def [symmetric] result_simps claim_shape
    by (auto simp: started_row_def open_row_def)
  have m: "may_start r now generation"
    using *(1,2) by (auto simp: may_start_def split: option.splits)
  have "\<forall>k q. tree_lookup (scheduled s) k = Some q \<longrightarrow> k \<noteq> i \<longrightarrow> running q \<noteq> Some run"
    "run \<notin> history_run ` set (history s)"
    using *(4) by (auto simp: list_ex_iff dest: lookup_mem)
  moreover have "if due_now r now then event_next cal d now = Inr due else due = next_due r"
    using *(3,6) by (simp add: nd_def split: if_splits)
  ultimately show ?thesis
    using that [OF r *(5,6) m _ _ trig_def _ *(7)] by blast
qed

lemma claim_cases:
  assumes "event_claim cal i now generation run s = (r, t)"
  obtains "t = s" | x d where "r = Inr (Some (x, d))"
  using assms by (cases r; cases "projr r")
    (auto simp: event_claim_def transaction_Inr Let_def result_simps dest: transaction_Inl split: option.splits if_splits)

lemma store_ok_claim:
  assumes "store_ok cal s" and "event_claim cal i now generation run s = (r, t)"
  shows "store_ok cal t"
proof -
  from assms(2) show ?thesis
  proof (cases rule: claim_cases)
    case (2 x d)
    from claim_started [OF assms(2) [unfolded 2]] obtain q due trig where
      q: "tree_lookup (scheduled s) i = Some q" "may_start q now generation"
        "run \<notin> history_run ` set (history s)"
      and t: "t = s\<lparr>scheduled := tree_insert i (started_row q run now due generation) (scheduled s),
        history := prune (history s @ [open_row run i trig now (event_action d)])\<rparr>" by metis
    have ok: "rows_ok cal (scheduled s)" "distinct (map history_run (history s))"
      "running_pairs (scheduled s) = open_pairs (history s)" "tree_ok (scheduled s)"
      using assms(1) by (auto simp: store_ok_def runs_ok_def rows_ok_def)
    have "rows_ok cal (scheduled t)"
      using rows_ok_update [OF ok(1) q(1)] by (simp add: t started_row_def)
    moreover have "distinct (map history_run (history t))"
      unfolding t using ok(2) q(3) by (auto intro!: prune_distinct simp: open_row_def)
    moreover have "running_pairs (scheduled t) = insert (i, run) (running_pairs (scheduled s))"
      using q(1,2) by (auto simp: t running_pairs_insert [OF ok(4)] started_row_def)
        (auto simp: running_pairs_def may_start_def)
    moreover have "open_pairs (history t) = insert (i, run) (open_pairs (history s))"
      by (simp add: t open_pairs_prune open_pairs_snoc) (simp add: open_row_def)
    moreover have "busy_ok (scheduled t)"
      using assms(1) q(2) ok(4) by (auto simp: t store_ok_def may_start_def started_row_def intro!: busy_ok_insert)
    ultimately show ?thesis using ok(3) by (simp add: store_ok_def runs_ok_def)
  qed (use assms in simp)
qed


lemma store_ok_complete:
  assumes "store_ok cal s" and "event_complete run result n now s = (r, t)"
  shows "store_ok cal t"
proof (cases r)
  case (Inl e)
  with assms show ?thesis by (auto simp: event_complete_def dest: transaction_Inl)
next
  case (Inr u)
  define f where "f = (\<lambda>(k :: string) (r :: event_row). if running r = Some run
    then r\<lparr>running := None, last_completed := map_option (\<lambda>t. max t now) (last_started r),
           last_result := Some (outcome_key result),
           failures := (if outcome_key result = ''succeeded'' then 0 else min (failures r + 1) 1000000)\<rparr>
    else r)"
  define g where "g = (\<lambda>h :: history_row. if history_run h = run \<and> completed h = None
    then h\<lparr>completed := Some (max (started h) now), history_result := Some (outcome_key result), targets := n\<rparr>
    else h)"
  from assms(2) [unfolded Inr event_complete_def transaction_Inr, folded f_def g_def]
  have t: "t = s\<lparr>scheduled := tree_map f (scheduled s), history := map g (history s)\<rparr>"
    by (auto simp: f_def g_def split: if_splits)
  have ok: "rows_ok cal (scheduled s)" "distinct (map history_run (history s))"
    "running_pairs (scheduled s) = open_pairs (history s)"
    using assms(1) by (auto simp: store_ok_def runs_ok_def)
  have f: "running (f k r) = (if running r = Some run then None else running r)" for k r
    by (simp add: f_def)
  have "running_pairs (tree_map f (scheduled s)) = {p \<in> running_pairs (scheduled s). snd p \<noteq> run}"
    unfolding running_pairs_map using f
    by (auto simp: running_pairs_def split: if_splits) (metis option.inject)
  moreover have "open_pairs (map g (history s)) = {p \<in> open_pairs (history s). snd p \<noteq> run}"
    by (auto simp: open_pairs_def g_def image_iff split: if_splits)
  moreover have "map history_run (map g (history s)) = map history_run (history s)"
    by (simp add: g_def)
  moreover have "rows_ok cal (tree_map f (scheduled s))"
    by (rule rows_ok_map [OF ok(1)]) (simp add: f_def)
  moreover have "busy_ok (tree_map f (scheduled s))"
    using assms(1) by (intro busy_ok_map) (auto simp: store_ok_def f_def)
  ultimately show ?thesis using ok(2,3) by (simp add: store_ok_def runs_ok_def t del: map_map)
qed

lemma store_ok_continue:
  assumes "store_ok cal s" and "event_continue run s = (r, t)"
  shows "store_ok cal t"
proof (cases "find (\<lambda>h. history_run h = run \<and> history_result h = Some ''succeeded'') (history s)")
  case (Some h)
  with assms(2) have t: "t = s\<lparr>scheduled := tree_map (\<lambda>k r. if k = history_event h \<and> running r = None
      then r\<lparr>observed_generation := -1\<rparr> else r) (scheduled s)\<rparr>"
    by (simp add: event_continue_def)
  show ?thesis
    using assms(1) unfolding t store_ok_def runs_ok_def
    by (auto simp: running_pairs_map_same intro!: rows_ok_map) (auto intro!: busy_ok_map split: if_splits)
qed (use assms in \<open>simp add: event_continue_def\<close>)

section \<open>The scheduler\<close>

datatype event_request =
    Save event int int
  | RunNow string int
  | Recover int
  | Claim string int int string
  | Complete string outcome nat int
  | Continue string

text \<open>A request that fails leaves the tables as they were, and the scheduler goes on.\<close>

definition event_apply :: "calendar \<Rightarrow> event_store \<Rightarrow> event_request \<Rightarrow> event_store" where
  "event_apply cal s q =
     (case q of
        Save d expected now \<Rightarrow> snd (event_save cal d expected now s)
      | RunNow i expected \<Rightarrow> snd (event_run_now i expected s)
      | Recover now \<Rightarrow> snd (event_recover cal now s)
      | Claim i now generation run \<Rightarrow> snd (event_claim cal i now generation run s)
      | Complete run result n now \<Rightarrow> snd (event_complete run result n now s)
      | Continue run \<Rightarrow> snd (event_continue run s))"

definition event_step :: "calendar \<Rightarrow> event_store \<Rightarrow> event_request \<Rightarrow> event_error + event_store" where
  "event_step cal s q = Inr (event_apply cal s q)"

lemma store_ok_apply: "store_ok cal s \<Longrightarrow> store_ok cal (event_apply cal s q)"
  by (cases q) (auto simp: event_apply_def intro: store_ok_save store_ok_run_now store_ok_recover(1)
    store_ok_claim store_ok_complete store_ok_continue prod.collapse [symmetric])

interpretation scheduler: machine "event_step cal" "store_ok cal"
  by unfold_locales (auto simp: event_step_def store_ok_apply)

definition no_events :: event_store where
  "no_events = \<lparr>scheduled = [], history = []\<rparr>"

lemma no_events_ok: "store_ok cal no_events"
  by (simp add: no_events_def store_ok_def rows_ok_def runs_ok_def running_pairs_def open_pairs_def
    tree_ok_def tree_lookup_def busy_ok_def)

text \<open>
  C1.  Starting from empty tables, after every sequence of saves, run-now requests, claims,
  completions, continuations and restarts, failed ones included: there are at most 128 events,
  each valid and under its own identifier; two events that are running at the same time never
  share a target; the running events are exactly the open rows of the history, and no run number
  occurs twice.
\<close>

theorem event_targets_exclusive:
  "\<exists>s. run_steps (event_step cal) no_events qs = Inr s \<and> length (scheduled s) \<le> 128 \<and>
     distinct (map history_run (history s)) \<and> running_pairs (scheduled s) = open_pairs (history s) \<and>
     \<not> (\<exists>k r l q. k \<noteq> l \<and> tree_lookup (scheduled s) k = Some r \<and> tree_lookup (scheduled s) l = Some q \<and>
          running r \<noteq> None \<and> running q \<noteq> None \<and>
          overlap (event_action (row_event r)) (event_action (row_event q)))"
proof -
  have "\<exists>s. run_steps (event_step cal) t qs = Inr s" for t
    by (induction qs arbitrary: t) (auto simp: event_step_def)
  then obtain s where s: "run_steps (event_step cal) no_events qs = Inr s" by blast
  from scheduler.run_inv [OF no_events_ok s] have "store_ok cal s" .
  then have rows: "rows_ok cal (scheduled s)" "busy_ok (scheduled s)" "runs_ok (scheduled s) (history s)"
    by (simp_all add: store_ok_def)
  have "\<not> overlap (event_action (row_event r)) (event_action (row_event q))"
    if "k \<noteq> l" "tree_lookup (scheduled s) k = Some r" "tree_lookup (scheduled s) l = Some q"
      "running r \<noteq> None" "running q \<noteq> None" for k r l q
  proof -
    from that rows(2) have "event_enabled (row_event r)" "event_enabled (row_event q)"
      unfolding busy_ok_def by blast+
    with that rows(1) show ?thesis unfolding rows_ok_def by blast
  qed
  then show ?thesis using s rows(1,3) by (auto simp: rows_ok_def runs_ok_def)
qed

text \<open>
  What a running event keeps, and the requests that end its run: a completion that names the run,
  and a restart.
\<close>

definition keeps_run :: "string \<Rightarrow> string \<Rightarrow> event_store \<Rightarrow> event_store \<Rightarrow> bool" where
  "keeps_run i x s t \<longleftrightarrow>
     (\<forall>r. tree_lookup (scheduled s) i = Some r \<and> running r = Some x \<longrightarrow>
        (\<exists>q. tree_lookup (scheduled t) i = Some q \<and> running q = Some x \<and> row_event q = row_event r \<and>
           (requested q \<longrightarrow> requested r)))"

definition ends_run :: "string \<Rightarrow> event_request \<Rightarrow> bool" where
  "ends_run x q \<longleftrightarrow> (\<exists>now. q = Recover now) \<or> (\<exists>result n now. q = Complete x result n now)"

lemma keeps_run_refl [simp]: "keeps_run i x s s"
  by (simp add: keeps_run_def)

lemma keeps_run_trans: "keeps_run i x s t \<Longrightarrow> keeps_run i x t u \<Longrightarrow> keeps_run i x s u"
proof -
  assume st: "keeps_run i x s t" and tu: "keeps_run i x t u"
  show ?thesis
    unfolding keeps_run_def
  proof (intro allI impI)
    fix r assume "tree_lookup (scheduled s) i = Some r \<and> running r = Some x"
    with st obtain p where p: "tree_lookup (scheduled t) i = Some p" "running p = Some x" "row_event p = row_event r"
      "requested p \<longrightarrow> requested r" unfolding keeps_run_def by blast
    with tu obtain q where "tree_lookup (scheduled u) i = Some q" "running q = Some x" "row_event q = row_event p"
      "requested q \<longrightarrow> requested p" unfolding keeps_run_def by blast
    with p show "\<exists>q. tree_lookup (scheduled u) i = Some q \<and> running q = Some x \<and> row_event q = row_event r \<and>
        (requested q \<longrightarrow> requested r)" by auto
  qed
qed

lemma keeps_run_insert:
  assumes "tree_ok (scheduled s)" and "scheduled t = tree_insert k q (scheduled s)"
    and "\<And>r. k = i \<Longrightarrow> tree_lookup (scheduled s) i = Some r \<Longrightarrow> running r = Some x \<Longrightarrow>
      running q = Some x \<and> row_event q = row_event r \<and> (requested q \<longrightarrow> requested r)"
  shows "keeps_run i x s t"
  unfolding keeps_run_def using assms by (auto simp: tree.look_put)

lemma event_save_keeps:
  assumes "tree_ok (scheduled s)" and "event_save cal d expected now s = (r, t)"
  shows "keeps_run i x s t"
proof (cases r)
  case (Inl e)
  with assms(2) have "t = s" by (auto simp: event_save_def dest: transaction_Inl)
  then show ?thesis by simp
next
  case (Inr u)
  from assms(2) [unfolded Inr event_save_def transaction_Inr] obtain q where
      "case tree_lookup (scheduled s) (event_id d) of Some r \<Rightarrow> running r = None | None \<Rightarrow> True"
      "scheduled t = tree_insert (event_id d) q (scheduled s)"
    by (auto simp: result_simps Let_def split: if_splits option.splits)
  then show ?thesis by (intro keeps_run_insert [OF assms(1)]) (auto split: option.splits)
qed

lemma event_run_now_keeps:
  assumes "tree_ok (scheduled s)" and "event_run_now k expected s = (r, t)"
  shows "keeps_run i x s t"
proof (cases r)
  case (Inl e)
  with assms(2) have "t = s" by (auto simp: event_run_now_def dest: transaction_Inl)
  then show ?thesis by simp
next
  case (Inr u)
  from assms(2) [unfolded Inr event_run_now_def transaction_Inr] obtain q where
      "tree_lookup (scheduled s) k = Some q"
      "scheduled t = tree_insert k (q\<lparr>requested := (running q = None)\<rparr>) (scheduled s)"
    by (auto simp: result_simps split: if_splits option.splits)
  then show ?thesis by (intro keeps_run_insert [OF assms(1)]) auto
qed

lemma event_claim_keeps:
  assumes "tree_ok (scheduled s)" and "event_claim cal k now generation run s = (r, t)"
  shows "keeps_run i x s t"
proof -
  from assms(2) show ?thesis
  proof (cases rule: claim_cases)
    case (2 y d)
    from claim_started [OF assms(2) [unfolded 2]] obtain q due trig where
        "tree_lookup (scheduled s) k = Some q" "may_start q now generation"
        "t = s\<lparr>scheduled := tree_insert k (started_row q run now due generation) (scheduled s),
          history := prune (history s @ [open_row run k trig now (event_action d)])\<rparr>" by metis
    then show ?thesis by (intro keeps_run_insert [OF assms(1)]) (auto simp: may_start_def)
  qed simp
qed

lemma event_complete_keeps:
  assumes "run \<noteq> x" and "event_complete run result n now s = (r, t)"
  shows "keeps_run i x s t"
proof (cases r)
  case (Inl e)
  with assms(2) have "t = s" by (auto simp: event_complete_def dest: transaction_Inl)
  then show ?thesis by simp
next
  case (Inr u)
  from assms(2) [unfolded Inr event_complete_def transaction_Inr] assms(1) show ?thesis
    unfolding keeps_run_def by (auto simp: lookup_tree_map split: if_splits)
qed

lemma event_continue_keeps: "event_continue run s = (r, t) \<Longrightarrow> keeps_run i x s t"
  by (cases "find (\<lambda>h. history_run h = run \<and> history_result h = Some ''succeeded'') (history s)")
    (auto simp: event_continue_def keeps_run_def lookup_tree_map)

lemma event_apply_keeps:
  assumes "store_ok cal s" and "\<not> ends_run x q"
  shows "keeps_run i x s (event_apply cal s q)"
proof -
  have ok: "tree_ok (scheduled s)" using assms(1) by (simp add: store_ok_def rows_ok_def)
  show ?thesis
    using assms(2)
    by (cases q) (auto simp: event_apply_def ends_run_def intro: event_save_keeps [OF ok] event_run_now_keeps [OF ok]
      event_claim_keeps [OF ok] event_complete_keeps event_continue_keeps prod.collapse [symmetric])
qed

interpretation claimed: tracked_machine "event_step cal" "store_ok cal" "\<lambda>q. \<not> ends_run x q" "keeps_run i x"
  for cal i x
  by unfold_locales (auto simp: event_step_def store_ok_apply event_apply_keeps intro: keeps_run_trans)

lemma claim_takes:
  assumes "store_ok cal s" and "event_claim cal i now generation run s = (Inr (Some (x, d)), t)"
  shows "\<exists>r q. tree_lookup (scheduled s) i = Some r \<and> d = row_event r \<and> may_start r now generation \<and>
    tree_lookup (scheduled t) i = Some q \<and> running q = Some x \<and> row_event q = d \<and> \<not> requested q"
proof -
  from claim_started [OF assms(2)] obtain r due trig where
      r: "tree_lookup (scheduled s) i = Some r" "x = run" "d = row_event r" "may_start r now generation"
      and t: "t = s\<lparr>scheduled := tree_insert i (started_row r run now due generation) (scheduled s),
        history := prune (history s @ [open_row run i trig now (event_action d)])\<rparr>" by metis
  have "tree_ok (scheduled s)" using assms(1) by (simp add: store_ok_def rows_ok_def)
  then have "tree_lookup (scheduled t) i = Some (started_row r run now due generation)"
    by (simp add: t tree.look_put)
  with r show ?thesis by (auto simp: started_row_def)
qed

text \<open>While an event runs, no claim of it and no claim of an event that shares its target succeeds.\<close>

lemma running_refuses:
  assumes ok: "store_ok cal u" and r: "tree_lookup (scheduled u) i = Some r" "running r \<noteq> None"
  shows "event_claim cal i now generation run u = (Inr None, u)"
    and "event_claim cal j now generation run u = (Inr (Some (y, d)), v) \<Longrightarrow>
      \<not> overlap (event_action (row_event r)) (event_action d)"
proof -
  have rows: "rows_ok cal (scheduled u)" "event_enabled (row_event r)"
    using ok r unfolding store_ok_def busy_ok_def by blast+
  have "event_validate cal (row_event r) = Inr ()" using rows(1) r(1) by (auto simp: rows_ok_def)
  with r show none: "event_claim cal i now generation run u = (Inr None, u)"
    by (simp add: event_claim_def transaction_Inr Let_def)
  assume c: "event_claim cal j now generation run u = (Inr (Some (y, d)), v)"
  with none have "j \<noteq> i" by auto
  from claim_started [OF c] obtain q where "tree_lookup (scheduled u) j = Some q" "d = row_event q"
    "may_start q now generation" by metis
  with rows r(1) \<open>j \<noteq> i\<close> show "\<not> overlap (event_action (row_event r)) (event_action d)"
    unfolding rows_ok_def may_start_def by blast
qed

text \<open>
  C18.  A claim hands out a run only for an enabled event that is not running, whose spacing since
  the last start has passed, and which was requested, is due under a scheduled policy or was
  prompted under an immediate one; it hands out the definition it found.  From then on, through
  every sequence of saves, run-now requests, claims, completions of other runs and continuations,
  failed ones included, until a completion names this run or the program restarts: the event
  keeps running under this run and with this definition, nothing is queued behind it, every claim
  of it gets nothing and changes nothing, at whatever time and with whatever activity, and no
  claim hands out an event that shares its target.
\<close>

theorem claim_is_exclusive:
  assumes "store_ok cal s" and "event_claim cal i now generation run s = (Inr (Some (x, d)), t)"
    and "run_steps (event_step cal) t qs = Inr u" and "\<forall>q \<in> set qs. \<not> ends_run x q"
  shows "(\<exists>r. tree_lookup (scheduled s) i = Some r \<and> d = row_event r \<and> may_start r now generation) \<and>
    (\<exists>q. tree_lookup (scheduled u) i = Some q \<and> running q = Some x \<and> row_event q = d \<and> \<not> requested q) \<and>
    (\<forall>now' generation' run'. event_claim cal i now' generation' run' u = (Inr None, u)) \<and>
    (\<forall>j now' generation' run' y d' v.
       event_claim cal j now' generation' run' u = (Inr (Some (y, d')), v) \<longrightarrow>
       \<not> overlap (event_action d) (event_action d'))"
proof -
  from claim_takes [OF assms(1,2)] obtain r p where
      r: "tree_lookup (scheduled s) i = Some r" "d = row_event r" "may_start r now generation"
      and p: "tree_lookup (scheduled t) i = Some p" "running p = Some x" "row_event p = d" "\<not> requested p"
    by blast
  have ok: "store_ok cal t" "store_ok cal u"
    using store_ok_claim [OF assms(1,2)] scheduler.run_inv assms(3) by blast+
  have "keeps_run i x t u"
    using claimed.run_kept [OF ok(1) _ assms(3)] assms(4) by (simp add: list_all_iff)
  with p obtain q where q: "tree_lookup (scheduled u) i = Some q" "running q = Some x" "row_event q = d" "\<not> requested q"
    unfolding keeps_run_def by blast
  with r running_refuses [OF ok(2) q(1)] show ?thesis by auto
qed

text \<open>An event, and the tables in which it has been requested.\<close>

definition poll_event :: event where
  "poll_event =
     \<lparr>event_id = ''a'', event_name = ''Poll'', event_enabled = True, event_action = BinkpLink ''hub'',
      event_schedule = Interval 60, event_timezone = ''UTC'', event_policy = HybridPolicy,
      event_missed = RunOnce, minimum_spacing = 10\<rparr>"

definition poll_store :: event_store where
  "poll_store = no_events\<lparr>scheduled := [(''a'', (new_row poll_event (Some 160))\<lparr>requested := True\<rparr>)]\<rparr>"

definition poll_running :: event_store where
  "poll_running =
     \<lparr>scheduled = [(''a'', started_row ((new_row poll_event (Some 160))\<lparr>requested := True\<rparr>) ''7'' 120 (Some 160) 3)],
      history = [open_row ''7'' ''a'' ''manual'' 120 (BinkpLink ''hub'')]\<rparr>"

lemma chars_poll: "chars ''Poll'' = [80, 111, 108, 108]"
  by code_simp

lemma poll_valid: "event_validate plain_calendar poll_event = Inr ()"
  by (simp add: event_validate_def poll_event_def identifier_ok_def chars_poll plain_calendar_def
    schedule_validate_def ascii_alphanumeric_def white_space_def bidi_control_def is_control_def)

lemma poll_store_ok: "store_ok plain_calendar poll_store"
proof -
  have "event_id poll_event = ''a''" by (simp add: poll_event_def)
  then show ?thesis
    by (auto simp: store_ok_def rows_ok_def runs_ok_def busy_ok_def running_pairs_def open_pairs_def
      poll_store_def no_events_def tree_ok_def tree_lookup_def new_row_def poll_valid split: if_splits)
qed

lemma poll_claimed:
  "event_claim plain_calendar ''a'' 120 3 ''7'' poll_store = (Inr (Some (''7'', poll_event)), poll_running)"
proof -
  have "event_enabled poll_event" "event_action poll_event = BinkpLink ''hub''" by (simp_all add: poll_event_def)
  then show ?thesis
    using poll_valid
    by (simp add: event_claim_def transaction_def poll_store_def no_events_def tree_lookup_def new_row_def
      Let_def due_now_def poll_running_def started_row_def open_row_def prune_def)
qed

theorem claim_is_exclusive_witness:
  "\<exists>u. run_steps (event_step plain_calendar) poll_running [Save poll_event 1 130, RunNow ''a'' 1, Claim ''a'' 500 9 ''8''] = Inr u \<and>
     event_claim plain_calendar ''a'' 600 10 ''9'' u = (Inr None, u) \<and>
     (\<exists>q. tree_lookup (scheduled u) ''a'' = Some q \<and> running q = Some ''7'')"
proof -
  obtain u where u: "run_steps (event_step plain_calendar) poll_running
      [Save poll_event 1 130, RunNow ''a'' 1, Claim ''a'' 500 9 ''8''] = Inr u"
    by (simp add: event_step_def)
  from claim_is_exclusive [OF poll_store_ok poll_claimed this] u show ?thesis
    by (simp add: ends_run_def) blast
qed

lemma event_complete_refused:
  assumes "\<And>k. (k, run) \<notin> running_pairs (scheduled t)" and "tree_ok (scheduled t)"
  shows "event_complete run result n now t = (Inl EventConflict, t)"
proof -
  have "filter (\<lambda>(k, r). running r = Some run) (scheduled t) = []"
    using assms mem_lookup [OF assms(2)] by (auto simp: filter_empty_conv running_pairs_def)
  then show ?thesis by (simp add: event_complete_def transaction_def)
qed

text \<open>
  C33.  A run is completed at most once, and never across a restart: when a completion succeeds,
  or after \<open>event_recover\<close>, reporting that run again is a conflict that changes nothing, whatever
  the outcome reported.
\<close>

theorem run_completed_at_most_once:
  assumes "store_ok cal s" and "event_complete run result n now s = (Inr (), t) \<or> event_recover cal now s = (Inr (), t)"
  shows "event_complete run result' n' now' t = (Inl EventConflict, t)"
proof (rule event_complete_refused)
  show "tree_ok (scheduled t)"
    using assms(2) store_ok_complete [OF assms(1)] store_ok_recover(1) [OF assms(1)]
    unfolding store_ok_def rows_ok_def by blast
  fix k
  show "(k, run) \<notin> running_pairs (scheduled t)"
    using assms(2)
  proof
    assume "event_recover cal now s = (Inr (), t)"
    with store_ok_recover(2) [OF assms(1)] show ?thesis by auto
  next
    assume "event_complete run result n now s = (Inr (), t)"
    then show ?thesis
      unfolding event_complete_def transaction_Inr
      by (auto simp: running_pairs_map split: if_splits)
  qed
qed


theorem run_completed_at_most_once_witness:
  "fst (event_complete ''7'' Succeeded 1 130 poll_running) = Inr () \<and>
   fst (event_complete ''7'' FailedOutcome 1 140 (snd (event_complete ''7'' Succeeded 1 130 poll_running))) = Inl EventConflict"
proof -
  have ok: "store_ok plain_calendar poll_running"
    by (rule store_ok_claim [OF poll_store_ok poll_claimed])
  have c: "fst (event_complete ''7'' Succeeded 1 130 poll_running) = Inr ()"
    by (simp add: event_complete_def transaction_def poll_running_def started_row_def)
  then have "event_complete ''7'' Succeeded 1 130 poll_running =
      (Inr (), snd (event_complete ''7'' Succeeded 1 130 poll_running))"
    by (metis prod.collapse)
  from run_completed_at_most_once [OF ok disjI1 [OF this], of FailedOutcome 1 140] c show ?thesis by simp
qed

end
