(* ===== verification/Spec2Isabelle.thy ===== *)
theory Spec2Isabelle
  imports
    Crc Legacy_Menu Legacy_Help
    Binkp_Custody Tic_Codec Ftn_Packet Ftn_Policy Directory_Safety Ftn_Transit
    Line_Input Telnet
    Caller_Session Node_Manager Interaction
    Ymodem_Link
    Events_Safety
begin

text \<open>
  SPITFIRE NG is a bulletin board system in Rust.  Callers reach it over Telnet and other
  transports, occupy one of its nodes, hold a session, read menus and mail, transfer files and
  page the operator; other systems reach it over BinkP and exchange FidoNet (FTN) mail and
  files; events run at their hours.  This development models the parts of it that decide:
  formats, protocols, policies and state machines.  Around them the program has SQL, files,
  threads, sockets and screens, which appear here as parameters, or not at all.

  The parts and their theories, in the order of their imports.

  Shared.  \<open>Prelude\<close> has the vocabulary (words for machine integers, byte strings for \<open>str\<close>, sums
  for \<open>Result\<close> with \<open>attempt\<close> and \<open>chain\<close> for the question mark) and the functions of Rust's
  standard library the sources call.  \<open>Interfaces\<close> states the contracts as locales: codecs,
  machines with an invariant, machines whose good steps keep what is held, and servers that loop
  until they fail or return; every component
  that has such a contract interprets the locale on its own definitions, and its properties rest
  on the facts of that interpretation.  \<open>Utf8\<close>, \<open>Sorted_Map\<close> (\<open>BTreeMap\<close>), \<open>Crc\<close> and \<open>Char_Text\<close>
  are libraries of the same kind.

  The historical files (\<open>crates/sf-legacy\<close>).  \<open>Legacy_Reader\<close> is the bounds-checked reader and the
  Pascal short string, \<open>Legacy_Menu\<close> the menu file with its command lookup, \<open>Legacy_Help\<close> the
  fixed help records.  Their lemmas: reads stay inside the data, and files round-trip.

  FidoNet (\<open>crates/sf-net/src/ftn\<close>, \<open>tic.rs\<close>, \<open>crates/sf-core/src/ftn/policy.rs\<close>).
  \<open>Ftn_Address\<close> has addresses and endpoints; \<open>Ftn_Packet\<close> the packets; \<open>Ftn_Charset\<close>, \<open>Ftn_Text\<close>
  the text of a message with its control lines, and \<open>Ftn_Forward\<close>, \<open>Ftn_Reparse\<close>, \<open>Ftn_Transit\<close>
  what becomes of a text that is parsed and written again; \<open>Ftn_Directory\<close> the nodelist parser
  and \<open>Directory_Safety\<close> what holds of the lists it accepts; \<open>Tic\<close> and \<open>Tic_Codec\<close> the
  announcements of files; \<open>Ftn_Policy\<close> the validation of the configured policy and the choice of
  a route.  Their lemmas: round trips for what is well formed, bounds for what is accepted,
  detection of damage, and the soundness of a route in a validated policy.

  BinkP.  \<open>Binkp_Wire\<close> is \<open>crates/sf-net/src/binkp.rs\<close>: frames, offers, address lists, challenge
  and response.  \<open>Binkp_Session\<close> is \<open>crates/sf-bbs/src/binkp/session.rs\<close>: the loop of a mail
  session.  The record \<open>mail_session\<close> has the local variables of the function \<open>exchange\<close>, with the
  wire, the batches and the backend's state in it; \<open>turn\<close> is one iteration, its handlers are the
  branches of the match on the frame (\<open>on_data\<close>, \<open>on_nul\<close>, \<open>on_address\<close>, \<open>on_password\<close>, \<open>on_file\<close>,
  \<open>on_answer\<close>, \<open>on_eob\<close>), and \<open>feed_peer\<close> is the sending half.  A \<open>tick\<close> says what clock, socket
  and cancellation flag answer in a turn, so a list of ticks is a schedule, and the theorems of
  \<open>Binkp_Custody\<close> hold for every schedule, peer and backend: a file is stored whole or not at all,
  an acceptance names the file on offer, nothing moves before authentication, the bounds
  hold, a summary means that all is settled, and the session ends.

  Caller transports.  \<open>Line_Input\<close> is the bounded line reader of \<open>transports/mod.rs\<close>, \<open>Telnet\<close> the
  terminal of \<open>transports/telnet.rs\<close> over it.  The abstract specification of both is the locale
  \<open>byte_source\<close>; that the Telnet reader refines the plain one on the application bytes, that the
  cutting into reads does not matter and that negotiation cannot loop are its theorems.

  Nodes and sessions (\<open>crates/sf-core/src\<close>).  \<open>Caller_Session\<close> is the session type of \<open>session.rs\<close>,
  \<open>Node_Manager\<close> the pool of \<open>node.rs\<close> with its leases and publications, \<open>Interaction\<close> the hub of
  \<open>interaction.rs\<close>: pages, chats, invitations, disconnect tickets, over explicit bounded
  channels.  Operations that Rust runs under a mutex are single steps, and so is \<open>acquire\<close>, which
  takes the mutex for the mark, for the notification and for the answer in turn; the invariants
  hold for every interleaving of the steps.  A held node is shown to stay with its session until a
  lease of that session is dropped or released, and what a lease leaves behind is written out.

  File transfer (\<open>crates/sf-core/src/transfer.rs\<close>).  \<open>Transfer_Blocks\<close> has the terminal and the
  blocks, \<open>Xmodem\<close> and \<open>Ymodem\<close> the engines of both directions, and \<open>Xmodem_Link\<close>, \<open>Ymodem_Link\<close>
  what happens when a sender and a receiver are connected, over a clean or a damaging line.

  Events.  \<open>Events\<close> is \<open>crates/sf-core/src/events.rs\<close> over its two tables as lists, each request a
  transaction; \<open>Events_Safety\<close> has the schedule's slots, the invariant over all requests, and what
  a claim excludes until its run is over.

  How they meet: transports and the transfer engines read and write the same terminal; the node
  pool and the hub key their data by the session's identifier; packets, TIC envelopes and
  directories are what BinkP sessions carry, under the addresses and the policy of FTN.

  Bounds and fuel.  The transfer engines count their own attempts (ten per block, sixty for the
  handshake); where the code loops on what the terminal delivers, the measure is \<open>stock\<close>, the
  number of bytes and answers left, and functions are total by it.  The search for the next slot
  of a schedule walks fifteen days, as the code does, and \<open>next_slot_is_first\<close> shows that this
  finds the least slot when there is one on those days, for a calendar in which a civil time comes
  earlier on an earlier date (\<open>orderly\<close>).  All other recursions are structural or have a measure; there is no fuel.
  Limits such as \<open>MAX_TEXT\<close>, \<open>MAX_FRAME\<close> or \<open>MAX_SESSION_BYTES\<close> are the constants of the code.

  Parameters.  HMAC-MD5, the calendar behind packet dates and day numbers, time zones, the
  engines of ZMODEM, the password check behind a TIC announcement and the BinkP backend are
  arguments of the definitions that use them.

  Not modelled.  The runtime database and what is SQL over it (messages, files, callers, network
  queues); configuration and localization, which are TOML and Fluent through other crates;
  CircuitNET, which is canonical JSON and signatures of other crates; the archives of QWK;
  terminal screens, the monitor and the configuration program; backup, deployment and setup,
  which are file-system transactions; threads, signals and sockets of the runtime; SSH, serial
  and modem devices.  Of the session module only the session type is modelled, not the menu
  loops; of the Events module not the statements over other components' tables; diagnostics
  and digests that only feed displays are left out throughout.
\<close>

end
